(* ===== verification/Prelude.thy ===== *)
theory Prelude
  imports Main "HOL-Library.Word" "HOL-Library.Signed_Division"
begin

text \<open>
  Shared vocabulary of the development: the machine integer types of the C++ code (an LP64
  target with a signed two's complement \<^verbatim>\<open>char\<close> and \<^verbatim>\<open>int\<close>), the faults by which a C++
  function can leave its contract, the result type that carries them, and the generic lemmas on
  results, lists and words that the component theories share.
\<close>

unbundle bit_operations_syntax

section \<open>Machine types\<close>

type_synonym u8 = "8 word"
type_synonym u16 = "16 word"
type_synonym u32 = "32 word"
type_synonym u64 = "64 word"

text \<open>
  A C++ \<^verbatim>\<open>int\<close> that travels on the wire or through a status code is a 32 bit word that is read
  with the signed operations.
\<close>

type_synonym i32 = "32 word"

text \<open>A value converted to a 32 bit \<^verbatim>\<open>int\<close>: reduced modulo 2^32 into the signed range.\<close>

definition to_int32 :: "int \<Rightarrow> int" where
  "to_int32 x = signed_take_bit 31 x"

section \<open>Faults and results\<close>

text \<open>
  The ways the modelled functions stop being defined: a failing \<^verbatim>\<open>assert\<close>, a null pointer, an
  access outside an allocated object or to one that has been deleted, an \<^verbatim>\<open>int\<close> computation that
  leaves the range of \<^verbatim>\<open>int\<close>; and, in a run of one thread alone, that the thread waits for another one.
\<close>

datatype fault = Assert_failed | Null_deref | Out_of_bounds | Int_overflow | Use_after_free | Blocked

type_synonym 'a res = "fault + 'a"

definition rbind :: "'a res \<Rightarrow> ('a \<Rightarrow> 'b res) \<Rightarrow> 'b res" where
  "rbind r f = (case r of Inl e \<Rightarrow> Inl e | Inr a \<Rightarrow> f a)"

definition check :: "bool \<Rightarrow> fault \<Rightarrow> unit res" where
  "check b e = (if b then Inr () else Inl e)"

lemma rbind_simps [simp]:
  "rbind (Inl e) f = Inl e"
  "rbind (Inr a) f = f a"
  by (simp_all add: rbind_def)

lemma check_simps [simp]:
  "check True e = Inr ()"
  "check False e = Inl e"
  by (simp_all add: check_def)

lemma check_eq_Inr [simp]: "check b e = Inr u \<longleftrightarrow> b"
  by (simp add: check_def)

lemma rbind_eq_Inr: "rbind r f = Inr b \<longleftrightarrow> (\<exists>a. r = Inr a \<and> f a = Inr b)"
  by (cases r) simp_all

lemma rbind_eq_Inl: "rbind r f = Inl x \<longleftrightarrow> r = Inl x \<or> (\<exists>a. r = Inr a \<and> f a = Inl x)"
  by (cases r) simp_all

lemma check_eq_Inl [simp]: "check b e = Inl x \<longleftrightarrow> \<not> b \<and> x = e"
  by (auto simp: check_def)

lemma rbind_assoc: "rbind (rbind r f) g = rbind r (\<lambda>x. rbind (f x) g)"
  by (cases r) simp_all

section \<open>Executions\<close>

text \<open>
  An execution of a component: the events happen one after the other, a fault ends it. The
  interleavings of threads are the orders of their events.
\<close>

fun run_events :: "('e \<Rightarrow> 'w \<Rightarrow> 'w res) \<Rightarrow> 'e list \<Rightarrow> 'w \<Rightarrow> 'w res" where
  "run_events exec [] w = Inr w"
| "run_events exec (e # es) w = rbind (exec e w) (run_events exec es)"

lemma run_events_append:
  "run_events exec (es @ es') w = rbind (run_events exec es w) (run_events exec es')"
  by (induction es arbitrary: w) (auto simp: rbind_def split: sum.split)

lemma run_events_snoc:
  "run_events exec (es @ [e]) w = rbind (run_events exec es w) (exec e)"
  by (cases "run_events exec es w") (simp_all add: run_events_append rbind_def split: sum.split)

lemma run_events_invariant:
  assumes "run_events exec es w = Inr w'" and "P w"
    and "\<And>e w w'. P w \<Longrightarrow> exec e w = Inr w' \<Longrightarrow> P w'"
  shows "P w'"
  using assms(1,2) by (induction es arbitrary: w) (auto simp: rbind_eq_Inr intro: assms(3))

text \<open>An invariant of the runs whose events all satisfy \<open>Q\<close>.\<close>

lemma run_events_invariant_on:
  assumes "run_events exec es w = Inr w'" and "P w" and "\<And>e. e \<in> set es \<Longrightarrow> Q e"
    and "\<And>e w w'. Q e \<Longrightarrow> P w \<Longrightarrow> exec e w = Inr w' \<Longrightarrow> P w'"
  shows "P w'"
  using assms(1-3)
proof (induction es arbitrary: w)
  case (Cons e es)
  then obtain w1 where "exec e w = Inr w1" "run_events exec es w1 = Inr w'" by (auto simp: rbind_eq_Inr)
  with Cons.IH [of w1] Cons.prems(2,3) assms(4) [of e w w1] show ?case by simp
qed simp

lemma run_events_no_fault:
  assumes "P w" and "\<And>e w w'. P w \<Longrightarrow> exec e w = Inr w' \<Longrightarrow> P w'" and "\<And>e w. P w \<Longrightarrow> exec e w \<noteq> Inl x"
  shows "run_events exec es w \<noteq> Inl x"
  using assms(1)
proof (induction es arbitrary: w)
  case (Cons e es)
  then show ?case using assms(2,3) by (cases "exec e w") auto
qed simp

section \<open>Integers\<close>

text \<open>The range of \<^verbatim>\<open>int\<close>.\<close>

definition int_max :: int where
  "int_max = 2 ^ 31 - 1"

definition in_int :: "int \<Rightarrow> bool" where
  "in_int x \<longleftrightarrow> - (2 ^ 31) \<le> x \<and> x \<le> int_max"

section \<open>Collections of facts\<close>

named_theorems limits \<open>the numbers behind the bounds of integers and messages\<close>
named_theorems total_readers \<open>readers that return on every well formed message\<close>

declare int_max_def [limits]

lemma to_int32_id: "- (2 ^ 31) \<le> x \<Longrightarrow> x < 2 ^ 31 \<Longrightarrow> to_int32 x = x"
  unfolding to_int32_def by (rule signed_take_bit_int_eq_self) simp_all

lemma uint_le_int: "uint w \<le> int k \<longleftrightarrow> unat w \<le> k"
  by (metis of_nat_unat of_nat_le_iff)

lemma filter_singletonD: "filter P l = [e] \<Longrightarrow> e \<in> set l \<and> P e"
  by (drule arg_cong [where f = set]) auto

lemma filter_update:
  "i < length xs \<Longrightarrow>
   length (filter P (xs[i := y])) + (if P (xs ! i) then 1 else 0) =
   length (filter P xs) + (if P y then 1 else 0)"
proof (induction xs arbitrary: i)
  case (Cons x xs)
  then show ?case by (cases i) auto
qed simp

end
