(* ===== verification/Timespec.thy ===== *)
theory Timespec
  imports Prelude
begin

text \<open>
  The time helpers at the end of \<^verbatim>\<open>src/rpc/rpc.cc\<close> (\<^verbatim>\<open>cmp_timespec\<close>, \<^verbatim>\<open>add_timespec\<close>,
  \<^verbatim>\<open>diff_timespec\<close>), with which \<^verbatim>\<open>rpcc::call1\<close> computes its deadlines. The 64 bit fields of
  \<^verbatim>\<open>struct timespec\<close> are mathematical integers; the \<^verbatim>\<open>int\<close> in which \<^verbatim>\<open>diff_timespec\<close> accumulates
  its result keeps its width.
\<close>

record timespec =
  tv_sec :: int
  tv_nsec :: int

definition cmp_timespec :: "timespec \<Rightarrow> timespec \<Rightarrow> int" where
  "cmp_timespec a b =
     (if tv_sec a > tv_sec b then 1
      else if tv_sec a < tv_sec b then - 1
      else if tv_nsec a > tv_nsec b then 1
      else if tv_nsec a < tv_nsec b then - 1
      else 0)"

text \<open>The carry loop of \<^verbatim>\<open>add_timespec\<close>, with the comparison as the code writes it.\<close>

function carry_loop :: "timespec \<Rightarrow> timespec" where
  "carry_loop r =
     (if tv_nsec r > 1000000000
      then carry_loop (r\<lparr>tv_sec := tv_sec r + 1, tv_nsec := tv_nsec r - 1000000000\<rparr>)
      else r)"
  by pat_completeness auto
termination
  by (relation "measure (\<lambda>r. nat (tv_nsec r))") auto

declare carry_loop.simps [simp del]

definition add_timespec :: "timespec \<Rightarrow> int \<Rightarrow> timespec res" where
  "add_timespec a b =
     (let r = \<lparr>tv_sec = tv_sec a + b sdiv 1000,
               tv_nsec = tv_nsec a + (b smod 1000) * 1000000\<rparr>
      in rbind (check (tv_nsec r \<ge> 0) Assert_failed) (\<lambda>_. Inr (carry_loop r)))"

definition diff_timespec :: "timespec \<Rightarrow> timespec \<Rightarrow> int res" where
  "diff_timespec end start =
     (let diff = to_int32 (if tv_sec end > tv_sec start
                           then (tv_sec end - tv_sec start) * 1000 else 0)
      in rbind (check (diff \<noteq> 0 \<or> tv_sec end = tv_sec start) Assert_failed)
           (\<lambda>_. Inr (if tv_nsec end > tv_nsec start
                     then to_int32 (diff + (tv_nsec end - tv_nsec start) sdiv 1000000)
                     else to_int32 (diff - (tv_nsec start - tv_nsec end) sdiv 1000000))))"

text \<open>The instant a timespec denotes, in nanoseconds, and the POSIX normal form.\<close>

definition nanos :: "timespec \<Rightarrow> int" where
  "nanos t = tv_sec t * 1000000000 + tv_nsec t"

definition ts_normal :: "timespec \<Rightarrow> bool" where
  "ts_normal t \<longleftrightarrow> 0 \<le> tv_nsec t \<and> tv_nsec t < 1000000000"

lemma carry_loop_spec:
  "0 \<le> tv_nsec r \<Longrightarrow>
   nanos (carry_loop r) = nanos r \<and> 0 \<le> tv_nsec (carry_loop r) \<and>
   tv_nsec (carry_loop r) \<le> 1000000000 \<and> (0 < tv_nsec r \<longrightarrow> 0 < tv_nsec (carry_loop r))"
proof (induction r rule: carry_loop.induct)
  case (1 r)
  show ?case
  proof (cases "tv_nsec r > 1000000000")
    case True
    with 1 show ?thesis
      by (subst (1 2 3 4) carry_loop.simps) (simp add: nanos_def algebra_simps)
  next
    case False
    with 1 show ?thesis by (simp add: carry_loop.simps [of r])
  qed
qed

lemma int_sdiv_nonneg: "0 \<le> (a::int) \<Longrightarrow> 0 < b \<Longrightarrow> a sdiv b = a div b"
  by (cases "a = 0") (simp_all add: signed_divide_int_def sgn_if)

lemma int_smod_nonneg: "0 \<le> (a::int) \<Longrightarrow> 0 < b \<Longrightarrow> a smod b = a mod b"
  by (cases "a = 0") (simp_all add: signed_modulo_int_def sgn_if)

text \<open>
  \<^verbatim>\<open>add_timespec\<close> adds exactly \<open>b\<close> milliseconds to a normalised time, for every non-negative
  timeout; the nanosecond field of the result lies between 0 and 10^9 (both included).
\<close>

theorem add_timespec_exact:
  assumes "ts_normal a" and "0 \<le> b"
  shows "\<exists>r. add_timespec a b = Inr r \<and> nanos r = nanos a + b * 1000000 \<and>
    0 \<le> tv_nsec r \<and> tv_nsec r \<le> 1000000000"
proof -
  let ?r = "\<lparr>tv_sec = tv_sec a + b div 1000, tv_nsec = tv_nsec a + (b mod 1000) * 1000000\<rparr>"
  have pos: "0 \<le> tv_nsec ?r"
    using assms by (simp add: ts_normal_def)
  have "nanos ?r = nanos a + b * 1000000"
    unfolding nanos_def by simp presburger
  with pos carry_loop_spec [OF pos] assms show ?thesis
    by (simp add: add_timespec_def int_sdiv_nonneg int_smod_nonneg Let_def)
qed

theorem add_timespec_exact_witness:
  "\<exists>r. add_timespec \<lparr>tv_sec = 5, tv_nsec = 999000000\<rparr> 1500 = Inr r \<and>
    nanos r = nanos \<lparr>tv_sec = 5, tv_nsec = 999000000\<rparr> + 1500 * 1000000 \<and>
    0 \<le> tv_nsec r \<and> tv_nsec r \<le> 1000000000"
  by (rule add_timespec_exact) (simp_all add: ts_normal_def)

text \<open>
  C40. The carry loop compares with \<^verbatim>\<open>>\<close> where the normal form needs \<^verbatim>\<open>>=\<close>. For a normalised time and
  a non-negative timeout the sum is the right time, and it is normalised except when the nanoseconds
  add up to a whole second; then the nanosecond field is exactly 10^9, which POSIX calls reject.
\<close>

theorem add_timespec_denormal_iff:
  assumes "ts_normal a" and "0 \<le> b"
  shows "\<exists>r. add_timespec a b = Inr r \<and> nanos r = nanos a + b * 1000000 \<and>
    (if tv_nsec a + (b mod 1000) * 1000000 = 1000000000 then tv_nsec r = 1000000000 else ts_normal r)"
proof -
  let ?n = "tv_nsec a + (b mod 1000) * 1000000"
  let ?r = "\<lparr>tv_sec = tv_sec a + b div 1000, tv_nsec = ?n\<rparr>"
  have n: "0 \<le> ?n" "?n < 2000000000"
    using assms(1) pos_mod_bound [of 1000 b] pos_mod_sign [of 1000 b]
    by (auto simp: ts_normal_def)
  obtain r where r: "add_timespec a b = Inr r" "nanos r = nanos a + b * 1000000"
    using add_timespec_exact [OF assms] by blast
  have "r = carry_loop ?r"
    using r(1) assms n by (simp add: add_timespec_def int_sdiv_nonneg int_smod_nonneg Let_def)
  then have "tv_nsec r = (if ?n > 1000000000 then ?n - 1000000000 else ?n)"
    using n carry_loop.simps [of ?r]
      carry_loop.simps [of "\<lparr>tv_sec = tv_sec a + b div 1000 + 1, tv_nsec = ?n - 1000000000\<rparr>"] by simp
  with r n show ?thesis by (auto simp: ts_normal_def)
qed

theorem add_timespec_denormal_iff_witness:
  "\<exists>r. add_timespec \<lparr>tv_sec = 6, tv_nsec = 500000000\<rparr> 1500 = Inr r \<and>
    nanos r = nanos \<lparr>tv_sec = 6, tv_nsec = 500000000\<rparr> + 1500 * 1000000 \<and>
    tv_nsec r = 1000000000 \<and> \<not> ts_normal r"
  using add_timespec_denormal_iff [of "\<lparr>tv_sec = 6, tv_nsec = 500000000\<rparr>" 1500]
  by (auto simp: ts_normal_def)

text \<open>
  On normalised times \<^verbatim>\<open>cmp_timespec\<close> is the sign of the difference of the instants, so the
  deadline comparison of \<^verbatim>\<open>rpcc::call1\<close> is the comparison of instants.
\<close>

theorem cmp_timespec_sgn:
  assumes "ts_normal a" and "ts_normal b"
  shows "cmp_timespec a b = sgn (nanos a - nanos b)"
  using assms by (simp add: cmp_timespec_def nanos_def ts_normal_def sgn_if)

theorem cmp_timespec_sgn_witness:
  "cmp_timespec \<lparr>tv_sec = 2, tv_nsec = 5\<rparr> \<lparr>tv_sec = 1, tv_nsec = 999999999\<rparr> =
    sgn (nanos \<lparr>tv_sec = 2, tv_nsec = 5\<rparr> - nanos \<lparr>tv_sec = 1, tv_nsec = 999999999\<rparr>)"
  by (rule cmp_timespec_sgn) (simp_all add: ts_normal_def)

text \<open>
  For two normalised times less than about 23 days apart, in order, \<^verbatim>\<open>diff_timespec\<close> passes its
  assertion, its \<^verbatim>\<open>int\<close> does not wrap and the result is the elapsed time in milliseconds, less than
  one millisecond off.
\<close>

theorem diff_timespec_close:
  assumes "ts_normal e" and "ts_normal s" and "nanos s \<le> nanos e"
    and "tv_sec e - tv_sec s \<le> 2000000"
  shows "\<exists>d. diff_timespec e s = Inr d \<and> \<bar>d * 1000000 - (nanos e - nanos s)\<bar> < 1000000"
proof -
  let ?k = "tv_sec e - tv_sec s"
  have k: "0 \<le> ?k"
    using assms(1-3) by (simp add: ts_normal_def nanos_def)
  have base: "to_int32 (if tv_sec e > tv_sec s then ?k * 1000 else 0) = ?k * 1000"
    using k assms(4) by (auto intro: to_int32_id simp: to_int32_id)
  have split: "nanos e - nanos s = ?k * 1000000000 + (tv_nsec e - tv_nsec s)"
    by (simp add: nanos_def algebra_simps)
  show ?thesis
  proof (cases "tv_nsec e > tv_nsec s")
    case True
    let ?q = "(tv_nsec e - tv_nsec s) div 1000000"
    have q: "0 \<le> ?q" "?q \<le> 1000" "?q * 1000000 \<le> tv_nsec e - tv_nsec s"
      "tv_nsec e - tv_nsec s < ?q * 1000000 + 1000000"
      using True assms(1,2) by (simp_all add: ts_normal_def)
    have "diff_timespec e s = Inr (?k * 1000 + ?q)"
      using True base k q assms(4)
      by (simp add: diff_timespec_def Let_def int_sdiv_nonneg to_int32_id)
    with q split show ?thesis by auto
  next
    case False
    let ?q = "(tv_nsec s - tv_nsec e) div 1000000"
    have q: "0 \<le> ?q" "?q \<le> 1000" "?q * 1000000 \<le> tv_nsec s - tv_nsec e"
      "tv_nsec s - tv_nsec e < ?q * 1000000 + 1000000"
      using False assms(1,2) by (simp_all add: ts_normal_def)
    have "diff_timespec e s = Inr (?k * 1000 - ?q)"
      using False base k q assms(4)
      by (simp add: diff_timespec_def Let_def int_sdiv_nonneg to_int32_id)
    with q split show ?thesis by auto
  qed
qed

theorem diff_timespec_close_witness:
  "\<exists>d. diff_timespec \<lparr>tv_sec = 12, tv_nsec = 100\<rparr> \<lparr>tv_sec = 10, tv_nsec = 7000000\<rparr> = Inr d \<and>
    \<bar>d * 1000000 - (nanos \<lparr>tv_sec = 12, tv_nsec = 100\<rparr> -
      nanos \<lparr>tv_sec = 10, tv_nsec = 7000000\<rparr>)\<bar> < 1000000"
  by (rule diff_timespec_close) (simp_all add: ts_normal_def nanos_def)

end
