(* ===== verification/Marshall.thy ===== *)
theory Marshall
  imports Prelude
begin

text \<open>
  The wire format: classes \<^verbatim>\<open>marshall\<close> and \<^verbatim>\<open>unmarshall\<close> of \<^verbatim>\<open>src/rpc/marshall.h\<close> with their
  members in \<^verbatim>\<open>src/rpc/rpc.cc\<close>. Buffers are explicit: a \<^verbatim>\<open>char *\<close> is either null or a block of
  known length, so every access outside the block, every null access and every overflow of an
  \<^verbatim>\<open>int\<close> index is a fault of the model. Bytes of a fresh block are indeterminate (\<open>None\<close>) until
  written. \<^verbatim>\<open>malloc\<close> and \<^verbatim>\<open>realloc\<close> are taken to succeed. The build does not define
  \<^verbatim>\<open>RPC_CHECKSUMMING\<close>, so the header has no checksum.
\<close>

section \<open>Headers\<close>

record req_header =
  rq_xid :: i32
  rq_proc :: i32
  rq_clt_nonce :: u32
  rq_srv_nonce :: u32
  rq_xid_rep :: i32

record reply_header =
  rp_xid :: i32
  rp_ret :: i32

definition DEFAULT_RPC_SZ :: int where
  "DEFAULT_RPC_SZ = 1024"

definition sizeof_rpc_sz :: int where
  "sizeof_rpc_sz = 4"

definition sizeof_req_header :: int where
  "sizeof_req_header = 20"

definition sizeof_reply_header :: int where
  "sizeof_reply_header = 8"

definition RPC_HEADER_SZ :: int where
  "RPC_HEADER_SZ =
     (if sizeof_req_header > sizeof_reply_header then sizeof_req_header
      else sizeof_reply_header) + sizeof_rpc_sz"

lemma RPC_HEADER_SZ_eq [simp]: "RPC_HEADER_SZ = 24"
  by (simp add: RPC_HEADER_SZ_def sizeof_req_header_def sizeof_reply_header_def
      sizeof_rpc_sz_def)

lemmas header_sizes [simp] = sizeof_rpc_sz_def DEFAULT_RPC_SZ_def

section \<open>Class marshall\<close>

type_synonym block = "u8 option list"

record marshall =
  m_buf :: "block option"
  m_capa :: int
  m_ind :: int

definition realloc :: "block \<Rightarrow> nat \<Rightarrow> block" where
  "realloc b n = take n b @ replicate (n - length b) None"

definition marshall_new :: marshall where
  "marshall_new =
     \<lparr>m_buf = Some (replicate (nat DEFAULT_RPC_SZ) None), m_capa = DEFAULT_RPC_SZ,
      m_ind = RPC_HEADER_SZ\<rparr>"

text \<open>Storing bytes at an offset of a block.\<close>

definition poke :: "block option \<Rightarrow> int \<Rightarrow> block \<Rightarrow> block option res" where
  "poke buf i bs =
     (case buf of
        None \<Rightarrow> Inl Null_deref
      | Some b \<Rightarrow>
          if 0 \<le> i \<and> i + int (length bs) \<le> int (length b)
          then Inr (Some (take (nat i) b @ bs @ drop (nat i + length bs) b))
          else Inl Out_of_bounds)"

text \<open>
  The growth step of \<^verbatim>\<open>rawbyte\<close> and \<^verbatim>\<open>rawbytes\<close>: the new capacity must be an \<^verbatim>\<open>int\<close>, the buffer
  must not be null.
\<close>

definition grow :: "int \<Rightarrow> marshall \<Rightarrow> marshall res" where
  "grow capa m =
     rbind (check (in_int capa) Int_overflow) (\<lambda>_.
     case m_buf m of
       None \<Rightarrow> Inl Assert_failed
     | Some b \<Rightarrow> Inr (m\<lparr>m_capa := capa, m_buf := Some (realloc b (nat capa))\<rparr>))"

definition marshall_rawbyte :: "u8 \<Rightarrow> marshall \<Rightarrow> marshall res" where
  "marshall_rawbyte x m =
     rbind (if m_ind m \<ge> m_capa m then grow (m_capa m * 2) m else Inr m) (\<lambda>m.
     rbind (poke (m_buf m) (m_ind m) [Some x]) (\<lambda>b.
     rbind (check (in_int (m_ind m + 1)) Int_overflow) (\<lambda>_.
     Inr (m\<lparr>m_buf := b, m_ind := m_ind m + 1\<rparr>))))"

definition marshall_rawbytes :: "u8 list \<Rightarrow> int \<Rightarrow> marshall \<Rightarrow> marshall res" where
  "marshall_rawbytes p n m =
     rbind (check (in_int (m_ind m + n)) Int_overflow) (\<lambda>_.
     rbind (if m_ind m + n > m_capa m
            then grow (if m_capa m > n then 2 * m_capa m else m_capa m + n) m
            else Inr m) (\<lambda>m.
     rbind (check (0 \<le> n \<and> n \<le> int (length p)) Out_of_bounds) (\<lambda>_.
     rbind (poke (m_buf m) (m_ind m) (map Some (take (nat n) p))) (\<lambda>b.
     Inr (m\<lparr>m_buf := b, m_ind := m_ind m + n\<rparr>)))))"

text \<open>The overloads of \<^verbatim>\<open>operator<<\<close>.\<close>

definition put_u8 :: "u8 \<Rightarrow> marshall \<Rightarrow> marshall res" where
  "put_u8 x m = marshall_rawbyte x m"

definition put_char :: "u8 \<Rightarrow> marshall \<Rightarrow> marshall res" where
  "put_char x m = put_u8 x m"

definition put_u16 :: "u16 \<Rightarrow> marshall \<Rightarrow> marshall res" where
  "put_u16 x m =
     rbind (marshall_rawbyte (ucast (drop_bit 8 x AND 0xFF)) m) (\<lambda>m.
     marshall_rawbyte (ucast (x AND 0xFF)) m)"

definition put_short :: "u16 \<Rightarrow> marshall \<Rightarrow> marshall res" where
  "put_short x m = put_u16 x m"

definition put_u32 :: "u32 \<Rightarrow> marshall \<Rightarrow> marshall res" where
  "put_u32 x m =
     rbind (marshall_rawbyte (ucast (drop_bit 24 x AND 0xFF)) m) (\<lambda>m.
     rbind (marshall_rawbyte (ucast (drop_bit 16 x AND 0xFF)) m) (\<lambda>m.
     rbind (marshall_rawbyte (ucast (drop_bit 8 x AND 0xFF)) m) (\<lambda>m.
     marshall_rawbyte (ucast (x AND 0xFF)) m)))"

definition put_int :: "i32 \<Rightarrow> marshall \<Rightarrow> marshall res" where
  "put_int x m = put_u32 x m"

definition put_string :: "u8 list \<Rightarrow> marshall \<Rightarrow> marshall res" where
  "put_string s m =
     rbind (put_u32 (word_of_nat (length s)) m) (\<lambda>m.
     marshall_rawbytes s (to_int32 (int (length s))) m)"

definition put_u64 :: "u64 \<Rightarrow> marshall \<Rightarrow> marshall res" where
  "put_u64 x m =
     rbind (put_u32 (ucast (drop_bit 32 x)) m) (\<lambda>m.
     put_u32 (ucast x) m)"

text \<open>\<^verbatim>\<open>marshall::pack\<close> shifts a signed \<^verbatim>\<open>int\<close>.\<close>

definition pack :: "i32 \<Rightarrow> marshall \<Rightarrow> marshall res" where
  "pack x m =
     rbind (marshall_rawbyte (ucast (signed_drop_bit 24 x AND 0xFF)) m) (\<lambda>m.
     rbind (marshall_rawbyte (ucast (signed_drop_bit 16 x AND 0xFF)) m) (\<lambda>m.
     rbind (marshall_rawbyte (ucast (signed_drop_bit 8 x AND 0xFF)) m) (\<lambda>m.
     marshall_rawbyte (ucast (x AND 0xFF)) m)))"

definition pack_req_header :: "req_header \<Rightarrow> marshall \<Rightarrow> marshall res" where
  "pack_req_header h m =
     (let saved_sz = m_ind m in
      rbind (pack (rq_xid h) (m\<lparr>m_ind := sizeof_rpc_sz\<rparr>)) (\<lambda>m.
      rbind (pack (rq_proc h) m) (\<lambda>m.
      rbind (pack (rq_clt_nonce h) m) (\<lambda>m.
      rbind (pack (rq_srv_nonce h) m) (\<lambda>m.
      rbind (pack (rq_xid_rep h) m) (\<lambda>m.
      Inr (m\<lparr>m_ind := saved_sz\<rparr>)))))))"

definition pack_reply_header :: "reply_header \<Rightarrow> marshall \<Rightarrow> marshall res" where
  "pack_reply_header h m =
     (let saved_sz = m_ind m in
      rbind (pack (rp_xid h) (m\<lparr>m_ind := sizeof_rpc_sz\<rparr>)) (\<lambda>m.
      rbind (pack (rp_ret h) m) (\<lambda>m.
      Inr (m\<lparr>m_ind := saved_sz\<rparr>))))"

definition marshall_take_buf :: "marshall \<Rightarrow> (block option \<times> int) \<times> marshall" where
  "marshall_take_buf m = ((m_buf m, m_ind m), m\<lparr>m_buf := None, m_ind := 0\<rparr>)"

section \<open>Class unmarshall\<close>

record unmarshall =
  u_buf :: "u8 list option"
  u_sz :: int
  u_ind :: int
  u_ok :: bool

definition unmarshall_empty :: unmarshall where
  "unmarshall_empty = \<lparr>u_buf = None, u_sz = 0, u_ind = 0, u_ok = False\<rparr>"

definition unmarshall_new :: "u8 list option \<Rightarrow> int \<Rightarrow> unmarshall" where
  "unmarshall_new b sz = \<lparr>u_buf = b, u_sz = sz, u_ind = 0, u_ok = True\<rparr>"

text \<open>The \<^verbatim>\<open>char\<close> read is sign extended by the conversion to \<^verbatim>\<open>unsigned int\<close>.\<close>

definition unmarshall_rawbyte :: "unmarshall \<Rightarrow> (u32 \<times> unmarshall) res" where
  "unmarshall_rawbyte u =
     (if u_ind u \<ge> u_sz u then Inr (0, u\<lparr>u_ok := False\<rparr>)
      else case u_buf u of
        None \<Rightarrow> Inl Null_deref
      | Some b \<Rightarrow>
          if 0 \<le> u_ind u \<and> u_ind u < int (length b)
          then Inr (scast (b ! nat (u_ind u)), u\<lparr>u_ind := u_ind u + 1\<rparr>)
          else Inl Out_of_bounds)"

text \<open>
  The bound is tested in 32 bit unsigned arithmetic. On success the string is read from the block;
  reading zero bytes touches no memory.
\<close>

definition unmarshall_rawbytes ::
  "u8 list \<Rightarrow> u32 \<Rightarrow> unmarshall \<Rightarrow> (u8 list \<times> unmarshall) res" where
  "unmarshall_rawbytes ss n u =
     (if word_of_int (u_ind u) + n > word_of_int (u_sz u)
      then Inr (ss, u\<lparr>u_ok := False\<rparr>)
      else
        let u' = u\<lparr>u_ind := sint (word_of_int (u_ind u) + n)\<rparr> in
        if n = 0 then Inr ([], u')
        else case u_buf u of
          None \<Rightarrow> Inl Null_deref
        | Some b \<Rightarrow>
            if 0 \<le> u_ind u \<and> u_ind u + uint n \<le> int (length b)
            then Inr (take (unat n) (drop (nat (u_ind u)) b), u')
            else Inl Out_of_bounds)"

definition okdone :: "unmarshall \<Rightarrow> bool" where
  "okdone u \<longleftrightarrow> u_ok u \<and> u_ind u = u_sz u"

text \<open>
  The overloads of \<^verbatim>\<open>operator>>\<close>. The first argument is the old value of the reference the C++
  operator assigns to.
\<close>

definition get_u8 :: "u8 \<Rightarrow> unmarshall \<Rightarrow> (u8 \<times> unmarshall) res" where
  "get_u8 x u = rbind (unmarshall_rawbyte u) (\<lambda>(r, u). Inr (ucast r, u))"

definition get_char :: "u8 \<Rightarrow> unmarshall \<Rightarrow> (u8 \<times> unmarshall) res" where
  "get_char x u = rbind (unmarshall_rawbyte u) (\<lambda>(r, u). Inr (ucast r, u))"

definition get_u16 :: "u16 \<Rightarrow> unmarshall \<Rightarrow> (u16 \<times> unmarshall) res" where
  "get_u16 x u =
     rbind (unmarshall_rawbyte u) (\<lambda>(r1, u).
     let x = (ucast (push_bit 8 (r1 AND 0xFF)) :: u16) in
     rbind (unmarshall_rawbyte u) (\<lambda>(r2, u).
     let x = ucast ((ucast x :: u32) OR (r2 AND 0xFF)) in
     Inr (x, u)))"

text \<open>For \<^verbatim>\<open>short\<close> the partial result is sign extended before the second byte is merged.\<close>

definition get_short :: "u16 \<Rightarrow> unmarshall \<Rightarrow> (u16 \<times> unmarshall) res" where
  "get_short x u =
     rbind (unmarshall_rawbyte u) (\<lambda>(r1, u).
     let x = (ucast (push_bit 8 (r1 AND 0xFF)) :: u16) in
     rbind (unmarshall_rawbyte u) (\<lambda>(r2, u).
     let x = ucast ((scast x :: u32) OR (r2 AND 0xFF)) in
     Inr (x, u)))"

definition get_u32 :: "u32 \<Rightarrow> unmarshall \<Rightarrow> (u32 \<times> unmarshall) res" where
  "get_u32 x u =
     rbind (unmarshall_rawbyte u) (\<lambda>(r1, u).
     let x = push_bit 24 (r1 AND 0xFF) in
     rbind (unmarshall_rawbyte u) (\<lambda>(r2, u).
     let x = x OR push_bit 16 (r2 AND 0xFF) in
     rbind (unmarshall_rawbyte u) (\<lambda>(r3, u).
     let x = x OR push_bit 8 (r3 AND 0xFF) in
     rbind (unmarshall_rawbyte u) (\<lambda>(r4, u).
     let x = x OR (r4 AND 0xFF) in
     Inr (x, u)))))"

definition get_int :: "i32 \<Rightarrow> unmarshall \<Rightarrow> (i32 \<times> unmarshall) res" where
  "get_int x u =
     rbind (unmarshall_rawbyte u) (\<lambda>(r1, u).
     let x = push_bit 24 (r1 AND 0xFF) in
     rbind (unmarshall_rawbyte u) (\<lambda>(r2, u).
     let x = x OR push_bit 16 (r2 AND 0xFF) in
     rbind (unmarshall_rawbyte u) (\<lambda>(r3, u).
     let x = x OR push_bit 8 (r3 AND 0xFF) in
     rbind (unmarshall_rawbyte u) (\<lambda>(r4, u).
     let x = x OR (r4 AND 0xFF) in
     Inr (x, u)))))"

definition unpack :: "unmarshall \<Rightarrow> (i32 \<times> unmarshall) res" where
  "unpack u =
     rbind (unmarshall_rawbyte u) (\<lambda>(r1, u).
     let x = push_bit 24 (r1 AND 0xFF) in
     rbind (unmarshall_rawbyte u) (\<lambda>(r2, u).
     let x = x OR push_bit 16 (r2 AND 0xFF) in
     rbind (unmarshall_rawbyte u) (\<lambda>(r3, u).
     let x = x OR push_bit 8 (r3 AND 0xFF) in
     rbind (unmarshall_rawbyte u) (\<lambda>(r4, u).
     let x = x OR (r4 AND 0xFF) in
     Inr (x, u)))))"

definition get_u64 :: "u64 \<Rightarrow> unmarshall \<Rightarrow> (u64 \<times> unmarshall) res" where
  "get_u64 x u =
     rbind (get_u32 0 u) (\<lambda>(h, u).
     rbind (get_u32 0 u) (\<lambda>(l, u).
     Inr ((ucast l :: u64) OR push_bit 32 (ucast h), u)))"

definition get_string :: "u8 list \<Rightarrow> unmarshall \<Rightarrow> (u8 list \<times> unmarshall) res" where
  "get_string s u =
     rbind (get_u32 0 u) (\<lambda>(sz, u).
     if u_ok u then unmarshall_rawbytes s sz u else Inr (s, u))"

definition unpack_req_header :: "unmarshall \<Rightarrow> (req_header \<times> unmarshall) res" where
  "unpack_req_header u =
     rbind (unpack (u\<lparr>u_ind := sizeof_rpc_sz\<rparr>)) (\<lambda>(x, u).
     rbind (unpack u) (\<lambda>(p, u).
     rbind (unpack u) (\<lambda>(c, u).
     rbind (unpack u) (\<lambda>(s, u).
     rbind (unpack u) (\<lambda>(r, u).
     Inr (\<lparr>rq_xid = x, rq_proc = p, rq_clt_nonce = c, rq_srv_nonce = s, rq_xid_rep = r\<rparr>,
       u\<lparr>u_ind := RPC_HEADER_SZ\<rparr>))))))"

definition unpack_reply_header :: "unmarshall \<Rightarrow> (reply_header \<times> unmarshall) res" where
  "unpack_reply_header u =
     rbind (unpack (u\<lparr>u_ind := sizeof_rpc_sz\<rparr>)) (\<lambda>(x, u).
     rbind (unpack u) (\<lambda>(r, u).
     Inr (\<lparr>rp_xid = x, rp_ret = r\<rparr>, u\<lparr>u_ind := RPC_HEADER_SZ\<rparr>)))"

definition unmarshall_take_buf :: "unmarshall \<Rightarrow> (u8 list option \<times> int) \<times> unmarshall" where
  "unmarshall_take_buf u = ((u_buf u, u_sz u), u\<lparr>u_sz := 0, u_ind := 0, u_buf := None\<rparr>)"

definition take_in :: "unmarshall \<Rightarrow> unmarshall \<Rightarrow> unmarshall \<times> unmarshall" where
  "take_in u another =
     (let ((b, sz), another') = unmarshall_take_buf another in
      (u\<lparr>u_buf := b, u_sz := sz, u_ind := RPC_HEADER_SZ, u_ok := sz \<ge> RPC_HEADER_SZ\<rparr>, another'))"

section \<open>Well-formed buffers\<close>

text \<open>
  A well-formed \<^verbatim>\<open>marshall\<close> owns a block of exactly its capacity, at least the initial one and at
  most twice the bytes written. \<open>contents\<close> is what has been written, \<open>msg_limit\<close> the message size
  up to which no capacity computation leaves the range of \<^verbatim>\<open>int\<close>.
\<close>

definition wfm :: "marshall \<Rightarrow> bool" where
  "wfm m \<longleftrightarrow>
     (case m_buf m of
        None \<Rightarrow> False
      | Some b \<Rightarrow> m_capa m = int (length b) \<and> 0 \<le> m_ind m \<and> m_ind m \<le> m_capa m \<and>
          DEFAULT_RPC_SZ \<le> m_capa m \<and> m_capa m \<le> max DEFAULT_RPC_SZ (2 * m_ind m))"

definition contents :: "marshall \<Rightarrow> block" where
  "contents m = (case m_buf m of None \<Rightarrow> [] | Some b \<Rightarrow> take (nat (m_ind m)) b)"

definition msg_limit :: int where
  "msg_limit = 2 ^ 30"

declare msg_limit_def [limits]

text \<open>
  A well-formed \<^verbatim>\<open>unmarshall\<close> reads inside its block, which \<^verbatim>\<open>readpdu\<close> allocates with the message
  size plus four; \<open>unread\<close> is what is left of the message.
\<close>

definition wfu :: "unmarshall \<Rightarrow> bool" where
  "wfu u \<longleftrightarrow>
     (case u_buf u of
        None \<Rightarrow> False
      | Some b \<Rightarrow> 0 \<le> u_ind u \<and> u_ind u \<le> u_sz u \<and> u_sz u \<le> int (length b) \<and> u_sz u \<le> int_max \<and>
          int (length b) < 2 ^ 32)"

definition unread :: "unmarshall \<Rightarrow> u8 list" where
  "unread u = (case u_buf u of None \<Rightarrow> [] | Some b \<Rightarrow> drop (nat (u_ind u)) (take (nat (u_sz u)) b))"

lemma wfmE:
  assumes "wfm m"
  obtains b where "m_buf m = Some b" "m_capa m = int (length b)" "0 \<le> m_ind m"
    "m_ind m \<le> int (length b)" "1024 \<le> length b" "int (length b) \<le> max 1024 (2 * m_ind m)"
    "contents m = take (nat (m_ind m)) b"
  using assms by (auto simp: wfm_def contents_def split: option.splits)

lemma wfuE:
  assumes "wfu u"
  obtains b where "u_buf u = Some b" "0 \<le> u_ind u" "u_ind u \<le> u_sz u"
    "u_sz u \<le> int (length b)" "u_sz u \<le> int_max"
    "unread u = drop (nat (u_ind u)) (take (nat (u_sz u)) b)" "int (length b) < 2 ^ 32"
  using assms by (auto simp: wfu_def unread_def split: option.splits)

lemma length_contents [simp]: "wfm m \<Longrightarrow> int (length (contents m)) = m_ind m"
  by (elim wfmE) simp

lemma wfm_new [simp]: "wfm marshall_new"
  by (simp add: wfm_def marshall_new_def)

lemma m_ind_new [simp]: "m_ind marshall_new = 24"
  by (simp add: marshall_new_def)

lemma contents_new: "contents marshall_new = replicate 24 None"
  by (simp add: contents_def marshall_new_def)

lemma length_realloc [simp]: "length (realloc b n) = n"
  by (simp add: realloc_def)

lemma take_realloc: "k \<le> length b \<Longrightarrow> k \<le> n \<Longrightarrow> take k (realloc b n) = take k b"
  by (simp add: realloc_def min_def)

lemma in_int_limit: "0 \<le> x \<Longrightarrow> x < 2 ^ 31 \<Longrightarrow> in_int x"
  by (simp add: in_int_def int_max_def)

text \<open>Appending to a well-formed buffer below the limit never faults and appends exactly the bytes.\<close>

lemma poke_append:
  assumes "0 \<le> i" and "i + int (length bs) \<le> int (length b)"
  shows "\<exists>b'. poke (Some b) i bs = Inr (Some b') \<and> length b' = length b \<and>
    take (nat (i + int (length bs))) b' = take (nat i) b @ bs"
proof -
  have "nat (i + int (length bs)) = nat i + length bs"
    using assms(1) by simp
  moreover have "nat i + length bs \<le> length b"
    using assms by linarith
  ultimately show ?thesis
    using assms by (simp add: poke_def)
qed

lemma marshall_rawbytes_append:
  assumes "wfm m" and "m_ind m + int (length p) < msg_limit"
  shows "\<exists>m'. marshall_rawbytes p (int (length p)) m = Inr m' \<and> wfm m' \<and>
    contents m' = contents m @ map Some p"
proof -
  let ?n = "int (length p)"
  obtain b where b: "m_buf m = Some b" "m_capa m = int (length b)" "0 \<le> m_ind m"
    "m_ind m \<le> int (length b)" "1024 \<le> length b" "int (length b) \<le> max 1024 (2 * m_ind m)"
    "contents m = take (nat (m_ind m)) b"
    using assms(1) by (rule wfmE)
  have lim: "m_ind m + ?n < 2 ^ 30"
    using assms(2) by (simp add: msg_limit_def)
  obtain m1 b1 where m1: "(if m_ind m + ?n > m_capa m
      then grow (if m_capa m > ?n then 2 * m_capa m else m_capa m + ?n) m else Inr m) = Inr m1"
    "m_buf m1 = Some b1" "m_capa m1 = int (length b1)" "m_ind m1 = m_ind m"
    "m_ind m + ?n \<le> int (length b1)" "1024 \<le> length b1"
    "int (length b1) \<le> max 1024 (2 * (m_ind m + ?n))"
    "take (nat (m_ind m)) b1 = take (nat (m_ind m)) b"
  proof (cases "m_ind m + ?n > m_capa m")
    case True
    define c where "c = (if m_capa m > ?n then 2 * m_capa m else m_capa m + ?n)"
    have c: "m_ind m + ?n \<le> c" "1024 \<le> c" "c \<le> 2 * (m_ind m + ?n)" "int (length b) \<le> c"
      using True b by (auto simp: c_def)
    have "grow c m = Inr (m\<lparr>m_capa := c, m_buf := Some (realloc b (nat c))\<rparr>)"
      using c lim b by (simp add: grow_def in_int_limit)
    then have eq: "(if m_ind m + ?n > m_capa m
        then grow (if m_capa m > ?n then 2 * m_capa m else m_capa m + ?n) m else Inr m) =
        Inr (m\<lparr>m_capa := c, m_buf := Some (realloc b (nat c))\<rparr>)"
      using True by (simp only: c_def if_True)
    show ?thesis
      using c b by (intro that [OF eq, of "realloc b (nat c)"]) (auto simp: take_realloc)
  next
    case False
    with b show ?thesis by (intro that) auto
  qed
  obtain b2 where b2: "poke (Some b1) (m_ind m) (map Some p) = Inr (Some b2)"
    "length b2 = length b1" "take (nat (m_ind m + ?n)) b2 = take (nat (m_ind m)) b1 @ map Some p"
    using poke_append [of "m_ind m" "map Some p" b1] b m1 by auto
  have "marshall_rawbytes p ?n m = Inr (m1\<lparr>m_buf := Some b2, m_ind := m_ind m + ?n\<rparr>)"
    unfolding marshall_rawbytes_def using m1 b2 lim b by (simp add: in_int_limit)
  with m1 b2 b show ?thesis
    by (simp add: wfm_def contents_def)
qed

lemma marshall_rawbyte_append:
  assumes "wfm m" and "m_ind m + 1 < msg_limit"
  shows "\<exists>m'. marshall_rawbyte x m = Inr m' \<and> wfm m' \<and> contents m' = contents m @ [Some x]"
proof -
  obtain b where b: "m_buf m = Some b" "m_capa m = int (length b)" "0 \<le> m_ind m"
    "m_ind m \<le> int (length b)" "1024 \<le> length b"
    using assms(1) by (rule wfmE)
  have "marshall_rawbyte x m = marshall_rawbytes [x] 1 m"
    using b assms(2)
    by (auto simp: marshall_rawbyte_def marshall_rawbytes_def in_int_limit msg_limit_def
        grow_def rbind_def mult.commute [of _ "2::int"] split: sum.splits)
  with marshall_rawbytes_append [of m "[x]"] assms show ?thesis by simp
qed

section \<open>Fixed-width integers\<close>

text \<open>Network byte order, as specification of the integer operators.\<close>

definition be16 :: "u16 \<Rightarrow> u8 list" where
  "be16 x = [ucast (drop_bit 8 x), ucast x]"

definition be32 :: "u32 \<Rightarrow> u8 list" where
  "be32 x = [ucast (drop_bit 24 x), ucast (drop_bit 16 x), ucast (drop_bit 8 x), ucast x]"

definition be64 :: "u64 \<Rightarrow> u8 list" where
  "be64 x = be32 (ucast (drop_bit 32 x)) @ be32 (ucast x)"

definition dec16 :: "u8 \<Rightarrow> u8 \<Rightarrow> u16" where
  "dec16 a b = push_bit 8 (ucast a) OR ucast b"

definition dec32 :: "u8 \<Rightarrow> u8 \<Rightarrow> u8 \<Rightarrow> u8 \<Rightarrow> u32" where
  "dec32 a b c d =
     push_bit 24 (ucast a) OR push_bit 16 (ucast b) OR push_bit 8 (ucast c) OR ucast d"

lemma length_be [simp]:
  "length (be16 x) = 2" "length (be32 y) = 4" "length (be64 z) = 8"
  by (simp_all add: be16_def be32_def be64_def)

lemma bit_u8_length: "bit (b :: u8) n \<Longrightarrow> n < 8"
  by (drule bit_imp_le_length) simp

lemma bit_scast_u8: "bit (scast (b :: u8) :: u32) n \<longleftrightarrow> n < 32 \<and> bit b (min n 7)"
  by (simp add: bit_simps min.commute)

lemma bit_u8_beyond [simp]: "8 \<le> k \<Longrightarrow> \<not> bit (b :: u8) (k + n)"
  by (auto dest: bit_u8_length)

lemma mask8_u32: "(255 :: u32) = mask 8"
  by (simp add: mask_eq_exp_minus_1)

lemma mask8_u16: "(255 :: u16) = mask 8"
  by (simp add: mask_eq_exp_minus_1)

lemma low_byte_u32: "(ucast ((x :: u32) AND 0xFF) :: u8) = ucast x"
  by (rule bit_word_eqI) (auto simp: mask8_u32 bit_simps)

lemma low_byte_u16: "(ucast ((x :: u16) AND 0xFF) :: u8) = ucast x"
  by (rule bit_word_eqI) (auto simp: mask8_u16 bit_simps)

lemma low_byte_scast: "(scast (b :: u8) :: u32) AND 0xFF = ucast b"
proof (rule bit_word_eqI)
  fix n
  show "bit ((scast b :: u32) AND 0xFF) n = bit (ucast b :: u32) n"
    by (cases "n < 8") (auto simp: mask8_u32 bit_scast_u8 bit_simps min_absorb1 dest: bit_u8_length)
qed

lemma ucast_scast_u8: "(ucast (scast (b :: u8) :: u32) :: u8) = b"
proof (rule bit_word_eqI)
  fix n assume "n < LENGTH(8)"
  then have "min n 7 = n" by simp
  with \<open>n < LENGTH(8)\<close> show "bit (ucast (scast b :: u32) :: u8) n = bit b n"
    by (simp add: bit_scast_u8 bit_ucast_iff)
qed

lemma signed_shift_byte:
  "n \<le> 24 \<Longrightarrow> (ucast (signed_drop_bit n (x :: u32)) :: u8) = ucast (drop_bit n x)"
  by (rule bit_word_eqI) (auto simp: bit_simps min_def)

lemma dec16_be16 [simp]: "dec16 (ucast (drop_bit 8 x)) (ucast x) = x"
  by (rule bit_word_eqI) (auto simp: dec16_def bit_simps not_less)

lemma be16_dec16 [simp]: "be16 (dec16 a b) = [a, b]"
  by (auto simp: be16_def dec16_def bit_simps intro!: bit_word_eqI)

lemma dec32_be32 [simp]:
  "dec32 (ucast (drop_bit 24 x)) (ucast (drop_bit 16 x)) (ucast (drop_bit 8 x)) (ucast x) = x"
proof (rule bit_word_eqI)
  fix n assume n: "n < LENGTH(32)"
  consider "n < 8" | "8 \<le> n" "n < 16" | "16 \<le> n" "n < 24" | "24 \<le> n"
    by linarith
  then show "bit (dec32 (ucast (drop_bit 24 x)) (ucast (drop_bit 16 x)) (ucast (drop_bit 8 x))
      (ucast x)) n = bit x n"
    using n by cases (auto simp: dec32_def bit_simps)
qed

lemma be32_dec32 [simp]: "be32 (dec32 a b c d) = [a, b, c, d]"
  by (auto simp: be32_def dec32_def bit_simps intro!: bit_word_eqI)

subsection \<open>Writing\<close>

text \<open>A sequence of \<^verbatim>\<open>rawbyte\<close> calls.\<close>

fun put_seq :: "u8 list \<Rightarrow> marshall \<Rightarrow> marshall res" where
  "put_seq [] m = Inr m"
| "put_seq (b # bs) m = rbind (marshall_rawbyte b m) (put_seq bs)"

lemma put_seq_append:
  "wfm m \<Longrightarrow> m_ind m + int (length bs) < msg_limit \<Longrightarrow>
   \<exists>m'. put_seq bs m = Inr m' \<and> wfm m' \<and> contents m' = contents m @ map Some bs"
proof (induction bs arbitrary: m)
  case Nil
  then show ?case by simp
next
  case (Cons b bs)
  then obtain m1 where m1: "marshall_rawbyte b m = Inr m1" "wfm m1"
    "contents m1 = contents m @ [Some b]"
    using marshall_rawbyte_append [of m b] by auto
  then have "m_ind m1 = m_ind m + 1"
    using length_contents [of m1] length_contents [of m] Cons.prems(1) by simp
  with m1 Cons.prems Cons.IH [of m1] show ?case by auto
qed

lemma rbind_Inr_right [simp]: "rbind r Inr = r"
  by (cases r) simp_all

lemma put_seq_fun: "put_seq [] = Inr" "put_seq (b # bs) = (\<lambda>m. rbind (marshall_rawbyte b m) (put_seq bs))"
  by (simp_all add: fun_eq_iff)

lemma put_u8_seq: "put_u8 x m = put_seq [x] m"
  by (simp add: put_u8_def put_seq_fun)

lemma put_u16_seq: "put_u16 x m = put_seq (be16 x) m"
  by (simp add: put_u16_def be16_def low_byte_u16 put_seq_fun)

lemma put_u32_seq: "put_u32 x m = put_seq (be32 x) m"
  by (simp add: put_u32_def be32_def low_byte_u32 put_seq_fun)

lemma pack_seq: "pack x m = put_seq (be32 x) m"
  by (simp add: pack_def be32_def low_byte_u32 signed_shift_byte put_seq_fun)

lemma put_seq_append_seq: "put_seq (xs @ ys) = (\<lambda>m. rbind (put_seq xs m) (put_seq ys))"
  by (induction xs) (simp_all add: rbind_assoc put_seq_fun)

lemma put_u64_seq: "put_u64 x m = put_seq (be64 x) m"
  by (simp add: put_u64_def be64_def put_u32_seq put_seq_append_seq)

lemmas put_int_seqs = put_u8_seq put_u16_seq put_u32_seq put_u64_seq pack_seq

subsection \<open>Reading\<close>

text \<open>The two outcomes of \<^verbatim>\<open>rawbyte\<close>: move on by one byte, or raise the failure flag.\<close>

definition adv :: "unmarshall \<Rightarrow> unmarshall" where
  "adv u = u\<lparr>u_ind := u_ind u + 1\<rparr>"

definition failed :: "unmarshall \<Rightarrow> unmarshall" where
  "failed u = u\<lparr>u_ok := False\<rparr>"

lemma u_ok_adv [simp]: "u_ok (adv u) = u_ok u"
  by (simp add: adv_def)

lemma failed_simps [simp]:
  "u_ok (failed u) = False" "wfu (failed u) = wfu u" "unread (failed u) = unread u"
  by (simp_all add: failed_def wfu_def unread_def split: option.split)

lemma unread_length: "wfu u \<Longrightarrow> int (length (unread u)) = u_sz u - u_ind u"
  by (elim wfuE) (simp add: of_nat_diff)

lemma rawbyte_more:
  assumes "wfu u" and "unread u \<noteq> []"
  shows "unmarshall_rawbyte u = Inr (scast (hd (unread u)), adv u)"
    and "wfu (adv u)" and "unread (adv u) = tl (unread u)"
proof -
  obtain b where b: "u_buf u = Some b" "0 \<le> u_ind u" "u_ind u \<le> u_sz u"
    "u_sz u \<le> int (length b)" "u_sz u \<le> int_max"
    "unread u = drop (nat (u_ind u)) (take (nat (u_sz u)) b)" "int (length b) < 2 ^ 32"
    using assms(1) by (rule wfuE)
  have lt: "u_ind u < u_sz u"
    using assms unread_length [of u] b(3) by (cases "unread u") auto
  have "hd (unread u) = b ! nat (u_ind u)"
    using b lt by (simp add: hd_drop_conv_nth)
  then show "unmarshall_rawbyte u = Inr (scast (hd (unread u)), adv u)"
    using b lt by (simp add: unmarshall_rawbyte_def adv_def)
  show "wfu (adv u)"
    using b lt by (simp add: wfu_def adv_def)
  show "unread (adv u) = tl (unread u)"
    using b by (simp add: unread_def adv_def tl_drop drop_Suc nat_add_distrib flip: drop_Suc)
qed

lemma rawbyte_end:
  assumes "wfu u" and "unread u = []"
  shows "unmarshall_rawbyte u = Inr (0, failed u)"
  using assms unread_length [of u] by (simp add: unmarshall_rawbyte_def failed_def)

text \<open>
  Reading one item: with enough bytes left the value is decoded and exactly its bytes are consumed;
  otherwise the flag is cleared. Neither outcome faults.
\<close>

definition reads :: "unmarshall \<Rightarrow> ('a \<times> unmarshall) res \<Rightarrow> 'a \<Rightarrow> u8 list \<Rightarrow> bool" where
  "reads u g x r \<longleftrightarrow> (\<exists>u'. g = Inr (x, u') \<and> wfu u' \<and> unread u' = r \<and> u_ok u' = u_ok u)"

definition runs_short :: "('a \<times> unmarshall) res \<Rightarrow> bool" where
  "runs_short g \<longleftrightarrow> (\<exists>x u'. g = Inr (x, u') \<and> wfu u' \<and> \<not> u_ok u')"

lemma u8_reads: "wfu u \<Longrightarrow> unread u = a # r \<Longrightarrow> reads u (get_u8 old u) a r"
  by (simp add: reads_def get_u8_def rawbyte_more ucast_scast_u8)

lemma u8_short: "wfu u \<Longrightarrow> unread u = [] \<Longrightarrow> runs_short (get_u8 old u)"
  by (simp add: runs_short_def get_u8_def rawbyte_end)

lemma u16_recombine:
  "(ucast ((ucast (ucast (push_bit 8 (ucast (a :: u8) :: u32)) :: u16) :: u32) OR ucast (b :: u8)) :: u16)
    = dec16 a b"
  by (rule bit_word_eqI) (auto simp: dec16_def bit_simps)

lemma short_recombine:
  "(ucast ((scast (ucast (push_bit 8 (ucast (a :: u8) :: u32)) :: u16) :: u32) OR ucast (b :: u8)) :: u16)
    = dec16 a b"
proof (rule bit_word_eqI)
  fix n assume "n < LENGTH(16)"
  then have "min n 15 = n" by simp
  with \<open>n < LENGTH(16)\<close> show "bit (ucast ((scast (ucast (push_bit 8 (ucast a :: u32)) :: u16) :: u32)
      OR ucast b) :: u16) n = bit (dec16 a b) n"
    by (auto simp: dec16_def bit_simps min.commute)
qed

lemma u16_reads: "wfu u \<Longrightarrow> unread u = a # b # r \<Longrightarrow> reads u (get_u16 old u) (dec16 a b) r"
  by (simp add: reads_def get_u16_def rawbyte_more low_byte_scast Let_def u16_recombine del: push_bit_and)

lemma short_reads: "wfu u \<Longrightarrow> unread u = a # b # r \<Longrightarrow> reads u (get_short old u) (dec16 a b) r"
  by (simp add: reads_def get_short_def rawbyte_more low_byte_scast Let_def short_recombine del: push_bit_and)

lemma u16_short: "wfu u \<Longrightarrow> length (unread u) < 2 \<Longrightarrow> runs_short (get_u16 old u)"
  by (cases "unread u")
    (auto simp: runs_short_def get_u16_def rawbyte_more rawbyte_end Let_def)

lemma u32_reads:
  "wfu u \<Longrightarrow> unread u = a # b # c # d # r \<Longrightarrow> reads u (get_u32 old u) (dec32 a b c d) r"
  by (simp add: reads_def get_u32_def rawbyte_more low_byte_scast Let_def dec32_def or.assoc del: push_bit_and)

lemma u32_short:
  assumes "wfu u" and "length (unread u) < 4"
  shows "runs_short (get_u32 old u)"
proof -
  consider "unread u = []" | a where "unread u = [a]" | a b where "unread u = [a, b]"
    | a b c where "unread u = [a, b, c]"
    using assms(2) by (auto simp: numeral_eq_Suc less_Suc_eq length_Suc_conv)
  then show ?thesis
    using assms(1)
    by cases (simp_all add: runs_short_def get_u32_def rawbyte_more rawbyte_end Let_def)
qed

lemma get_int_u32: "get_int x u = get_u32 y u"
  by (simp add: get_int_def get_u32_def)

lemma unpack_u32: "unpack u = get_u32 y u"
  by (simp add: unpack_def get_u32_def)

lemma be32_reads:
  "wfu u \<Longrightarrow> unread u = be32 x @ r \<Longrightarrow> reads u (get_u32 old u) x r"
  using u32_reads [of u _ _ _ _ r old] by (simp add: be32_def)

lemma be64_recombine: "(ucast (ucast x :: u32) :: u64) OR push_bit 32 (ucast (ucast (drop_bit 32 x) :: u32)) = x"
  by (rule bit_word_eqI) (auto simp: bit_simps not_less)

lemma be64_reads:
  assumes "wfu u" and "unread u = be64 x @ r"
  shows "reads u (get_u64 old u) x r"
proof -
  obtain u1 where u1: "get_u32 0 u = Inr (ucast (drop_bit 32 x), u1)" "wfu u1"
    "unread u1 = be32 (ucast x) @ r" "u_ok u1 = u_ok u"
    using be32_reads [of u "ucast (drop_bit 32 x)" "be32 (ucast x) @ r" 0] assms
    by (auto simp: reads_def be64_def)
  obtain u2 where u2: "get_u32 0 u1 = Inr (ucast x, u2)" "wfu u2" "unread u2 = r"
    "u_ok u2 = u_ok u1"
    using be32_reads [of u1 "ucast x" r 0] u1 by (auto simp: reads_def)
  show ?thesis
    using u1 u2 by (simp add: reads_def get_u64_def be64_recombine)
qed

end
