(* ===== verification/Codec.thy ===== *)
theory Codec
  imports Marshall
begin

text \<open>
  The contract between \<^verbatim>\<open>operator<<\<close> and \<^verbatim>\<open>operator>>\<close> of one type, as a locale: writing appends
  the encoding, reading a message that starts with the encoding gives the value back and consumes
  exactly the encoding. The stricter contract adds that a read whose flag stays set has read an
  encoding. Both are interpreted on the operators of \<^verbatim>\<open>src/rpc/rpc.cc\<close>; pairs, vectors and maps
  (the templates of \<^verbatim>\<open>src/rpc/marshall.h\<close>) are built inside the locales from the codecs of their
  elements.
\<close>

section \<open>The contract\<close>

locale wire_codec =
  fixes put :: "'a \<Rightarrow> marshall \<Rightarrow> marshall res"
    and get :: "'a \<Rightarrow> unmarshall \<Rightarrow> ('a \<times> unmarshall) res"
    and enc :: "'a \<Rightarrow> u8 list"
    and dflt :: 'a
    and fits :: "'a \<Rightarrow> bool"
  assumes put_appends:
      "fits x \<Longrightarrow> wfm m \<Longrightarrow> m_ind m + int (length (enc x)) < msg_limit \<Longrightarrow>
       \<exists>m'. put x m = Inr m' \<and> wfm m' \<and> contents m' = contents m @ map Some (enc x)"
    and get_decodes:
      "fits x \<Longrightarrow> wfu u \<Longrightarrow> u_ok u \<Longrightarrow> unread u = enc x @ r \<Longrightarrow> reads u (get dflt u) x r"

locale strict_codec = wire_codec +
  assumes get_sound:
      "wfu u \<Longrightarrow> get dflt u = Inr (x, u') \<Longrightarrow>
       wfu u' \<and> (u_ok u' \<longrightarrow> u_ok u \<and> fits x \<and> unread u = enc x @ unread u')"

section \<open>Integers and strings\<close>

interpretation u8_codec: strict_codec put_u8 get_u8 "\<lambda>x. [x]" 0 "\<lambda>_. True"
proof
  fix x :: u8 and m r u
  show "wfm m \<Longrightarrow> m_ind m + int (length [x]) < msg_limit \<Longrightarrow>
    \<exists>m'. put_u8 x m = Inr m' \<and> wfm m' \<and> contents m' = contents m @ map Some [x]"
    unfolding put_u8_seq by (rule put_seq_append)
  show "wfu u \<Longrightarrow> u_ok u \<Longrightarrow> unread u = [x] @ r \<Longrightarrow> reads u (get_u8 0 u) x r"
    by (simp add: u8_reads)
next
  fix u and x :: u8 and u'
  assume u: "wfu u" and g: "get_u8 0 u = Inr (x, u')"
  show "wfu u' \<and> (u_ok u' \<longrightarrow> u_ok u \<and> True \<and> unread u = [x] @ unread u')"
    using u g u8_reads [of u _ _ 0] u8_short [of u 0]
    by (cases "unread u") (auto simp: reads_def runs_short_def)
qed

lemma u32_sound:
  assumes "wfu u" and "get_u32 old u = Inr (x, u')"
  shows "wfu u' \<and> (u_ok u' \<longrightarrow> u_ok u \<and> unread u = be32 x @ unread u')"
proof (cases "length (unread u) < 4")
  case True
  with assms u32_short [of u old] show ?thesis by (auto simp: runs_short_def)
next
  case False
  then obtain a b c d r where "unread u = a # b # c # d # r"
    by (cases "unread u" rule: list.exhaust)
      (auto simp: numeral_eq_Suc neq_Nil_conv Suc_le_length_iff not_less)
  with assms u32_reads [of u a b c d r old] show ?thesis by (auto simp: reads_def)
qed

interpretation u32_codec: strict_codec put_u32 get_u32 be32 0 "\<lambda>_. True"
proof
  fix x m and u :: unmarshall and r u'
  show "wfm m \<Longrightarrow> m_ind m + int (length (be32 x)) < msg_limit \<Longrightarrow>
    \<exists>m'. put_u32 x m = Inr m' \<and> wfm m' \<and> contents m' = contents m @ map Some (be32 x)"
    unfolding put_u32_seq by (rule put_seq_append)
  show "wfu u \<Longrightarrow> u_ok u \<Longrightarrow> unread u = be32 x @ r \<Longrightarrow> reads u (get_u32 0 u) x r"
    by (rule be32_reads)
  show "wfu u \<Longrightarrow> get_u32 0 u = Inr (x, u') \<Longrightarrow>
    wfu u' \<and> (u_ok u' \<longrightarrow> u_ok u \<and> True \<and> unread u = be32 x @ unread u')"
    using u32_sound [of u 0 x u'] by simp
qed

text \<open>An \<^verbatim>\<open>int\<close> goes over the wire as the unsigned word with the same bits.\<close>

interpretation int_codec: strict_codec put_int get_int be32 0 "\<lambda>_. True"
proof
  fix x m and u :: unmarshall and r u'
  show "wfm m \<Longrightarrow> m_ind m + int (length (be32 x)) < msg_limit \<Longrightarrow>
    \<exists>m'. put_int x m = Inr m' \<and> wfm m' \<and> contents m' = contents m @ map Some (be32 x)"
    unfolding put_int_def by (rule u32_codec.put_appends [OF TrueI])
  show "wfu u \<Longrightarrow> u_ok u \<Longrightarrow> unread u = be32 x @ r \<Longrightarrow> reads u (get_int 0 u) x r"
    unfolding get_int_u32 [of 0 u 0] by (rule be32_reads)
  show "wfu u \<Longrightarrow> get_int 0 u = Inr (x, u') \<Longrightarrow>
    wfu u' \<and> (u_ok u' \<longrightarrow> u_ok u \<and> True \<and> unread u = be32 x @ unread u')"
    using u32_sound [of u 0 x u'] unfolding get_int_u32 [of 0 u 0] by simp
qed

lemma be64_recombine2: "be64 ((ucast (l :: u32) :: u64) OR push_bit 32 (ucast (h :: u32))) = be32 h @ be32 l"
proof -
  have "(ucast (drop_bit 32 ((ucast l :: u64) OR push_bit 32 (ucast h))) :: u32) = h"
    by (rule bit_word_eqI) (auto simp: bit_simps dest: bit_imp_le_length)
  moreover have "(ucast ((ucast l :: u64) OR push_bit 32 (ucast h)) :: u32) = l"
    by (rule bit_word_eqI) (auto simp: bit_simps)
  ultimately show ?thesis by (simp add: be64_def)
qed

interpretation u64_codec: strict_codec put_u64 get_u64 be64 0 "\<lambda>_. True"
proof
  fix x m and u :: unmarshall and r
  show "wfm m \<Longrightarrow> m_ind m + int (length (be64 x)) < msg_limit \<Longrightarrow>
    \<exists>m'. put_u64 x m = Inr m' \<and> wfm m' \<and> contents m' = contents m @ map Some (be64 x)"
    unfolding put_u64_seq by (rule put_seq_append)
  show "wfu u \<Longrightarrow> u_ok u \<Longrightarrow> unread u = be64 x @ r \<Longrightarrow> reads u (get_u64 0 u) x r"
    by (rule be64_reads)
next
  fix u x u'
  assume u: "wfu u" and g: "get_u64 0 u = Inr (x, u')"
  from g obtain h u1 l where h: "get_u32 0 u = Inr (h, u1)" and l: "get_u32 0 u1 = Inr (l, u')"
    and x: "x = ucast l OR push_bit 32 (ucast h)"
    by (auto simp: get_u64_def rbind_eq_Inr)
  show "wfu u' \<and> (u_ok u' \<longrightarrow> u_ok u \<and> True \<and> unread u = be64 x @ unread u')"
    using u32_sound [OF u h] u32_sound [OF _ l] by (auto simp: x be64_recombine2)
qed

subsection \<open>Strings\<close>

definition enc_string :: "u8 list \<Rightarrow> u8 list" where
  "enc_string s = be32 (word_of_nat (length s)) @ s"

definition string_fits :: "u8 list \<Rightarrow> bool" where
  "string_fits s \<longleftrightarrow> length s < 2 ^ 31"

lemma uint_offset: "0 \<le> i \<Longrightarrow> i \<le> int_max \<Longrightarrow> uint (word_of_int i :: u32) = i"
  by (simp add: uint_word_of_int int_max_def)

text \<open>The unsigned bound test, read in integers: the sum wraps at 2^32.\<close>

lemma rawbytes_test:
  assumes "0 \<le> i" and "i \<le> sz" and "sz \<le> int_max"
  shows "(word_of_int i + n > (word_of_int sz :: u32)) \<longleftrightarrow> (i + uint n) mod 2 ^ 32 > sz"
  using assms by (simp add: word_less_def uint_word_ariths uint_offset)

lemma rawbytes_in:
  assumes "wfu u" and "uint n \<le> int (length (unread u))"
  shows "\<exists>u'. unmarshall_rawbytes ss n u = Inr (take (unat n) (unread u), u') \<and> wfu u' \<and>
    unread u' = drop (unat n) (unread u) \<and> u_ok u' = u_ok u"
proof -
  obtain b where b: "u_buf u = Some b" "0 \<le> u_ind u" "u_ind u \<le> u_sz u"
    "u_sz u \<le> int (length b)" "u_sz u \<le> int_max"
    "unread u = drop (nat (u_ind u)) (take (nat (u_sz u)) b)" "int (length b) < 2 ^ 32"
    using assms(1) by (rule wfuE)
  have le: "u_ind u + uint n \<le> u_sz u"
    using assms unread_length [of u] by simp
  have small: "(u_ind u + uint n) mod 2 ^ 32 = u_ind u + uint n"
    using le b by (intro mod_pos_pos_trivial) (auto simp: int_max_def)
  have test: "\<not> word_of_int (u_ind u) + n > (word_of_int (u_sz u) :: u32)"
    using rawbytes_test [of "u_ind u" "u_sz u" n] b le small by simp
  have idx: "sint (word_of_int (u_ind u) + n) = u_ind u + uint n"
  proof -
    have "uint (word_of_int (u_ind u) + n) = u_ind u + uint n"
      using b small by (simp add: uint_word_ariths uint_offset)
    moreover have "u_ind u + uint n < 2 ^ 31"
      using le b by (simp add: int_max_def)
    moreover have "0 \<le> u_ind u + uint n"
      using b by simp
    ultimately show ?thesis
      using to_int32_id [of "u_ind u + uint n"] by (simp add: sint_uint to_int32_def)
  qed
  have nat_idx: "nat (u_ind u + uint n) = unat n + nat (u_ind u)"
    using b by (simp add: nat_add_distrib)
  let ?u' = "u\<lparr>u_ind := u_ind u + uint n\<rparr>"
  have u': "wfu ?u'" "unread ?u' = drop (unat n) (unread u)"
    using b le by (simp_all add: wfu_def unread_def nat_idx)
  have "uint n \<le> int (nat (u_sz u) - nat (u_ind u))"
    using b le by (simp add: of_nat_diff)
  then have "unat n \<le> nat (u_sz u) - nat (u_ind u)"
    by (simp only: uint_le_int)
  then have "take (unat n) (unread u) = take (unat n) (drop (nat (u_ind u)) b)"
    using b by (simp add: drop_take min_absorb1)
  then have "unmarshall_rawbytes ss n u = Inr (take (unat n) (unread u), ?u')"
    using test b le by (auto simp: unmarshall_rawbytes_def Let_def idx)
  with u' show ?thesis by simp
qed

lemma rawbytes_out:
  assumes "wfu u" and "int (length (unread u)) < uint n"
  shows "unmarshall_rawbytes ss n u =
    (if u_ind u + uint n < 2 ^ 32 then Inr (ss, failed u) else Inl Out_of_bounds)"
proof -
  obtain b where b: "u_buf u = Some b" "0 \<le> u_ind u" "u_ind u \<le> u_sz u"
    "u_sz u \<le> int (length b)" "u_sz u \<le> int_max" "int (length b) < 2 ^ 32"
    using assms(1) by (rule wfuE)
  have gt: "u_sz u < u_ind u + uint n" and pos: "n \<noteq> 0"
    using assms unread_length [of u] by auto
  have bound: "uint n < 2 ^ 32"
    using uint_bounded [of n] by simp
  have wrap: "(u_ind u + uint n) mod 2 ^ 32 = u_ind u + uint n - 2 ^ 32" if "2 ^ 32 \<le> u_ind u + uint n"
  proof -
    have "(u_ind u + uint n - 2 ^ 32) mod 2 ^ 32 = u_ind u + uint n - 2 ^ 32"
      using that b bound by (intro mod_pos_pos_trivial) (simp_all add: int_max_def)
    then show ?thesis by (simp add: mod_diff_eq [symmetric])
  qed
  have "(word_of_int (u_ind u) + n > (word_of_int (u_sz u) :: u32)) \<longleftrightarrow> u_ind u + uint n < 2 ^ 32"
    using rawbytes_test [of "u_ind u" "u_sz u" n] b gt bound wrap
    by (cases "u_ind u + uint n < 2 ^ 32") (simp_all add: mod_pos_pos_trivial)
  then show ?thesis
    using b gt pos by (auto simp: unmarshall_rawbytes_def Let_def failed_def)
qed

lemma string_length_word: "length s < 2 ^ 32 \<Longrightarrow> unat (word_of_nat (length s) :: u32) = length s"
  by (simp add: unat_of_nat)

interpretation string_codec: strict_codec put_string get_string enc_string "[]" string_fits
proof
  fix x m
  assume fits: "string_fits x" and m: "wfm m" "m_ind m + int (length (enc_string x)) < msg_limit"
  obtain m1 where m1: "put_u32 (word_of_nat (length x)) m = Inr m1" "wfm m1"
    "contents m1 = contents m @ map Some (be32 (word_of_nat (length x)))"
    using u32_codec.put_appends [of m "word_of_nat (length x)"] m by (auto simp: enc_string_def)
  have "m_ind m1 = m_ind m + 4"
    using m1 m(1) length_contents [of m1] length_contents [of m] by simp
  then obtain m2 where "marshall_rawbytes x (int (length x)) m1 = Inr m2" "wfm m2"
    "contents m2 = contents m1 @ map Some x"
    using marshall_rawbytes_append [of m1 x] m1 m by (auto simp: enc_string_def)
  moreover have "to_int32 (int (length x)) = int (length x)"
    using fits by (intro to_int32_id) (simp_all add: string_fits_def)
  ultimately show "\<exists>m'. put_string x m = Inr m' \<and> wfm m' \<and>
      contents m' = contents m @ map Some (enc_string x)"
    using m1 by (simp add: put_string_def enc_string_def)
next
  fix x u r
  assume fits: "string_fits x" and u: "wfu u" "u_ok u" "unread u = enc_string x @ r"
  obtain u1 where u1: "get_u32 0 u = Inr (word_of_nat (length x), u1)" "wfu u1"
    "unread u1 = x @ r" "u_ok u1"
    using u32_codec.get_decodes [of u "word_of_nat (length x)" "x @ r"] u
    by (auto simp: reads_def enc_string_def)
  have n: "unat (word_of_nat (length x) :: u32) = length x"
    using fits by (intro string_length_word) (simp add: string_fits_def)
  have "uint (word_of_nat (length x) :: u32) \<le> int (length (unread u1))"
    by (simp only: uint_le_int n u1) simp
  from rawbytes_in [OF u1(2) this, of "[]"] u1 u(2) show "reads u (get_string [] u) x r"
    by (auto simp: reads_def get_string_def n)
next
  fix u x u'
  assume u: "wfu u" and g: "get_string [] u = Inr (x, u')"
  then obtain n u1 where n: "get_u32 0 u = Inr (n, u1)"
    and r: "(if u_ok u1 then unmarshall_rawbytes [] n u1 else Inr ([], u1)) = Inr (x, u')"
    by (auto simp: get_string_def rbind_eq_Inr)
  have u1: "wfu u1" "u_ok u1 \<longrightarrow> u_ok u \<and> unread u = be32 n @ unread u1"
    using u32_sound [OF u n] by auto
  show "wfu u' \<and> (u_ok u' \<longrightarrow> u_ok u \<and> string_fits x \<and> unread u = enc_string x @ unread u')"
  proof (cases "u_ok u1 \<and> uint n \<le> int (length (unread u1))")
    case True
    then have "x = take (unat n) (unread u1)" "wfu u'" "unread u' = drop (unat n) (unread u1)"
      using rawbytes_in [OF u1(1), of n "[]"] r by auto
    moreover have "unat n \<le> length (unread u1)"
      using True by (simp only: uint_le_int)
    moreover have "length (unread u1) < 2 ^ 31"
      using u1(1) unread_length [OF u1(1)] by (elim wfuE) (simp add: int_max_def)
    ultimately show ?thesis
      using True u1(2) by (simp add: enc_string_def string_fits_def)
  next
    case False
    then have "wfu u' \<and> \<not> u_ok u'"
      using r u1(1) rawbytes_out [OF u1(1), of n "[]"] by (auto split: if_splits)
    then show ?thesis by simp
  qed
qed

section \<open>Sequences of values\<close>

text \<open>Two values in a row, the building block of argument lists and of map entries.\<close>

definition put_pair ::
  "('a \<Rightarrow> marshall \<Rightarrow> marshall res) \<Rightarrow> ('b \<Rightarrow> marshall \<Rightarrow> marshall res) \<Rightarrow>
   'a \<times> 'b \<Rightarrow> marshall \<Rightarrow> marshall res" where
  "put_pair putA putB p m = rbind (putA (fst p) m) (\<lambda>m. putB (snd p) m)"

definition get_pair ::
  "('a \<Rightarrow> unmarshall \<Rightarrow> ('a \<times> unmarshall) res) \<Rightarrow> ('b \<Rightarrow> unmarshall \<Rightarrow> ('b \<times> unmarshall) res) \<Rightarrow>
   'a \<times> 'b \<Rightarrow> unmarshall \<Rightarrow> (('a \<times> 'b) \<times> unmarshall) res" where
  "get_pair getA getB old u =
     rbind (getA (fst old) u) (\<lambda>(a, u).
     rbind (getB (snd old) u) (\<lambda>(b, u).
     Inr ((a, b), u)))"

locale pair_codec = A: strict_codec putA getA encA dfltA fitsA + B: strict_codec putB getB encB dfltB fitsB
  for putA :: "'a \<Rightarrow> marshall \<Rightarrow> marshall res" and getA encA dfltA fitsA
    and putB :: "'b \<Rightarrow> marshall \<Rightarrow> marshall res" and getB encB dfltB fitsB

sublocale pair_codec \<subseteq> strict_codec "put_pair putA putB" "get_pair getA getB"
  "\<lambda>p. encA (fst p) @ encB (snd p)" "(dfltA, dfltB)" "\<lambda>p. fitsA (fst p) \<and> fitsB (snd p)"
proof
  fix x :: "'a \<times> 'b" and m
  assume x: "fitsA (fst x) \<and> fitsB (snd x)" and m: "wfm m"
    "m_ind m + int (length (encA (fst x) @ encB (snd x))) < msg_limit"
  obtain m1 where m1: "putA (fst x) m = Inr m1" "wfm m1"
    "contents m1 = contents m @ map Some (encA (fst x))"
    using A.put_appends [of "fst x" m] x m by auto
  then have "m_ind m1 = m_ind m + int (length (encA (fst x)))"
    using length_contents [of m1] length_contents [of m] m(1) by simp
  then obtain m2 where "putB (snd x) m1 = Inr m2" "wfm m2"
    "contents m2 = contents m1 @ map Some (encB (snd x))"
    using B.put_appends [of "snd x" m1] x m m1 by auto
  with m1 show "\<exists>m'. put_pair putA putB x m = Inr m' \<and> wfm m' \<and>
      contents m' = contents m @ map Some (encA (fst x) @ encB (snd x))"
    by (simp add: put_pair_def)
next
  fix x :: "'a \<times> 'b" and u r
  assume x: "fitsA (fst x) \<and> fitsB (snd x)" and u: "wfu u" "u_ok u"
    "unread u = (encA (fst x) @ encB (snd x)) @ r"
  obtain u1 where u1: "getA dfltA u = Inr (fst x, u1)" "wfu u1" "unread u1 = encB (snd x) @ r" "u_ok u1"
    using A.get_decodes [of "fst x" u "encB (snd x) @ r"] x u by (auto simp: reads_def)
  with B.get_decodes [of "snd x" u1 r] x u
  show "reads u (get_pair getA getB (dfltA, dfltB) u) x r"
    by (auto simp: reads_def get_pair_def)
next
  fix u and x :: "'a \<times> 'b" and u'
  assume u: "wfu u" and "get_pair getA getB (dfltA, dfltB) u = Inr (x, u')"
  then obtain u1 where g: "getA dfltA u = Inr (fst x, u1)" "getB dfltB u1 = Inr (snd x, u')"
    by (auto simp: get_pair_def rbind_eq_Inr)
  show "wfu u' \<and> (u_ok u' \<longrightarrow> u_ok u \<and> (fitsA (fst x) \<and> fitsB (snd x)) \<and>
      unread u = (encA (fst x) @ encB (snd x)) @ unread u')"
    using A.get_sound [OF u g(1)] B.get_sound [OF _ g(2)] by auto
qed

subsection \<open>Vectors\<close>

text \<open>The template operators for \<^verbatim>\<open>std::vector\<close>, over the operators of the element type.\<close>

fun put_each :: "('a \<Rightarrow> marshall \<Rightarrow> marshall res) \<Rightarrow> 'a list \<Rightarrow> marshall \<Rightarrow> marshall res" where
  "put_each p [] m = Inr m"
| "put_each p (x # xs) m = rbind (p x m) (\<lambda>m. put_each p xs m)"

definition put_vector ::
  "('a \<Rightarrow> marshall \<Rightarrow> marshall res) \<Rightarrow> 'a list \<Rightarrow> marshall \<Rightarrow> marshall res" where
  "put_vector p v m = rbind (put_u32 (word_of_nat (length v)) m) (\<lambda>m. put_each p v m)"

fun get_each ::
  "('a \<Rightarrow> unmarshall \<Rightarrow> ('a \<times> unmarshall) res) \<Rightarrow> 'a \<Rightarrow> nat \<Rightarrow> 'a list \<Rightarrow> unmarshall \<Rightarrow>
   ('a list \<times> unmarshall) res" where
  "get_each g z 0 v u = Inr (v, u)"
| "get_each g z (Suc n) v u = rbind (g z u) (\<lambda>(x, u). get_each g z n (v @ [x]) u)"

definition get_vector ::
  "('a \<Rightarrow> unmarshall \<Rightarrow> ('a \<times> unmarshall) res) \<Rightarrow> 'a \<Rightarrow> 'a list \<Rightarrow> unmarshall \<Rightarrow>
   ('a list \<times> unmarshall) res" where
  "get_vector g z v u = rbind (get_u32 0 u) (\<lambda>(n, u). get_each g z (unat n) v u)"

text \<open>
  The template operators for \<^verbatim>\<open>std::map\<close>. A \<^verbatim>\<open>std::map\<close> is the list of its entries in the
  order of its keys; \<open>map_store\<close> is \<^verbatim>\<open>d[a] = b\<close>.
\<close>

fun map_store :: "'a::linorder \<Rightarrow> 'b \<Rightarrow> ('a \<times> 'b) list \<Rightarrow> ('a \<times> 'b) list" where
  "map_store a b [] = [(a, b)]"
| "map_store a b ((k, v) # d) =
     (if a < k then (a, b) # (k, v) # d
      else if a = k then (a, b) # d
      else (k, v) # map_store a b d)"

definition put_map ::
  "('a::linorder \<Rightarrow> marshall \<Rightarrow> marshall res) \<Rightarrow> ('b \<Rightarrow> marshall \<Rightarrow> marshall res) \<Rightarrow>
   ('a \<times> 'b) list \<Rightarrow> marshall \<Rightarrow> marshall res" where
  "put_map pA pB d m =
     rbind (put_u32 (word_of_nat (length d)) m) (\<lambda>m. put_each (put_pair pA pB) d m)"

fun get_entries ::
  "('a::linorder \<Rightarrow> unmarshall \<Rightarrow> ('a \<times> unmarshall) res) \<Rightarrow> ('b \<Rightarrow> unmarshall \<Rightarrow> ('b \<times> unmarshall) res) \<Rightarrow>
   'a \<times> 'b \<Rightarrow> nat \<Rightarrow> ('a \<times> 'b) list \<Rightarrow> unmarshall \<Rightarrow> (('a \<times> 'b) list \<times> unmarshall) res" where
  "get_entries gA gB z 0 d u = Inr (d, u)"
| "get_entries gA gB z (Suc n) d u =
     rbind (get_pair gA gB z u) (\<lambda>((a, b), u). get_entries gA gB z n (map_store a b d) u)"

definition get_map ::
  "('a::linorder \<Rightarrow> unmarshall \<Rightarrow> ('a \<times> unmarshall) res) \<Rightarrow> ('b \<Rightarrow> unmarshall \<Rightarrow> ('b \<times> unmarshall) res) \<Rightarrow>
   'a \<times> 'b \<Rightarrow> ('a \<times> 'b) list \<Rightarrow> unmarshall \<Rightarrow> (('a \<times> 'b) list \<times> unmarshall) res" where
  "get_map gA gB z d u = rbind (get_u32 0 u) (\<lambda>(n, u). get_entries gA gB z (unat n) [] u)"

definition enc_vector :: "('a \<Rightarrow> u8 list) \<Rightarrow> 'a list \<Rightarrow> u8 list" where
  "enc_vector e v = be32 (word_of_nat (length v)) @ concat (map e v)"

definition vector_fits :: "('a \<Rightarrow> bool) \<Rightarrow> 'a list \<Rightarrow> bool" where
  "vector_fits f v \<longleftrightarrow> length v < 2 ^ 32 \<and> (\<forall>x \<in> set v. f x)"

definition map_fits :: "('a::linorder \<Rightarrow> bool) \<Rightarrow> ('b \<Rightarrow> bool) \<Rightarrow> ('a \<times> 'b) list \<Rightarrow> bool" where
  "map_fits f g d \<longleftrightarrow>
     vector_fits (\<lambda>p. f (fst p) \<and> g (snd p)) d \<and> sorted_wrt (<) (map fst d)"

context wire_codec
begin

lemma put_each_appends:
  "\<forall>x \<in> set v. fits x \<Longrightarrow> wfm m \<Longrightarrow> m_ind m + int (length (concat (map enc v))) < msg_limit \<Longrightarrow>
   \<exists>m'. put_each put v m = Inr m' \<and> wfm m' \<and> contents m' = contents m @ map Some (concat (map enc v))"
proof (induction v arbitrary: m)
  case Nil
  then show ?case by simp
next
  case (Cons x v)
  then obtain m1 where m1: "put x m = Inr m1" "wfm m1" "contents m1 = contents m @ map Some (enc x)"
    using put_appends [of x m] by auto
  then have "m_ind m1 = m_ind m + int (length (enc x))"
    using length_contents [of m1] length_contents [of m] Cons.prems(2) by simp
  with Cons.IH [of m1] Cons.prems m1 show ?case by auto
qed

lemma put_counted:
  assumes "vector_fits fits v" and "wfm m" and "m_ind m + int (length (enc_vector enc v)) < msg_limit"
  shows "\<exists>m'. rbind (put_u32 (word_of_nat (length v)) m) (put_each put v) = Inr m' \<and> wfm m' \<and>
    contents m' = contents m @ map Some (enc_vector enc v)"
proof -
  obtain m1 where m1: "put_u32 (word_of_nat (length v)) m = Inr m1" "wfm m1"
    "contents m1 = contents m @ map Some (be32 (word_of_nat (length v)))"
    using u32_codec.put_appends [of m "word_of_nat (length v)"] assms by (auto simp: enc_vector_def)
  then have "m_ind m1 = m_ind m + 4"
    using length_contents [of m1] length_contents [of m] assms(2) by simp
  with put_each_appends [of v m1] assms m1 show ?thesis
    by (auto simp: enc_vector_def vector_fits_def)
qed

lemma get_each_decodes:
  "\<forall>x \<in> set v. fits x \<Longrightarrow> wfu u \<Longrightarrow> u_ok u \<Longrightarrow> unread u = concat (map enc v) @ r \<Longrightarrow>
   reads u (get_each get dflt (length v) w u) (w @ v) r"
proof (induction v arbitrary: u w)
  case Nil
  then show ?case by (simp add: reads_def)
next
  case (Cons x v)
  then obtain u1 where u1: "get dflt u = Inr (x, u1)" "wfu u1" "u_ok u1"
    "unread u1 = concat (map enc v) @ r"
    using get_decodes [of x u "concat (map enc v) @ r"] by (auto simp: reads_def)
  with Cons.IH [of u1 "w @ [x]"] Cons.prems show ?case
    by (auto simp: reads_def)
qed

lemma count_decodes:
  assumes "length v < 2 ^ 32" and "wfu u" and "unread u = enc_vector enc v @ r"
  shows "\<exists>u1. get_u32 0 u = Inr (word_of_nat (length v), u1) \<and> wfu u1 \<and> u_ok u1 = u_ok u \<and>
    unat (word_of_nat (length v) :: u32) = length v \<and> unread u1 = concat (map enc v) @ r"
  using be32_reads [of u "word_of_nat (length v)" "concat (map enc v) @ r" 0] assms
    string_length_word [OF assms(1)]
  by (auto simp: reads_def enc_vector_def)

lemma vector_codec:
  "wire_codec (put_vector put) (get_vector get dflt) (enc_vector enc) [] (vector_fits fits)"
proof
  fix v m
  show "vector_fits fits v \<Longrightarrow> wfm m \<Longrightarrow> m_ind m + int (length (enc_vector enc v)) < msg_limit \<Longrightarrow>
    \<exists>m'. put_vector put v m = Inr m' \<and> wfm m' \<and> contents m' = contents m @ map Some (enc_vector enc v)"
    unfolding put_vector_def by (rule put_counted)
next
  fix v u r
  assume v: "vector_fits fits v" and u: "wfu u" "u_ok u" "unread u = enc_vector enc v @ r"
  obtain u1 where u1: "get_u32 0 u = Inr (word_of_nat (length v), u1)" "wfu u1" "u_ok u1"
    "unat (word_of_nat (length v) :: u32) = length v" "unread u1 = concat (map enc v) @ r"
    using count_decodes [of v u r] v u by (auto simp: vector_fits_def)
  with get_each_decodes [of v u1 r "[]"] v u show "reads u (get_vector get dflt [] u) v r"
    by (auto simp: reads_def get_vector_def vector_fits_def)
qed

end

subsection \<open>Maps\<close>

lemma map_store_above:
  "\<forall>k \<in> set (map fst d). k < a \<Longrightarrow> map_store a b d = d @ [(a, b)]"
  by (induction d) auto

text \<open>A codec for the entries of a map whose keys are ordered.\<close>

locale map_codec = pair_codec putA getA encA dfltA fitsA putB getB encB dfltB fitsB
  for putA :: "'a::linorder \<Rightarrow> marshall \<Rightarrow> marshall res" and getA encA dfltA fitsA
    and putB :: "'b \<Rightarrow> marshall \<Rightarrow> marshall res" and getB encB dfltB fitsB
begin

abbreviation enc_entry :: "'a \<times> 'b \<Rightarrow> u8 list" where
  "enc_entry p \<equiv> encA (fst p) @ encB (snd p)"

lemma get_entries_decodes:
  "\<forall>p \<in> set v. fitsA (fst p) \<and> fitsB (snd p) \<Longrightarrow> sorted_wrt (<) (map fst (w @ v)) \<Longrightarrow>
   wfu u \<Longrightarrow> u_ok u \<Longrightarrow> unread u = concat (map enc_entry v) @ r \<Longrightarrow>
   reads u (get_entries getA getB (dfltA, dfltB) (length v) w u) (w @ v) r"
proof (induction v arbitrary: u w)
  case Nil
  then show ?case by (simp add: reads_def)
next
  case (Cons x v)
  then obtain u1 where u1: "get_pair getA getB (dfltA, dfltB) u = Inr (x, u1)" "wfu u1" "u_ok u1"
    "unread u1 = concat (map enc_entry v) @ r"
    using get_decodes [of x u "concat (map enc_entry v) @ r"] by (auto simp: reads_def)
  have "map_store (fst x) (snd x) w = w @ [x]"
    using Cons.prems(2) map_store_above [of w "fst x" "snd x"] by (auto simp: sorted_wrt_append)
  with Cons.IH [of "w @ [x]" u1] Cons.prems u1 show ?case
    by (cases x) (auto simp: reads_def)
qed

lemma map_wire_codec:
  "wire_codec (put_map putA putB) (get_map getA getB (dfltA, dfltB)) (enc_vector enc_entry) []
     (map_fits fitsA fitsB)"
proof
  fix d m
  show "map_fits fitsA fitsB d \<Longrightarrow> wfm m \<Longrightarrow>
    m_ind m + int (length (enc_vector enc_entry d)) < msg_limit \<Longrightarrow>
    \<exists>m'. put_map putA putB d m = Inr m' \<and> wfm m' \<and>
      contents m' = contents m @ map Some (enc_vector enc_entry d)"
    unfolding put_map_def map_fits_def by (rule put_counted) auto
next
  fix d u r
  assume d: "map_fits fitsA fitsB d" and u: "wfu u" "u_ok u" "unread u = enc_vector enc_entry d @ r"
  obtain u1 where u1: "get_u32 0 u = Inr (word_of_nat (length d), u1)" "wfu u1" "u_ok u1"
    "unat (word_of_nat (length d) :: u32) = length d" "unread u1 = concat (map enc_entry d) @ r"
    using count_decodes [of d u r] d u by (auto simp: map_fits_def vector_fits_def)
  with get_entries_decodes [of d "[]" u1 r] d u
  show "reads u (get_map getA getB (dfltA, dfltB) [] u) d r"
    by (auto simp: reads_def get_map_def map_fits_def vector_fits_def)
qed

end

section \<open>Properties of the wire format\<close>

text \<open>A complete message as the receiver sees it: the sender's bytes, in an exact block.\<close>

definition received :: "u8 list \<Rightarrow> unmarshall \<Rightarrow> bool" where
  "received bs u \<longleftrightarrow> wfu u \<and> u_ok u \<and> unread u = bs"

interpretation string_map: map_codec put_u32 get_u32 be32 0 "\<lambda>_. True"
  put_string get_string enc_string "[]" string_fits
  by unfold_locales

interpretation string_vector: wire_codec "put_vector put_string" "get_vector get_string []"
  "enc_vector enc_string" "[]" "vector_fits string_fits"
  by (rule string_codec.vector_codec)

text \<open>
  C27. A vector of strings survives the wire: every string vector that fits its length fields and
  the message limit is written without a fault, and reading the bytes written gives the same
  vector, with the flag still set and nothing left over.
\<close>

theorem string_vector_roundtrip:
  assumes "vector_fits string_fits v" and "wfm m"
    and "m_ind m + int (length (enc_vector enc_string v)) < msg_limit"
  shows "\<exists>m' bs. put_vector put_string v m = Inr m' \<and> wfm m' \<and>
    contents m' = contents m @ map Some bs \<and>
    (\<forall>u. received bs u \<longrightarrow>
      (\<exists>u'. get_vector get_string [] [] u = Inr (v, u') \<and> okdone u'))"
proof -
  obtain m' where m': "put_vector put_string v m = Inr m'" "wfm m'"
    "contents m' = contents m @ map Some (enc_vector enc_string v)"
    using string_vector.put_appends [OF assms] by blast
  have "\<exists>u'. get_vector get_string [] [] u = Inr (v, u') \<and> okdone u'"
    if "received (enc_vector enc_string v) u" for u
    using string_vector.get_decodes [OF assms(1), of u "[]"] that
    by (auto simp: received_def reads_def okdone_def dest!: unread_length)
  with m' show ?thesis by blast
qed

theorem string_vector_roundtrip_witness:
  "\<exists>m' bs. put_vector put_string [[1, 2], [], [3]] marshall_new = Inr m' \<and> wfm m' \<and>
    contents m' = contents marshall_new @ map Some bs \<and>
    (\<forall>u. received bs u \<longrightarrow>
      (\<exists>u'. get_vector get_string [] [] u = Inr ([[1, 2], [], [3]], u') \<and> okdone u'))"
  by (rule string_vector_roundtrip)
    (simp_all add: vector_fits_def string_fits_def enc_vector_def enc_string_def msg_limit_def)

text \<open>
  A map from integers to strings survives the wire in the same way.
\<close>

theorem string_map_roundtrip:
  assumes "map_fits (\<lambda>_. True) string_fits d" and "wfm m"
    and "m_ind m + int (length (enc_vector (\<lambda>p. be32 (fst p) @ enc_string (snd p)) d)) < msg_limit"
  shows "\<exists>m' bs. put_map put_u32 put_string d m = Inr m' \<and> wfm m' \<and>
    contents m' = contents m @ map Some bs \<and>
    (\<forall>u. received bs u \<longrightarrow>
      (\<exists>u'. get_map get_u32 get_string (0, []) [] u = Inr (d, u') \<and> okdone u'))"
proof -
  let ?e = "enc_vector (\<lambda>p. be32 (fst p) @ enc_string (snd p)) d"
  obtain m' where m': "put_map put_u32 put_string d m = Inr m'" "wfm m'"
    "contents m' = contents m @ map Some ?e"
    using wire_codec.put_appends [OF string_map.map_wire_codec assms] by blast
  have "\<exists>u'. get_map get_u32 get_string (0, []) [] u = Inr (d, u') \<and> okdone u'"
    if "received ?e u" for u
    using wire_codec.get_decodes [OF string_map.map_wire_codec assms(1), of u "[]"] that
    by (auto simp: received_def reads_def okdone_def dest!: unread_length)
  with m' show ?thesis by blast
qed

theorem string_map_roundtrip_witness:
  "\<exists>m' bs. put_map put_u32 put_string [(1, [7]), (5, [])] marshall_new = Inr m' \<and> wfm m' \<and>
    contents m' = contents marshall_new @ map Some bs \<and>
    (\<forall>u. received bs u \<longrightarrow>
      (\<exists>u'. get_map get_u32 get_string (0, []) [] u = Inr ([(1, [7]), (5, [])], u') \<and> okdone u'))"
  by (rule string_map_roundtrip)
    (simp_all add: map_fits_def vector_fits_def string_fits_def enc_vector_def enc_string_def
      msg_limit_def)

end
