(* ===== verification/Message.thy ===== *)
theory Message
  imports Codec
begin

text \<open>
  Whole messages: a payload written behind the space reserved for the header, the header packed
  over that space (\<^verbatim>\<open>marshall::pack_req_header\<close>, \<^verbatim>\<open>pack_reply_header\<close>), and the receiving side
  (\<^verbatim>\<open>unpack_req_header\<close>, \<^verbatim>\<open>unpack_reply_header\<close>, \<^verbatim>\<open>take_in\<close>).
\<close>

section \<open>Packing a header\<close>

lemma marshall_rawbyte_inside:
  assumes "m_buf m = Some b" and "m_capa m = int (length b)" and "0 \<le> m_ind m"
    and "m_ind m < int (length b)" and "m_ind m < int_max"
  shows "marshall_rawbyte x m =
    Inr (m\<lparr>m_buf := Some (b[nat (m_ind m) := Some x]), m_ind := m_ind m + 1\<rparr>)"
proof -
  have "poke (Some b) (m_ind m) [Some x] = Inr (Some (b[nat (m_ind m) := Some x]))"
    using assms by (simp add: poke_def upd_conv_take_nth_drop nat_less_iff)
  with assms show ?thesis
    by (simp add: marshall_rawbyte_def in_int_def int_max_def)
qed

lemma put_seq_inside:
  "m_buf m = Some b \<Longrightarrow> m_capa m = int (length b) \<Longrightarrow> 0 \<le> m_ind m \<Longrightarrow>
   m_ind m + int (length bs) \<le> int (length b) \<Longrightarrow> m_ind m + int (length bs) \<le> int_max \<Longrightarrow>
   put_seq bs m =
     Inr (m\<lparr>m_buf := Some (take (nat (m_ind m)) b @ map Some bs @ drop (nat (m_ind m) + length bs) b),
            m_ind := m_ind m + int (length bs)\<rparr>)"
proof (induction bs arbitrary: m b)
  case Nil
  then show ?case by simp
next
  case (Cons x bs)
  let ?i = "nat (m_ind m)"
  let ?m = "m\<lparr>m_buf := Some (b[?i := Some x]), m_ind := m_ind m + 1\<rparr>"
  have "marshall_rawbyte x m = Inr ?m"
    using Cons.prems by (intro marshall_rawbyte_inside) auto
  moreover have "put_seq bs ?m = Inr (?m\<lparr>m_buf := Some (take (nat (m_ind ?m)) (b[?i := Some x]) @
      map Some bs @ drop (nat (m_ind ?m) + length bs) (b[?i := Some x])),
      m_ind := m_ind ?m + int (length bs)\<rparr>)"
    using Cons.prems by (intro Cons.IH) auto
  moreover have "nat (m_ind m + 1) = Suc ?i" and "?i < length b"
    using Cons.prems by auto
  ultimately show ?case
    by (simp add: take_Suc_conv_app_nth take_update_swap drop_update_swap list_update_append
        algebra_simps)
qed

text \<open>The 20 bytes of a packed request header, the 8 bytes of a reply header.\<close>

definition enc_req_header :: "req_header \<Rightarrow> u8 list" where
  "enc_req_header h = be32 (rq_xid h) @ be32 (rq_proc h) @ be32 (rq_clt_nonce h) @
     be32 (rq_srv_nonce h) @ be32 (rq_xid_rep h)"

definition enc_reply_header :: "reply_header \<Rightarrow> u8 list" where
  "enc_reply_header h = be32 (rp_xid h) @ be32 (rp_ret h)"

lemma length_enc_header [simp]:
  "length (enc_req_header h) = 20" "length (enc_reply_header k) = 8"
  by (simp_all add: enc_req_header_def enc_reply_header_def)

lemma pack_req_header_seq:
  "pack_req_header h m =
     rbind (put_seq (enc_req_header h) (m\<lparr>m_ind := sizeof_rpc_sz\<rparr>)) (\<lambda>m'. Inr (m'\<lparr>m_ind := m_ind m\<rparr>))"
  by (simp add: pack_req_header_def enc_req_header_def pack_seq put_seq_append_seq rbind_assoc Let_def)

lemma pack_reply_header_seq:
  "pack_reply_header h m =
     rbind (put_seq (enc_reply_header h) (m\<lparr>m_ind := sizeof_rpc_sz\<rparr>)) (\<lambda>m'. Inr (m'\<lparr>m_ind := m_ind m\<rparr>))"
  by (simp add: pack_reply_header_def enc_reply_header_def pack_seq put_seq_append_seq rbind_assoc Let_def)

lemma overwrite_header:
  assumes "wfm m" and "24 \<le> m_ind m" and "length bs \<le> 20"
  shows "\<exists>m'. rbind (put_seq bs (m\<lparr>m_ind := sizeof_rpc_sz\<rparr>)) (\<lambda>m'. Inr (m'\<lparr>m_ind := m_ind m\<rparr>)) = Inr m' \<and>
    wfm m' \<and> m_ind m' = m_ind m \<and>
    contents m' = take 4 (contents m) @ map Some bs @ drop (4 + length bs) (contents m)"
proof -
  obtain b where b: "m_buf m = Some b" "m_capa m = int (length b)" "0 \<le> m_ind m"
    "m_ind m \<le> int (length b)" "1024 \<le> length b" "int (length b) \<le> max 1024 (2 * m_ind m)"
    "contents m = take (nat (m_ind m)) b"
    using assms(1) by (rule wfmE)
  let ?b = "take 4 b @ map Some bs @ drop (4 + length bs) b"
  have "put_seq bs (m\<lparr>m_ind := sizeof_rpc_sz\<rparr>) =
    Inr (m\<lparr>m_buf := Some ?b, m_ind := 4 + int (length bs)\<rparr>)"
    using put_seq_inside [of "m\<lparr>m_ind := sizeof_rpc_sz\<rparr>" b bs] b assms
    by (simp add: int_max_def)
  moreover have "length ?b = length b"
    using b assms by simp
  moreover have "take (nat (m_ind m)) ?b =
      take 4 (contents m) @ map Some bs @ drop (4 + length bs) (contents m)"
  proof -
    have "4 + length bs \<le> nat (m_ind m)" "\<not> nat (m_ind m) \<le> 4" using assms by linarith+
    then show ?thesis
      using b by (auto simp: take_drop min_def)
  qed
  ultimately show ?thesis
    using b by (simp add: wfm_def contents_def)
qed

section \<open>Unpacking a header\<close>

lemma unpack_reads: "wfu u \<Longrightarrow> unread u = be32 x @ r \<Longrightarrow> reads u (unpack u) x r"
  unfolding unpack_u32 [of u 0] by (rule be32_reads)

definition message :: "u8 list option \<Rightarrow> int \<Rightarrow> bool" where
  "message buf sz \<longleftrightarrow>
     (case buf of None \<Rightarrow> False
      | Some b \<Rightarrow> 0 \<le> sz \<and> sz \<le> int (length b) \<and> sz \<le> int_max \<and> int (length b) < 2 ^ 32)"

lemma messageE:
  assumes "message buf sz"
  obtains b where "buf = Some b" "0 \<le> sz" "sz \<le> int (length b)" "sz \<le> int_max" "int (length b) < 2 ^ 32"
  using assms by (auto simp: message_def split: option.splits)

text \<open>Both headers start behind the size field.\<close>

lemma wfu_header:
  assumes "message (Some b) sz" and "4 \<le> sz"
  shows "wfu ((unmarshall_new (Some b) sz)\<lparr>u_ind := sizeof_rpc_sz\<rparr>)"
    and "unread ((unmarshall_new (Some b) sz)\<lparr>u_ind := sizeof_rpc_sz\<rparr>) = drop 4 (take (nat sz) b)"
  using assms by (auto simp: wfu_def unread_def unmarshall_new_def message_def)

lemma rawbyte_buf: "unmarshall_rawbyte u = Inr (x, u') \<Longrightarrow> u_buf u' = u_buf u \<and> u_sz u' = u_sz u"
  by (auto simp: unmarshall_rawbyte_def split: if_splits option.splits)

lemma rawbyte_ok: "unmarshall_rawbyte u = Inr (x, u') \<Longrightarrow> u_ok u' \<Longrightarrow> u_ok u"
  by (auto simp: unmarshall_rawbyte_def split: if_splits option.splits)

lemma unpack_buf: "unpack u = Inr (x, u') \<Longrightarrow> u_buf u' = u_buf u \<and> u_sz u' = u_sz u"
  by (auto simp: unpack_def rbind_eq_Inr Let_def dest!: rawbyte_buf)

lemma payload_at:
  assumes "message (Some b) sz" and "24 \<le> sz" and "u_buf u = Some b" and "u_sz u = sz"
  shows "wfu (u\<lparr>u_ind := RPC_HEADER_SZ\<rparr>)"
    and "unread (u\<lparr>u_ind := RPC_HEADER_SZ\<rparr>) = drop 24 (take (nat sz) b)"
  using assms by (auto simp: wfu_def unread_def message_def)

lemma unpack_req_header_decodes:
  assumes b: "message (Some b) sz" "24 \<le> sz" and h: "take 20 (drop 4 b) = enc_req_header h"
  shows "\<exists>u'. unpack_req_header (unmarshall_new (Some b) sz) = Inr (h, u') \<and> u_buf u' = Some b \<and>
    u_sz u' = sz \<and> received (drop 24 (take (nat sz) b)) u'"
proof -
  let ?u = "(unmarshall_new (Some b) sz)\<lparr>u_ind := sizeof_rpc_sz\<rparr>"
  have "drop 4 (take (nat sz) b) = take 20 (drop 4 b) @ drop 20 (drop 4 (take (nat sz) b))"
    using b by (subst append_take_drop_id [of 20, symmetric]) (auto simp: message_def min_def drop_take)
  then have "unread ?u = enc_req_header h @ drop 24 (take (nat sz) b)"
    using wfu_header(2) [OF b(1)] b h by simp
  then obtain u1 where u1: "unpack ?u = Inr (rq_xid h, u1)" "wfu u1" "u_ok u1"
      "unread u1 = be32 (rq_proc h) @ be32 (rq_clt_nonce h) @ be32 (rq_srv_nonce h) @
        be32 (rq_xid_rep h) @ drop 24 (take (nat sz) b)"
    using unpack_reads [of ?u "rq_xid h"] wfu_header(1) [OF b(1)] b
    by (auto simp: reads_def enc_req_header_def unmarshall_new_def)
  obtain u2 where u2: "unpack u1 = Inr (rq_proc h, u2)" "wfu u2" "u_ok u2"
      "unread u2 = be32 (rq_clt_nonce h) @ be32 (rq_srv_nonce h) @ be32 (rq_xid_rep h) @
        drop 24 (take (nat sz) b)"
    using unpack_reads [OF u1(2,4)] u1 by (auto simp: reads_def)
  obtain u3 where u3: "unpack u2 = Inr (rq_clt_nonce h, u3)" "wfu u3" "u_ok u3"
      "unread u3 = be32 (rq_srv_nonce h) @ be32 (rq_xid_rep h) @ drop 24 (take (nat sz) b)"
    using unpack_reads [OF u2(2,4)] u2 by (auto simp: reads_def)
  obtain u4 where u4: "unpack u3 = Inr (rq_srv_nonce h, u4)" "wfu u4" "u_ok u4"
      "unread u4 = be32 (rq_xid_rep h) @ drop 24 (take (nat sz) b)"
    using unpack_reads [OF u3(2,4)] u3 by (auto simp: reads_def)
  obtain u5 where u5: "unpack u4 = Inr (rq_xid_rep h, u5)" "wfu u5" "u_ok u5"
    using unpack_reads [OF u4(2,4)] u4 by (auto simp: reads_def)
  have buf: "u_buf u5 = Some b" "u_sz u5 = sz"
    using u1(1) u2(1) u3(1) u4(1) u5(1) by (auto dest!: unpack_buf simp: unmarshall_new_def)
  have "unpack_req_header (unmarshall_new (Some b) sz) = Inr (h, u5\<lparr>u_ind := RPC_HEADER_SZ\<rparr>)"
    using u1(1) u2(1) u3(1) u4(1) u5(1) by (simp add: unpack_req_header_def)
  then show ?thesis
    using payload_at [OF b buf] buf u5 by (simp add: received_def)
qed

lemma unpack_reply_header_decodes:
  assumes b: "message (Some b) sz" "24 \<le> sz" and h: "take 8 (drop 4 b) = enc_reply_header h"
  shows "\<exists>u'. unpack_reply_header (unmarshall_new (Some b) sz) = Inr (h, u') \<and> u_buf u' = Some b \<and>
    u_sz u' = sz \<and> received (drop 24 (take (nat sz) b)) u'"
proof -
  let ?u = "(unmarshall_new (Some b) sz)\<lparr>u_ind := sizeof_rpc_sz\<rparr>"
  have "drop 4 (take (nat sz) b) = take 8 (drop 4 b) @ drop 8 (drop 4 (take (nat sz) b))"
    using b by (subst append_take_drop_id [of 8, symmetric]) (auto simp: message_def min_def drop_take)
  then have "unread ?u = enc_reply_header h @ drop 12 (take (nat sz) b)"
    using wfu_header(2) [OF b(1)] b h by simp
  then obtain u1 where u1: "unpack ?u = Inr (rp_xid h, u1)" "wfu u1" "u_ok u1"
      "unread u1 = be32 (rp_ret h) @ drop 12 (take (nat sz) b)"
    using unpack_reads [of ?u "rp_xid h"] wfu_header(1) [OF b(1)] b
    by (auto simp: reads_def enc_reply_header_def unmarshall_new_def)
  obtain u2 where u2: "unpack u1 = Inr (rp_ret h, u2)" "wfu u2" "u_ok u2"
    using unpack_reads [OF u1(2,4)] u1 by (auto simp: reads_def)
  have buf: "u_buf u2 = Some b" "u_sz u2 = sz"
    using u1(1) u2(1) by (auto dest!: unpack_buf simp: unmarshall_new_def)
  have "unpack_reply_header (unmarshall_new (Some b) sz) = Inr (h, u2\<lparr>u_ind := RPC_HEADER_SZ\<rparr>)"
    using u1(1) u2(1) by (simp add: unpack_reply_header_def)
  then show ?thesis
    using payload_at [OF b buf] buf u2 by (simp add: received_def)
qed

text \<open>Messages too short for their header: the flag is cleared, nothing faults.\<close>

lemma unpack_total:
  assumes "wfu u"
  shows "\<exists>x u'. unpack u = Inr (x, u') \<and> wfu u' \<and>
    (u_ok u' \<longrightarrow> length (unread u) = 4 + length (unread u'))"
proof -
  have "\<exists>x u'. get_u32 0 u = Inr (x, u')"
  proof (cases "length (unread u) < 4")
    case True
    with u32_short [OF assms, of 0] show ?thesis by (auto simp: runs_short_def)
  next
    case False
    then obtain a b c d r where "unread u = a # b # c # d # r"
      by (auto simp: numeral_eq_Suc Suc_le_length_iff not_less)
    with u32_reads [OF assms, of a b c d r 0] show ?thesis by (auto simp: reads_def)
  qed
  then show ?thesis
    unfolding unpack_u32 [of u 0] using u32_sound [OF assms, of 0] by fastforce
qed

lemma unpack_past: "u_ind u \<ge> u_sz u \<Longrightarrow> unpack u = Inr (0, failed u)"
  by (simp add: unpack_def unmarshall_rawbyte_def failed_def)

lemma unpack_req_header_short:
  assumes m: "message (Some b) sz" and sz: "sz < 24"
  shows "\<exists>h u'. unpack_req_header (unmarshall_new (Some b) sz) = Inr (h, u') \<and> \<not> u_ok u'"
proof (cases "sz < 4")
  case True
  then show ?thesis
    by (simp add: unpack_req_header_def unmarshall_new_def unpack_past failed_def)
next
  case False
  let ?u = "(unmarshall_new (Some b) sz)\<lparr>u_ind := sizeof_rpc_sz\<rparr>"
  have u: "wfu ?u" "length (unread ?u) < 20"
    using wfu_header [OF m] False m sz by (auto simp: message_def)
  obtain x1 u1 where u1: "unpack ?u = Inr (x1, u1)" "wfu u1"
    "u_ok u1 \<longrightarrow> length (unread ?u) = 4 + length (unread u1)"
    using unpack_total [OF u(1)] by blast
  obtain x2 u2 where u2: "unpack u1 = Inr (x2, u2)" "wfu u2"
    "u_ok u2 \<longrightarrow> length (unread u1) = 4 + length (unread u2)"
    using unpack_total [OF u1(2)] by blast
  obtain x3 u3 where u3: "unpack u2 = Inr (x3, u3)" "wfu u3"
    "u_ok u3 \<longrightarrow> length (unread u2) = 4 + length (unread u3)"
    using unpack_total [OF u2(2)] by blast
  obtain x4 u4 where u4: "unpack u3 = Inr (x4, u4)" "wfu u4"
    "u_ok u4 \<longrightarrow> length (unread u3) = 4 + length (unread u4)"
    using unpack_total [OF u3(2)] by blast
  obtain x5 u5 where u5: "unpack u4 = Inr (x5, u5)" "wfu u5"
    "u_ok u5 \<longrightarrow> length (unread u4) = 4 + length (unread u5)"
    using unpack_total [OF u4(2)] by blast
  have mono: "unpack v = Inr (x, v') \<Longrightarrow> u_ok v' \<Longrightarrow> u_ok v" for v x v'
    by (auto simp: unpack_def rbind_eq_Inr Let_def dest!: rawbyte_ok)
  have "\<not> u_ok u5"
    using u u1 u2 u3 u4 u5 mono [OF u5(1)] mono [OF u4(1)] mono [OF u3(1)] mono [OF u2(1)] by auto
  then show ?thesis
    using u1(1) u2(1) u3(1) u4(1) u5(1) by (simp add: unpack_req_header_def)
qed

end
