(* ===== verification/Rpc_Stub.thy ===== *)
theory Rpc_Stub
  imports Message
begin

text \<open>
  The typed layer of \<^verbatim>\<open>src/rpc/rpc.h\<close>: the handler objects that \<^verbatim>\<open>rpcs::reg\<close> builds for methods
  of one to seven arguments, and the \<^verbatim>\<open>rpcc::call\<close> templates of zero to seven arguments. Both are
  given the marshalling operators that C++ overload resolution picks, and are shown to be the one
  argument case over a codec of nested pairs.
\<close>

section \<open>class rpc_const\<close>

definition rpc_bind :: i32 where
  "rpc_bind = 1"

definition timeout_failure :: i32 where
  "timeout_failure = - 1"

definition unmarshal_args_failure :: i32 where
  "unmarshal_args_failure = - 2"

definition unmarshal_reply_failure :: i32 where
  "unmarshal_reply_failure = - 3"

definition atmostonce_failure :: i32 where
  "atmostonce_failure = - 4"

definition oldsrv_failure :: i32 where
  "oldsrv_failure = - 5"

definition bind_failure :: i32 where
  "bind_failure = - 6"

lemmas rpc_consts = rpc_bind_def timeout_failure_def unmarshal_args_failure_def
  unmarshal_reply_failure_def atmostonce_failure_def oldsrv_failure_def bind_failure_def

section \<open>Handlers\<close>

text \<open>
  A handler's \<^verbatim>\<open>fn\<close> reads its arguments, runs the method and writes the result. A method takes its
  arguments, the value the local \<^verbatim>\<open>R r\<close> has before it is assigned, and the object's state; it gives
  its return value, the value of \<^verbatim>\<open>r\<close> and the new state.
\<close>

type_synonym 'a reader = "'a \<Rightarrow> unmarshall \<Rightarrow> ('a \<times> unmarshall) res"
type_synonym 'a writer = "'a \<Rightarrow> marshall \<Rightarrow> marshall res"
type_synonym ('r, 's) handled = "'r \<Rightarrow> 's \<Rightarrow> i32 \<times> 'r \<times> 's"
type_synonym 's handler = "unmarshall \<Rightarrow> marshall \<Rightarrow> 's \<Rightarrow> (i32 \<times> unmarshall \<times> marshall \<times> 's) res"

definition finish :: "'r writer \<Rightarrow> 'r \<Rightarrow> ('r, 's) handled \<Rightarrow> 's handler" where
  "finish put r0 run args ret s =
     (if \<not> okdone args then Inr (unmarshal_args_failure, args, ret, s)
      else let (b, r, s) = run r0 s in
        rbind (put r ret) (\<lambda>ret. Inr (b, args, ret, s)))"

definition h1_fn :: "'a reader \<Rightarrow> 'a \<Rightarrow> 'r writer \<Rightarrow> 'r \<Rightarrow> ('a \<Rightarrow> ('r, 's) handled) \<Rightarrow> 's handler" where
  "h1_fn g1 z1 put r0 meth args ret s =
     rbind (g1 z1 args) (\<lambda>(a1, args).
     finish put r0 (meth a1) args ret s)"

definition h2_fn ::
  "'a reader \<Rightarrow> 'a \<Rightarrow> 'b reader \<Rightarrow> 'b \<Rightarrow> 'r writer \<Rightarrow> 'r \<Rightarrow>
   ('a \<Rightarrow> 'b \<Rightarrow> ('r, 's) handled) \<Rightarrow> 's handler" where
  "h2_fn g1 z1 g2 z2 put r0 meth args ret s =
     rbind (g1 z1 args) (\<lambda>(a1, args).
     rbind (g2 z2 args) (\<lambda>(a2, args).
     finish put r0 (meth a1 a2) args ret s))"

definition h3_fn ::
  "'a reader \<Rightarrow> 'a \<Rightarrow> 'b reader \<Rightarrow> 'b \<Rightarrow> 'c reader \<Rightarrow> 'c \<Rightarrow> 'r writer \<Rightarrow> 'r \<Rightarrow>
   ('a \<Rightarrow> 'b \<Rightarrow> 'c \<Rightarrow> ('r, 's) handled) \<Rightarrow> 's handler" where
  "h3_fn g1 z1 g2 z2 g3 z3 put r0 meth args ret s =
     rbind (g1 z1 args) (\<lambda>(a1, args).
     rbind (g2 z2 args) (\<lambda>(a2, args).
     rbind (g3 z3 args) (\<lambda>(a3, args).
     finish put r0 (meth a1 a2 a3) args ret s)))"

definition h4_fn ::
  "'a reader \<Rightarrow> 'a \<Rightarrow> 'b reader \<Rightarrow> 'b \<Rightarrow> 'c reader \<Rightarrow> 'c \<Rightarrow> 'd reader \<Rightarrow> 'd \<Rightarrow>
   'r writer \<Rightarrow> 'r \<Rightarrow> ('a \<Rightarrow> 'b \<Rightarrow> 'c \<Rightarrow> 'd \<Rightarrow> ('r, 's) handled) \<Rightarrow> 's handler" where
  "h4_fn g1 z1 g2 z2 g3 z3 g4 z4 put r0 meth args ret s =
     rbind (g1 z1 args) (\<lambda>(a1, args).
     rbind (g2 z2 args) (\<lambda>(a2, args).
     rbind (g3 z3 args) (\<lambda>(a3, args).
     rbind (g4 z4 args) (\<lambda>(a4, args).
     finish put r0 (meth a1 a2 a3 a4) args ret s))))"

definition h5_fn ::
  "'a reader \<Rightarrow> 'a \<Rightarrow> 'b reader \<Rightarrow> 'b \<Rightarrow> 'c reader \<Rightarrow> 'c \<Rightarrow> 'd reader \<Rightarrow> 'd \<Rightarrow>
   'e reader \<Rightarrow> 'e \<Rightarrow> 'r writer \<Rightarrow> 'r \<Rightarrow>
   ('a \<Rightarrow> 'b \<Rightarrow> 'c \<Rightarrow> 'd \<Rightarrow> 'e \<Rightarrow> ('r, 's) handled) \<Rightarrow> 's handler" where
  "h5_fn g1 z1 g2 z2 g3 z3 g4 z4 g5 z5 put r0 meth args ret s =
     rbind (g1 z1 args) (\<lambda>(a1, args).
     rbind (g2 z2 args) (\<lambda>(a2, args).
     rbind (g3 z3 args) (\<lambda>(a3, args).
     rbind (g4 z4 args) (\<lambda>(a4, args).
     rbind (g5 z5 args) (\<lambda>(a5, args).
     finish put r0 (meth a1 a2 a3 a4 a5) args ret s)))))"

definition h6_fn ::
  "'a reader \<Rightarrow> 'a \<Rightarrow> 'b reader \<Rightarrow> 'b \<Rightarrow> 'c reader \<Rightarrow> 'c \<Rightarrow> 'd reader \<Rightarrow> 'd \<Rightarrow>
   'e reader \<Rightarrow> 'e \<Rightarrow> 'f reader \<Rightarrow> 'f \<Rightarrow> 'r writer \<Rightarrow> 'r \<Rightarrow>
   ('a \<Rightarrow> 'b \<Rightarrow> 'c \<Rightarrow> 'd \<Rightarrow> 'e \<Rightarrow> 'f \<Rightarrow> ('r, 's) handled) \<Rightarrow> 's handler" where
  "h6_fn g1 z1 g2 z2 g3 z3 g4 z4 g5 z5 g6 z6 put r0 meth args ret s =
     rbind (g1 z1 args) (\<lambda>(a1, args).
     rbind (g2 z2 args) (\<lambda>(a2, args).
     rbind (g3 z3 args) (\<lambda>(a3, args).
     rbind (g4 z4 args) (\<lambda>(a4, args).
     rbind (g5 z5 args) (\<lambda>(a5, args).
     rbind (g6 z6 args) (\<lambda>(a6, args).
     finish put r0 (meth a1 a2 a3 a4 a5 a6) args ret s))))))"

definition h7_fn ::
  "'a reader \<Rightarrow> 'a \<Rightarrow> 'b reader \<Rightarrow> 'b \<Rightarrow> 'c reader \<Rightarrow> 'c \<Rightarrow> 'd reader \<Rightarrow> 'd \<Rightarrow>
   'e reader \<Rightarrow> 'e \<Rightarrow> 'f reader \<Rightarrow> 'f \<Rightarrow> 'g reader \<Rightarrow> 'g \<Rightarrow> 'r writer \<Rightarrow> 'r \<Rightarrow>
   ('a \<Rightarrow> 'b \<Rightarrow> 'c \<Rightarrow> 'd \<Rightarrow> 'e \<Rightarrow> 'f \<Rightarrow> 'g \<Rightarrow> ('r, 's) handled) \<Rightarrow> 's handler" where
  "h7_fn g1 z1 g2 z2 g3 z3 g4 z4 g5 z5 g6 z6 g7 z7 put r0 meth args ret s =
     rbind (g1 z1 args) (\<lambda>(a1, args).
     rbind (g2 z2 args) (\<lambda>(a2, args).
     rbind (g3 z3 args) (\<lambda>(a3, args).
     rbind (g4 z4 args) (\<lambda>(a4, args).
     rbind (g5 z5 args) (\<lambda>(a5, args).
     rbind (g6 z6 args) (\<lambda>(a6, args).
     rbind (g7 z7 args) (\<lambda>(a7, args).
     finish put r0 (meth a1 a2 a3 a4 a5 a6 a7) args ret s)))))))"

lemma h2_as_h1:
  "h2_fn g1 z1 g2 z2 put r0 meth = h1_fn (get_pair g1 g2) (z1, z2) put r0 (\<lambda>(a, b). meth a b)"
  by (simp add: fun_eq_iff h2_fn_def h1_fn_def get_pair_def rbind_assoc case_prod_unfold)

lemma h3_as_h1:
  "h3_fn g1 z1 g2 z2 g3 z3 put r0 meth =
     h1_fn (get_pair g1 (get_pair g2 g3)) (z1, z2, z3) put r0 (\<lambda>(a, b, c). meth a b c)"
  by (simp add: fun_eq_iff h3_fn_def h1_fn_def get_pair_def rbind_assoc case_prod_unfold)

lemma h4_as_h1:
  "h4_fn g1 z1 g2 z2 g3 z3 g4 z4 put r0 meth =
     h1_fn (get_pair g1 (get_pair g2 (get_pair g3 g4))) (z1, z2, z3, z4) put r0
       (\<lambda>(a, b, c, d). meth a b c d)"
  by (simp add: fun_eq_iff h4_fn_def h1_fn_def get_pair_def rbind_assoc case_prod_unfold)

lemma h5_as_h1:
  "h5_fn g1 z1 g2 z2 g3 z3 g4 z4 g5 z5 put r0 meth =
     h1_fn (get_pair g1 (get_pair g2 (get_pair g3 (get_pair g4 g5)))) (z1, z2, z3, z4, z5) put r0
       (\<lambda>(a, b, c, d, e). meth a b c d e)"
  by (simp add: fun_eq_iff h5_fn_def h1_fn_def get_pair_def rbind_assoc case_prod_unfold)

lemma h6_as_h1:
  "h6_fn g1 z1 g2 z2 g3 z3 g4 z4 g5 z5 g6 z6 put r0 meth =
     h1_fn (get_pair g1 (get_pair g2 (get_pair g3 (get_pair g4 (get_pair g5 g6)))))
       (z1, z2, z3, z4, z5, z6) put r0 (\<lambda>(a, b, c, d, e, f). meth a b c d e f)"
  by (simp add: fun_eq_iff h6_fn_def h1_fn_def get_pair_def rbind_assoc case_prod_unfold)

lemma h7_as_h1:
  "h7_fn g1 z1 g2 z2 g3 z3 g4 z4 g5 z5 g6 z6 g7 z7 put r0 meth =
     h1_fn (get_pair g1 (get_pair g2 (get_pair g3 (get_pair g4 (get_pair g5 (get_pair g6 g7))))))
       (z1, z2, z3, z4, z5, z6, z7) put r0 (\<lambda>(a, b, c, d, e, f, g). meth a b c d e f g)"
  by (simp add: fun_eq_iff h7_fn_def h1_fn_def get_pair_def rbind_assoc case_prod_unfold)

section \<open>Calls\<close>

text \<open>
  \<^verbatim>\<open>rpcc::call1\<close> is an argument here, over the state \<open>'w\<close> of the client and what lies behind it: it
  takes the procedure number, the request, the reply object and the timeout.
\<close>

type_synonym 'w caller1 =
  "i32 \<Rightarrow> marshall \<Rightarrow> unmarshall \<Rightarrow> int \<Rightarrow> 'w \<Rightarrow> (i32 \<times> unmarshall \<times> 'w) res"

definition call_m ::
  "'w caller1 \<Rightarrow> 'r reader \<Rightarrow> i32 \<Rightarrow> marshall \<Rightarrow> 'r \<Rightarrow> int \<Rightarrow> 'w \<Rightarrow> (i32 \<times> 'r \<times> 'w) res" where
  "call_m call1 get proc req r to w =
     rbind (call1 proc req unmarshall_empty to w) (\<lambda>(intret, u, w).
     if intret <s 0 then Inr (intret, r, w)
     else rbind (get r u) (\<lambda>(r, u).
       if \<not> okdone u then Inr (unmarshal_reply_failure, r, w)
       else Inr (intret, r, w)))"

definition rpcc_call0 ::
  "'w caller1 \<Rightarrow> 'r reader \<Rightarrow> i32 \<Rightarrow> 'r \<Rightarrow> int \<Rightarrow> 'w \<Rightarrow> (i32 \<times> 'r \<times> 'w) res" where
  "rpcc_call0 call1 get proc r to w = call_m call1 get proc marshall_new r to w"

definition rpcc_call1 ::
  "'a writer \<Rightarrow> 'w caller1 \<Rightarrow> 'r reader \<Rightarrow> i32 \<Rightarrow>
   'a \<Rightarrow> 'r \<Rightarrow> int \<Rightarrow> 'w \<Rightarrow> (i32 \<times> 'r \<times> 'w) res" where
  "rpcc_call1 p1 call1 get proc a1 r to w =
     rbind (p1 a1 marshall_new) (\<lambda>m.
     call_m call1 get proc m r to w)"

definition rpcc_call2 ::
  "'a writer \<Rightarrow> 'b writer \<Rightarrow> 'w caller1 \<Rightarrow> 'r reader \<Rightarrow> i32 \<Rightarrow>
   'a \<Rightarrow> 'b \<Rightarrow> 'r \<Rightarrow> int \<Rightarrow> 'w \<Rightarrow> (i32 \<times> 'r \<times> 'w) res" where
  "rpcc_call2 p1 p2 call1 get proc a1 a2 r to w =
     rbind (p1 a1 marshall_new) (\<lambda>m.
     rbind (p2 a2 m) (\<lambda>m.
     call_m call1 get proc m r to w))"

definition rpcc_call3 ::
  "'a writer \<Rightarrow> 'b writer \<Rightarrow> 'c writer \<Rightarrow> 'w caller1 \<Rightarrow> 'r reader \<Rightarrow> i32 \<Rightarrow>
   'a \<Rightarrow> 'b \<Rightarrow> 'c \<Rightarrow> 'r \<Rightarrow> int \<Rightarrow> 'w \<Rightarrow> (i32 \<times> 'r \<times> 'w) res" where
  "rpcc_call3 p1 p2 p3 call1 get proc a1 a2 a3 r to w =
     rbind (p1 a1 marshall_new) (\<lambda>m.
     rbind (p2 a2 m) (\<lambda>m.
     rbind (p3 a3 m) (\<lambda>m.
     call_m call1 get proc m r to w)))"

definition rpcc_call4 ::
  "'a writer \<Rightarrow> 'b writer \<Rightarrow> 'c writer \<Rightarrow> 'd writer \<Rightarrow> 'w caller1 \<Rightarrow> 'r reader \<Rightarrow> i32 \<Rightarrow>
   'a \<Rightarrow> 'b \<Rightarrow> 'c \<Rightarrow> 'd \<Rightarrow> 'r \<Rightarrow> int \<Rightarrow> 'w \<Rightarrow> (i32 \<times> 'r \<times> 'w) res" where
  "rpcc_call4 p1 p2 p3 p4 call1 get proc a1 a2 a3 a4 r to w =
     rbind (p1 a1 marshall_new) (\<lambda>m.
     rbind (p2 a2 m) (\<lambda>m.
     rbind (p3 a3 m) (\<lambda>m.
     rbind (p4 a4 m) (\<lambda>m.
     call_m call1 get proc m r to w))))"

definition rpcc_call5 ::
  "'a writer \<Rightarrow> 'b writer \<Rightarrow> 'c writer \<Rightarrow> 'd writer \<Rightarrow> 'e writer \<Rightarrow> 'w caller1 \<Rightarrow> 'r reader \<Rightarrow> i32 \<Rightarrow>
   'a \<Rightarrow> 'b \<Rightarrow> 'c \<Rightarrow> 'd \<Rightarrow> 'e \<Rightarrow> 'r \<Rightarrow> int \<Rightarrow> 'w \<Rightarrow> (i32 \<times> 'r \<times> 'w) res" where
  "rpcc_call5 p1 p2 p3 p4 p5 call1 get proc a1 a2 a3 a4 a5 r to w =
     rbind (p1 a1 marshall_new) (\<lambda>m.
     rbind (p2 a2 m) (\<lambda>m.
     rbind (p3 a3 m) (\<lambda>m.
     rbind (p4 a4 m) (\<lambda>m.
     rbind (p5 a5 m) (\<lambda>m.
     call_m call1 get proc m r to w)))))"

definition rpcc_call6 ::
  "'a writer \<Rightarrow> 'b writer \<Rightarrow> 'c writer \<Rightarrow> 'd writer \<Rightarrow> 'e writer \<Rightarrow> 'f writer \<Rightarrow> 'w caller1 \<Rightarrow> 'r reader \<Rightarrow> i32 \<Rightarrow>
   'a \<Rightarrow> 'b \<Rightarrow> 'c \<Rightarrow> 'd \<Rightarrow> 'e \<Rightarrow> 'f \<Rightarrow> 'r \<Rightarrow> int \<Rightarrow> 'w \<Rightarrow> (i32 \<times> 'r \<times> 'w) res" where
  "rpcc_call6 p1 p2 p3 p4 p5 p6 call1 get proc a1 a2 a3 a4 a5 a6 r to w =
     rbind (p1 a1 marshall_new) (\<lambda>m.
     rbind (p2 a2 m) (\<lambda>m.
     rbind (p3 a3 m) (\<lambda>m.
     rbind (p4 a4 m) (\<lambda>m.
     rbind (p5 a5 m) (\<lambda>m.
     rbind (p6 a6 m) (\<lambda>m.
     call_m call1 get proc m r to w))))))"

definition rpcc_call7 ::
  "'a writer \<Rightarrow> 'b writer \<Rightarrow> 'c writer \<Rightarrow> 'd writer \<Rightarrow> 'e writer \<Rightarrow> 'f writer \<Rightarrow> 'g writer \<Rightarrow> 'w caller1 \<Rightarrow> 'r reader \<Rightarrow> i32 \<Rightarrow>
   'a \<Rightarrow> 'b \<Rightarrow> 'c \<Rightarrow> 'd \<Rightarrow> 'e \<Rightarrow> 'f \<Rightarrow> 'g \<Rightarrow> 'r \<Rightarrow> int \<Rightarrow> 'w \<Rightarrow> (i32 \<times> 'r \<times> 'w) res" where
  "rpcc_call7 p1 p2 p3 p4 p5 p6 p7 call1 get proc a1 a2 a3 a4 a5 a6 a7 r to w =
     rbind (p1 a1 marshall_new) (\<lambda>m.
     rbind (p2 a2 m) (\<lambda>m.
     rbind (p3 a3 m) (\<lambda>m.
     rbind (p4 a4 m) (\<lambda>m.
     rbind (p5 a5 m) (\<lambda>m.
     rbind (p6 a6 m) (\<lambda>m.
     rbind (p7 a7 m) (\<lambda>m.
     call_m call1 get proc m r to w)))))))"

lemma call2_as_call1:
  "rpcc_call2 p1 p2 call1 get proc a1 a2 =
     rpcc_call1 (put_pair p1 p2) call1 get proc (a1, a2)"
  by (simp add: fun_eq_iff rpcc_call2_def rpcc_call1_def put_pair_def rbind_assoc)

lemma call3_as_call1:
  "rpcc_call3 p1 p2 p3 call1 get proc a1 a2 a3 =
     rpcc_call1 (put_pair p1 (put_pair p2 p3)) call1 get proc (a1, a2, a3)"
  by (simp add: fun_eq_iff rpcc_call3_def rpcc_call1_def put_pair_def rbind_assoc)

lemma call4_as_call1:
  "rpcc_call4 p1 p2 p3 p4 call1 get proc a1 a2 a3 a4 =
     rpcc_call1 (put_pair p1 (put_pair p2 (put_pair p3 p4))) call1 get proc (a1, a2, a3, a4)"
  by (simp add: fun_eq_iff rpcc_call4_def rpcc_call1_def put_pair_def rbind_assoc)

lemma call5_as_call1:
  "rpcc_call5 p1 p2 p3 p4 p5 call1 get proc a1 a2 a3 a4 a5 =
     rpcc_call1 (put_pair p1 (put_pair p2 (put_pair p3 (put_pair p4 p5)))) call1 get proc (a1, a2, a3, a4, a5)"
  by (simp add: fun_eq_iff rpcc_call5_def rpcc_call1_def put_pair_def rbind_assoc)

lemma call6_as_call1:
  "rpcc_call6 p1 p2 p3 p4 p5 p6 call1 get proc a1 a2 a3 a4 a5 a6 =
     rpcc_call1 (put_pair p1 (put_pair p2 (put_pair p3 (put_pair p4 (put_pair p5 p6))))) call1 get proc (a1, a2, a3, a4, a5, a6)"
  by (simp add: fun_eq_iff rpcc_call6_def rpcc_call1_def put_pair_def rbind_assoc)

lemma call7_as_call1:
  "rpcc_call7 p1 p2 p3 p4 p5 p6 p7 call1 get proc a1 a2 a3 a4 a5 a6 a7 =
     rpcc_call1 (put_pair p1 (put_pair p2 (put_pair p3 (put_pair p4 (put_pair p5 (put_pair p6 p7)))))) call1 get proc (a1, a2, a3, a4, a5, a6, a7)"
  by (simp add: fun_eq_iff rpcc_call7_def rpcc_call1_def put_pair_def rbind_assoc)

section \<open>Handlers over a codec\<close>

context strict_codec
begin

text \<open>
  The method runs exactly when the payload is the encoding of one argument tuple, and then on that
  tuple; every other payload is answered with \<^verbatim>\<open>unmarshal_args_failure\<close> and touches nothing.
\<close>

lemma handler_accepts:
  assumes "fits a" and "received (enc a) u"
  shows "\<exists>u'. h1_fn get dflt putR r0 meth u ret s =
    (let (b, r, s') = meth a r0 s in rbind (putR r ret) (\<lambda>ret. Inr (b, u', ret, s')))"
proof -
  obtain u' where "get dflt u = Inr (a, u')" "wfu u'" "unread u' = []" "u_ok u'"
    using get_decodes [of a u "[]"] assms by (auto simp: received_def reads_def)
  moreover from this have "okdone u'"
    using unread_length [of u'] by (simp add: okdone_def)
  ultimately show ?thesis
    by (auto simp: h1_fn_def finish_def)
qed

lemma handler_rejects:
  assumes "wfu u" and "h1_fn get dflt putR r0 meth u ret s = Inr (b, u', ret', s')"
    and "\<And>a. fits a \<Longrightarrow> unread u \<noteq> enc a"
  shows "b = unmarshal_args_failure \<and> ret' = ret \<and> s' = s"
proof -
  obtain a u1 where g: "get dflt u = Inr (a, u1)"
    and f: "finish putR r0 (meth a) u1 ret s = Inr (b, u', ret', s')"
    using assms(2) by (auto simp: h1_fn_def rbind_eq_Inr)
  have "\<not> okdone u1"
    using get_sound [OF assms(1) g] assms(3) [of a] unread_length [of u1]
    by (auto simp: okdone_def)
  with f show ?thesis by (simp add: finish_def)
qed

end

end
