(* ===== verification/Xid_Window.thy ===== *)
theory Xid_Window
  imports Prelude
begin

text \<open>
  The window of replied request numbers that \<^verbatim>\<open>rpcc\<close> keeps (\<^verbatim>\<open>xid_rep_window_\<close>) and
  \<^verbatim>\<open>rpcc::update_xid_rep\<close> in \<^verbatim>\<open>src/rpc/rpc.cc\<close>, which inserts a number and compresses the front
  of the list. The window stands for a set of numbers: all up to its front, and its members. The
  front is what the client tells the server it may forget.
\<close>

section \<open>The code\<close>

text \<open>The insertion loop: before the first larger element, else at the end.\<close>

fun insert_xid :: "u32 \<Rightarrow> u32 list \<Rightarrow> u32 list" where
  "insert_xid xid [] = [xid]"
| "insert_xid xid (x # xs) = (if x > xid then xid # x # xs else x # insert_xid xid xs)"

text \<open>
  The compression loop. The list is split at the iterator: \<open>pre\<close> before it, the iterator's element
  at the head of the rest. The inner \<^verbatim>\<open>while\<close> pops the front while it is one less than the element
  at the iterator; when all of \<open>pre\<close> is popped the front is that element itself and the loop stops.
\<close>

fun pop_while :: "u32 list \<Rightarrow> u32 \<Rightarrow> u32 list" where
  "pop_while [] v = []"
| "pop_while (f # pre) v = (if f + 1 = v then pop_while pre v else f # pre)"

fun compress :: "u32 list \<Rightarrow> u32 list \<Rightarrow> u32 list" where
  "compress pre [] = pre"
| "compress pre (v # rest) = compress (pop_while pre v @ [v]) rest"

text \<open>\<^verbatim>\<open>front()\<close> and \<^verbatim>\<open>++begin()\<close> of an empty list are undefined.\<close>

definition update_xid_rep :: "u32 \<Rightarrow> u32 list \<Rightarrow> u32 list res" where
  "update_xid_rep xid w =
     (case w of
        [] \<Rightarrow> Inl Out_of_bounds
      | front # _ \<Rightarrow>
          if xid \<le> front then Inr w
          else (case insert_xid xid w of
                  [] \<Rightarrow> Inl Out_of_bounds
                | f # rest \<Rightarrow> Inr (compress [f] rest)))"

section \<open>What the window stands for\<close>

definition seen :: "u32 list \<Rightarrow> u32 set" where
  "seen w = {x. x \<le> hd w} \<union> set w"

text \<open>
  The window is sorted, possibly with repetitions, and compressed: the successor of its front is
  not in it.
\<close>

definition window_ok :: "u32 list \<Rightarrow> bool" where
  "window_ok w \<longleftrightarrow> w \<noteq> [] \<and> sorted w \<and> hd w + 1 \<notin> set w"

lemma insert_xid_set [simp]: "set (insert_xid x w) = insert x (set w)"
  by (induction w) auto

lemma insert_xid_sorted: "sorted w \<Longrightarrow> sorted (insert_xid x w)"
  by (induction w) (auto simp: not_less less_imp_le)

lemma insert_xid_hd: "w \<noteq> [] \<Longrightarrow> hd w < x \<Longrightarrow> \<exists>xs. insert_xid x w = hd w # xs"
  by (cases w) auto

lemma word_Suc_cases: "(v :: u32) = f + 1 \<Longrightarrow> f \<le> v \<Longrightarrow> x \<le> v \<longleftrightarrow> x \<le> f \<or> x = v"
proof -
  assume v: "v = f + 1" and le: "f \<le> v"
  have "f \<noteq> v" using v by auto
  with le have lt: "f < v" by simp
  then have "1 + f \<noteq> 0"
    using v by (auto simp: add.commute)
  then have "unat v = unat f + 1"
    using v unatSuc [of f] by (simp add: add.commute)
  then show ?thesis
    by (auto simp: word_le_nat_alt le_Suc_eq word_unat_eq_iff)
qed

text \<open>One round of the loop keeps the order, the compression of the part passed and the set.\<close>

lemma pop_while_all: "\<forall>x \<in> set pre. x + 1 = v \<Longrightarrow> pop_while pre v = []"
  by (induction pre) auto

lemma pop_while_cases:
  assumes "pre \<noteq> []" and "sorted (pre @ [v])" and "hd pre + 1 \<notin> set pre"
  shows "pop_while pre v = (if hd pre + 1 = v then [] else pre)"
proof (cases "hd pre + 1 = v")
  case True
  have "x + 1 = v" if "x \<in> set pre" for x
  proof -
    have "hd pre \<le> x" "x \<le> v"
      using assms(1,2) that by (auto simp: sorted_append neq_Nil_conv)
    moreover have "x \<noteq> v" using assms(3) that True by auto
    ultimately show ?thesis
      using word_Suc_cases [of v "hd pre" x] True by auto
  qed
  with True show ?thesis by (simp add: pop_while_all)
next
  case False
  with assms(1) show ?thesis by (cases pre) auto
qed

lemma compress_spec:
  "pre \<noteq> [] \<Longrightarrow> sorted (pre @ rest) \<Longrightarrow> hd pre + 1 \<notin> set pre \<Longrightarrow>
   window_ok (compress pre rest) \<and> seen (compress pre rest) = seen (pre @ rest)"
proof (induction pre rest rule: compress.induct)
  case (1 pre)
  then show ?case by (simp add: window_ok_def)
next
  case (2 pre v rest)
  let ?pre = "pop_while pre v @ [v]"
  have le: "\<forall>x \<in> set pre. x \<le> v" and so: "sorted (v # rest)" "sorted (pre @ [v])"
    using 2(3) by (auto simp: sorted_append)
  note pw = pop_while_cases [OF 2(2) so(2) 2(4)]
  have "seen (?pre @ rest) = seen (pre @ v # rest)"
  proof (cases "hd pre + 1 = v")
    case True
    have "\<forall>x \<in> set pre. hd pre \<le> x" and "hd pre \<le> v"
      using 2(2,3) by (cases pre; auto)+
    with True le 2(2) word_Suc_cases [of v "hd pre"] show ?thesis
      by (auto simp: pw seen_def hd_append)
  next
    case False
    then show ?thesis by (simp add: pw)
  qed
  moreover have "sorted (?pre @ rest)"
    using 2(3) so by (auto simp: pw)
  moreover have "hd ?pre + 1 \<notin> set ?pre"
    using 2(2,4) by (auto simp: pw)
  ultimately show ?case
    using "2.IH" by simp
qed

lemma window_ok_initial: "window_ok [0]"
  by (simp add: window_ok_def)

lemma update_xid_rep_inserts:
  assumes "window_ok w"
  shows "\<exists>w'. update_xid_rep xid w = Inr w' \<and> window_ok w' \<and> seen w' = insert xid (seen w)"
proof -
  obtain f rest where w: "w = f # rest" and so: "sorted w" and nx: "f + 1 \<notin> set w"
    using assms by (cases w) (auto simp: window_ok_def)
  show ?thesis
  proof (cases "xid \<le> f")
    case True
    with w assms show ?thesis by (auto simp: update_xid_rep_def seen_def)
  next
    case False
    then obtain xs where xs: "insert_xid xid w = f # xs"
      using insert_xid_hd [of w xid] w by (simp only: list.sel list.distinct not_le) blast
    have "sorted (f # xs)"
      using insert_xid_sorted [OF so, of xid] xs by simp
    then have "window_ok (compress [f] xs) \<and> seen (compress [f] xs) = seen (f # xs)"
      using compress_spec [of "[f]" xs] by simp
    moreover have "seen (f # xs) = insert xid (seen w)"
      using insert_xid_set [of xid w] w xs by (auto simp: seen_def)
    moreover have "update_xid_rep xid w = Inr (compress [f] xs)"
      using False w xs by (simp add: update_xid_rep_def)
    ultimately show ?thesis by simp
  qed
qed

text \<open>
  C11. \<^verbatim>\<open>update_xid_rep\<close> on a compressed window never touches an empty list, keeps the window sorted
  and compressed, and adds exactly the reported number to the set the window stands for - also when
  the same number is reported more than once or out of order, as \<^verbatim>\<open>call1\<close> and \<^verbatim>\<open>got_pdu\<close> do.
\<close>

theorem update_xid_rep_refines_insert:
  assumes "window_ok w"
  shows "\<exists>w'. update_xid_rep xid w = Inr w' \<and> window_ok w' \<and> seen w' = insert xid (seen w)"
  by (rule update_xid_rep_inserts [OF assms])

theorem update_xid_rep_refines_insert_witness:
  "\<exists>w'. update_xid_rep 1 [0, 2, 2] = Inr w' \<and> window_ok w' \<and> seen w' = insert 1 (seen [0, 2, 2])"
  by (rule update_xid_rep_refines_insert) (simp add: window_ok_def)

section \<open>The acknowledged prefix\<close>

lemma front_is_largest_prefix:
  assumes "window_ok w"
  shows "x \<le> hd w \<longleftrightarrow> (\<forall>y \<le> x. y \<in> seen w)"
proof
  show "x \<le> hd w \<Longrightarrow> \<forall>y \<le> x. y \<in> seen w"
    by (auto simp: seen_def)
next
  assume all: "\<forall>y \<le> x. y \<in> seen w"
  show "x \<le> hd w"
  proof (rule ccontr)
    assume "\<not> x \<le> hd w"
    then have lt: "hd w < x" by simp
    have "1 + hd w \<noteq> 0"
    proof
      assume "1 + hd w = 0"
      then have "hd w = - 1" by (simp add: eq_neg_iff_add_eq_0 add.commute)
      with lt show False by simp
    qed
    then have "hd w < hd w + 1" "hd w + 1 \<le> x"
      using lt unatSuc [of "hd w"] by (simp_all add: word_less_nat_alt word_le_nat_alt add.commute)
    with all have "hd w + 1 \<in> seen w" by blast
    with assms \<open>hd w < hd w + 1\<close> show False
      by (auto simp: seen_def window_ok_def)
  qed
qed

text \<open>A history of reports, starting from the window of a fresh \<^verbatim>\<open>rpcc\<close>.\<close>

fun report_all :: "u32 list \<Rightarrow> u32 list \<Rightarrow> u32 list res" where
  "report_all [] w = Inr w"
| "report_all (x # xs) w = rbind (update_xid_rep x w) (\<lambda>w. report_all xs w)"

lemma report_all_seen:
  "window_ok w \<Longrightarrow> \<exists>w'. report_all xs w = Inr w' \<and> window_ok w' \<and> seen w' = set xs \<union> seen w"
proof (induction xs arbitrary: w)
  case Nil
  then show ?case by simp
next
  case (Cons x xs)
  obtain w1 where w1: "update_xid_rep x w = Inr w1" "window_ok w1" "seen w1 = insert x (seen w)"
    using update_xid_rep_inserts [OF Cons.prems] by blast
  with Cons.IH [OF w1(2)] show ?case by auto
qed

text \<open>
  Whatever replies arrive, in whatever order and however often, the front of the window - the
  \<^verbatim>\<open>xid_rep\<close> a client sends - acknowledges a number exactly when every request up to it has been
  replied: it never lets the server forget a reply that is still outstanding, and it is as large as
  that allows.
\<close>

theorem xid_rep_acknowledges_prefix:
  "\<exists>w. report_all xs [0] = Inr w \<and>
     (\<forall>x. x \<le> hd w \<longleftrightarrow> (\<forall>y. 0 < y \<and> y \<le> x \<longrightarrow> y \<in> set xs))"
proof -
  obtain w where w: "report_all xs [0] = Inr w" "window_ok w" "seen w = set xs \<union> seen [0]"
    using report_all_seen [OF window_ok_initial] by blast
  have "seen [0] = {0}" by (auto simp: seen_def)
  with w show ?thesis
    by (auto simp: front_is_largest_prefix word_gt_0)
qed

theorem xid_rep_acknowledges_prefix_witness:
  "report_all [1, 3, 3, 2, 6] [0] = Inr [3, 3, 6] \<and>
   (\<exists>w. report_all [1, 3, 3, 2, 6] [0] = Inr w \<and>
     (\<forall>x. x \<le> hd w \<longleftrightarrow> (\<forall>y. 0 < y \<and> y \<le> x \<longrightarrow> y \<in> set [1, 3, 3, 2, 6])))"
proof
  show "report_all [1, 3, 3, 2, 6] [0] = Inr [3, 3, 6]" by code_simp
qed (rule xid_rep_acknowledges_prefix)

end
