(* ===== verification/Reply_Window.thy ===== *)
theory Reply_Window
  imports Marshall
begin

text \<open>
  The per-client window of replies that gives \<^verbatim>\<open>rpcs\<close> its at-most-once behaviour:
  \<^verbatim>\<open>struct reply_t\<close> and \<^verbatim>\<open>rpcstate_t\<close> of \<^verbatim>\<open>src/rpc/rpc.h\<close>, \<^verbatim>\<open>checkduplicate_and_update\<close>,
  \<^verbatim>\<open>add_reply\<close> and \<^verbatim>\<open>free_reply_window\<close> of \<^verbatim>\<open>src/rpc/rpc.cc\<close>. Each of the three runs under
  \<^verbatim>\<open>reply_window_m_\<close>, so an execution of the server is a sequence of these steps; the last section
  runs such sequences. A reply buffer is its contents; the model does not track when it is freed.
\<close>

section \<open>The code\<close>

datatype rpcstate_t = NEW | INPROGRESS | DONE | FORGOTTEN

record reply_t =
  r_xid :: u32
  cb_present :: bool
  r_buf :: "block option"
  r_sz :: int

definition reply_new :: "u32 \<Rightarrow> reply_t" where
  "reply_new xid = \<lparr>r_xid = xid, cb_present = False, r_buf = None, r_sz = 0\<rparr>"

type_synonym reply_window = "u32 \<rightharpoonup> reply_t list"

text \<open>\<^verbatim>\<open>reply_window_[clt_nonce]\<close>, which creates an empty list for a new key.\<close>

definition reply_list :: "reply_window \<Rightarrow> u32 \<Rightarrow> reply_t list" where
  "reply_list w clt = (case w clt of None \<Rightarrow> [] | Some l \<Rightarrow> l)"

text \<open>
  The scan of \<^verbatim>\<open>checkduplicate_and_update\<close>: it remembers the last entry for \<^verbatim>\<open>xid\<close> and erases the
  entries the client has acknowledged.
\<close>

fun scan_replies :: "u32 \<Rightarrow> u32 \<Rightarrow> reply_t option \<Rightarrow> reply_t list \<Rightarrow> reply_t option \<times> reply_t list" where
  "scan_replies xid xid_rep it_xid [] = (it_xid, [])"
| "scan_replies xid xid_rep it_xid (e # l) =
     (let it_xid = (if r_xid e = xid \<and> xid > xid_rep then Some e else it_xid);
          (found, kept) = scan_replies xid xid_rep it_xid l
      in (found, if r_xid e \<le> xid_rep then kept else e # kept))"

definition checkduplicate_and_update ::
  "u32 \<Rightarrow> u32 \<Rightarrow> u32 \<Rightarrow> reply_window \<Rightarrow> rpcstate_t \<times> (block option \<times> int) option \<times> reply_window" where
  "checkduplicate_and_update clt xid xid_rep w =
     (let l = reply_list w clt in
      if l = [] then (NEW, None, w(clt \<mapsto> [reply_new xid]))
      else
        let (found, kept) = scan_replies xid xid_rep None l in
        case found of
          Some e \<Rightarrow>
            if cb_present e then (DONE, Some (r_buf e, r_sz e), w(clt \<mapsto> kept))
            else (INPROGRESS, None, w(clt \<mapsto> kept))
        | None \<Rightarrow>
            if xid \<le> xid_rep then (FORGOTTEN, None, w(clt \<mapsto> kept))
            else (NEW, None, w(clt \<mapsto> kept @ [reply_new xid])))"

definition add_reply :: "u32 \<Rightarrow> u32 \<Rightarrow> block option \<Rightarrow> int \<Rightarrow> reply_window \<Rightarrow> reply_window" where
  "add_reply clt xid b sz w =
     w(clt \<mapsto> map (\<lambda>e. if r_xid e = xid then e\<lparr>r_buf := b, r_sz := sz, cb_present := True\<rparr> else e)
       (reply_list w clt))"

definition free_reply_window :: "reply_window \<Rightarrow> reply_window" where
  "free_reply_window w = Map.empty"

section \<open>Facts about the scan\<close>

lemma reply_list_upd [simp]:
  "reply_list (w(clt \<mapsto> l)) c = (if c = clt then l else reply_list w c)"
  by (simp add: reply_list_def)

lemma scan_kept [simp]:
  "snd (scan_replies xid xid_rep it l) = filter (\<lambda>e. r_xid e > xid_rep) l"
  by (induction l arbitrary: it) (auto simp: Let_def case_prod_unfold not_le)

lemma scan_none:
  "fst (scan_replies xid xid_rep None l) = None \<longleftrightarrow>
     xid \<le> xid_rep \<or> (\<forall>e \<in> set l. r_xid e \<noteq> xid)"
proof -
  have keep: "fst (scan_replies xid xid_rep (Some e) l) \<noteq> None" for e l
    by (induction l arbitrary: e) (auto simp: Let_def case_prod_unfold)
  show ?thesis
    by (induction l) (auto simp: Let_def case_prod_unfold keep not_le)
qed

lemma scan_some:
  "fst (scan_replies xid xid_rep it l) = Some e \<Longrightarrow> it = Some e \<or> e \<in> set l \<and> r_xid e = xid \<and> xid > xid_rep"
  by (induction l arbitrary: it) (fastforce simp: Let_def case_prod_unfold split: if_splits)+

lemma checkduplicate_other:
  "clt \<noteq> c \<Longrightarrow> checkduplicate_and_update clt xid xid_rep w = (s, b, w') \<Longrightarrow>
   reply_list w' c = reply_list w c"
  by (auto simp: checkduplicate_and_update_def Let_def split: if_splits prod.splits option.splits)

text \<open>The list of the requesting client afterwards, on every branch.\<close>

lemma checkduplicate_list:
  assumes "checkduplicate_and_update clt xid xid_rep w = (s, b, w')"
  shows "reply_list w' clt =
    filter (\<lambda>e. r_xid e > xid_rep) (reply_list w clt) @ (if s = NEW then [reply_new xid] else [])"
  using assms scan_kept [of xid xid_rep None "reply_list w clt"]
  by (auto simp: checkduplicate_and_update_def Let_def case_prod_unfold
      split: if_splits option.splits)

lemma checkduplicate_NEW:
  assumes "checkduplicate_and_update clt xid xid_rep w = (s, b, w')"
  shows "s = NEW \<longleftrightarrow> reply_list w clt = [] \<or>
    (xid > xid_rep \<and> (\<forall>e \<in> set (reply_list w clt). r_xid e \<noteq> xid))"
  using assms scan_none [of xid xid_rep "reply_list w clt"]
  by (auto simp: checkduplicate_and_update_def Let_def case_prod_unfold not_le
      split: if_splits option.splits)

section \<open>Sequences of requests\<close>

text \<open>
  What happens to the window in an execution: a request passes the duplicate check, and the thread
  that executed a request stores its reply. \<open>executed\<close> lists the requests whose handler was
  started (those that were \<open>NEW\<close>), \<open>running\<close> those whose reply is not stored yet.
\<close>

datatype amo_event =
    Request u32 u32 u32           \<comment> \<open>client, xid, xid_rep\<close>
  | Finish u32 u32 "block option" int \<comment> \<open>client, xid, reply\<close>

record amo_state =
  window :: reply_window
  running :: "(u32 \<times> u32) list"
  executed :: "(u32 \<times> u32) list"

definition amo_init :: amo_state where
  "amo_init = \<lparr>window = Map.empty, running = [], executed = []\<rparr>"

fun amo_step :: "amo_state \<Rightarrow> amo_event \<Rightarrow> amo_state" where
  "amo_step s (Request clt xid xid_rep) =
     (let (st, _, w) = checkduplicate_and_update clt xid xid_rep (window s) in
      if st = NEW
      then s\<lparr>window := w, running := (clt, xid) # running s, executed := (clt, xid) # executed s\<rparr>
      else s\<lparr>window := w\<rparr>)"
| "amo_step s (Finish clt xid b sz) =
     (if (clt, xid) \<in> set (running s)
      then s\<lparr>window := add_reply clt xid b sz (window s), running := remove1 (clt, xid) (running s)\<rparr>
      else s)"

definition amo_run :: "amo_event list \<Rightarrow> amo_state" where
  "amo_run es = foldl amo_step amo_init es"

lemma amo_run_simps [simp]:
  "amo_run [] = amo_init"
  "amo_run (es @ [e]) = amo_step (amo_run es) e"
  by (simp_all add: amo_run_def)

text \<open>No request so far lets the server forget request \<open>x\<close> of client \<open>c\<close>.\<close>

definition unacked :: "u32 \<Rightarrow> u32 \<Rightarrow> amo_event list \<Rightarrow> bool" where
  "unacked c x es \<longleftrightarrow> (\<forall>x' xr. Request c x' xr \<in> set es \<longrightarrow> xr < x)"

definition entries :: "u32 \<Rightarrow> u32 \<Rightarrow> amo_state \<Rightarrow> reply_t list" where
  "entries c x s = filter (\<lambda>e. r_xid e = x) (reply_list (window s) c)"

lemma entries_add_reply:
  "map r_xid (filter (\<lambda>e. r_xid e = x) (reply_list (add_reply clt xid b sz w) c)) =
   map r_xid (filter (\<lambda>e. r_xid e = x) (reply_list w c))"
proof -
  have "map r_xid (filter (\<lambda>e. r_xid e = x) (map (\<lambda>e. if r_xid e = xid
      then e\<lparr>r_buf := b, r_sz := sz, cb_present := True\<rparr> else e) l)) =
    map r_xid (filter (\<lambda>e. r_xid e = x) l)" for l :: "reply_t list"
    by (induction l) auto
  then show ?thesis by (simp add: add_reply_def)
qed

lemma entries_finish:
  "length (entries c x (amo_step s (Finish clt xid b sz))) = length (entries c x s)"
  using arg_cong [OF entries_add_reply [of x clt xid b sz "window s" c], of length]
  by (simp add: entries_def)

lemma filter_unacked:
  "xr < x \<Longrightarrow> filter (\<lambda>e. xr < r_xid e \<and> r_xid e = x) l = filter (\<lambda>e. r_xid e = x) l"
  by (induction l) auto

lemma unacked_step:
  assumes "length (entries c x s) = count_list (executed s) (c, x)" and "length (entries c x s) \<le> 1"
    and "unacked c x [e]"
  shows "length (entries c x (amo_step s e)) = count_list (executed (amo_step s e)) (c, x) \<and>
    length (entries c x (amo_step s e)) \<le> 1"
proof (cases e)
  case (Finish clt xid b sz)
  then show ?thesis
    using assms entries_finish [of c x s clt xid b sz] by simp
next
  case (Request clt xid xr)
  obtain st b w where chk: "checkduplicate_and_update clt xid xr (window s) = (st, b, w)"
    by (metis prod_cases3)
  show ?thesis
  proof (cases "clt = c")
    case False
    with assms chk Request checkduplicate_other [OF False chk] show ?thesis
      by (simp add: entries_def)
  next
    case True
    have lt: "xr < x" using assms(3) Request True by (auto simp: unacked_def)
    have new: "st = NEW \<Longrightarrow> xid = x \<Longrightarrow> entries c x s = []"
      using checkduplicate_NEW [OF chk] True by (auto simp: entries_def filter_empty_conv)
    have "filter (\<lambda>e. r_xid e = x) (reply_list w c) =
        entries c x s @ (if st = NEW \<and> xid = x then [reply_new xid] else [])"
      using checkduplicate_list [OF chk] True lt
      by (simp add: entries_def filter_unacked reply_new_def)
    with assms(1,2) chk Request True new show ?thesis
      by (auto simp: entries_def)
  qed
qed

lemma unacked_invariant:
  "unacked c x es \<Longrightarrow>
   length (entries c x (amo_run es)) = count_list (executed (amo_run es)) (c, x) \<and>
   length (entries c x (amo_run es)) \<le> 1"
proof (induction es rule: rev_induct)
  case Nil
  then show ?case by (simp add: amo_init_def entries_def reply_list_def)
next
  case (snoc e es)
  then show ?case
    using unacked_step [of c x "amo_run es" e] by (auto simp: unacked_def)
qed

text \<open>
  As long as no request of the client acknowledges \<open>x\<close> (carries an \<^verbatim>\<open>xid_rep\<close> of at least \<open>x\<close>),
  the handler of request \<open>x\<close> is started at most once, whatever requests arrive, however often and
  in whatever order, and whenever the running handlers store their replies.
\<close>

theorem at_most_once_until_acknowledged:
  assumes "unacked c x es"
  shows "count_list (executed (amo_run es)) (c, x) \<le> 1"
  using unacked_invariant [OF assms] by simp

theorem at_most_once_until_acknowledged_witness:
  "count_list (executed (amo_run
    [Request 7 1 0, Request 7 2 0, Request 7 1 0, Finish 7 1 None 0, Request 7 1 0])) (7, 1) \<le> 1"
  by (rule at_most_once_until_acknowledged) (auto simp: unacked_def)

text \<open>The number of an entry that a request lets the server forget is not in the window afterwards.\<close>

lemma forgotten_gone:
  assumes "checkduplicate_and_update c y xr w = (st, b, w')" and "x \<le> xr" and "y \<noteq> x"
    and "e \<in> set (reply_list w' c)"
  shows "r_xid e \<noteq> x"
  using checkduplicate_list [OF assms(1)] assms(2-4) by (auto simp: reply_new_def split: if_splits)

lemma amo_step_NEW:
  assumes "checkduplicate_and_update c x r (window s) = (st, b, w')"
  shows "window (amo_step s (Request c x r)) = w'"
    and "executed (amo_step s (Request c x r)) = (if st = NEW then [(c, x)] else []) @ executed s"
  using assms by simp_all

text \<open>
  C38. At most once is not kept across acknowledgements. \<^verbatim>\<open>rpc.h\<close> and the comments of \<^verbatim>\<open>rpc.cc\<close> promise that a
  request is executed at most once, and that a request below the acknowledged number is forgotten. But
  the duplicate check compares a request with its own \<^verbatim>\<open>xid_rep\<close> only, and the largest \<^verbatim>\<open>xid_rep\<close>
  received is not kept. After any history in which the handler of request \<open>x\<close> may already have been
  started, once a request \<open>y\<close> acknowledges \<open>x\<close>, a delayed duplicate of \<open>x\<close>, which carries the older
  \<^verbatim>\<open>xid_rep\<close> it was sent with, starts the handler of \<open>x\<close> once more.
\<close>

theorem delayed_duplicate_runs_twice:
  assumes "x \<le> xr" and "y \<noteq> x" and "r < x"
  shows "count_list (executed (amo_run (es @ [Request c y xr] @ [Request c x r]))) (c, x) =
    count_list (executed (amo_run es)) (c, x) + 1"
proof -
  obtain st1 b1 w1 where 1: "checkduplicate_and_update c y xr (window (amo_run es)) = (st1, b1, w1)"
    by (metis prod_cases3)
  obtain st2 b2 w2 where 2: "checkduplicate_and_update c x r w1 = (st2, b2, w2)" by (metis prod_cases3)
  have "st2 = NEW" using checkduplicate_NEW [OF 2] forgotten_gone [OF 1 assms(1,2)] assms(3) by blast
  moreover have "amo_run (es @ [Request c y xr] @ [Request c x r]) =
      amo_step (amo_step (amo_run es) (Request c y xr)) (Request c x r)"
    by (simp add: amo_run_def)
  ultimately show ?thesis
    using amo_step_NEW [OF 1] amo_step_NEW(2) [of c x r "amo_step (amo_run es) (Request c y xr)" st2 b2 w2] 2
      assms(2) by simp
qed

text \<open>
  A client sends request 1, gets its reply, and sends request 2, which acknowledges 1; the duplicate
  of request 1 arrives only then, and its handler is started a second time.
\<close>

theorem delayed_duplicate_runs_twice_witness:
  "count_list (executed (amo_run
    [Request 7 1 0, Finish 7 1 None 0, Request 7 2 1, Request 7 1 0])) (7, 1) = 2"
proof -
  have "count_list (executed (amo_run [Request 7 1 0, Finish 7 1 None 0])) (7, 1) = 1"
    by (simp add: amo_run_def amo_init_def checkduplicate_and_update_def add_reply_def
        reply_list_def reply_new_def Let_def)
  with delayed_duplicate_runs_twice [of 1 1 2 0 "[Request 7 1 0, Finish 7 1 None 0]" 7] show ?thesis
    by (simp del: amo_run_simps)
qed

subsection \<open>The saved reply\<close>

lemma count_list_remove1: "count_list (remove1 a l) b = count_list l b - (if a = b then 1 else 0)"
  by (induction l) (auto simp: count_list_0_iff)

lemma running_executed:
  "count_list (running (amo_run es)) p \<le> count_list (executed (amo_run es)) p"
proof (induction es rule: rev_induct)
  case Nil
  then show ?case by (simp add: amo_init_def)
next
  case (snoc e es)
  then show ?case
    by (cases e) (auto simp: Let_def count_list_remove1 split: prod.splits)
qed

text \<open>The state in which the reply of request \<open>x\<close> of client \<open>c\<close> is saved.\<close>

definition saved :: "u32 \<Rightarrow> u32 \<Rightarrow> block option \<Rightarrow> int \<Rightarrow> amo_state \<Rightarrow> bool" where
  "saved c x b sz s \<longleftrightarrow>
     entries c x s = [\<lparr>r_xid = x, cb_present = True, r_buf = b, r_sz = sz\<rparr>] \<and> (c, x) \<notin> set (running s)"

lemma filter_add_reply:
  "filter (\<lambda>e. r_xid e = x) (reply_list (add_reply clt xid b sz w) c) =
   (if clt = c \<and> xid = x
    then map (\<lambda>e. e\<lparr>r_buf := b, r_sz := sz, cb_present := True\<rparr>) (filter (\<lambda>e. r_xid e = x) (reply_list w c))
    else filter (\<lambda>e. r_xid e = x) (reply_list w c))"
proof -
  have upd: "filter (\<lambda>e. r_xid e = x) (map (\<lambda>e. if r_xid e = xid
      then e\<lparr>r_buf := b, r_sz := sz, cb_present := True\<rparr> else e) l) =
    (if xid = x then map (\<lambda>e. e\<lparr>r_buf := b, r_sz := sz, cb_present := True\<rparr>) (filter (\<lambda>e. r_xid e = x) l)
     else filter (\<lambda>e. r_xid e = x) l)" for l :: "reply_t list"
    by (induction l) auto
  show ?thesis
    using upd [of "reply_list w clt"] by (cases "clt = c"; cases "xid = x") (simp_all add: add_reply_def)
qed

lemma saved_finish:
  assumes "(c, x) \<in> set (running (amo_run es))" and "unacked c x es"
  shows "saved c x b sz (amo_step (amo_run es) (Finish c x b sz))"
proof -
  let ?s = "amo_run es"
  have "count_list (running ?s) (c, x) \<noteq> 0"
    using assms(1) by (simp add: count_list_0_iff)
  then have one: "count_list (running ?s) (c, x) = 1" "length (entries c x ?s) = 1"
    using running_executed [of es "(c, x)"] unacked_invariant [OF assms(2)] by linarith+
  then obtain e where e: "entries c x ?s = [e]"
    by (auto simp: length_Suc_conv)
  then have "r_xid e = x"
    by (auto simp: entries_def dest: filter_singletonD)
  moreover have "count_list (remove1 (c, x) (running ?s)) (c, x) = 0"
    using one(1) by (simp add: count_list_remove1)
  then have "(c, x) \<notin> set (remove1 (c, x) (running ?s))"
    by (simp only: count_list_0_iff) simp
  ultimately show ?thesis
    using assms(1) e by (simp add: saved_def entries_def filter_add_reply)
qed

lemma saved_step:
  assumes "saved c x b sz s" and "unacked c x [e]"
  shows "saved c x b sz (amo_step s e)"
proof (cases e)
  case (Finish clt xid b' sz')
  with assms(1) show ?thesis
    by (auto simp: saved_def entries_def filter_add_reply dest: notin_set_remove1)
next
  case (Request clt xid xr)
  obtain st r w where chk: "checkduplicate_and_update clt xid xr (window s) = (st, r, w)"
    by (metis prod_cases3)
  show ?thesis
  proof (cases "clt = c")
    case False
    with assms chk Request checkduplicate_other [OF False chk] show ?thesis
      by (auto simp: saved_def entries_def)
  next
    case True
    have lt: "xr < x" using assms(2) Request True by (auto simp: unacked_def)
    have "entries c x s \<noteq> []" using assms(1) by (simp add: saved_def)
    then have "\<not> (st = NEW \<and> xid = x)"
      using checkduplicate_NEW [OF chk] True by (auto simp: entries_def filter_empty_conv)
    then have "filter (\<lambda>e. r_xid e = x) (reply_list w c) = entries c x s"
      using checkduplicate_list [OF chk] True lt
      by (auto simp: entries_def filter_unacked reply_new_def)
    with assms(1) chk Request True \<open>\<not> (st = NEW \<and> xid = x)\<close> show ?thesis
      by (auto simp: saved_def entries_def)
  qed
qed

lemma saved_run:
  "saved c x b sz (amo_run es) \<Longrightarrow> unacked c x es' \<Longrightarrow> saved c x b sz (amo_run (es @ es'))"
proof (induction es' rule: rev_induct)
  case Nil
  then show ?case by simp
next
  case (snoc e es')
  then have "saved c x b sz (amo_step (amo_run (es @ es')) e)"
    by (intro saved_step) (auto simp: unacked_def)
  then show ?case by (simp flip: append_assoc)
qed

lemma saved_answer:
  assumes "saved c x b sz s" and "xr < x"
  shows "\<exists>w. checkduplicate_and_update c x xr (window s) = (DONE, Some (b, sz), w)"
proof -
  let ?l = "reply_list (window s) c"
  let ?e = "\<lparr>r_xid = x, cb_present = True, r_buf = b, r_sz = sz\<rparr>"
  have ent: "filter (\<lambda>e. r_xid e = x) ?l = [?e]"
    using assms(1) by (simp add: saved_def entries_def)
  then have "?e \<in> set ?l"
    by (auto dest: filter_singletonD)
  then have "fst (scan_replies x xr None ?l) \<noteq> None"
    using assms(2) scan_none [of x xr ?l] by auto
  then obtain e where e: "fst (scan_replies x xr None ?l) = Some e" by auto
  then have "e \<in> set (filter (\<lambda>e. r_xid e = x) ?l)"
    using scan_some [OF e] by auto
  with ent have "e = ?e" by simp
  with e \<open>?e \<in> set ?l\<close> show ?thesis
    by (auto simp: checkduplicate_and_update_def Let_def case_prod_unfold)
qed

text \<open>
  C30. Once the handler of request \<open>x\<close> has stored its reply, every duplicate of the request is
  answered with exactly that reply until the client acknowledges it - whatever happens in between.
\<close>

theorem duplicate_gets_saved_reply:
  assumes "(c, x) \<in> set (running (amo_run es))" and "unacked c x (es @ es')" and "xr < x"
  shows "\<exists>w. checkduplicate_and_update c x xr (window (amo_run (es @ [Finish c x b sz] @ es'))) =
    (DONE, Some (b, sz), w)"
proof -
  have "saved c x b sz (amo_run (es @ [Finish c x b sz]))"
    using saved_finish [OF assms(1)] assms(2) by (simp add: unacked_def del: amo_step.simps)
  moreover have "unacked c x es'"
    using assms(2) by (auto simp: unacked_def)
  ultimately have "saved c x b sz (amo_run ((es @ [Finish c x b sz]) @ es'))"
    by (rule saved_run)
  then show ?thesis
    using saved_answer [OF _ assms(3)] by simp
qed

theorem duplicate_gets_saved_reply_witness:
  "\<exists>w. checkduplicate_and_update 7 1 0 (window (amo_run
      ([Request 7 1 0, Request 7 2 0] @ [Finish 7 1 (Some [Some 9]) 1] @ [Request 7 3 0]))) =
    (DONE, Some (Some [Some 9], 1), w)"
  by (rule duplicate_gets_saved_reply)
    (auto simp: amo_run_def amo_init_def checkduplicate_and_update_def reply_list_def
      reply_new_def Let_def unacked_def)

end
