(* ===== verification/Connection.thy ===== *)
theory Connection
  imports Marshall
begin

text \<open>
  Class \<^verbatim>\<open>connection\<close> of \<^verbatim>\<open>src/rpc/connection.h\<close> and \<^verbatim>\<open>src/rpc/connection.cc\<close>: reference counting,
  sending one message at a time, and cutting the byte stream of the socket into messages. The
  operating system is an input: what \<^verbatim>\<open>read\<close> and \<^verbatim>\<open>write\<close> return is an argument of each function.
  Calls into \<^verbatim>\<open>PollMgr\<close> are an output, in order. Each function is the body between taking and
  leaving the connection's mutex; where \<^verbatim>\<open>send\<close> waits on a condition variable it is split into the
  parts before and after the wait. \<^verbatim>\<open>lossy_\<close> shuts the socket down at random, which shows in the
  result of \<^verbatim>\<open>write\<close>.
\<close>

section \<open>State\<close>

record charbuf =
  cb_buf :: "block option"
  cb_sz :: int
  cb_solong :: int

definition charbuf_new :: charbuf where
  "charbuf_new = \<lparr>cb_buf = None, cb_sz = 0, cb_solong = 0\<rparr>"

record connection =
  fd :: int
  dead :: bool
  wpdu :: charbuf
  rpdu :: charbuf
  waiters :: int
  refno :: int
  lossy :: int

datatype poll_flag = CB_NONE | CB_RDONLY | CB_WRONLY | CB_RDWR

datatype conn_call =
    Add_callback int poll_flag
  | Del_callback int poll_flag
  | Block_remove_fd int
  | Shutdown int
  | Signal_send_complete
  | Broadcast_send_wait

text \<open>Results of the system calls.\<close>

datatype write_result = Wrote nat | Write_again | Write_error

datatype read_result = Read "u8 list" | Read_eof bool | Read_error bool
  \<comment> \<open>the flag: \<^verbatim>\<open>errno\<close> is \<^verbatim>\<open>EAGAIN\<close> afterwards (after an end of file it keeps its old value)\<close>

definition connection_new :: "int \<Rightarrow> int \<Rightarrow> connection \<times> conn_call list" where
  "connection_new f l =
     (\<lparr>fd = f, dead = False, wpdu = charbuf_new, rpdu = charbuf_new, waiters = 0, refno = 1, lossy = l\<rparr>,
      [Add_callback f CB_RDONLY])"

definition MAX_PDU :: int where
  "MAX_PDU = 10 * 2 ^ 20"

declare MAX_PDU_def [limits]

section \<open>References\<close>

definition incref :: "connection \<Rightarrow> connection" where
  "incref c = c\<lparr>refno := refno c + 1\<rparr>"

text \<open>The destructor's assertions; the object is gone afterwards.\<close>

definition connection_delete :: "connection \<Rightarrow> unit res" where
  "connection_delete c =
     rbind (check (dead c) Assert_failed) (\<lambda>_.
     check (cb_buf (wpdu c) = None) Assert_failed)"

text \<open>\<open>None\<close>: the object has been deleted.\<close>

definition decref :: "connection \<Rightarrow> connection option res" where
  "decref c =
     (let c = c\<lparr>refno := refno c - 1\<rparr> in
      rbind (check (refno c \<ge> 0) Assert_failed) (\<lambda>_.
      if refno c = 0 \<and> dead c
      then rbind (connection_delete c) (\<lambda>_. Inr None)
      else Inr (Some c)))"

definition closeconn :: "connection \<Rightarrow> connection \<times> conn_call list" where
  "closeconn c =
     (if \<not> dead c then (c\<lparr>dead := True\<rparr>, [Shutdown (fd c), Block_remove_fd (fd c)])
      else (c, []))"

definition isdead :: "connection \<Rightarrow> bool" where
  "isdead c = dead c"

definition ref :: "connection \<Rightarrow> int" where
  "ref c = refno c"

text \<open>Calls through a pointer, into a heap of connections.\<close>

type_synonym cid = nat
type_synonym conn_heap = "cid \<rightharpoonup> connection"

definition ptr_incref :: "cid \<Rightarrow> conn_heap \<Rightarrow> conn_heap res" where
  "ptr_incref c h =
     (case h c of None \<Rightarrow> Inl Use_after_free | Some k \<Rightarrow> Inr (h(c \<mapsto> incref k)))"

definition ptr_decref :: "cid \<Rightarrow> conn_heap \<Rightarrow> conn_heap res" where
  "ptr_decref c h =
     (case h c of None \<Rightarrow> Inl Use_after_free | Some k \<Rightarrow> rbind (decref k) (\<lambda>r. Inr (h(c := r))))"

definition ptr_isdead :: "cid \<Rightarrow> conn_heap \<Rightarrow> bool res" where
  "ptr_isdead c h = (case h c of None \<Rightarrow> Inl Use_after_free | Some k \<Rightarrow> Inr (isdead k))"

section \<open>Sending\<close>

text \<open>
  \<^verbatim>\<open>writepdu\<close>: the size goes into the first four bytes of the sender's buffer in network byte order
  before the first byte is written. The bytes accepted by the socket are part of the result.
\<close>

definition writepdu :: "write_result \<Rightarrow> connection \<Rightarrow> (bool \<times> block \<times> connection) res" where
  "writepdu r c =
     rbind (check (cb_solong (wpdu c) \<ge> 0) Assert_failed) (\<lambda>_.
     if cb_solong (wpdu c) = cb_sz (wpdu c) then Inr (True, [], c)
     else
       rbind (if cb_solong (wpdu c) = 0
              then poke (cb_buf (wpdu c)) 0 (map Some (be32 (word_of_int (cb_sz (wpdu c)))))
              else Inr (cb_buf (wpdu c))) (\<lambda>buf.
       let w = (wpdu c)\<lparr>cb_buf := buf\<rparr> in
       case r of
         Write_again \<Rightarrow> Inr (True, [], c\<lparr>wpdu := w\<rparr>)
       | Write_error \<Rightarrow> Inr (False, [], c\<lparr>wpdu := w\<lparr>cb_solong := - 1, cb_sz := 0\<rparr>\<rparr>)
       | Wrote n \<Rightarrow>
           (case buf of
              None \<Rightarrow> Inl Null_deref
            | Some b \<Rightarrow>
                rbind (check (cb_solong w + int n \<le> int (length b)) Out_of_bounds) (\<lambda>_.
                Inr (True, take n (drop (nat (cb_solong w)) b),
                  c\<lparr>wpdu := w\<lparr>cb_solong := cb_solong w + int n\<rparr>\<rparr>)))))"

text \<open>
  \<^verbatim>\<open>send\<close> is cut where it gives up the mutex: before the first wait (\<open>send_enter\<close>), between the waits
  (\<open>send_start\<close>, whose result says how it goes on), and after the second wait or after
  \<^verbatim>\<open>block_remove_fd\<close> (\<open>send_finish\<close>).
\<close>

definition send_enter :: "connection \<Rightarrow> connection" where
  "send_enter c = c\<lparr>waiters := waiters c + 1\<rparr>"

text \<open>The condition of the first wait, on \<^verbatim>\<open>send_wait_\<close>.\<close>

definition send_must_wait :: "connection \<Rightarrow> bool" where
  "send_must_wait c \<longleftrightarrow> \<not> dead c \<and> cb_buf (wpdu c) \<noteq> None"

text \<open>
  How \<^verbatim>\<open>send\<close> goes on: it returns at once, it has written everything, it calls \<^verbatim>\<open>block_remove_fd\<close> without
  the mutex, or it waits for \<^verbatim>\<open>send_complete_\<close>.
\<close>

datatype send_next = Send_returns_false | Send_complete | Send_removes | Send_waits

definition send_start ::
  "block option \<Rightarrow> int \<Rightarrow> write_result \<Rightarrow> connection \<Rightarrow>
   (send_next \<times> block \<times> conn_call list \<times> connection) res" where
  "send_start b sz r c =
     (let c = c\<lparr>waiters := waiters c - 1\<rparr> in
      if dead c then Inr (Send_returns_false, [], [], c)
      else
        rbind (writepdu r (c\<lparr>wpdu := \<lparr>cb_buf = b, cb_sz = sz, cb_solong = 0\<rparr>\<rparr>)) (\<lambda>(ok, out, c).
        if \<not> ok then Inr (Send_removes, out, [Block_remove_fd (fd c)], c\<lparr>dead := True\<rparr>)
        else if cb_solong (wpdu c) = cb_sz (wpdu c) then Inr (Send_complete, out, [], c)
        else Inr (Send_waits, out, [Add_callback (fd c) CB_WRONLY], c)))"

text \<open>The condition of the second wait, on \<^verbatim>\<open>send_complete_\<close>.\<close>

definition send_incomplete :: "connection \<Rightarrow> bool" where
  "send_incomplete c \<longleftrightarrow>
     \<not> dead c \<and> cb_solong (wpdu c) \<ge> 0 \<and> cb_solong (wpdu c) < cb_sz (wpdu c)"

text \<open>The end of \<^verbatim>\<open>send\<close>: the result is taken, the slot is freed.\<close>

definition send_finish :: "connection \<Rightarrow> bool \<times> conn_call list \<times> connection" where
  "send_finish c =
     (\<not> dead c \<and> cb_solong (wpdu c) = cb_sz (wpdu c),
      if waiters c > 0 then [Broadcast_send_wait] else [],
      c\<lparr>wpdu := \<lparr>cb_buf = None, cb_sz = 0, cb_solong = 0\<rparr>\<rparr>)"

definition write_cb ::
  "int \<Rightarrow> write_result \<Rightarrow> connection \<Rightarrow> (block \<times> conn_call list \<times> connection) res" where
  "write_cb s r c =
     rbind (check (\<not> dead c) Assert_failed) (\<lambda>_.
     rbind (check (fd c = s) Assert_failed) (\<lambda>_.
     if cb_sz (wpdu c) = 0 then Inr ([], [Del_callback (fd c) CB_WRONLY], c)
     else
       rbind (writepdu r c) (\<lambda>(ok, out, c).
       if \<not> ok then
         Inr (out, [Del_callback (fd c) CB_RDWR, Signal_send_complete], c\<lparr>dead := True\<rparr>)
       else
         rbind (check (cb_solong (wpdu c) \<ge> 0) Assert_failed) (\<lambda>_.
         if cb_solong (wpdu c) < cb_sz (wpdu c) then Inr (out, [], c)
         else Inr (out, [Signal_send_complete], c)))))"

section \<open>Receiving\<close>

text \<open>
  \<^verbatim>\<open>readpdu\<close>. The size field is read as a signed \<^verbatim>\<open>int\<close>; \<^verbatim>\<open>malloc\<close> gets the size plus four as an
  unsigned 64 bit number and cannot satisfy a request that wraps to the top of the address space.
  \<open>r1\<close> is the result of reading the size field, \<open>r2\<close> of reading the rest.
\<close>

definition ntohl :: "u8 list \<Rightarrow> int" where
  "ntohl bs = (case bs of [a, b, c, d] \<Rightarrow> sint (dec32 a b c d) | _ \<Rightarrow> 0)"

definition read_body :: "read_result \<Rightarrow> connection \<Rightarrow> (bool \<times> connection) res" where
  "read_body r c =
     (case r of
        Read (x # xs) \<Rightarrow>
          rbind (poke (cb_buf (rpdu c)) (cb_solong (rpdu c)) (map Some (x # xs))) (\<lambda>b.
          Inr (True, c\<lparr>rpdu := (rpdu c)\<lparr>cb_buf := b,
            cb_solong := cb_solong (rpdu c) + int (length (x # xs))\<rparr>\<rparr>))
      | Read [] \<Rightarrow> Inr (False, c\<lparr>rpdu := charbuf_new\<rparr>)
      | Read_eof again \<Rightarrow>
          if again then Inr (True, c) else Inr (False, c\<lparr>rpdu := charbuf_new\<rparr>)
      | Read_error again \<Rightarrow>
          if again then Inr (True, c) else Inr (False, c\<lparr>rpdu := charbuf_new\<rparr>))"

definition readpdu :: "read_result \<Rightarrow> read_result \<Rightarrow> connection \<Rightarrow> (bool \<times> connection) res" where
  "readpdu r1 r2 c =
     (if cb_sz (rpdu c) \<noteq> 0 then read_body r2 c
      else case r1 of
        Read_eof _ \<Rightarrow> Inr (False, c)
      | Read_error again \<Rightarrow>
          rbind (check (\<not> again) Assert_failed) (\<lambda>_. Inr (False, c))
      | Read bs \<Rightarrow>
          if length bs \<noteq> 4 then Inr (False, c)
          else
            let sz = ntohl bs in
            if sz > MAX_PDU then Inr (False, c)
            else
              rbind (check (cb_buf (rpdu c) = None) Assert_failed) (\<lambda>_.
              rbind (check (sz + 4 \<ge> 0) Assert_failed) (\<lambda>_.
              rbind (poke (Some (replicate (nat (sz + 4)) None)) 0 (map Some bs)) (\<lambda>b.
              read_body r2 (c\<lparr>rpdu := \<lparr>cb_buf = b, cb_sz = sz, cb_solong = 4\<rparr>\<rparr>)))))"

text \<open>
  \<^verbatim>\<open>read_cb\<close>. A complete message goes to \<^verbatim>\<open>mgr_->got_pdu\<close>, whose answer is the argument \<open>consumed\<close>;
  the message handed over is part of the result.
\<close>

definition read_cb ::
  "int \<Rightarrow> read_result \<Rightarrow> read_result \<Rightarrow> bool \<Rightarrow> connection \<Rightarrow>
   ((block option \<times> int) option \<times> conn_call list \<times> connection) res" where
  "read_cb s r1 r2 consumed c =
     rbind (check (fd c = s) Assert_failed) (\<lambda>_.
     if dead c then Inr (None, [], c)
     else
       rbind (if cb_buf (rpdu c) = None \<or> cb_solong (rpdu c) < cb_sz (rpdu c)
              then readpdu r1 r2 c else Inr (True, c)) (\<lambda>(succ, c).
       let calls = (if succ then [] else [Del_callback (fd c) CB_RDWR, Signal_send_complete]);
           c = (if succ then c else c\<lparr>dead := True\<rparr>)
       in
         if cb_buf (rpdu c) \<noteq> None \<and> cb_sz (rpdu c) = cb_solong (rpdu c)
         then Inr (Some (cb_buf (rpdu c), cb_sz (rpdu c)), calls,
           if consumed then c\<lparr>rpdu := charbuf_new\<rparr> else c)
         else Inr (None, calls, c)))"

end
