(* ===== verification/Connection_Send.thy ===== *)
theory Connection_Send
  imports Connection
begin

text \<open>
  Any number of threads call \<^verbatim>\<open>connection::send\<close> on one connection while the poll thread calls
  \<^verbatim>\<open>write_cb\<close> and \<^verbatim>\<open>read_cb\<close> and others close it. The steps are the pieces of \<^verbatim>\<open>send\<close> between two releases
  of the connection's mutex. The stream of bytes the socket has accepted is recorded, and the
  messages for which \<^verbatim>\<open>send\<close> returned true. The socket takes at most the bytes it is offered.
\<close>

section \<open>Steps\<close>

datatype send_pc = S_idle | S_wait block int | S_waits block int | S_removing

record send_world =
  sw_conn :: connection
  sw_pc :: "nat \<Rightarrow> send_pc"
  sw_wire :: block
  sw_acked :: "(block \<times> int) list"

datatype conn_event =
    Send nat block int write_result
  | Send_again nat write_result
  | Send_resume nat
  | Removed nat
  | Writable write_result
  | Readable read_result read_result bool
  | Close

fun fits_request :: "write_result \<Rightarrow> int \<Rightarrow> bool" where
  "fits_request (Wrote n) k \<longleftrightarrow> int n \<le> k"
| "fits_request _ k \<longleftrightarrow> True"

definition valid_msg :: "block \<Rightarrow> int \<Rightarrow> bool" where
  "valid_msg m sz \<longleftrightarrow> 4 \<le> sz \<and> sz \<le> int (length m) \<and> sz \<le> int_max"

abbreviation set_pc :: "nat \<Rightarrow> send_pc \<Rightarrow> send_world \<Rightarrow> send_world" where
  "set_pc t p w \<equiv> w\<lparr>sw_pc := (sw_pc w)(t := p)\<rparr>"

definition sw_finish :: "nat \<Rightarrow> block \<Rightarrow> int \<Rightarrow> send_world \<Rightarrow> send_world" where
  "sw_finish t m sz w =
     (let (ret, calls, c) = send_finish (sw_conn w) in
      set_pc t S_idle (w\<lparr>sw_conn := c, sw_acked := sw_acked w @ (if ret then [(m, sz)] else [])\<rparr>))"

definition sw_start :: "nat \<Rightarrow> block \<Rightarrow> int \<Rightarrow> write_result \<Rightarrow> send_world \<Rightarrow> send_world res" where
  "sw_start t m sz r w =
     rbind (send_start (Some m) sz r (sw_conn w)) (\<lambda>(next, out, calls, c).
     let w = w\<lparr>sw_conn := c, sw_wire := sw_wire w @ out\<rparr> in
     Inr (case next of
       Send_returns_false \<Rightarrow> set_pc t S_idle w
     | Send_complete \<Rightarrow> sw_finish t m sz w
     | Send_removes \<Rightarrow> set_pc t S_removing w
     | Send_waits \<Rightarrow> set_pc t (S_waits m sz) w))"

text \<open>\<open>None\<close>: the step is not possible in this state.\<close>

fun conn_exec :: "conn_event \<Rightarrow> send_world \<Rightarrow> send_world res option" where
  "conn_exec (Send t m sz r) w =
     (if sw_pc w t = S_idle \<and> valid_msg m sz \<and> fits_request r sz then
        let w = w\<lparr>sw_conn := send_enter (sw_conn w)\<rparr> in
        if send_must_wait (sw_conn w) then Some (Inr (set_pc t (S_wait m sz) w))
        else Some (sw_start t m sz r w)
      else None)"
| "conn_exec (Send_again t r) w =
     (case sw_pc w t of
        S_wait m sz \<Rightarrow>
          if fits_request r sz then
            if send_must_wait (sw_conn w) then Some (Inr w) else Some (sw_start t m sz r w)
          else None
      | _ \<Rightarrow> None)"
| "conn_exec (Send_resume t) w =
     (case sw_pc w t of
        S_waits m sz \<Rightarrow>
          if send_incomplete (sw_conn w) then Some (Inr w) else Some (Inr (sw_finish t m sz w))
      | _ \<Rightarrow> None)"
| "conn_exec (Removed t) w =
     (if sw_pc w t = S_removing then Some (Inr (sw_finish t [] 0 w)) else None)"
| "conn_exec (Writable r) w =
     (let c = sw_conn w in
      if fits_request r (cb_sz (wpdu c) - cb_solong (wpdu c)) then
        Some (rbind (write_cb (fd c) r c) (\<lambda>(out, calls, c).
          Inr (w\<lparr>sw_conn := c, sw_wire := sw_wire w @ out\<rparr>)))
      else None)"
| "conn_exec (Readable r1 r2 consumed) w =
     Some (rbind (read_cb (fd (sw_conn w)) r1 r2 consumed (sw_conn w)) (\<lambda>(pdu, calls, c).
       Inr (w\<lparr>sw_conn := c\<rparr>)))"
| "conn_exec Close w = Some (Inr (w\<lparr>sw_conn := fst (closeconn (sw_conn w))\<rparr>))"

definition send_world_new :: "int \<Rightarrow> int \<Rightarrow> send_world" where
  "send_world_new f l =
     \<lparr>sw_conn = fst (connection_new f l), sw_pc = \<lambda>_. S_idle, sw_wire = [], sw_acked = []\<rparr>"

inductive send_reach :: "send_world \<Rightarrow> send_world \<Rightarrow> bool" for w0 where
  start: "send_reach w0 w0"
| step: "send_reach w0 w \<Longrightarrow> conn_exec e w = Some (Inr w') \<Longrightarrow> send_reach w0 w'"

fun conn_run :: "conn_event list \<Rightarrow> send_world \<Rightarrow> send_world res option" where
  "conn_run [] w = Some (Inr w)"
| "conn_run (e # es) w =
     (case conn_exec e w of
        None \<Rightarrow> None | Some (Inl f) \<Rightarrow> Some (Inl f) | Some (Inr w') \<Rightarrow> conn_run es w')"

section \<open>Invariant\<close>

text \<open>What a message looks like on the wire: its first four bytes are its size.\<close>

definition frame :: "block \<times> int \<Rightarrow> block" where
  "frame p = map Some (be32 (word_of_int (snd p))) @ drop 4 (take (nat (snd p)) (fst p))"

lemma length_frame: "valid_msg m sz \<Longrightarrow> length (frame (m, sz)) = nat sz"
  by (auto simp: frame_def valid_msg_def)

text \<open>The slot \<^verbatim>\<open>wpdu_\<close> holds message \<open>m\<close>, of which \<open>tail\<close> has been written.\<close>

definition slot_holds :: "connection \<Rightarrow> block \<Rightarrow> int \<Rightarrow> block \<Rightarrow> bool" where
  "slot_holds c m sz tail \<longleftrightarrow> valid_msg m sz \<and>
     (if cb_solong (wpdu c) < 0 then dead c \<and> cb_sz (wpdu c) = 0 \<and> (\<exists>k. tail = take k (frame (m, sz)))
      else cb_sz (wpdu c) = sz \<and> cb_solong (wpdu c) \<le> sz \<and>
        tail = take (nat (cb_solong (wpdu c))) (frame (m, sz)) \<and>
        (\<exists>b. cb_buf (wpdu c) = Some b \<and> length b = length m \<and> drop 4 b = drop 4 m \<and>
          (cb_solong (wpdu c) > 0 \<longrightarrow> take 4 b = map Some (be32 (word_of_int sz)))))"

definition empty_slot :: "connection \<Rightarrow> bool" where
  "empty_slot c \<longleftrightarrow> wpdu c = \<lparr>cb_buf = None, cb_sz = 0, cb_solong = 0\<rparr>"

fun sending :: "send_pc \<Rightarrow> bool" where
  "sending (S_waits m sz) = True"
| "sending S_removing = True"
| "sending _ = False"

fun waiting_valid :: "send_pc \<Rightarrow> bool" where
  "waiting_valid (S_wait m sz) = valid_msg m sz"
| "waiting_valid _ = True"

text \<open>The beginning of the frame of some message.\<close>

definition partial_frame :: "block \<Rightarrow> bool" where
  "partial_frame tail \<longleftrightarrow> (\<exists>m sz k. valid_msg m sz \<and> tail = take k (frame (m, sz)))"

text \<open>No message in the slot; message \<open>m\<close> of thread \<open>t\<close> in the slot.\<close>

definition idle_inv :: "send_world \<Rightarrow> block \<Rightarrow> bool" where
  "idle_inv w tail \<longleftrightarrow> empty_slot (sw_conn w) \<and> (\<forall>t. \<not> sending (sw_pc w t)) \<and>
     (if dead (sw_conn w) then partial_frame tail else tail = [])"

definition busy_inv :: "send_world \<Rightarrow> block \<Rightarrow> nat \<Rightarrow> block \<Rightarrow> int \<Rightarrow> bool" where
  "busy_inv w tail t m sz \<longleftrightarrow> cb_buf (wpdu (sw_conn w)) \<noteq> None \<and> (\<forall>u. sending (sw_pc w u) \<longleftrightarrow> u = t) \<and>
     slot_holds (sw_conn w) m sz tail \<and>
     (sw_pc w t = S_waits m sz \<or> sw_pc w t = S_removing \<and> dead (sw_conn w))"

definition send_inv :: "send_world \<Rightarrow> bool" where
  "send_inv w \<longleftrightarrow>
     (\<forall>t. waiting_valid (sw_pc w t)) \<and>
     (\<exists>tail. sw_wire w = concat (map frame (sw_acked w)) @ tail \<and>
       (idle_inv w tail \<or> (\<exists>t m sz. busy_inv w tail t m sz)))"

lemma send_invE:
  assumes "send_inv w"
  obtains (idle) tail where "sw_wire w = concat (map frame (sw_acked w)) @ tail" "idle_inv w tail"
    "\<And>t. waiting_valid (sw_pc w t)"
  | (busy) tail t m sz where "sw_wire w = concat (map frame (sw_acked w)) @ tail" "busy_inv w tail t m sz"
    "\<And>t. waiting_valid (sw_pc w t)"
  using assms unfolding send_inv_def by blast

lemma send_invI:
  assumes "\<And>t. waiting_valid (sw_pc w t)" and "sw_wire w = concat (map frame (sw_acked w)) @ tail"
    and "idle_inv w tail \<or> busy_inv w tail t m sz"
  shows "send_inv w"
  using assms unfolding send_inv_def by blast

lemma partial_frame_Nil [simp]: "partial_frame []"
  unfolding partial_frame_def
  by (rule exI [of _ "replicate 4 None"], rule exI [of _ 4], rule exI [of _ 0])
    (simp add: valid_msg_def int_max_def)

section \<open>writepdu\<close>

lemma frame_take: "valid_msg m sz \<Longrightarrow> frame (m, sz) = take (nat sz) (map Some (be32 (word_of_int sz)) @ drop 4 m)"
  by (auto simp: frame_def valid_msg_def drop_take)

lemma frame_extend:
  assumes "valid_msg m sz" and "0 \<le> k" and "k + int n \<le> sz"
  shows "take (nat k) (frame (m, sz)) @ take n (drop (nat k) (map Some (be32 (word_of_int sz)) @ drop 4 m)) =
    take (nat (k + int n)) (frame (m, sz))"
proof -
  let ?b = "map Some (be32 (word_of_int sz)) @ drop 4 m"
  have k: "nat (k + int n) = nat k + n" "nat k + n \<le> nat sz"
    using assms(2,3) by (simp_all add: nat_add_distrib nat_le_iff) 
  have "take (nat k) (take (nat sz) ?b) @ take n (drop (nat k) ?b) = take (nat k) ?b @ take n (drop (nat k) ?b)"
    using k by (simp only: take_take min_absorb1 add_leD1)
  also have "\<dots> = take (nat k + n) ?b" by (rule take_add [symmetric])
  also have "\<dots> = take (nat k + n) (take (nat sz) ?b)" using k by (simp only: take_take min_absorb1)
  finally show ?thesis by (simp only: frame_take [OF assms(1)] k(1))
qed

lemma writepdu_slot:
  assumes "slot_holds c m sz tail" and "\<not> dead c" and "fits_request r (cb_sz (wpdu c) - cb_solong (wpdu c))"
  shows "\<exists>ok out c'. writepdu r c = Inr (ok, out, c') \<and> cb_buf (wpdu c') \<noteq> None \<and> dead c' = dead c \<and>
    fd c' = fd c \<and> waiters c' = waiters c \<and>
    (if ok then slot_holds c' m sz (tail @ out) \<and> cb_solong (wpdu c') \<ge> 0
     else out = [] \<and> slot_holds (c'\<lparr>dead := True\<rparr>) m sz tail)"
proof -
  let ?k = "cb_solong (wpdu c)" and ?B = "map Some (be32 (word_of_int sz)) @ drop 4 m"
  have v: "valid_msg m sz" and k: "0 \<le> ?k" "?k \<le> sz" "cb_sz (wpdu c) = sz"
    and tail: "tail = take (nat ?k) (frame (m, sz))"
    using assms(1,2) by (auto simp: slot_holds_def split: if_splits)
  obtain b where b: "cb_buf (wpdu c) = Some b" "length b = length m" "drop 4 b = drop 4 m"
    "?k > 0 \<longrightarrow> take 4 b = map Some (be32 (word_of_int sz))"
    using assms(1) k(1) by (auto simp: slot_holds_def split: if_splits)
  have len: "4 \<le> length m" "length ?B = length m" using v by (auto simp: valid_msg_def)
  show ?thesis
  proof (cases "?k = sz")
    case True
    then show ?thesis using assms(1) k b by (auto simp: writepdu_def)
  next
    case False
    have B: "(if ?k = 0 then poke (cb_buf (wpdu c)) 0 (map Some (be32 (word_of_int (cb_sz (wpdu c)))))
        else Inr (cb_buf (wpdu c))) = Inr (Some ?B)"
      using b len k append_take_drop_id [of 4 b] by (auto simp: poke_def)
    have w: "writepdu r c = (let w = (wpdu c)\<lparr>cb_buf := Some ?B\<rparr> in
       case r of
         Write_again \<Rightarrow> Inr (True, [], c\<lparr>wpdu := w\<rparr>)
       | Write_error \<Rightarrow> Inr (False, [], c\<lparr>wpdu := w\<lparr>cb_solong := - 1, cb_sz := 0\<rparr>\<rparr>)
       | Wrote n \<Rightarrow> rbind (check (cb_solong w + int n \<le> int (length ?B)) Out_of_bounds) (\<lambda>_.
           Inr (True, take n (drop (nat (cb_solong w)) ?B), c\<lparr>wpdu := w\<lparr>cb_solong := cb_solong w + int n\<rparr>\<rparr>)))"
      using False k unfolding writepdu_def B by (simp add: Let_def split: write_result.splits)
    show ?thesis
    proof (cases r)
      case (Wrote n)
      then have n: "?k + int n \<le> sz" using assms(3) k by simp
      then have "?k + int n \<le> int (length ?B)" using v len by (simp add: valid_msg_def)
      then show ?thesis
        using w Wrote k v len n frame_extend [OF v k(1) n] by (auto simp: slot_holds_def tail)
    next
      case Write_again
      then show ?thesis using w k v len by (auto simp: slot_holds_def tail)
    next
      case Write_error
      then show ?thesis using w k v by (auto simp: slot_holds_def tail)
    qed
  qed
qed

section \<open>Every step keeps the invariant\<close>

text \<open>The parts of the state the invariant looks at.\<close>

lemma send_inv_cong:
  assumes "send_inv w" and "wpdu c = wpdu (sw_conn w)" and "dead c = dead (sw_conn w)"
  shows "send_inv (w\<lparr>sw_conn := c\<rparr>)"
proof -
  have "slot_holds c = slot_holds (sw_conn w)" "empty_slot c = empty_slot (sw_conn w)"
    using assms(2,3) by (simp_all add: fun_eq_iff slot_holds_def empty_slot_def)
  with assms show ?thesis
    by (auto elim!: send_invE intro!: send_invI simp: idle_inv_def busy_inv_def)
qed

lemma send_inv_pc:
  assumes "send_inv w" and "\<not> sending (sw_pc w t)" and "\<not> sending p" and "waiting_valid p"
  shows "send_inv (set_pc t p w)"
  using assms(1)
proof (cases rule: send_invE)
  case (idle tail)
  with assms show ?thesis by (intro send_invI [where tail = tail]) (auto simp: idle_inv_def)
next
  case (busy tail u m sz)
  then have "u \<noteq> t" using assms(2) by (auto simp: busy_inv_def)
  with busy assms show ?thesis
    by (intro send_invI [where tail = tail and t = u and m = m and sz = sz]) (auto simp: busy_inv_def)
qed

text \<open>A dead connection stays what it is for the senders.\<close>

lemma slot_dies: "slot_holds c m sz tail \<Longrightarrow> slot_holds (c\<lparr>dead := True\<rparr>) m sz tail"
  by (auto simp: slot_holds_def split: if_splits)

lemma slot_partial: "slot_holds c m sz tail \<Longrightarrow> partial_frame tail"
  by (auto simp: slot_holds_def partial_frame_def split: if_splits)

lemma send_inv_dies:
  assumes "send_inv w"
  shows "send_inv (w\<lparr>sw_conn := (sw_conn w)\<lparr>dead := True\<rparr>\<rparr>)"
  using assms
proof (cases rule: send_invE)
  case (idle tail)
  then show ?thesis
    by (intro send_invI [where tail = tail]) (auto simp: idle_inv_def empty_slot_def split: if_splits)
next
  case (busy tail u m sz)
  then show ?thesis
    by (intro send_invI [where tail = tail and t = u and m = m and sz = sz]) (auto simp: busy_inv_def slot_dies)
qed

text \<open>The end of a send that holds the slot.\<close>

lemma finish_inv:
  assumes "send_inv w" and "sw_pc w t = S_waits m sz \<and> \<not> send_incomplete (sw_conn w) \<or> sw_pc w t = S_removing"
  shows "send_inv (sw_finish t m sz w)"
  using assms(1)
proof (cases rule: send_invE)
  case (idle tail)
  then show ?thesis using assms(2) by (metis idle_inv_def sending.simps(1,2))
next
  case (busy tail u m' sz')
  have u: "u = t" using busy(2) assms(2) unfolding busy_inv_def by (metis sending.simps(1,2))
  have v: "valid_msg m' sz'" and holds: "slot_holds (sw_conn w) m' sz' tail"
    and others: "\<not> sending (((sw_pc w)(t := S_idle)) i)" "waiting_valid (((sw_pc w)(t := S_idle)) i)" for i
    using busy by (auto simp: busy_inv_def slot_holds_def u)
  show ?thesis
  proof (cases "dead (sw_conn w)")
    case True
    then show ?thesis
      using busy others slot_partial [OF holds]
      by (intro send_invI [where tail = tail]) (auto simp: sw_finish_def send_finish_def idle_inv_def empty_slot_def)
  next
    case False
    then have m: "m' = m" "sz' = sz" "\<not> send_incomplete (sw_conn w)"
      using busy(2) assms(2) by (auto simp: busy_inv_def u)
    then have "cb_solong (wpdu (sw_conn w)) = cb_sz (wpdu (sw_conn w))" "tail = frame (m, sz)"
      using holds False length_frame [OF v]
      by (auto simp: slot_holds_def send_incomplete_def split: if_splits)
    then show ?thesis
      using busy others False
      by (intro send_invI [where tail = "[]"]) (auto simp: sw_finish_def send_finish_def idle_inv_def empty_slot_def)
  qed
qed

lemma start_inv:
  assumes "send_inv w" and "\<not> sending (sw_pc w t)" and "\<not> send_must_wait (sw_conn w)" and "valid_msg m sz"
    and "fits_request r sz"
  shows "\<exists>w'. sw_start t m sz r w = Inr w' \<and> send_inv w'"
proof (cases "dead (sw_conn w)")
  case True
  have "send_inv (set_pc t S_idle (w\<lparr>sw_conn := (sw_conn w)\<lparr>waiters := waiters (sw_conn w) - 1\<rparr>\<rparr>))"
    using assms(1,2) by (intro send_inv_pc send_inv_cong) simp_all
  with True show ?thesis by (simp add: sw_start_def send_start_def)
next
  case False
  then have none: "cb_buf (wpdu (sw_conn w)) = None" using assms(3) by (simp add: send_must_wait_def)
  from assms(1) have idle: "sw_wire w = concat (map frame (sw_acked w))" "\<And>u. \<not> sending (sw_pc w u)"
    "\<And>u. waiting_valid (sw_pc w u)"
    by (auto elim!: send_invE simp: idle_inv_def busy_inv_def none False)
  let ?c = "(sw_conn w)\<lparr>waiters := waiters (sw_conn w) - 1, wpdu := \<lparr>cb_buf = Some m, cb_sz = sz, cb_solong = 0\<rparr>\<rparr>"
  have "slot_holds ?c m sz []" using assms(4) by (simp add: slot_holds_def valid_msg_def)
  with False assms(5) obtain ok out c where c: "writepdu r ?c = Inr (ok, out, c)" "cb_buf (wpdu c) \<noteq> None"
    "dead c = False"
    and ok: "if ok then slot_holds c m sz out \<and> cb_solong (wpdu c) \<ge> 0
      else out = [] \<and> slot_holds (c\<lparr>dead := True\<rparr>) m sz []"
    using writepdu_slot [of ?c m sz "[]" r, unfolded append_Nil] by auto
  define w1 where "w1 = w\<lparr>sw_conn := if ok then c else c\<lparr>dead := True\<rparr>, sw_wire := sw_wire w @ out\<rparr>"
  define p where "p = (if ok then S_waits m sz else S_removing)"
  have busy: "send_inv (set_pc t p w1)"
    using idle c ok
    by (intro send_invI [where tail = out and t = t and m = m and sz = sz])
      (auto simp: w1_def p_def busy_inv_def split: if_splits)
  show ?thesis
  proof (cases "ok \<and> cb_solong (wpdu c) = cb_sz (wpdu c)")
    case True
    then have "send_inv (sw_finish t m sz (set_pc t p w1))"
      using busy by (intro finish_inv) (auto simp: p_def w1_def send_incomplete_def)
    moreover have "sw_finish t m sz (set_pc t p w1) = sw_finish t m sz w1"
      by (simp add: sw_finish_def send_finish_def Let_def)
    ultimately show ?thesis
      using True False c by (simp add: sw_start_def send_start_def w1_def)
  next
    case incomplete: False
    then show ?thesis
      using False c busy by (cases ok) (auto simp: sw_start_def send_start_def w1_def p_def)
  qed
qed

lemma write_cb_inv:
  assumes "send_inv w" and "fits_request r (cb_sz (wpdu (sw_conn w)) - cb_solong (wpdu (sw_conn w)))"
    and "write_cb f r (sw_conn w) = Inr (out, calls, c)"
  shows "send_inv (w\<lparr>sw_conn := c, sw_wire := sw_wire w @ out\<rparr>)"
proof (cases "cb_sz (wpdu (sw_conn w)) = 0")
  case True
  with assms(1,3) send_inv_cong [OF assms(1), of "sw_conn w"] show ?thesis
    by (auto simp: write_cb_def rbind_eq_Inr)
next
  case False
  have alive: "\<not> dead (sw_conn w)" using assms(3) by (auto simp: write_cb_def check_def rbind_def split: if_splits)
  obtain tail t m sz where b: "sw_wire w = concat (map frame (sw_acked w)) @ tail"
    "busy_inv w tail t m sz" "\<And>u. waiting_valid (sw_pc w u)"
    by (rule send_invE [OF assms(1)]) (insert False, auto simp: idle_inv_def empty_slot_def)
  then obtain ok out' c' where c': "writepdu r (sw_conn w) = Inr (ok, out', c')" "cb_buf (wpdu c') \<noteq> None"
    "dead c' = dead (sw_conn w)"
    and ok: "if ok then slot_holds c' m sz (tail @ out') \<and> cb_solong (wpdu c') \<ge> 0
      else out' = [] \<and> slot_holds (c'\<lparr>dead := True\<rparr>) m sz tail"
    using writepdu_slot [of "sw_conn w" m sz tail r] alive assms(2) by (auto simp: busy_inv_def)
  then have out: "out = out'" "c = (if ok then c' else c'\<lparr>dead := True\<rparr>)"
    using assms(3) False by (auto simp: write_cb_def rbind_eq_Inr split: if_splits)
  show ?thesis
    using b c' ok
    by (intro send_invI [where tail = "tail @ out" and t = t and m = m and sz = sz])
      (auto simp: out busy_inv_def split: if_splits)
qed

lemma read_body_wpdu: "read_body r c = Inr (ok, c') \<Longrightarrow> wpdu c' = wpdu c \<and> dead c' = dead c"
  by (auto simp: read_body_def rbind_eq_Inr split: read_result.splits list.splits if_splits)

lemma readpdu_wpdu: "readpdu r1 r2 c = Inr (ok, c') \<Longrightarrow> wpdu c' = wpdu c \<and> dead c' = dead c"
  by (auto simp: readpdu_def rbind_eq_Inr Let_def split: read_result.splits if_splits dest!: read_body_wpdu)

lemma read_cb_inv:
  assumes "send_inv w" and "read_cb f r1 r2 consumed (sw_conn w) = Inr (pdu, calls, c)"
  shows "send_inv (w\<lparr>sw_conn := c\<rparr>)"
proof -
  have "wpdu c = wpdu (sw_conn w) \<and> (dead c = dead (sw_conn w) \<or> dead c)"
    using assms(2)
    by (auto simp: read_cb_def rbind_eq_Inr Let_def split: if_splits dest!: readpdu_wpdu)
  then show ?thesis
    using send_inv_cong [OF assms(1)] send_inv_cong [OF send_inv_dies [OF assms(1)]]
    by (cases "dead (sw_conn w)") fastforce+
qed

lemma exec_inv:
  assumes "send_inv w" and "conn_exec e w = Some (Inr w')"
  shows "send_inv w'"
proof (cases e)
  case (Send t m sz r)
  let ?w = "w\<lparr>sw_conn := send_enter (sw_conn w)\<rparr>"
  have "send_inv ?w" using assms(1) by (rule send_inv_cong) (simp_all add: send_enter_def)
  then show ?thesis
    using Send assms(2) start_inv [of ?w t m sz r] send_inv_pc [of ?w t "S_wait m sz"]
    by (auto simp: Let_def split: if_splits)
next
  case (Send_again t r)
  then obtain m sz where "sw_pc w t = S_wait m sz" using assms(2) by (auto split: send_pc.splits)
  moreover from this have "valid_msg m sz" using assms(1) by (metis send_inv_def waiting_valid.simps(1))
  ultimately show ?thesis
    using Send_again assms start_inv [OF assms(1), of t m sz r] by (auto split: if_splits)
next
  case (Send_resume t)
  then show ?thesis
    using assms finish_inv [OF assms(1), of t] by (auto split: send_pc.splits if_splits)
next
  case (Removed t)
  then show ?thesis
    using assms finish_inv [OF assms(1), of t] by (auto split: if_splits)
next
  case (Writable r)
  then show ?thesis
    using assms write_cb_inv [OF assms(1)] by (auto simp: Let_def rbind_eq_Inr split: if_splits)
next
  case (Readable r1 r2 consumed)
  then show ?thesis
    using assms read_cb_inv [OF assms(1)] by (auto simp: rbind_eq_Inr)
next
  case Close
  then show ?thesis
    using assms send_inv_dies [OF assms(1)] by (auto simp: closeconn_def split: if_splits)
qed

lemma new_inv: "send_inv (send_world_new f l)"
  by (rule send_invI [where tail = "[]"])
    (simp_all add: send_world_new_def connection_new_def charbuf_new_def idle_inv_def empty_slot_def)

lemma reach_inv: "send_reach (send_world_new f l) w \<Longrightarrow> send_inv w"
  by (induction rule: send_reach.induct) (auto intro: new_inv exec_inv)

lemma run_send_reach:
  "conn_run es w = Some (Inr w') \<Longrightarrow> send_reach w0 w \<Longrightarrow> send_reach w0 w'"
  by (induction es arbitrary: w) (auto split: option.splits sum.splits intro: send_reach.step)

section \<open>Properties\<close>

text \<open>
  C12. Messages never mix on the wire. Whatever the threads that send, the poll thread, the socket's
  partial writes and the closing of the connection do, the bytes the socket has accepted are the
  frames of the messages for which \<^verbatim>\<open>send\<close> returned true, complete and in that order, followed by a
  beginning of the frame of at most one more message; and by nothing when the connection is alive and
  no thread is sending.
\<close>

theorem send_frames_never_mix:
  assumes "send_reach (send_world_new f l) w"
  shows "\<exists>tail. sw_wire w = concat (map frame (sw_acked w)) @ tail \<and> partial_frame tail \<and>
    (\<not> dead (sw_conn w) \<and> (\<forall>t. \<not> sending (sw_pc w t)) \<longrightarrow> tail = [])"
  using reach_inv [OF assms]
proof (cases rule: send_invE)
  case (idle tail)
  then show ?thesis by (intro exI [of _ tail]) (auto simp: idle_inv_def split: if_splits)
next
  case (busy tail t m sz)
  then show ?thesis by (intro exI [of _ tail]) (auto simp: busy_inv_def dest: slot_partial)
qed

definition msg8 :: block where
  "msg8 = replicate 4 None @ map Some [1, 2, 3, 4]"

lemma be32_8: "be32 8 = [0, 0, 0, 8]"
  by (simp add: be32_def)

lemmas conn_eval = send_world_new_def connection_new_def charbuf_new_def sw_start_def send_start_def
  sw_finish_def send_finish_def send_enter_def send_must_wait_def send_incomplete_def writepdu_def poke_def
  write_cb_def valid_msg_def int_max_def check_def rbind_def msg8_def be32_8

theorem send_frames_never_mix_witness:
  "\<exists>w tail. conn_run [Send 0 msg8 8 (Wrote 5), Send 1 msg8 8 Write_again, Writable (Wrote 2)]
      (send_world_new 3 0) = Some (Inr w) \<and>
    sw_wire w = concat (map frame (sw_acked w)) @ tail \<and> partial_frame tail \<and> length tail = 7"
proof -
  obtain w where w: "conn_run [Send 0 msg8 8 (Wrote 5), Send 1 msg8 8 Write_again, Writable (Wrote 2)]
      (send_world_new 3 0) = Some (Inr w)" "sw_acked w = []" "length (sw_wire w) = 7"
    by (simp add: conn_eval)
  from send_frames_never_mix [OF run_send_reach [OF w(1) send_reach.start]] w show ?thesis by auto
qed

text \<open>A call of \<^verbatim>\<open>write_cb\<close> in a state of the invariant: only its first assertion can fail.\<close>

lemma write_cb_faults:
  assumes "send_inv w" and "fits_request r (cb_sz (wpdu (sw_conn w)) - cb_solong (wpdu (sw_conn w)))"
  shows "write_cb (fd (sw_conn w)) r (sw_conn w) = Inl x \<longleftrightarrow> dead (sw_conn w) \<and> x = Assert_failed"
proof (cases "dead (sw_conn w) \<or> cb_sz (wpdu (sw_conn w)) = 0")
  case True
  then show ?thesis by (auto simp: write_cb_def check_def rbind_def)
next
  case False
  from assms(1) show ?thesis
  proof (cases rule: send_invE)
    case (idle tail)
    then show ?thesis using False by (simp add: idle_inv_def empty_slot_def)
  next
    case (busy tail t m sz)
    then obtain ok out c where c: "writepdu r (sw_conn w) = Inr (ok, out, c)" "ok \<Longrightarrow> cb_solong (wpdu c) \<ge> 0"
      using False writepdu_slot [of "sw_conn w" m sz tail r] assms(2) by (auto simp: busy_inv_def)
    then show ?thesis using False by (auto simp: write_cb_def check_def rbind_def)
  qed
qed

text \<open>
  C37. The faults of the sending side. In every reachable state, a call of \<^verbatim>\<open>send\<close> with a buffer at least as
  long as the message, the continuation of one after a wait, a close of the connection and a call of
  \<^verbatim>\<open>write_cb\<close> have exactly one way to fault: \<^verbatim>\<open>write_cb\<close> fails its assertion that the connection is not dead.
  The other assertions of \<^verbatim>\<open>write_cb\<close> and \<^verbatim>\<open>writepdu\<close> hold, and no byte is taken from outside the buffer
  or through a null pointer.
\<close>

theorem sending_faults_iff:
  assumes "send_reach (send_world_new f l) w" and "conn_exec e w = Some res"
    and "\<forall>r1 r2 b. e \<noteq> Readable r1 r2 b"
  shows "res = Inl x \<longleftrightarrow> (\<exists>r. e = Writable r) \<and> dead (sw_conn w) \<and> x = Assert_failed"
proof -
  have inv: "send_inv w" by (rule reach_inv [OF assms(1)])
  show ?thesis
  proof (cases e)
    case (Send t m sz r)
    let ?w = "w\<lparr>sw_conn := send_enter (sw_conn w)\<rparr>"
    have "send_inv ?w" using inv by (rule send_inv_cong) (simp_all add: send_enter_def)
    with Send assms(2) show ?thesis
      using start_inv [of ?w t m sz r] by (auto simp: Let_def split: if_splits)
  next
    case (Send_again t r)
    then obtain m sz where "sw_pc w t = S_wait m sz" using assms(2) by (auto split: send_pc.splits)
    moreover from this have "valid_msg m sz" using inv by (metis send_inv_def waiting_valid.simps(1))
    ultimately show ?thesis
      using Send_again assms(2) start_inv [OF inv, of t m sz r] by (auto split: if_splits)
  next
    case (Writable r)
    then have fits: "fits_request r (cb_sz (wpdu (sw_conn w)) - cb_solong (wpdu (sw_conn w)))"
      and "res = Inl x \<longleftrightarrow> write_cb (fd (sw_conn w)) r (sw_conn w) = Inl x"
      using assms(2) by (auto simp: rbind_def Let_def split: if_splits sum.splits)
    with write_cb_faults [OF inv fits] Writable show ?thesis by simp
  qed (insert assms(2,3), auto split: send_pc.splits if_splits)
qed

theorem sending_faults_iff_witness:
  "\<exists>w. conn_run [Send 0 msg8 8 (Wrote 4), Writable (Wrote 4), Send_resume 0, Send 1 msg8 8 Write_error]
      (send_world_new 3 0) = Some (Inr w) \<and>
    conn_exec (Writable Write_again) w = Some (Inl Assert_failed)"
proof -
  obtain w where w: "conn_run [Send 0 msg8 8 (Wrote 4), Writable (Wrote 4), Send_resume 0,
      Send 1 msg8 8 Write_error] (send_world_new 3 0) = Some (Inr w)" "dead (sw_conn w)"
    "conn_exec (Writable Write_again) w \<noteq> None"
    by (simp add: conn_eval)
  obtain res where "conn_exec (Writable Write_again) w = Some res" using w(3) by auto
  with sending_faults_iff [OF run_send_reach [OF w(1) send_reach.start] this, of Assert_failed] w show ?thesis
    by auto
qed

text \<open>
  A race of \<^verbatim>\<open>send\<close> with \<^verbatim>\<open>write_cb\<close>. A first send registers the write callback, which stays
  registered until \<^verbatim>\<open>write_cb\<close> finds nothing to write. When the next send fails, it marks the
  connection dead and gives up the mutex before \<^verbatim>\<open>block_remove_fd\<close> has taken effect; a call of
  \<^verbatim>\<open>write_cb\<close> in between fails its assertion that the connection is not dead.
\<close>

theorem write_cb_races_with_failed_send:
  "conn_run [Send 0 msg8 8 (Wrote 4), Writable (Wrote 4), Send_resume 0, Send 1 msg8 8 Write_error,
     Writable Write_error] (send_world_new 3 0) = Some (Inl Assert_failed)"
  by (simp add: conn_eval)

end
