(* ===== verification/Connection_Recv.thy ===== *)
theory Connection_Recv
  imports Connection
begin

text \<open>
  Receiving on a connection: the poll thread calls \<^verbatim>\<open>read_cb\<close> whenever bytes have arrived, and
  \<^verbatim>\<open>readpdu\<close> puts the messages together again. What arrives between two calls is arbitrary: a read
  may also bring only a part of the four bytes of a size field, on which \<^verbatim>\<open>readpdu\<close> gives the connection
  up. Not modelled here is a \<^verbatim>\<open>got_pdu\<close> that refuses a message.
\<close>

section \<open>A socket in front of read_cb\<close>

text \<open>
  \<open>rest\<close> are the bytes sent by the peer and not read yet, of which the first \<open>k\<close> have arrived. A read
  returns at most the bytes asked for; without any it fails with \<^verbatim>\<open>EAGAIN\<close>. Delivered messages are
  collected, \<^verbatim>\<open>got_pdu\<close> takes each of them.
\<close>

record recv_world =
  rw_conn :: connection
  rw_rest :: "u8 list"
  rw_out :: "(block option \<times> int) list"

definition socket_read :: "u8 list \<Rightarrow> read_result" where
  "socket_read bs = (if bs = [] then Read_error True else Read bs)"

definition recv_step :: "nat \<Rightarrow> recv_world \<Rightarrow> recv_world res" where
  "recv_step k w =
     (let c = rw_conn w;
          avail = take k (rw_rest w);
          b1 = (if cb_sz (rpdu c) = 0 then take 4 avail else []);
          want = (if cb_sz (rpdu c) = 0 then ntohl b1 - 4 else cb_sz (rpdu c) - cb_solong (rpdu c));
          b2 = take (nat want) (drop (length b1) avail)
      in rbind (read_cb (fd c) (socket_read b1) (socket_read b2) True c) (\<lambda>(pdu, calls, c).
         Inr \<lparr>rw_conn = c, rw_rest = drop (length b1 + length b2) (rw_rest w),
           rw_out = rw_out w @ (case pdu of None \<Rightarrow> [] | Some p \<Rightarrow> [p])\<rparr>))"

text \<open>The poll thread calls \<^verbatim>\<open>read_cb\<close> only when something has arrived.\<close>

fun recv_run :: "nat list \<Rightarrow> recv_world \<Rightarrow> recv_world res" where
  "recv_run [] w = Inr w"
| "recv_run (k # ks) w =
     (if take k (rw_rest w) = [] then recv_run ks w
      else rbind (recv_step k w) (\<lambda>w. recv_run ks w))"

definition recv_new :: "int \<Rightarrow> u8 list \<Rightarrow> recv_world" where
  "recv_new f stream = \<lparr>rw_conn = fst (connection_new f 0), rw_rest = stream, rw_out = []\<rparr>"

section \<open>Frames\<close>

definition good_frame :: "u8 list \<Rightarrow> bool" where
  "good_frame f \<longleftrightarrow> 4 < length f \<and> int (length f) \<le> MAX_PDU \<and> take 4 f = be32 (word_of_nat (length f))"

text \<open>What \<^verbatim>\<open>got_pdu\<close> is given: the block of the size plus four bytes, the message at its start.\<close>

definition delivery :: "u8 list \<Rightarrow> block option \<times> int" where
  "delivery f = (Some (map Some f @ replicate 4 None), int (length f))"

lemma ntohl_be32 [simp]: "ntohl (be32 x) = sint x"
  using dec32_be32 [of x] by (simp add: ntohl_def be32_def)

lemma size_word: "int n \<le> MAX_PDU \<Longrightarrow> sint (word_of_nat n :: u32) = int n"
  using to_int32_id [of "int n"] by (simp add: to_int32_def MAX_PDU_def signed_of_nat)

lemma good_frame_split:
  assumes "good_frame f"
  shows "f = be32 (word_of_nat (length f)) @ drop 4 f" and "ntohl (take 4 f) = int (length f)"
    and "0 < length f"
proof -
  show "f = be32 (word_of_nat (length f)) @ drop 4 f"
    using assms append_take_drop_id [of 4 f] by (simp add: good_frame_def)
  show "ntohl (take 4 f) = int (length f)"
    using assms by (simp add: good_frame_def size_word)
  show "0 < length f" using assms by (auto simp: good_frame_def)
qed

section \<open>Invariant\<close>

text \<open>The first \<open>j\<close> bytes of message \<open>f\<close> have been read.\<close>

definition reading :: "u8 list \<Rightarrow> nat \<Rightarrow> charbuf" where
  "reading f j = \<lparr>cb_buf = Some (map Some (take j f) @ replicate (length f + 4 - j) None),
     cb_sz = int (length f), cb_solong = int j\<rparr>"

definition recv_inv :: "u8 list list \<Rightarrow> u8 list list \<Rightarrow> recv_world \<Rightarrow> bool" where
  "recv_inv fs1 fs2 w \<longleftrightarrow> rw_out w = map delivery fs1 \<and> \<not> dead (rw_conn w) \<and>
     (rpdu (rw_conn w) = charbuf_new \<and> rw_rest w = concat fs2 \<or>
      (\<exists>f fs3 j. fs2 = f # fs3 \<and> 4 \<le> j \<and> j < length f \<and> rpdu (rw_conn w) = reading f j \<and>
        rw_rest w = drop j f @ concat fs3))"

lemma poke_reading:
  assumes "j + length bs \<le> length f" and "bs = take (length bs) (drop j f)"
  shows "poke (cb_buf (reading f j)) (int j) (map Some bs) = Inr (cb_buf (reading f (j + length bs)))"
proof -
  have "take (j + length bs) f = take j f @ bs"
    by (subst assms(2)) (rule take_add)
  then show ?thesis
    using assms(1) by (auto simp: poke_def reading_def min_absorb2)
qed

lemma read_body_reading:
  assumes "rpdu c = reading f j" and "j + length bs \<le> length f" and "bs = take (length bs) (drop j f)"
  shows "read_body (socket_read bs) c = Inr (True, c\<lparr>rpdu := reading f (j + length bs)\<rparr>)"
proof (cases bs)
  case Nil
  then show ?thesis using assms(1) by (simp add: read_body_def socket_read_def)
next
  case (Cons x xs)
  have "poke (cb_buf (rpdu c)) (cb_solong (rpdu c)) (map Some (x # xs)) = Inr (cb_buf (reading f (j + length bs)))"
    using poke_reading [OF assms(2,3)] assms(1) unfolding Cons [symmetric] by (simp add: reading_def)
  then show ?thesis
    using assms(1) by (simp add: read_body_def socket_read_def Cons) (simp add: reading_def)
qed

text \<open>After the read, a complete message is handed over and the buffer starts afresh.\<close>

lemma delivery_reading: "(cb_buf (reading f (length f)), cb_sz (reading f (length f))) = delivery f"
  by (simp add: reading_def delivery_def)

lemma read_cb_after:
  assumes "fd c = s" and "\<not> dead c" and "cb_buf (rpdu c) = None \<or> cb_solong (rpdu c) < cb_sz (rpdu c)"
    and "readpdu r1 r2 c = Inr (True, c\<lparr>rpdu := reading f j\<rparr>)" and "j \<le> length f"
  shows "read_cb s r1 r2 True c =
    Inr (if j = length f then (Some (delivery f), [], c\<lparr>rpdu := charbuf_new\<rparr>)
      else (None, [], c\<lparr>rpdu := reading f j\<rparr>))"
proof -
  have "cb_buf (reading f j) \<noteq> None" "cb_sz (reading f j) = cb_solong (reading f j) \<longleftrightarrow> j = length f"
    by (auto simp: reading_def)
  then show ?thesis
    using assms delivery_reading [of f] by (auto simp: read_cb_def)
qed

lemma readpdu_first:
  assumes "good_frame f" and "rpdu c = charbuf_new" and "4 + length bs \<le> length f" and "bs = take (length bs) (drop 4 f)"
  shows "readpdu (socket_read (take 4 f)) (socket_read bs) c = Inr (True, c\<lparr>rpdu := reading f (4 + length bs)\<rparr>)"
proof -
  have f: "length (take 4 f) = 4" "take 4 f \<noteq> []" "ntohl (take 4 f) = int (length f)" "int (length f) \<le> MAX_PDU"
    using assms(1) good_frame_split(2) [OF assms(1)] by (auto simp: good_frame_def)
  have "poke (Some (replicate (length f + 4) None)) 0 (map Some (take 4 f)) = Inr (cb_buf (reading f 4))"
    using f(1) by (simp add: poke_def reading_def)
  moreover have "read_body (socket_read bs) (c\<lparr>rpdu := reading f 4\<rparr>) = Inr (True, c\<lparr>rpdu := reading f (4 + length bs)\<rparr>)"
    using read_body_reading [of "c\<lparr>rpdu := reading f 4\<rparr>" f 4 bs] assms(3,4) by simp
  moreover have "nat (int (length f) + 4) = length f + 4" by simp
  moreover have "\<lparr>cb_buf = cb_buf (reading f 4), cb_sz = int (length f), cb_solong = 4\<rparr> = reading f 4"
    by (simp add: reading_def)
  ultimately show ?thesis
    using assms(2) f by (simp add: readpdu_def socket_read_def charbuf_new_def)
qed

lemma readpdu_more:
  assumes "rpdu c = reading f j" and "0 < length f" and "j + length bs \<le> length f" and "bs = take (length bs) (drop j f)"
  shows "readpdu r1 (socket_read bs) c = Inr (True, c\<lparr>rpdu := reading f (j + length bs)\<rparr>)"
  using read_body_reading [OF assms(1,3,4)] assms(1,2) by (simp add: readpdu_def) (simp add: reading_def)

lemma take_chunk: "take (length g) (take k (g @ r)) = take (min k (length g)) g"
  by (cases "k \<le> length g") auto

text \<open>One call of \<^verbatim>\<open>read_cb\<close>, in the middle of a message or at its start.\<close>

lemma recv_step_reads:
  assumes "\<not> dead (rw_conn w)" and "0 < length f" and "j' \<le> length f" and "rw_rest w = pre @ drop j' f @ r"
    and "recv_step k w = rbind (read_cb (fd (rw_conn w)) r1 r2 True (rw_conn w)) (\<lambda>(pdu, calls, c).
         Inr \<lparr>rw_conn = c, rw_rest = drop (length pre) (rw_rest w),
           rw_out = rw_out w @ (case pdu of None \<Rightarrow> [] | Some p \<Rightarrow> [p])\<rparr>)"
    and "readpdu r1 r2 (rw_conn w) = Inr (True, (rw_conn w)\<lparr>rpdu := reading f j'\<rparr>)"
    and "cb_buf (rpdu (rw_conn w)) = None \<or> cb_solong (rpdu (rw_conn w)) < cb_sz (rpdu (rw_conn w))"
  shows "recv_step k w = Inr (if j' = length f
    then w\<lparr>rw_conn := (rw_conn w)\<lparr>rpdu := charbuf_new\<rparr>, rw_rest := r, rw_out := rw_out w @ [delivery f]\<rparr>
    else w\<lparr>rw_conn := (rw_conn w)\<lparr>rpdu := reading f j'\<rparr>, rw_rest := drop j' f @ r\<rparr>)"
  using assms(5) read_cb_after [OF refl assms(1,7,6,3)] assms(4) by simp

lemma recv_step_first:
  assumes "cb_sz (rpdu (rw_conn w)) = 0" and "b1 = take 4 (take k (rw_rest w))"
    and "b2 = take (nat (ntohl b1 - 4)) (drop (length b1) (take k (rw_rest w)))"
  shows "recv_step k w = rbind (read_cb (fd (rw_conn w)) (socket_read b1) (socket_read b2) True (rw_conn w))
    (\<lambda>(pdu, calls, c). Inr \<lparr>rw_conn = c, rw_rest = drop (length b1 + length b2) (rw_rest w),
       rw_out = rw_out w @ (case pdu of None \<Rightarrow> [] | Some p \<Rightarrow> [p])\<rparr>)"
  unfolding recv_step_def Let_def assms(2,3) using assms(1) by simp

lemma recv_step_more:
  assumes "cb_sz (rpdu (rw_conn w)) \<noteq> 0"
    and "b2 = take (nat (cb_sz (rpdu (rw_conn w)) - cb_solong (rpdu (rw_conn w)))) (take k (rw_rest w))"
  shows "recv_step k w = rbind (read_cb (fd (rw_conn w)) (socket_read []) (socket_read b2) True (rw_conn w))
    (\<lambda>(pdu, calls, c). Inr \<lparr>rw_conn = c, rw_rest = drop (length b2) (rw_rest w),
       rw_out = rw_out w @ (case pdu of None \<Rightarrow> [] | Some p \<Rightarrow> [p])\<rparr>)"
  unfolding recv_step_def Let_def assms(2) using assms(1) by simp

lemma recv_after:
  assumes "recv_step k w = Inr (if j = length f
      then w\<lparr>rw_conn := (rw_conn w)\<lparr>rpdu := charbuf_new\<rparr>, rw_rest := concat fs3, rw_out := rw_out w @ [delivery f]\<rparr>
      else w\<lparr>rw_conn := (rw_conn w)\<lparr>rpdu := reading f j\<rparr>, rw_rest := drop j f @ concat fs3\<rparr>)"
    and "fs2 = f # fs3" and "4 \<le> j" and "j \<le> length f" and "\<not> dead (rw_conn w)" and "rw_out w = map delivery fs1"
    and "length (drop j f @ concat fs3) < length (rw_rest w)"
  shows "\<exists>w' gs hs. recv_step k w = Inr w' \<and> fs2 = gs @ hs \<and> recv_inv (fs1 @ gs) hs w' \<and>
    length (rw_rest w') < length (rw_rest w)"
proof (cases "j = length f")
  case True
  let ?w = "w\<lparr>rw_conn := (rw_conn w)\<lparr>rpdu := charbuf_new\<rparr>, rw_rest := concat fs3, rw_out := rw_out w @ [delivery f]\<rparr>"
  have "recv_step k w = Inr ?w \<and> fs2 = [f] @ fs3 \<and> recv_inv (fs1 @ [f]) fs3 ?w \<and> length (rw_rest ?w) < length (rw_rest w)"
    using assms True by (simp add: recv_inv_def)
  then show ?thesis by blast
next
  case False
  let ?w = "w\<lparr>rw_conn := (rw_conn w)\<lparr>rpdu := reading f j\<rparr>, rw_rest := drop j f @ concat fs3\<rparr>"
  have "recv_step k w = Inr ?w \<and> fs2 = [] @ fs2 \<and> recv_inv (fs1 @ []) fs2 ?w \<and> length (rw_rest ?w) < length (rw_rest w)"
    using assms False by (auto simp: recv_inv_def)
  then show ?thesis by blast
qed

lemma recv_step_inv:
  assumes "recv_inv fs1 fs2 w" and "\<forall>f \<in> set fs2. good_frame f" and "take k (rw_rest w) \<noteq> []"
    and "rpdu (rw_conn w) = charbuf_new \<Longrightarrow> 4 \<le> k"
  shows "\<exists>w' gs hs. recv_step k w = Inr w' \<and> fs2 = gs @ hs \<and> recv_inv (fs1 @ gs) hs w' \<and>
    length (rw_rest w') < length (rw_rest w)"
proof -
  have alive: "\<not> dead (rw_conn w)" and out: "rw_out w = map delivery fs1"
    using assms(1) by (auto simp: recv_inv_def)
  consider (first) "rpdu (rw_conn w) = charbuf_new" "rw_rest w = concat fs2"
    | (more) f fs3 j where "fs2 = f # fs3" "4 \<le> j" "j < length f" "rpdu (rw_conn w) = reading f j"
      "rw_rest w = drop j f @ concat fs3"
    using assms(1) by (auto simp: recv_inv_def)
  then show ?thesis
  proof cases
    case first
    then obtain f fs3 where fs: "fs2 = f # fs3" using assms(3) by (cases fs2) auto
    then have good: "good_frame f" using assms(2) by simp
    then have f: "4 < length f" by (simp add: good_frame_def)
    define j where "j = min k (length f)"
    have j: "4 \<le> j" "j \<le> length f" using f assms(4) first by (auto simp: j_def)
    let ?avail = "take k (rw_rest w)" and ?b2 = "take (j - 4) (drop 4 f)"
    have rest: "rw_rest w = f @ concat fs3" using first fs by simp
    have b1: "take 4 ?avail = take 4 f" using f assms(4) [OF first(1)] unfolding rest by (simp add: min_absorb1)
    have "take (length (drop 4 f)) (drop 4 ?avail) = take (min (k - 4) (length (drop 4 f))) (drop 4 f)"
    proof -
      have "drop 4 ?avail = take (k - 4) (drop 4 f @ concat fs3)"
        using f by (simp only: rest drop_take) simp
      then show ?thesis by (simp only: take_chunk)
    qed
    moreover have "min (k - 4) (length (drop 4 f)) = j - 4" by (auto simp: j_def)
    ultimately have b2: "take (length f - 4) (drop 4 ?avail) = ?b2" by simp
    have l2: "length ?b2 = j - 4" using j by simp
    have "readpdu (socket_read (take 4 f)) (socket_read ?b2) (rw_conn w) =
        Inr (True, (rw_conn w)\<lparr>rpdu := reading f j\<rparr>)"
      using readpdu_first [OF good first(1), of ?b2] l2 j by simp
    moreover have "recv_step k w = rbind (read_cb (fd (rw_conn w)) (socket_read (take 4 f)) (socket_read ?b2)
        True (rw_conn w)) (\<lambda>(pdu, calls, c). Inr \<lparr>rw_conn = c, rw_rest = drop (length (take j f)) (rw_rest w),
           rw_out = rw_out w @ (case pdu of None \<Rightarrow> [] | Some p \<Rightarrow> [p])\<rparr>)"
    proof -
      have n: "nat (ntohl (take 4 f) - 4) = length f - 4" "length (take 4 f) = 4"
        using good_frame_split(2) [OF good] f by auto
      have "recv_step k w = rbind (read_cb (fd (rw_conn w)) (socket_read (take 4 f)) (socket_read ?b2)
        True (rw_conn w)) (\<lambda>(pdu, calls, c). Inr \<lparr>rw_conn = c,
           rw_rest = drop (length (take 4 f) + length ?b2) (rw_rest w),
           rw_out = rw_out w @ (case pdu of None \<Rightarrow> [] | Some p \<Rightarrow> [p])\<rparr>)"
        using first(1) by (intro recv_step_first) (simp_all only: charbuf_new_def charbuf.simps b1 b2 n)
      moreover have "length (take 4 f) + length ?b2 = length (take j f)" using j f by simp
      ultimately show ?thesis by simp
    qed
    ultimately have "recv_step k w = Inr (if j = length f
      then w\<lparr>rw_conn := (rw_conn w)\<lparr>rpdu := charbuf_new\<rparr>, rw_rest := concat fs3, rw_out := rw_out w @ [delivery f]\<rparr>
      else w\<lparr>rw_conn := (rw_conn w)\<lparr>rpdu := reading f j\<rparr>, rw_rest := drop j f @ concat fs3\<rparr>)"
      using f j first(1) by (intro recv_step_reads [OF alive, where pre = "take j f"])
        (auto simp: rest charbuf_new_def)
    then show ?thesis
      using j f by (intro recv_after [OF _ fs j alive out]) (auto simp: rest)
  next
    case (more f fs3 j)
    define i where "i = min k (length f - j)"
    have i: "0 < i" "j + i \<le> length f" using more assms(3) by (auto simp: i_def)
    let ?b2 = "take i (drop j f)"
    have b2: "take (length f - j) (take k (rw_rest w)) = ?b2"
      using take_chunk [of "drop j f" k "concat fs3"] by (simp add: more i_def)
    have l2: "length ?b2 = i" using i by simp
    have r: "cb_sz (rpdu (rw_conn w)) = int (length f)" "cb_solong (rpdu (rw_conn w)) = int j"
      using more by (simp_all add: reading_def)
    have "readpdu (socket_read []) (socket_read ?b2) (rw_conn w) =
        Inr (True, (rw_conn w)\<lparr>rpdu := reading f (j + i)\<rparr>)"
      using readpdu_more [OF more(4), of ?b2] l2 i more(3) by fastforce
    moreover have "recv_step k w = rbind (read_cb (fd (rw_conn w)) (socket_read []) (socket_read ?b2)
        True (rw_conn w)) (\<lambda>(pdu, calls, c). Inr \<lparr>rw_conn = c, rw_rest = drop (length ?b2) (rw_rest w),
           rw_out = rw_out w @ (case pdu of None \<Rightarrow> [] | Some p \<Rightarrow> [p])\<rparr>)"
    proof (rule recv_step_more)
      have "nat (int (length f) - int j) = length f - j" by simp
      then show "?b2 = take (nat (cb_sz (rpdu (rw_conn w)) - cb_solong (rpdu (rw_conn w)))) (take k (rw_rest w))"
        by (simp only: r b2)
      show "cb_sz (rpdu (rw_conn w)) \<noteq> 0" using r more(3) by auto
    qed
    moreover have "rw_rest w = ?b2 @ drop (j + i) f @ concat fs3"
      using more(5) append_take_drop_id [of i "drop j f"] by (simp add: add.commute)
    ultimately have "recv_step k w = Inr (if j + i = length f
      then w\<lparr>rw_conn := (rw_conn w)\<lparr>rpdu := charbuf_new\<rparr>, rw_rest := concat fs3, rw_out := rw_out w @ [delivery f]\<rparr>
      else w\<lparr>rw_conn := (rw_conn w)\<lparr>rpdu := reading f (j + i)\<rparr>, rw_rest := drop (j + i) f @ concat fs3\<rparr>)"
      using i more(3) r by (intro recv_step_reads [OF alive, where pre = ?b2]) auto
    then show ?thesis
      using i more(2,3) by (intro recv_after [OF _ more(1) _ i(2) alive out]) (auto simp: more(5))
  qed
qed

text \<open>No chunk of the stream splits a size field: at the start of a message at least four bytes have arrived.\<close>

fun chunks_ok :: "nat list \<Rightarrow> recv_world \<Rightarrow> bool" where
  "chunks_ok [] w \<longleftrightarrow> True"
| "chunks_ok (k # ks) w \<longleftrightarrow>
     (if take k (rw_rest w) = [] then chunks_ok ks w
      else (rpdu (rw_conn w) = charbuf_new \<longrightarrow> 4 \<le> k) \<and>
        (case recv_step k w of Inl _ \<Rightarrow> True | Inr w' \<Rightarrow> chunks_ok ks w'))"

lemma recv_run_inv:
  assumes "recv_inv fs1 fs2 w" and "\<forall>f \<in> set fs2. good_frame f" and "chunks_ok ks w"
  shows "\<exists>w' gs hs. recv_run ks w = Inr w' \<and> fs2 = gs @ hs \<and> recv_inv (fs1 @ gs) hs w' \<and>
    (0 \<notin> set ks \<longrightarrow> rw_rest w' = [] \<or> length (rw_rest w') + length ks \<le> length (rw_rest w))"
  using assms
proof (induction ks arbitrary: w fs1 fs2)
  case Nil
  then show ?case by (auto intro: exI [of _ "[]"])
next
  case (Cons k ks)
  show ?case
  proof (cases "take k (rw_rest w) = []")
    case True
    then have "k = 0 \<or> rw_rest w = []" by auto
    with True Cons.IH [OF Cons.prems(1,2)] Cons.prems(3) show ?thesis by fastforce
  next
    case False
    then obtain w1 g1 h1 where w1: "recv_step k w = Inr w1" "fs2 = g1 @ h1" "recv_inv (fs1 @ g1) h1 w1"
      "length (rw_rest w1) < length (rw_rest w)"
      using recv_step_inv [OF Cons.prems(1,2) False] Cons.prems(3) by (auto split: if_splits)
    then obtain w' gs hs where "recv_run ks w1 = Inr w'" "h1 = gs @ hs" "recv_inv ((fs1 @ g1) @ gs) hs w'"
      "0 \<notin> set ks \<longrightarrow> rw_rest w' = [] \<or> length (rw_rest w') + length ks \<le> length (rw_rest w1)"
      using Cons.IH [OF w1(3)] Cons.prems(2,3) False by auto
    with False w1 show ?thesis by (intro exI [of _ w'] exI [of _ "g1 @ gs"] exI [of _ hs]) auto
  qed
qed

text \<open>A split size field: \<^verbatim>\<open>readpdu\<close> fails, and the connection is given up with nothing handed over.\<close>

lemma recv_step_split:
  assumes "\<not> dead (rw_conn w)" and "rpdu (rw_conn w) = charbuf_new" and "take k (rw_rest w) \<noteq> []" and "k < 4"
  shows "\<exists>w'. recv_step k w = Inr w' \<and> dead (rw_conn w') \<and> rw_out w' = rw_out w"
proof -
  let ?b = "take k (rw_rest w)"
  have "length ?b \<noteq> 4" "take 4 ?b = ?b" using assms(4) by auto
  then have "readpdu (socket_read (take 4 ?b)) r2 (rw_conn w) = Inr (False, rw_conn w)" for r2
    using assms(2,3) by (simp add: readpdu_def charbuf_new_def socket_read_def)
  then show ?thesis
    using assms(1,2) by (simp add: recv_step_def read_cb_def charbuf_new_def check_def rbind_def Let_def)
qed

lemma recv_run_dead:
  assumes "dead (rw_conn w)"
  shows "\<exists>w'. recv_run ks w = Inr w' \<and> dead (rw_conn w') \<and> rw_out w' = rw_out w"
  using assms
proof (induction ks arbitrary: w)
  case (Cons k ks)
  have "\<exists>w'. recv_step k w = Inr w' \<and> dead (rw_conn w') \<and> rw_out w' = rw_out w"
    using Cons.prems by (simp add: recv_step_def read_cb_def check_def rbind_def Let_def)
  with Cons.IH Cons.prems show ?case by fastforce
qed simp

lemma recv_run_split:
  assumes "recv_inv fs1 fs2 w" and "\<forall>f \<in> set fs2. good_frame f" and "\<not> chunks_ok ks w"
  shows "\<exists>w' gs hs. recv_run ks w = Inr w' \<and> fs2 = gs @ hs \<and> dead (rw_conn w') \<and> rw_out w' = map delivery (fs1 @ gs)"
  using assms
proof (induction ks arbitrary: w fs1 fs2)
  case (Cons k ks)
  have w: "\<not> dead (rw_conn w)" "rw_out w = map delivery fs1" using Cons.prems(1) by (auto simp: recv_inv_def)
  consider (none) "take k (rw_rest w) = []"
    | (split) "take k (rw_rest w) \<noteq> []" "rpdu (rw_conn w) = charbuf_new" "k < 4"
    | (whole) "take k (rw_rest w) \<noteq> []" "rpdu (rw_conn w) = charbuf_new \<longrightarrow> 4 \<le> k"
    by fastforce
  then show ?case
  proof cases
    case none
    with Cons show ?thesis by simp
  next
    case split
    obtain w1 where w1: "recv_step k w = Inr w1" "dead (rw_conn w1)" "rw_out w1 = rw_out w"
      using recv_step_split [OF w(1) split(2,1,3)] by blast
    with recv_run_dead [OF w1(2), of ks] w split(1) show ?thesis by (auto intro!: exI [of _ "[]"])
  next
    case whole
    then obtain w1 g1 h1 where w1: "recv_step k w = Inr w1" "fs2 = g1 @ h1" "recv_inv (fs1 @ g1) h1 w1"
      using recv_step_inv [OF Cons.prems(1,2) whole(1)] by blast
    then obtain w' gs hs where "recv_run ks w1 = Inr w'" "h1 = gs @ hs" "dead (rw_conn w')"
      "rw_out w' = map delivery ((fs1 @ g1) @ gs)"
      using Cons.IH [OF w1(3)] Cons.prems(2,3) whole by auto
    with w1 whole show ?thesis by (intro exI [of _ w'] exI [of _ "g1 @ gs"] exI [of _ hs]) auto
  qed
qed simp

lemma recv_new_inv: "recv_inv [] fs (recv_new f (concat fs))"
  by (simp add: recv_inv_def recv_new_def connection_new_def)

lemma recv_inv_rest:
  assumes "recv_inv fs1 fs2 w" and "rw_rest w = []" and "\<forall>f \<in> set fs2. good_frame f"
  shows "fs2 = []"
  using assms by (cases fs2) (auto simp: recv_inv_def good_frame_def)

section \<open>Properties\<close>

text \<open>
  C13. Reassembly. When the peer sends a sequence of well-formed messages and \<^verbatim>\<open>got_pdu\<close> takes every message,
  then however the stream is cut into chunks, no call of \<^verbatim>\<open>read_cb\<close> faults, and the messages handed to
  \<^verbatim>\<open>got_pdu\<close> are exactly the first messages sent, in order and unchanged. If no chunk splits the four
  bytes of a size field, the connection stays up and after as many non-empty chunks as there are bytes
  all messages have been handed over; if a chunk splits a size field, the connection is given up.
\<close>

theorem read_cb_reassembles:
  assumes "\<forall>m \<in> set fs. good_frame m"
  shows "\<exists>w n. recv_run ks (recv_new f (concat fs)) = Inr w \<and> rw_out w = map delivery (take n fs) \<and>
    (if chunks_ok ks (recv_new f (concat fs))
     then \<not> dead (rw_conn w) \<and> (length (concat fs) \<le> length ks \<and> 0 \<notin> set ks \<longrightarrow> n = length fs)
     else dead (rw_conn w))"
proof (cases "chunks_ok ks (recv_new f (concat fs))")
  case True
  have "rw_rest (recv_new f (concat fs)) = concat fs" by (simp add: recv_new_def)
  then obtain w gs hs where w: "recv_run ks (recv_new f (concat fs)) = Inr w" "fs = gs @ hs" "recv_inv gs hs w"
    "0 \<notin> set ks \<longrightarrow> rw_rest w = [] \<or> length (rw_rest w) + length ks \<le> length (concat fs)"
    using recv_run_inv [OF recv_new_inv assms True] by (metis append_Nil)
  have "hs = []" if "length (concat fs) \<le> length ks" "0 \<notin> set ks"
  proof -
    have "rw_rest w = [] \<or> length (rw_rest w) + length ks \<le> length (concat fs)" using w(4) that(2) by simp
    then have "rw_rest w = []" using that(1) by (elim disjE) (simp, simp flip: length_0_conv)
    then show ?thesis using w(2) assms(1) by (intro recv_inv_rest [OF w(3)]) auto
  qed
  with w True show ?thesis
    by (intro exI [of _ w] exI [of _ "length gs"]) (auto simp: recv_inv_def)
next
  case False
  obtain w gs hs where "recv_run ks (recv_new f (concat fs)) = Inr w" "fs = gs @ hs" "dead (rw_conn w)"
    "rw_out w = map delivery gs"
    using recv_run_split [OF recv_new_inv assms False] by auto
  with False show ?thesis by (intro exI [of _ w] exI [of _ "length gs"]) auto
qed

definition frame6 :: "u8 list" where
  "frame6 = [0, 0, 0, 6, 65, 66]"

lemma frame6_good: "good_frame frame6"
  by (simp add: good_frame_def frame6_def MAX_PDU_def be32_def)

lemmas recv_eval = recv_new_def connection_new_def charbuf_new_def recv_step_def socket_read_def read_cb_def
  readpdu_def read_body_def ntohl_def dec32_def MAX_PDU_def poke_def check_def rbind_def Let_def

theorem read_cb_reassembles_witness:
  "\<exists>w v n m. recv_run [5, 1, 6] (recv_new 3 (concat [frame6, frame6])) = Inr w \<and> \<not> dead (rw_conn w) \<and>
    rw_out w = map delivery (take n [frame6, frame6]) \<and>
    recv_run [5, 1, 3, 3] (recv_new 3 (concat [frame6, frame6])) = Inr v \<and> dead (rw_conn v) \<and>
    rw_out v = map delivery (take m [frame6, frame6])"
proof -
  have "chunks_ok [5, 1, 6] (recv_new 3 (concat [frame6, frame6]))"
    "\<not> chunks_ok [5, 1, 3, 3] (recv_new 3 (concat [frame6, frame6]))"
    by (simp_all add: recv_eval frame6_def)
  moreover have "\<forall>m \<in> set [frame6, frame6]. good_frame m" by (simp add: frame6_good)
  ultimately show ?thesis
    using read_cb_reassembles [of "[frame6, frame6]" "[5, 1, 6]" 3]
      read_cb_reassembles [of "[frame6, frame6]" "[5, 1, 3, 3]" 3] by (metis (no_types, lifting))
qed

text \<open>
  The size field is trusted. A size of at most 10 megabytes is accepted even when it is negative or
  smaller than the size field itself. For every negative size the process runs into a fault: a failed
  allocation, which is asserted not to happen, or a copy of the size field out of the allocated block.
\<close>

theorem negative_size_faults:
  assumes "rpdu c = charbuf_new" and "\<not> dead c" and "length b1 = 4" and "ntohl b1 < 0"
  shows "\<exists>x. read_cb (fd c) (Read b1) r2 consumed c = Inl x"
proof -
  have "poke (Some (replicate (nat (ntohl b1 + 4)) None)) 0 (map Some b1) = Inl Out_of_bounds"
    using assms(3,4) by (auto simp: poke_def)
  then have "\<exists>x. readpdu (Read b1) r2 c = Inl x"
    using assms by (auto simp: readpdu_def charbuf_new_def MAX_PDU_def check_def rbind_def)
  then show ?thesis
    using assms(1,2) by (auto simp: read_cb_def check_def rbind_def charbuf_new_def)
qed

theorem negative_size_faults_witness:
  "\<exists>x. read_cb (fd (fst (connection_new 3 0))) (Read [255, 255, 255, 255]) (Read_error True) True
    (fst (connection_new 3 0)) = Inl x"
  by (rule negative_size_faults) (simp_all add: connection_new_def ntohl_def dec32_def)

end
