(* ===== verification/Rpc_Server.thy ===== *)
theory Rpc_Server
  imports Rpc_Stub Reply_Window Connection
begin

text \<open>
  Class \<^verbatim>\<open>rpcs\<close> of \<^verbatim>\<open>src/rpc/rpc.cc\<close>: registering handlers, taking messages from connections, and
  \<^verbatim>\<open>rpcs::dispatch\<close>, which ten pool threads run at the same time. A dispatching thread is a value of
  \<open>job\<close>, one constructor for each place where the code takes or leaves one of the server's mutexes;
  \<open>dispatch_step\<close> runs to the next such place. A handler runs as one step: the interleaving inside
  a handler is the subject of the theory of the lock server. Connections live on a heap and are
  counted; using a deleted one is a fault. A call of \<^verbatim>\<open>connection::send\<close> is recorded in the log
  \<open>sent\<close>; what it does on the socket is the subject of the theories of connections. The replies
  kept in the window are contents, as in the theory of the window.
\<close>

section \<open>State\<close>

record 's rpcs =
  nonce :: u32
  reply_window :: reply_window
  conns :: "u32 \<rightharpoonup> cid option"
  counting :: int
  curr_counts :: int
  counts :: "i32 \<rightharpoonup> int"
  procs :: "i32 \<rightharpoonup> 's handler"
  heap :: conn_heap
  sent :: "(cid \<times> block option \<times> int) list"
  obj :: 's

text \<open>Calls on a connection through a pointer.\<close>

definition conn_incref :: "cid \<Rightarrow> 's rpcs \<Rightarrow> 's rpcs res" where
  "conn_incref c s = rbind (ptr_incref c (heap s)) (\<lambda>h. Inr (s\<lparr>heap := h\<rparr>))"

definition conn_decref :: "cid \<Rightarrow> 's rpcs \<Rightarrow> 's rpcs res" where
  "conn_decref c s = rbind (ptr_decref c (heap s)) (\<lambda>h. Inr (s\<lparr>heap := h\<rparr>))"

definition conn_isdead :: "cid \<Rightarrow> 's rpcs \<Rightarrow> bool res" where
  "conn_isdead c s = ptr_isdead c (heap s)"

definition conn_send :: "cid \<Rightarrow> block option \<Rightarrow> int \<Rightarrow> 's rpcs \<Rightarrow> 's rpcs res" where
  "conn_send c b sz s =
     (case heap s c of
        None \<Rightarrow> Inl Use_after_free
      | Some k \<Rightarrow> Inr (s\<lparr>sent := sent s @ [(c, b, sz)]\<rparr>))"

section \<open>Registration\<close>

definition reg1 :: "i32 \<Rightarrow> 's handler \<Rightarrow> 's rpcs \<Rightarrow> 's rpcs res" where
  "reg1 proc h s =
     rbind (check (procs s proc = None) Assert_failed) (\<lambda>_.
     Inr (s\<lparr>procs := (procs s)(proc \<mapsto> h)\<rparr>))"

definition rpcbind :: "u32 \<Rightarrow> i32 \<Rightarrow> (i32, 's) handled" where
  "rpcbind n a r s = (0, n, s)"

text \<open>
  The constructor, given the random nonce, the argument \<^verbatim>\<open>count\<close>, the object whose methods will be
  registered, and the value that the local \<^verbatim>\<open>R r\<close> of a handler happens to have.
\<close>

definition rpcs_new :: "u32 \<Rightarrow> int \<Rightarrow> i32 \<Rightarrow> 's \<Rightarrow> 's rpcs res" where
  "rpcs_new n count r0 x =
     reg1 rpc_bind (h1_fn get_int 0 put_int r0 (rpcbind n))
       \<lparr>nonce = n, reply_window = Map.empty, conns = Map.empty, counting = count, curr_counts = count,
        counts = Map.empty, procs = Map.empty, heap = Map.empty, sent = [], obj = x\<rparr>"

section \<open>Counting\<close>

text \<open>The statistics printed when the countdown reaches zero go to the log only.\<close>

definition updatestat :: "i32 \<Rightarrow> 's rpcs \<Rightarrow> 's rpcs res" where
  "updatestat proc s =
     (let n = (case counts s proc of None \<Rightarrow> 0 | Some n \<Rightarrow> n) + 1;
          k = curr_counts s - 1
      in
        rbind (check (in_int n \<and> in_int k) Int_overflow) (\<lambda>_.
        Inr (s\<lparr>counts := (counts s)(proc \<mapsto> n), curr_counts := (if k = 0 then counting s else k)\<rparr>)))"

section \<open>Dispatch\<close>

datatype 's job =
    Queued cid "u8 list option" int
  | At_window req_header unmarshall cid "'s handler"
  | At_conns req_header unmarshall cid "'s handler"
  | At_check req_header unmarshall cid "'s handler"
  | Running req_header unmarshall cid "'s handler"
  | At_reply req_header cid "block option" int
  | At_latest req_header cid "block option" int
  | At_send cid "block option" int
  | Finished

text \<open>
  \<^verbatim>\<open>got_pdu\<close>: the message goes to the pool, which refuses it when its queue is full (\<open>succ\<close>).
\<close>

definition rpcs_got_pdu ::
  "cid \<Rightarrow> u8 list option \<Rightarrow> int \<Rightarrow> bool \<Rightarrow> 's rpcs \<Rightarrow> (bool \<times> 's job option \<times> 's rpcs) res" where
  "rpcs_got_pdu c b sz succ s =
     rbind (conn_incref c s) (\<lambda>s.
     if succ then Inr (True, Some (Queued c b sz), s)
     else rbind (conn_decref c s) (\<lambda>s. Inr (False, None, s)))"

text \<open>The end of every path but one: the thread gives up its reference.\<close>

definition leave :: "cid \<Rightarrow> 's rpcs \<Rightarrow> ('s job \<times> 's rpcs) res" where
  "leave c s = rbind (conn_decref c s) (\<lambda>s. Inr (Finished, s))"

definition dispatch_header ::
  "cid \<Rightarrow> u8 list option \<Rightarrow> int \<Rightarrow> 's rpcs \<Rightarrow> ('s job \<times> 's rpcs) res" where
  "dispatch_header c b sz s =
     rbind (unpack_req_header (unmarshall_new b sz)) (\<lambda>(h, req).
     if \<not> u_ok req then leave c s
     else if rq_srv_nonce h \<noteq> 0 \<and> rq_srv_nonce h \<noteq> nonce s then
       rbind (pack_reply_header \<lparr>rp_xid = rq_xid h, rp_ret = oldsrv_failure\<rparr> marshall_new) (\<lambda>rep.
       rbind (conn_send c (m_buf rep) (m_ind rep) s) (\<lambda>s. Inr (Finished, s)))
     else case procs s (rq_proc h) of
       None \<Rightarrow> leave c s
     | Some f \<Rightarrow> Inr (if rq_clt_nonce h \<noteq> 0 then At_window h req c f else Running h req c f, s))"

text \<open>A client that is not known yet gets an empty window.\<close>

definition new_client :: "req_header \<Rightarrow> 's rpcs \<Rightarrow> 's rpcs" where
  "new_client h s =
     (case reply_window s (rq_clt_nonce h) of
        None \<Rightarrow> s\<lparr>reply_window := (reply_window s)(rq_clt_nonce h \<mapsto> [])\<rparr>
      | Some _ \<Rightarrow> s)"

text \<open>The latest connection to the client is kept with a reference of its own.\<close>

definition save_conn :: "u32 \<Rightarrow> cid \<Rightarrow> 's rpcs \<Rightarrow> 's rpcs res" where
  "save_conn clt c s =
     (case conns s clt of
        None \<Rightarrow>
          rbind (conn_incref c s) (\<lambda>s. Inr (s\<lparr>conns := (conns s)(clt \<mapsto> Some c)\<rparr>))
      | Some p \<Rightarrow>
          if p = Some c then Inr s
          else
            rbind (case p of None \<Rightarrow> Inl Null_deref | Some c' \<Rightarrow> conn_decref c' s) (\<lambda>s.
            rbind (conn_incref c s) (\<lambda>s. Inr (s\<lparr>conns := (conns s)(clt \<mapsto> Some c)\<rparr>))))"

definition dispatch_check ::
  "req_header \<Rightarrow> unmarshall \<Rightarrow> cid \<Rightarrow> 's handler \<Rightarrow> 's rpcs \<Rightarrow> ('s job \<times> 's rpcs) res" where
  "dispatch_check h req c f s =
     (let (stat, saved, w) =
        checkduplicate_and_update (rq_clt_nonce h) (rq_xid h) (rq_xid_rep h) (reply_window s);
        s = s\<lparr>reply_window := w\<rparr>
      in case stat of
        NEW \<Rightarrow> Inr (Running h req c f, s)
      | INPROGRESS \<Rightarrow> leave c s
      | DONE \<Rightarrow>
          (case saved of
             None \<Rightarrow> Inl Null_deref
           | Some (b, sz) \<Rightarrow> Inr (At_send c b sz, s))
      | FORGOTTEN \<Rightarrow>
          rbind (pack_reply_header \<lparr>rp_xid = rq_xid h, rp_ret = atmostonce_failure\<rparr> marshall_new)
            (\<lambda>rep. Inr (At_send c (m_buf rep) (m_ind rep), s)))"

definition dispatch_run ::
  "req_header \<Rightarrow> unmarshall \<Rightarrow> cid \<Rightarrow> 's handler \<Rightarrow> 's rpcs \<Rightarrow> ('s job \<times> 's rpcs) res" where
  "dispatch_run h req c f s =
     rbind (if counting s \<noteq> 0 then updatestat (rq_proc h) s else Inr s) (\<lambda>s.
     rbind (f req marshall_new (obj s)) (\<lambda>(ret, req, rep, x).
     let s = s\<lparr>obj := x\<rparr> in
     rbind (check (0 \<le>s ret \<or> ret = unmarshal_args_failure) Assert_failed) (\<lambda>_.
     rbind (pack_reply_header \<lparr>rp_xid = rq_xid h, rp_ret = ret\<rparr> rep) (\<lambda>rep.
     let ((b1, sz1), rep) = marshall_take_buf rep in
     Inr (if rq_clt_nonce h > 0 then At_reply h c b1 sz1 else At_latest h c b1 sz1, s)))))"

definition dispatch_reply :: "req_header \<Rightarrow> block option \<Rightarrow> int \<Rightarrow> 's rpcs \<Rightarrow> 's rpcs" where
  "dispatch_reply h b sz s =
     s\<lparr>reply_window := add_reply (rq_clt_nonce h) (rq_xid h) b sz (reply_window s)\<rparr>"

text \<open>
  When the connection of the request is dead the reply goes to the latest connection of the client;
  \<^verbatim>\<open>conns_[clt_nonce]\<close> creates a null entry for a client that has none.
\<close>

definition latest_conn :: "req_header \<Rightarrow> cid \<Rightarrow> 's rpcs \<Rightarrow> (cid \<times> 's rpcs) res" where
  "latest_conn h c s =
     rbind (conn_isdead c s) (\<lambda>d.
     if \<not> d then Inr (c, s)
     else
       let p = (case conns s (rq_clt_nonce h) of None \<Rightarrow> None | Some p \<Rightarrow> p);
           s = s\<lparr>conns := (conns s)(rq_clt_nonce h \<mapsto> p)\<rparr>
       in
         if p = Some c then Inr (c, s)
         else
           rbind (conn_decref c s) (\<lambda>s.
           case p of
             None \<Rightarrow> Inl Null_deref
           | Some c' \<Rightarrow> rbind (conn_incref c' s) (\<lambda>s. Inr (c', s))))"

fun dispatch_step :: "'s job \<Rightarrow> 's rpcs \<Rightarrow> ('s job \<times> 's rpcs) res" where
  "dispatch_step (Queued c b sz) s = dispatch_header c b sz s"
| "dispatch_step (At_window h req c f) s = Inr (At_conns h req c f, new_client h s)"
| "dispatch_step (At_conns h req c f) s =
     rbind (save_conn (rq_clt_nonce h) c s) (\<lambda>s. Inr (At_check h req c f, s))"
| "dispatch_step (At_check h req c f) s = dispatch_check h req c f s"
| "dispatch_step (Running h req c f) s = dispatch_run h req c f s"
| "dispatch_step (At_reply h c b sz) s = Inr (At_latest h c b sz, dispatch_reply h b sz s)"
| "dispatch_step (At_latest h c b sz) s = rbind (latest_conn h c s) (\<lambda>(c, s). Inr (At_send c b sz, s))"
| "dispatch_step (At_send c b sz) s = rbind (conn_send c b sz s) (\<lambda>s. leave c s)"
| "dispatch_step Finished s = Inr (Finished, s)"

text \<open>A thread that runs alone: eight steps are enough for every path.\<close>

fun dispatch_steps :: "nat \<Rightarrow> 's job \<Rightarrow> 's rpcs \<Rightarrow> ('s job \<times> 's rpcs) res" where
  "dispatch_steps 0 j s = Inr (j, s)"
| "dispatch_steps (Suc n) j s = rbind (dispatch_step j s) (\<lambda>(j, s). dispatch_steps n j s)"

definition dispatch :: "cid \<Rightarrow> u8 list option \<Rightarrow> int \<Rightarrow> 's rpcs \<Rightarrow> ('s job \<times> 's rpcs) res" where
  "dispatch c b sz s = dispatch_steps 8 (Queued c b sz) s"

section \<open>Facts about single steps\<close>

text \<open>The steps a thread has left at most.\<close>

fun rank :: "'s job \<Rightarrow> nat" where
  "rank (Queued c b sz) = 8"
| "rank (At_window h req c f) = 7"
| "rank (At_conns h req c f) = 6"
| "rank (At_check h req c f) = 5"
| "rank (Running h req c f) = 4"
| "rank (At_reply h c b sz) = 3"
| "rank (At_latest h c b sz) = 2"
| "rank (At_send c b sz) = 1"
| "rank Finished = 0"

lemma rank_0 [simp]: "rank j = 0 \<longleftrightarrow> j = Finished"
  by (cases j) simp_all

lemmas dispatch_defs = dispatch_header_def dispatch_check_def dispatch_run_def leave_def

lemma rank_step: "dispatch_step j s = Inr (j', s') \<Longrightarrow> rank j' \<le> rank j - 1"
  by (cases j) (auto simp: dispatch_defs rbind_eq_Inr Let_def marshall_take_buf_def
      split: if_splits option.splits prod.splits rpcstate_t.splits)

lemma rank_steps: "dispatch_steps n j s = Inr (j', s') \<Longrightarrow> rank j' \<le> rank j - n"
proof (induction n arbitrary: j s)
  case (Suc n)
  then obtain j1 s1 where "dispatch_step j s = Inr (j1, s1)" "dispatch_steps n j1 s1 = Inr (j', s')"
    by (auto simp: rbind_eq_Inr)
  with Suc.IH rank_step show ?case by fastforce
qed simp

lemma dispatch_finishes: "dispatch c b sz s = Inr (j, s') \<Longrightarrow> j = Finished"
  by (auto simp: dispatch_def simp del: dispatch_steps.simps dest: rank_steps)

end
