(* ===== verification/Rpc_Server_Runs.thy ===== *)
theory Rpc_Server_Runs
  imports Rpc_Server
begin

text \<open>
  Executions of an RPC server: connections are accepted, deliver messages, die and are reaped by the
  listener, and any number of dispatching threads take their steps in any order. The executions are
  shown to refine the runs of the reply window, which carries at-most-once over to the handlers, and
  to keep the reference counts of the connections, so that no thread uses a deleted connection.
\<close>

section \<open>Executions\<close>

text \<open>
  Beside the server and its threads the world has the references of the listener (\<open>held\<close>) and three
  ghosts: the references that no code will ever give back (\<open>leaked\<close>), the steps of the reply window
  (\<open>trace\<close>) and the requests whose handler has run (\<open>handled_runs\<close>).
\<close>

record 's sworld =
  srv :: "'s rpcs"
  jobs :: "'s job list"
  held :: "cid \<Rightarrow> bool"
  leaked :: "cid \<Rightarrow> nat"
  trace :: "amo_event list"
  handled_runs :: "(u32 \<times> u32) list"

datatype server_event =
    Accept cid int int                  \<comment> \<open>the socket and \<^verbatim>\<open>lossytest_\<close>\<close>
  | Deliver cid "u8 list option" int bool \<comment> \<open>a message, and whether the pool takes it\<close>
  | Dies cid
  | Reap cid
  | Step nat

text \<open>The request is for an earlier instance of the server.\<close>

definition old_instance :: "u8 list option \<Rightarrow> int \<Rightarrow> 's rpcs \<Rightarrow> bool" where
  "old_instance b sz s \<longleftrightarrow>
     (case unpack_req_header (unmarshall_new b sz) of
        Inl _ \<Rightarrow> False
      | Inr (h, req) \<Rightarrow> u_ok req \<and> rq_srv_nonce h \<noteq> 0 \<and> rq_srv_nonce h \<noteq> nonce s)"

fun leaks :: "'s job \<Rightarrow> 's rpcs \<Rightarrow> cid \<Rightarrow> nat" where
  "leaks (Queued c b sz) s c' = (if c' = c \<and> old_instance b sz s then 1 else 0)"
| "leaks _ s c' = 0"

fun job_events :: "'s job \<Rightarrow> amo_event list" where
  "job_events (At_check h req c f) = [Request (rq_clt_nonce h) (rq_xid h) (rq_xid_rep h)]"
| "job_events (At_reply h c b sz) = [Finish (rq_clt_nonce h) (rq_xid h) b sz]"
| "job_events _ = []"

fun job_runs :: "'s job \<Rightarrow> (u32 \<times> u32) list" where
  "job_runs (Running h req c f) = [(rq_clt_nonce h, rq_xid h)]"
| "job_runs _ = []"

text \<open>
  The reaper is the loop of \<^verbatim>\<open>tcpsconn::process_accept\<close>: it drops the listener's reference of a dead
  connection when it is the last one.
\<close>

fun server_exec :: "server_event \<Rightarrow> 's sworld \<Rightarrow> 's sworld res" where
  "server_exec (Accept c f l) w =
     (if heap (srv w) c = None
      then Inr (w\<lparr>srv := (srv w)\<lparr>heap := (heap (srv w))(c \<mapsto> fst (connection_new f l))\<rparr>,
                  held := (held w)(c := True)\<rparr>)
      else Inr w)"
| "server_exec (Deliver c b sz succ) w =
     (if held w c
      then rbind (rpcs_got_pdu c b sz succ (srv w)) (\<lambda>(ok, j, s).
        Inr (w\<lparr>srv := s, jobs := jobs w @ (case j of None \<Rightarrow> [] | Some j \<Rightarrow> [j])\<rparr>))
      else Inr w)"
| "server_exec (Dies c) w =
     (case heap (srv w) c of
        None \<Rightarrow> Inr w
      | Some k \<Rightarrow> Inr (w\<lparr>srv := (srv w)\<lparr>heap := (heap (srv w))(c \<mapsto> k\<lparr>dead := True\<rparr>)\<rparr>\<rparr>))"
| "server_exec (Reap c) w =
     (case heap (srv w) c of
        None \<Rightarrow> Inr w
      | Some k \<Rightarrow>
          if held w c \<and> isdead k \<and> ref k = 1
          then rbind (conn_decref c (srv w)) (\<lambda>s. Inr (w\<lparr>srv := s, held := (held w)(c := False)\<rparr>))
          else Inr w)"
| "server_exec (Step i) w =
     (if i < length (jobs w)
      then
        let j = jobs w ! i in
        rbind (dispatch_step j (srv w)) (\<lambda>(j', s).
        Inr (w\<lparr>srv := s, jobs := (jobs w)[i := j'],
               leaked := (\<lambda>c. leaked w c + leaks j (srv w) c),
               trace := trace w @ job_events j, handled_runs := job_runs j @ handled_runs w\<rparr>))
      else Inr w)"

definition fresh :: "'s rpcs \<Rightarrow> bool" where
  "fresh s \<longleftrightarrow> reply_window s = Map.empty \<and> conns s = Map.empty \<and> heap s = Map.empty"

definition sworld_new :: "'s rpcs \<Rightarrow> 's sworld" where
  "sworld_new s = \<lparr>srv = s, jobs = [], held = (\<lambda>_. False), leaked = (\<lambda>_. 0), trace = [], handled_runs = []\<rparr>"

lemma rpcs_new_fresh: "rpcs_new n count r0 x = Inr s \<Longrightarrow> fresh s"
  by (auto simp: rpcs_new_def reg1_def fresh_def rbind_eq_Inr)

lemma reg1_fresh: "fresh s \<Longrightarrow> reg1 proc h s = Inr s' \<Longrightarrow> fresh s'"
  by (auto simp: reg1_def fresh_def rbind_eq_Inr)

section \<open>The reply window of an execution\<close>

fun runs_request :: "u32 \<times> u32 \<Rightarrow> 's job \<Rightarrow> bool" where
  "runs_request p (Running h req c f) \<longleftrightarrow> p = (rq_clt_nonce h, rq_xid h)"
| "runs_request p _ \<longleftrightarrow> False"

fun owes_reply :: "u32 \<times> u32 \<Rightarrow> 's job \<Rightarrow> bool" where
  "owes_reply p (Running h req c f) \<longleftrightarrow> p = (rq_clt_nonce h, rq_xid h)"
| "owes_reply p (At_reply h c b sz) \<longleftrightarrow> p = (rq_clt_nonce h, rq_xid h)"
| "owes_reply p _ \<longleftrightarrow> False"

fun reply_has_client :: "'s job \<Rightarrow> bool" where
  "reply_has_client (At_reply h c b sz) \<longleftrightarrow> rq_clt_nonce h \<noteq> 0"
| "reply_has_client _ \<longleftrightarrow> True"

definition njobs :: "('s job \<Rightarrow> bool) \<Rightarrow> 's sworld \<Rightarrow> nat" where
  "njobs P w = length (filter P (jobs w))"

definition same_lists :: "reply_window \<Rightarrow> reply_window \<Rightarrow> bool" where
  "same_lists w w' \<longleftrightarrow> reply_list w = reply_list w'"

definition window_sim :: "'s sworld \<Rightarrow> bool" where
  "window_sim w \<longleftrightarrow>
     same_lists (reply_window (srv w)) (window (amo_run (trace w))) \<and>
     (\<forall>p. fst p \<noteq> 0 \<longrightarrow>
        count_list (executed (amo_run (trace w))) p = count_list (handled_runs w) p + njobs (runs_request p) w \<and>
        count_list (running (amo_run (trace w))) p = njobs (owes_reply p) w) \<and>
     (\<forall>j \<in> set (jobs w). reply_has_client j)"

lemma count_list_append1: "count_list (xs @ ys) p = count_list xs p + count_list ys p"
  by simp

text \<open>The window operations depend on the lists only.\<close>

lemma reply_list_fun_upd: "reply_list (w(clt \<mapsto> l)) = (reply_list w)(clt := l)"
  by (simp add: fun_eq_iff)

lemma check_same:
  assumes "same_lists w v" and "checkduplicate_and_update clt xid xr w = (st, b, w')"
  shows "\<exists>v'. checkduplicate_and_update clt xid xr v = (st, b, v') \<and> same_lists w' v'"
proof -
  have "reply_list w = reply_list v" using assms(1) by (simp add: same_lists_def)
  then show ?thesis
    using assms(2)
    by (auto simp: same_lists_def checkduplicate_and_update_def Let_def reply_list_fun_upd
        simp del: fun_upd_apply reply_list_upd
        split: if_splits prod.splits option.splits)
qed

lemma add_reply_same: "same_lists w v \<Longrightarrow> same_lists (add_reply clt xid b sz w) (add_reply clt xid b sz v)"
  by (simp add: same_lists_def add_reply_def reply_list_fun_upd)

lemma new_client_lists: "reply_list (reply_window (new_client h s)) = reply_list (reply_window s)"
  by (cases "reply_window s (rq_clt_nonce h)") (auto simp: new_client_def reply_list_def fun_eq_iff)

lemma conn_incrE:
  assumes "conn_incref c s = Inr s'"
  obtains k where "heap s c = Some k" "s' = s\<lparr>heap := (heap s)(c \<mapsto> incref k)\<rparr>"
  using assms by (auto simp: conn_incref_def ptr_incref_def split: option.splits)

lemma conn_decrE:
  assumes "conn_decref c s = Inr s'"
  obtains k r where "heap s c = Some k" "decref k = Inr r" "s' = s\<lparr>heap := (heap s)(c := r)\<rparr>"
  using assms by (auto simp: conn_decref_def ptr_decref_def rbind_eq_Inr split: option.splits)

lemma conn_sendE:
  assumes "conn_send c b sz s = Inr s'"
  obtains k where "heap s c = Some k" "s' = s\<lparr>sent := sent s @ [(c, b, sz)]\<rparr>"
  using assms by (auto simp: conn_send_def split: option.splits)

lemma conn_ops_window:
  "conn_incref c s = Inr s' \<Longrightarrow> reply_window s' = reply_window s"
  "conn_decref c s = Inr s' \<Longrightarrow> reply_window s' = reply_window s"
  "conn_send c b sz s = Inr s' \<Longrightarrow> reply_window s' = reply_window s"
  by (auto elim: conn_incrE conn_decrE conn_sendE)

lemma save_conn_window: "save_conn clt c s = Inr s' \<Longrightarrow> reply_window s' = reply_window s"
  by (auto simp: save_conn_def rbind_eq_Inr conn_ops_window split: option.splits if_splits
      dest!: conn_ops_window)

lemma latest_conn_window:
  assumes "latest_conn h c s = Inr (c', s')"
  shows "reply_window s' = reply_window s"
proof -
  obtain d where "conn_isdead c s = Inr d"
    using assms by (auto simp: latest_conn_def rbind_eq_Inr)
  then show ?thesis
    using assms
    by (cases "case conns s (rq_clt_nonce h) of None \<Rightarrow> None | Some p \<Rightarrow> p")
      (auto simp: latest_conn_def rbind_eq_Inr Let_def split: if_splits dest!: conn_ops_window)
qed

lemma dispatch_step_window:
  assumes "dispatch_step j s = Inr (j', s')" and "job_events j = []"
  shows "same_lists (reply_window s') w \<longleftrightarrow> same_lists (reply_window s) w"
proof (cases j)
  case (Queued c b sz)
  with assms show ?thesis
    by (auto simp: dispatch_header_def leave_def rbind_eq_Inr split: if_splits option.splits
        dest!: conn_ops_window)
next
  case (Running h req c f)
  with assms show ?thesis
    by (auto simp: dispatch_run_def updatestat_def rbind_eq_Inr Let_def marshall_take_buf_def split: if_splits)
qed (insert assms, auto simp: rbind_eq_Inr leave_def same_lists_def new_client_lists
    dest!: conn_ops_window save_conn_window latest_conn_window)

text \<open>How a step changes what a thread is running and owes.\<close>

lemma step_quiet:
  assumes "dispatch_step j s = Inr (j', s')" and "job_events j = []" and "job_runs j = []" and "fst p \<noteq> 0"
  shows "\<not> owes_reply p j" and "\<not> runs_request p j" and "\<not> owes_reply p j'" and "\<not> runs_request p j'"
    and "reply_has_client j'"
  by (insert assms, cases j,
      auto simp: dispatch_header_def leave_def rbind_eq_Inr split: if_splits option.splits)+

lemma step_check:
  assumes "dispatch_step (At_check h req c f) s = Inr (j', s')"
    and "checkduplicate_and_update (rq_clt_nonce h) (rq_xid h) (rq_xid_rep h) (reply_window s) = (st, b, w)"
  shows "reply_window s' = w" and "runs_request p j' \<longleftrightarrow> st = NEW \<and> p = (rq_clt_nonce h, rq_xid h)"
    and "owes_reply p j' \<longleftrightarrow> st = NEW \<and> p = (rq_clt_nonce h, rq_xid h)" and "reply_has_client j'"
  by (insert assms, auto simp: dispatch_check_def leave_def rbind_eq_Inr Let_def
      split: option.splits rpcstate_t.splits dest!: conn_ops_window)

lemma step_run:
  assumes "dispatch_step (Running h req c f) s = Inr (j', s')"
  shows "\<not> runs_request p j'" and "fst p \<noteq> 0 \<Longrightarrow> owes_reply p j' \<longleftrightarrow> p = (rq_clt_nonce h, rq_xid h)"
    and "reply_has_client j'"
  by (insert assms, auto simp: dispatch_run_def updatestat_def rbind_eq_Inr Let_def marshall_take_buf_def
      word_gt_0 split: if_splits)

lemma njobs_update:
  "i < length (jobs w) \<Longrightarrow>
   njobs P (w\<lparr>srv := s, jobs := (jobs w)[i := j'], leaked := l, trace := t, handled_runs := r\<rparr>) +
     (if P (jobs w ! i) then 1 else 0) = njobs P w + (if P j' then 1 else 0)"
  by (simp add: njobs_def filter_update)

lemma has_client_update:
  "\<forall>j \<in> set xs. reply_has_client j \<Longrightarrow> reply_has_client j' \<Longrightarrow> \<forall>j \<in> set (xs[i := j']). reply_has_client j"
  by (auto dest!: set_update_subset_insert [THEN subsetD])

lemma window_simD:
  assumes "window_sim w"
  shows "same_lists (reply_window (srv w)) (window (amo_run (trace w)))"
    and "fst p \<noteq> 0 \<Longrightarrow>
      count_list (executed (amo_run (trace w))) p = count_list (handled_runs w) p + njobs (runs_request p) w"
    and "fst p \<noteq> 0 \<Longrightarrow> count_list (running (amo_run (trace w))) p = njobs (owes_reply p) w"
    and "\<forall>j \<in> set (jobs w). reply_has_client j"
  using assms unfolding window_sim_def by blast+

text \<open>A step keeps the simulation when the abstract counters move with the thread.\<close>

lemma sim_moves:
  assumes sim: "window_sim w" and i: "i < length (jobs w)" and "reply_has_client j'"
    and win: "same_lists (reply_window s) (window t)" "t = amo_run (trace w @ ev)"
    and ex: "\<And>p. fst p \<noteq> 0 \<Longrightarrow>
      count_list (executed t) p + (if runs_request p (jobs w ! i) then 1 else 0) =
      count_list (executed (amo_run (trace w))) p + count_list r p + (if runs_request p j' then 1 else 0)"
    and ru: "\<And>p. fst p \<noteq> 0 \<Longrightarrow>
      count_list (running t) p + (if owes_reply p (jobs w ! i) then 1 else 0) =
      count_list (running (amo_run (trace w))) p + (if owes_reply p j' then 1 else 0)"
  shows "window_sim (w\<lparr>srv := s, jobs := (jobs w)[i := j'], leaked := l, trace := trace w @ ev,
    handled_runs := r @ handled_runs w\<rparr>)" (is "window_sim ?w")
proof -
  have n: "njobs P ?w + (if P (jobs w ! i) then 1 else 0) = njobs P w + (if P j' then 1 else 0)" for P
    using njobs_update [OF i] .
  have "count_list (executed t) p = count_list (handled_runs ?w) p + njobs (runs_request p) ?w"
    if "fst p \<noteq> 0" for p
    using n [of "runs_request p"] ex [OF that] window_simD(2) [OF sim that]
    by (simp split: if_splits)
  moreover have "count_list (running t) p = njobs (owes_reply p) ?w" if "fst p \<noteq> 0" for p
    using n [of "owes_reply p"] ru [OF that] window_simD(3) [OF sim that]
    by (simp split: if_splits)
  ultimately show ?thesis
    using win has_client_update [OF window_simD(4) [OF sim] assms(3)]
    unfolding window_sim_def by simp
qed

lemma step_sim:
  assumes sim: "window_sim w" and i: "i < length (jobs w)"
    and step: "dispatch_step (jobs w ! i) (srv w) = Inr (j', s)"
  shows "window_sim (w\<lparr>srv := s, jobs := (jobs w)[i := j'], leaked := l,
    trace := trace w @ job_events (jobs w ! i), handled_runs := job_runs (jobs w ! i) @ handled_runs w\<rparr>)"
proof -
  let ?j = "jobs w ! i" and ?t = "amo_run (trace w)"
  note win = window_simD(1) [OF sim]
  have mem: "?j \<in> set (jobs w)" using i by simp
  consider (check) h req c f where "?j = At_check h req c f"
    | (run) h req c f where "?j = Running h req c f"
    | (reply) h c b sz where "?j = At_reply h c b sz"
    | (quiet) "job_events ?j = []" "job_runs ?j = []"
    by (cases ?j) auto
  then show ?thesis
  proof cases
    case quiet
    note q = step_quiet [OF step quiet]
    show ?thesis
      using win dispatch_step_window [OF step quiet(1)] quiet q(1-4) q(5) [of "(1, 1)"]
      by (intro sim_moves [OF sim i, where t = ?t]) simp_all
  next
    case run
    then show ?thesis
      using win dispatch_step_window [OF step] step_run [OF step [unfolded run]]
      by (intro sim_moves [OF sim i, where t = ?t]) auto
  next
    case check
    obtain st b v where chk: "checkduplicate_and_update (rq_clt_nonce h) (rq_xid h) (rq_xid_rep h)
        (reply_window (srv w)) = (st, b, v)"
      by (metis prod_cases3)
    obtain v' where v': "checkduplicate_and_update (rq_clt_nonce h) (rq_xid h) (rq_xid_rep h)
        (window ?t) = (st, b, v')" "same_lists v v'"
      using check_same [OF win chk] by blast
    show ?thesis
      using v' step_check [OF step [unfolded check] chk]
      by (intro sim_moves [OF sim i, where t = "amo_step ?t (Request (rq_clt_nonce h) (rq_xid h) (rq_xid_rep h))"])
        (auto simp: check)
  next
    case reply
    let ?p = "(rq_clt_nonce h, rq_xid h)"
    have "rq_clt_nonce h \<noteq> 0"
      using window_simD(4) [OF sim] mem reply by fastforce
    moreover have "0 < njobs (owes_reply ?p) w"
      using mem reply by (auto simp: njobs_def filter_empty_conv intro!: bexI [of _ ?j])
    ultimately have in_run: "0 < count_list (running ?t) ?p" "?p \<in> set (running ?t)"
      using window_simD(3) [OF sim, of ?p] count_list_0_iff [of "running ?t" ?p] by auto
    have j': "j' = At_latest h c b sz" "reply_window s = add_reply (rq_clt_nonce h) (rq_xid h) b sz (reply_window (srv w))"
      using step reply by (auto simp: dispatch_reply_def)
    show ?thesis
      using in_run j' add_reply_same [OF win]
      by (intro sim_moves [OF sim i, where t = "amo_step ?t (Finish (rq_clt_nonce h) (rq_xid h) b sz)"])
        (auto simp: reply count_list_remove1)
  qed
qed

lemma exec_sim:
  assumes "window_sim w" and "server_exec e w = Inr w'"
  shows "window_sim w'"
proof (cases e)
  case (Step i)
  with assms show ?thesis
    by (auto simp: Let_def rbind_eq_Inr intro: step_sim split: if_splits)
next
  case (Deliver c b sz succ)
  with assms show ?thesis
    by (auto simp: window_sim_def rpcs_got_pdu_def rbind_eq_Inr njobs_def split: if_splits dest!: conn_ops_window)
next
  case (Reap c)
  with assms show ?thesis
    by (auto simp: window_sim_def rbind_eq_Inr njobs_def split: if_splits option.splits dest!: conn_ops_window)
qed (insert assms, auto simp: window_sim_def njobs_def split: if_splits option.splits)

lemma new_sim: "fresh s \<Longrightarrow> window_sim (sworld_new s)"
  by (simp add: window_sim_def sworld_new_def fresh_def njobs_def same_lists_def amo_init_def)

lemma run_sim:
  assumes "fresh s" and "run_events server_exec es (sworld_new s) = Inr w"
  shows "window_sim w"
  using assms(2) new_sim [OF assms(1)] by (rule run_events_invariant) (rule exec_sim)

lemma runs_once:
  "window_sim w \<Longrightarrow> c \<noteq> 0 \<Longrightarrow> unacked c x (trace w) \<Longrightarrow> count_list (handled_runs w) (c, x) \<le> 1"
  using window_simD(2) [of w "(c, x)"] unacked_invariant [of c x "trace w"] by simp

text \<open>
  C9. However messages are delivered and however the pool threads interleave, the handler of request
  \<open>x\<close> of client \<open>c\<close> runs at most once as long as no request of the client acknowledges \<open>x\<close>.
\<close>

theorem handler_runs_at_most_once:
  assumes "fresh s" and "run_events server_exec es (sworld_new s) = Inr w" and "c \<noteq> 0"
    and "unacked c x (trace w)"
  shows "count_list (handled_runs w) (c, x) \<le> 1"
  using run_sim [OF assms(1,2)] assms(3,4) by (rule runs_once)

text \<open>An example: a server whose only handler, procedure 2, counts its calls.\<close>

definition counter_server :: "nat rpcs" where
  "counter_server =
     \<lparr>nonce = 5, reply_window = Map.empty, conns = Map.empty, counting = 0, curr_counts = 0,
      counts = Map.empty, procs = [2 \<mapsto> h1_fn get_u8 0 put_u8 0 (\<lambda>a r n. (0, a, n + 1))],
      heap = Map.empty, sent = [], obj = 0\<rparr>"

definition request :: "u32 \<Rightarrow> u32 \<Rightarrow> u8 list" where
  "request n xid = be32 0 @ be32 xid @ be32 2 @ be32 7 @ be32 n @ be32 0 @ [9]"

definition duplicate_run :: "server_event list" where
  "duplicate_run =
     [Accept 0 3 0, Deliver 0 (Some (request 5 1)) 25 True, Deliver 0 (Some (request 5 1)) 25 True,
      Step 0, Step 1, Step 1, Step 0, Step 0, Step 1, Step 1, Step 0, Step 1]"

lemma duplicate_run_result:
  "case run_events server_exec duplicate_run (sworld_new counter_server) of
     Inl _ \<Rightarrow> False
   | Inr w \<Rightarrow> trace w = [Request 7 1 0, Request 7 1 0] \<and> handled_runs w = [(7, 1)] \<and> obj (srv w) = 1"
  by code_simp

lemma counter_fresh: "fresh counter_server"
  by (simp add: fresh_def counter_server_def)

theorem handler_runs_at_most_once_witness:
  "\<exists>w. run_events server_exec duplicate_run (sworld_new counter_server) = Inr w \<and>
    count_list (handled_runs w) (7, 1) \<le> 1"
proof (cases "run_events server_exec duplicate_run (sworld_new counter_server)")
  case (Inl x)
  with duplicate_run_result show ?thesis by simp
next
  case (Inr w)
  then have "unacked 7 1 (trace w)"
    using duplicate_run_result by (auto simp: unacked_def)
  with handler_runs_at_most_once [OF counter_fresh Inr] Inr show ?thesis by simp
qed

end
