(* ===== verification/Conn_Refs.thy ===== *)
theory Conn_Refs
  imports Connection
begin

text \<open>
  Reference counting of connections: a heap whose counts agree with the numbers of references, and
  what \<^verbatim>\<open>incref\<close> and \<^verbatim>\<open>decref\<close> do to it. Used for the server and for the client.
\<close>

section \<open>Counted heaps\<close>

text \<open>The heap agrees with the numbers of references \<open>r\<close>; no buffer is being sent.\<close>

definition count_ok :: "connection option \<Rightarrow> nat \<Rightarrow> bool" where
  "count_ok p n \<longleftrightarrow> (case p of None \<Rightarrow> n = 0 | Some k \<Rightarrow> refno k = int n \<and> cb_buf (wpdu k) = None)"

lemma count_ok_simps [simp]:
  "count_ok None n \<longleftrightarrow> n = 0"
  "count_ok (Some k) n \<longleftrightarrow> refno k = int n \<and> cb_buf (wpdu k) = None"
  by (simp_all add: count_ok_def)

definition heap_ok :: "(cid \<rightharpoonup> connection) \<Rightarrow> (cid \<Rightarrow> nat) \<Rightarrow> bool" where
  "heap_ok h r \<longleftrightarrow> (\<forall>c. count_ok (h c) (r c))"

lemma heap_okD:
  assumes "heap_ok h r" and "0 < r c"
  obtains k where "h c = Some k" "refno k = int (r c)" "cb_buf (wpdu k) = None"
  using assms by (cases "h c") (auto simp: heap_ok_def dest!: spec [of _ c])

lemma heap_ok_cong: "heap_ok h r \<Longrightarrow> (\<And>c. r c = r' c) \<Longrightarrow> heap_ok h r'"
  by (auto simp: heap_ok_def)

lemma heap_ok_upd:
  assumes "heap_ok h r" and "count_ok p (r' c)" and "\<And>d. d \<noteq> c \<Longrightarrow> r' d = r d"
  shows "heap_ok (h(c := p)) r'"
  using assms by (auto simp: heap_ok_def)

lemma ptr_incref_ok:
  assumes "heap_ok h r" and "0 < r c"
  shows "\<exists>h'. ptr_incref c h = Inr h' \<and> heap_ok h' (\<lambda>d. r d + of_bool (d = c))"
proof -
  obtain k where k: "h c = Some k" "refno k = int (r c)" "cb_buf (wpdu k) = None"
    using assms by (rule heap_okD)
  then have "heap_ok (h(c \<mapsto> incref k)) (\<lambda>d. r d + of_bool (d = c))"
    by (intro heap_ok_upd [OF assms(1)]) (simp_all add: incref_def)
  with k show ?thesis by (auto simp: ptr_incref_def)
qed

lemma ptr_decref_ok:
  assumes "heap_ok h (\<lambda>d. r d + of_bool (d = c))"
  shows "\<exists>h'. ptr_decref c h = Inr h' \<and> heap_ok h' r"
proof -
  obtain k where k: "h c = Some k" "refno k = int (r c) + 1" "cb_buf (wpdu k) = None"
    using assms by (auto elim: heap_okD [where c = c])
  have del: "heap_ok (h(c := None)) r" if "r c = 0"
    by (rule heap_ok_upd [OF assms]) (simp_all add: that)
  have upd: "heap_ok (h(c \<mapsto> k\<lparr>refno := int (r c)\<rparr>)) r"
    by (rule heap_ok_upd [OF assms]) (simp_all add: k)
  from k del upd show ?thesis
    by (auto simp: ptr_decref_def decref_def connection_delete_def Let_def check_def)
qed

lemma ptr_isdead_ok:
  assumes "heap_ok h r" and "0 < r c"
  shows "\<exists>b. ptr_isdead c h = Inr b"
  using assms by (auto simp: ptr_isdead_def elim: heap_okD)

text \<open>Giving up the reference of a pointer that may be null.\<close>

lemma drop_ref:
  assumes "heap_ok h (\<lambda>d. r d + of_bool (p = Some d))"
  shows "\<exists>h'. (case p of None \<Rightarrow> Inr h | Some c \<Rightarrow> ptr_decref c h) = Inr h' \<and> heap_ok h' r"
proof (cases p)
  case None
  with assms show ?thesis by simp
next
  case (Some c)
  then have "(\<lambda>d. r d + of_bool (p = Some d)) = (\<lambda>d. r d + of_bool (d = c))"
    by (auto simp: fun_eq_iff)
  with ptr_decref_ok [of h r c] assms Some show ?thesis by simp
qed

end
