(* ===== verification/Rpc_Server_Refs.thy ===== *)
theory Rpc_Server_Refs
  imports Rpc_Server_Runs Conn_Refs
begin

text \<open>
  Reference counting of the connections of a server. In every execution the count of a connection is
  the number of references there are: one for each dispatching thread that works on it, one for each
  client whose latest connection it is, one of the listener, and the leaked ones. So a connection is
  deleted only when nobody can use it any more.
\<close>

section \<open>References of the server\<close>

definition saved_refs :: "(u32 \<rightharpoonup> cid option) \<Rightarrow> cid \<Rightarrow> nat" where
  "saved_refs f c = card {n. f n = Some (Some c)}"

lemma saved_refs_update:
  "saved_refs (f(n \<mapsto> p)) c + of_bool (f n = Some (Some c)) = saved_refs f c + of_bool (p = Some c)"
proof -
  let ?A = "{m. m \<noteq> n \<and> f m = Some (Some c)}"
  have "{m. f m = Some (Some c)} = (if f n = Some (Some c) then insert n ?A else ?A)"
    and "{m. (f(n \<mapsto> p)) m = Some (Some c)} = (if p = Some c then insert n ?A else ?A)"
    by auto
  then show ?thesis by (simp add: saved_refs_def)
qed

lemma incref_ok:
  assumes "heap_ok (heap s) r" and "0 < r c"
  shows "\<exists>h. conn_incref c s = Inr (s\<lparr>heap := h\<rparr>) \<and> heap_ok h (\<lambda>d. r d + of_bool (d = c))"
  using ptr_incref_ok [OF assms] by (auto simp: conn_incref_def)

lemma decref_ok:
  assumes "heap_ok (heap s) (\<lambda>d. r d + of_bool (d = c))"
  shows "\<exists>h. conn_decref c s = Inr (s\<lparr>heap := h\<rparr>) \<and> heap_ok h r"
  using ptr_decref_ok [OF assms] by (auto simp: conn_decref_def)

section \<open>References of a dispatching thread\<close>

fun job_conn :: "'s job \<Rightarrow> cid option" where
  "job_conn (Queued c b sz) = Some c"
| "job_conn (At_window h req c f) = Some c"
| "job_conn (At_conns h req c f) = Some c"
| "job_conn (At_check h req c f) = Some c"
| "job_conn (Running h req c f) = Some c"
| "job_conn (At_reply h c b sz) = Some c"
| "job_conn (At_latest h c b sz) = Some c"
| "job_conn (At_send c b sz) = Some c"
| "job_conn Finished = None"

definition own :: "'s job \<Rightarrow> cid \<Rightarrow> nat" where
  "own j c = of_bool (job_conn j = Some c)"

text \<open>The server with \<open>g\<close> further references from outside.\<close>

definition counted :: "'s rpcs \<Rightarrow> (cid \<Rightarrow> nat) \<Rightarrow> bool" where
  "counted s g \<longleftrightarrow> heap_ok (heap s) (\<lambda>c. saved_refs (conns s) c + g c) \<and> (\<forall>n. conns s n \<noteq> Some None)"

lemma counted_cong: "counted s g \<Longrightarrow> (\<And>c. g c = g' c) \<Longrightarrow> counted s g'"
  by (simp add: counted_def)

lemma counted_same:
  "counted s g \<Longrightarrow> heap s' = heap s \<Longrightarrow> conns s' = conns s \<Longrightarrow> counted s' g"
  by (simp add: counted_def)

lemma counted_incref:
  assumes "counted s g" and "0 < g c"
  shows "\<exists>s'. conn_incref c s = Inr s' \<and> counted s' (\<lambda>d. g d + of_bool (d = c)) \<and> procs s' = procs s \<and>
    conns s' = conns s"
  using incref_ok [of s "\<lambda>d. saved_refs (conns s) d + g d" c] assms
  by (fastforce simp: counted_def add.assoc)

lemma counted_decref:
  assumes "counted s (\<lambda>d. g d + of_bool (d = c))"
  shows "\<exists>s'. conn_decref c s = Inr s' \<and> counted s' g \<and> procs s' = procs s \<and> conns s' = conns s"
  using decref_ok [of s "\<lambda>d. saved_refs (conns s) d + g d" c] assms
  by (fastforce simp: counted_def add.assoc)

lemma counted_send:
  assumes "counted s (\<lambda>d. g d + of_bool (d = c))"
  shows "conn_send c b sz s = Inr (s\<lparr>sent := sent s @ [(c, b, sz)]\<rparr>)"
proof -
  have "\<exists>k. heap s c = Some k"
    using assms by (auto simp: counted_def elim!: heap_okD [where c = c])
  then show ?thesis by (auto simp: conn_send_def)
qed

text \<open>The reference of a client's latest connection moves with the entry.\<close>

lemma counted_save_conn:
  assumes "counted s (\<lambda>d. g d + of_bool (d = c))"
  shows "\<exists>s'. save_conn n c s = Inr s' \<and> counted s' (\<lambda>d. g d + of_bool (d = c)) \<and> procs s' = procs s \<and>
    conns s' = (conns s)(n \<mapsto> Some c)"
proof -
  let ?r = "\<lambda>d. saved_refs (conns s) d + g d + of_bool (d = c)"
  have h: "heap_ok (heap s) ?r" and null: "\<And>n. conns s n \<noteq> Some None"
    using assms by (simp_all add: counted_def add.assoc)
  have up: "saved_refs ((conns s)(n \<mapsto> Some c)) d + of_bool (conns s n = Some (Some d)) =
      saved_refs (conns s) d + of_bool (d = c)" for d
    using saved_refs_update [of "conns s" n "Some c" d] by (simp add: eq_commute)
  consider (new) "conns s n = None" | (same) "conns s n = Some (Some c)"
    | (other) c' where "conns s n = Some (Some c')" "c' \<noteq> c"
    using null [of n] by (cases "conns s n") auto
  then show ?thesis
  proof cases
    case same
    then have "(conns s)(n \<mapsto> Some c) = conns s" by (simp add: fun_upd_idem)
    with same assms show ?thesis by (simp add: save_conn_def)
  next
    case new
    obtain h' where h': "conn_incref c s = Inr (s\<lparr>heap := h'\<rparr>)" "heap_ok h' (\<lambda>d. ?r d + of_bool (d = c))"
      using incref_ok [OF h, of c] by auto
    have "heap_ok h' (\<lambda>d. saved_refs ((conns s)(n \<mapsto> Some c)) d + g d + of_bool (d = c))"
      by (rule heap_ok_cong [OF h'(2)]) (insert up new, simp)
    with new h'(1) null show ?thesis by (auto simp: save_conn_def counted_def add.assoc)
  next
    case other
    let ?q = "\<lambda>d. saved_refs ((conns s)(n \<mapsto> Some c)) d + g d"
    have r: "?r d = ?q d + of_bool (d = c')" for d
      using up [of d] other by (auto simp: eq_commute)
    obtain h1 where h1: "conn_decref c' s = Inr (s\<lparr>heap := h1\<rparr>)" "heap_ok h1 ?q"
      using decref_ok [OF heap_ok_cong [OF h r]] by blast
    have "0 < ?q c"
    proof -
      have "n \<in> {m. ((conns s)(n \<mapsto> Some c)) m = Some (Some c)}" by simp
      then have "0 < saved_refs ((conns s)(n \<mapsto> Some c)) c"
        unfolding saved_refs_def by (subst card_gt_0_iff) auto
      then show ?thesis by simp
    qed
    then obtain h2 where h2: "conn_incref c (s\<lparr>heap := h1\<rparr>) = Inr (s\<lparr>heap := h2\<rparr>)"
        "heap_ok h2 (\<lambda>d. ?q d + of_bool (d = c))"
      using incref_ok [of "s\<lparr>heap := h1\<rparr>" ?q c] h1 by auto
    from other h1(1) h2 null show ?thesis by (auto simp: save_conn_def counted_def add.assoc)
  qed
qed

lemma counted_latest:
  assumes "counted s (\<lambda>d. g d + of_bool (d = c))"
  shows "latest_conn h c s = Inl x \<Longrightarrow> x = Null_deref \<and> conns s (rq_clt_nonce h) = None"
    and "latest_conn h c s = Inr (c', s') \<Longrightarrow>
      counted s' (\<lambda>d. g d + of_bool (d = c')) \<and> conns s' = conns s \<and> procs s' = procs s"
proof -
  let ?n = "rq_clt_nonce h"
  obtain k where k: "heap s c = Some k"
    using assms by (auto simp: counted_def elim!: heap_okD [where c = c])
  consider (alive) "\<not> isdead k" | (none) "isdead k" "conns s ?n = None"
    | (same) "isdead k" "conns s ?n = Some (Some c)"
    | (other) e where "isdead k" "conns s ?n = Some (Some e)" "e \<noteq> c"
    using assms by (metis counted_def not_None_eq)
  then have "latest_conn h c s = Inl Null_deref \<and> conns s ?n = None \<or>
    (\<exists>c' s'. latest_conn h c s = Inr (c', s') \<and> counted s' (\<lambda>d. g d + of_bool (d = c')) \<and>
      conns s' = conns s \<and> procs s' = procs s)"
  proof cases
    case alive
    with k assms show ?thesis by (simp add: latest_conn_def conn_isdead_def ptr_isdead_def)
  next
    case none
    obtain s1 where "conn_decref c (s\<lparr>conns := (conns s)(?n \<mapsto> None)\<rparr>) = Inr s1"
      using decref_ok [of "s\<lparr>conns := (conns s)(?n \<mapsto> None)\<rparr>" "\<lambda>d. saved_refs (conns s) d + g d" c] assms
      by (auto simp: counted_def add.assoc)
    with none k show ?thesis by (auto simp: latest_conn_def conn_isdead_def ptr_isdead_def)
  next
    case same
    then have "(conns s)(?n \<mapsto> Some c) = conns s" by (simp add: fun_upd_idem)
    with same k assms show ?thesis by (simp add: latest_conn_def conn_isdead_def ptr_isdead_def)
  next
    case other
    then have idem: "(conns s)(?n \<mapsto> Some e) = conns s" by (simp add: fun_upd_idem)
    obtain s1 where s1: "conn_decref c s = Inr s1" "counted s1 g" "procs s1 = procs s" "conns s1 = conns s"
      using counted_decref [OF assms] by blast
    have "0 < saved_refs (conns s1) e"
      using other(2) s1(4) unfolding saved_refs_def by (subst card_gt_0_iff) auto
    then obtain h2 where h2: "conn_incref e s1 = Inr (s1\<lparr>heap := h2\<rparr>)"
        "heap_ok h2 (\<lambda>d. saved_refs (conns s1) d + g d + of_bool (d = e))"
      using incref_ok [of s1 "\<lambda>d. saved_refs (conns s1) d + g d" e] s1(2) by (auto simp: counted_def)
    then have "counted (s1\<lparr>heap := h2\<rparr>) (\<lambda>d. g d + of_bool (d = e))"
      using s1(2) by (simp add: counted_def add.assoc)
    with other k s1 h2(1) idem show ?thesis by (simp add: latest_conn_def conn_isdead_def ptr_isdead_def)
  qed
  then show "latest_conn h c s = Inl x \<Longrightarrow> x = Null_deref \<and> conns s ?n = None"
    and "latest_conn h c s = Inr (c', s') \<Longrightarrow>
      counted s' (\<lambda>d. g d + of_bool (d = c')) \<and> conns s' = conns s \<and> procs s' = procs s"
    by auto
qed

section \<open>What is not a use of a deleted connection\<close>

lemma header_no_uaf:
  "unpack_req_header u \<noteq> Inl Use_after_free"
  "pack_reply_header k m \<noteq> Inl Use_after_free"
proof -
  have r: "unmarshall_rawbyte u \<noteq> Inl Use_after_free" for u
    by (auto simp: unmarshall_rawbyte_def split: option.splits)
  have "unpack u \<noteq> Inl Use_after_free" for u
    by (simp add: unpack_def rbind_eq_Inl r Let_def case_prod_unfold)
  then show "unpack_req_header u \<noteq> Inl Use_after_free"
    by (simp add: unpack_req_header_def rbind_eq_Inl case_prod_unfold)
  have w: "marshall_rawbyte x m \<noteq> Inl Use_after_free" for x m
    by (auto simp: marshall_rawbyte_def grow_def poke_def rbind_eq_Inl split: option.splits if_splits)
  have "pack x m \<noteq> Inl Use_after_free" for x m
    by (simp add: pack_def rbind_eq_Inl w)
  then show "pack_reply_header k m \<noteq> Inl Use_after_free"
    by (simp add: pack_reply_header_def rbind_eq_Inl Let_def)
qed

text \<open>A handler that does not touch deleted objects itself.\<close>

definition safe_handler :: "'s handler \<Rightarrow> bool" where
  "safe_handler f \<longleftrightarrow> (\<forall>u m x. f u m x \<noteq> Inl Use_after_free)"

definition safe_procs :: "'s rpcs \<Rightarrow> bool" where
  "safe_procs s \<longleftrightarrow> (\<forall>f \<in> ran (procs s). safe_handler f)"

fun job_safe :: "'s job \<Rightarrow> bool" where
  "job_safe (At_window h req c f) \<longleftrightarrow> safe_handler f"
| "job_safe (At_conns h req c f) \<longleftrightarrow> safe_handler f"
| "job_safe (At_check h req c f) \<longleftrightarrow> safe_handler f"
| "job_safe (Running h req c f) \<longleftrightarrow> safe_handler f"
| "job_safe _ \<longleftrightarrow> True"

section \<open>Steps keep the counts\<close>

lemma counted_leave:
  assumes "counted s (\<lambda>d. g d + of_bool (d = c))"
  shows "\<exists>s'. leave c s = Inr (Finished, s') \<and> counted s' g \<and> procs s' = procs s"
  using counted_decref [OF assms] by (auto simp: leave_def)

lemma own_simps [simp]:
  "own Finished d = 0"
  "job_conn j = Some c \<Longrightarrow> own j d = of_bool (d = c)"
  by (auto simp: own_def)

text \<open>What a step must leave behind: it does not fault on a deleted connection, and the counts are right.\<close>

definition step_ok :: "(cid \<Rightarrow> nat) \<Rightarrow> 's rpcs \<Rightarrow> ('s job \<times> 's rpcs) res \<Rightarrow> bool" where
  "step_ok g s r \<longleftrightarrow>
     (case r of
        Inl x \<Rightarrow> x \<noteq> Use_after_free
      | Inr (j', s') \<Rightarrow> counted s' (\<lambda>d. g d + own j' d) \<and> procs s' = procs s \<and> job_safe j')"

lemma step_ok_leave:
  "counted s' (\<lambda>d. g d + of_bool (d = c)) \<Longrightarrow> procs s' = procs s \<Longrightarrow> step_ok g s (leave c s')"
  using counted_leave [of s' g c] by (auto simp: step_ok_def)

lemma step_ok_bind:
  assumes "r \<noteq> Inl Use_after_free" and "\<And>a. r = Inr a \<Longrightarrow> step_ok g s (f a)"
  shows "step_ok g s (rbind r f)"
  using assms by (cases r) (auto simp: step_ok_def)

lemma queued_ok:
  assumes "counted s (\<lambda>d. g d + of_bool (d = c))" and "safe_procs s"
  shows "step_ok (\<lambda>d. g d + leaks (Queued c b sz) s d) s (dispatch_header c b sz s)"
proof (cases "unpack_req_header (unmarshall_new b sz)")
  case (Inl x)
  with header_no_uaf(1) [of "unmarshall_new b sz"] show ?thesis
    by (auto simp: dispatch_header_def step_ok_def)
next
  case (Inr p)
  obtain h req where u: "unpack_req_header (unmarshall_new b sz) = Inr (h, req)"
    using Inr by (cases p) auto
  show ?thesis
  proof (cases "old_instance b sz s")
    case True
    have "counted (s\<lparr>sent := x\<rparr>) (\<lambda>d. g d + of_bool (d = c))" for x
      using assms(1) by (rule counted_same) simp_all
    then have "counted (s\<lparr>sent := x\<rparr>) (\<lambda>d. g d + leaks (Queued c b sz) s d + own Finished d)" for x
      by (rule counted_cong) (simp add: True)
    then have "step_ok (\<lambda>d. g d + leaks (Queued c b sz) s d) s
        (rbind (conn_send c m n s) (\<lambda>s. Inr (Finished, s)))" for m n
      by (simp add: counted_send [OF assms(1)] step_ok_def)
    then show ?thesis
      using True u by (simp add: dispatch_header_def old_instance_def step_ok_bind header_no_uaf)
  next
    case False
    then have l: "(\<lambda>d. g d + leaks (Queued c b sz) s d) = g" by (simp add: fun_eq_iff)
    have f: "safe_handler f" if "procs s p = Some f" for p f
      using assms(2) that by (auto simp: safe_procs_def ran_def)
    show ?thesis
      unfolding l using False u step_ok_leave [OF assms(1) refl] assms(1)
      by (auto simp: dispatch_header_def old_instance_def step_ok_def f split: option.splits)
  qed
qed

lemma check_ok:
  assumes "counted s (\<lambda>d. g d + of_bool (d = c))" and "safe_handler f"
  shows "step_ok g s (dispatch_check h req c f s)"
proof -
  obtain st sv w where chk: "checkduplicate_and_update (rq_clt_nonce h) (rq_xid h) (rq_xid_rep h)
      (reply_window s) = (st, sv, w)"
    by (metis prod_cases3)
  let ?s = "s\<lparr>reply_window := w\<rparr>"
  have c: "counted ?s (\<lambda>d. g d + of_bool (d = c))"
    using assms(1) by (rule counted_same) simp_all
  then have go: "step_ok g s (Inr (j, ?s))" if "job_conn j = Some c" "job_safe j" for j
    using that by (simp add: step_ok_def)
  have "step_ok g s (leave c ?s)" by (rule step_ok_leave [OF c]) simp
  then show ?thesis
    using chk assms(2) go
    by (cases st) (auto simp: dispatch_check_def step_ok_def [of _ _ "Inl _"] split: option.splits
        intro!: step_ok_bind header_no_uaf)
qed

lemma run_ok:
  assumes "counted s (\<lambda>d. g d + of_bool (d = c))" and "safe_handler f"
  shows "step_ok g s (dispatch_run h req c f s)"
proof -
  have st: "updatestat p s \<noteq> Inl Use_after_free" "updatestat p s = Inr s' \<Longrightarrow>
      heap s' = heap s \<and> conns s' = conns s \<and> procs s' = procs s" for p s'
    by (auto simp: updatestat_def Let_def rbind_eq_Inl rbind_eq_Inr)
  have go: "step_ok g s (Inr (j, s'\<lparr>obj := x\<rparr>))" if "heap s' = heap s \<and> conns s' = conns s \<and> procs s' = procs s"
    "job_conn j = Some c" "job_safe j" for j s' x
    using that counted_same [OF assms(1), of "s'\<lparr>obj := x\<rparr>"] by (simp add: step_ok_def)
  show ?thesis
    using assms(2)
    by (auto simp: dispatch_run_def safe_handler_def Let_def marshall_take_buf_def
        intro!: step_ok_bind header_no_uaf go dest: st(2) simp: st(1) split: if_splits)
qed

lemma step_counted:
  assumes "counted s (\<lambda>d. g d + own j d)" and "safe_procs s" and "job_safe j"
  shows "step_ok (\<lambda>d. g d + leaks j s d) s (dispatch_step j s)"
proof (cases j)
  case (Queued c b sz)
  with assms queued_ok [of s g c b sz] show ?thesis by simp
next
  case (At_window h req c f)
  have "counted (new_client h s) (\<lambda>d. g d + own j d)"
    by (rule counted_same [OF assms(1)]) (auto simp: new_client_def split: option.splits)
  with At_window assms(3) show ?thesis
    by (simp add: step_ok_def new_client_def split: option.splits)
next
  case (At_conns h req c f)
  with assms counted_save_conn [of s g c "rq_clt_nonce h"] show ?thesis
    by (auto simp: step_ok_def)
next
  case (At_check h req c f)
  with assms check_ok show ?thesis by simp
next
  case (Running h req c f)
  with assms run_ok show ?thesis by simp
next
  case (At_reply h c b sz)
  with assms(1) counted_same [of s "\<lambda>d. g d + own j d" "dispatch_reply h b sz s"] show ?thesis
    by (simp add: step_ok_def dispatch_reply_def)
next
  case (At_latest h c b sz)
  have "counted s (\<lambda>d. g d + of_bool (d = c))" using At_latest assms(1) by simp
  note l = counted_latest [OF this, of h]
  show ?thesis
  proof (cases "latest_conn h c s")
    case (Inl x)
    with l(1) At_latest show ?thesis by (auto simp: step_ok_def)
  next
    case (Inr p)
    with l(2) [of "fst p" "snd p"] At_latest show ?thesis by (cases p) (auto simp: step_ok_def)
  qed
next
  case (At_send c b sz)
  have c: "counted s (\<lambda>d. g d + of_bool (d = c))" using At_send assms(1) by simp
  then have "counted (s\<lparr>sent := sent s @ [(c, b, sz)]\<rparr>) (\<lambda>d. g d + of_bool (d = c))"
    by (rule counted_same) simp_all
  from step_ok_leave [OF this] counted_send [OF c] At_send show ?thesis
    by simp
next
  case Finished
  with assms show ?thesis by (simp add: step_ok_def)
qed

section \<open>Executions keep the counts\<close>

definition outside_refs :: "'s sworld \<Rightarrow> cid \<Rightarrow> nat" where
  "outside_refs w c = (\<Sum>j\<leftarrow>jobs w. own j c) + of_bool (held w c) + leaked w c"

definition refs_inv :: "'s sworld \<Rightarrow> bool" where
  "refs_inv w \<longleftrightarrow> counted (srv w) (outside_refs w) \<and> safe_procs (srv w) \<and> (\<forall>j \<in> set (jobs w). job_safe j)"

lemma refs_invI:
  "counted (srv w) (outside_refs w) \<Longrightarrow> safe_procs (srv w) \<Longrightarrow> \<forall>j \<in> set (jobs w). job_safe j \<Longrightarrow> refs_inv w"
  by (simp add: refs_inv_def)

lemma refs_inv_step:
  assumes "refs_inv w" and i: "i < length (jobs w)"
  shows "server_exec (Step i) w \<noteq> Inl Use_after_free"
    and "server_exec (Step i) w = Inr w' \<Longrightarrow> refs_inv w'"
proof -
  let ?j = "jobs w ! i" and ?rest = "take i (jobs w) @ drop (Suc i) (jobs w)"
  let ?g = "\<lambda>d. (\<Sum>j\<leftarrow>?rest. own j d) + of_bool (held w d) + leaked w d"
  have split: "jobs w = take i (jobs w) @ ?j # drop (Suc i) (jobs w)"
    using i by (rule id_take_nth_drop)
  have "outside_refs w d = ?g d + own ?j d" for d
    unfolding outside_refs_def by (subst split) simp
  then have c: "counted (srv w) (\<lambda>d. ?g d + own ?j d)"
    using assms(1) by (auto simp: refs_inv_def intro: counted_cong)
  have safe: "safe_procs (srv w)" "job_safe ?j" "\<forall>j \<in> set (jobs w). job_safe j"
    using assms by (auto simp: refs_inv_def)
  have ok: "step_ok (\<lambda>d. ?g d + leaks ?j (srv w) d) (srv w) (dispatch_step ?j (srv w))"
    using c safe by (intro step_counted) simp_all
  then show "server_exec (Step i) w \<noteq> Inl Use_after_free"
    using i by (auto simp: Let_def rbind_eq_Inl step_ok_def)
  assume "server_exec (Step i) w = Inr w'"
  then obtain j' s' where st: "dispatch_step ?j (srv w) = Inr (j', s')"
    and w': "srv w' = s'" "jobs w' = take i (jobs w) @ j' # drop (Suc i) (jobs w)" "held w' = held w"
      "leaked w' = (\<lambda>c. leaked w c + leaks ?j (srv w) c)"
    using i by (auto simp: Let_def rbind_eq_Inr upd_conv_take_nth_drop)
  have "counted s' (\<lambda>d. ?g d + leaks ?j (srv w) d + own j' d)" "procs s' = procs (srv w)" "job_safe j'"
    using ok st by (simp_all add: step_ok_def)
  then show "refs_inv w'"
    using w' safe
    by (intro refs_invI) (auto simp: outside_refs_def safe_procs_def algebra_simps
        dest: in_set_takeD in_set_dropD elim: counted_cong)
qed

lemma refs_inv_deliver:
  assumes "refs_inv w" and h: "held w c"
  shows "server_exec (Deliver c b sz succ) w \<noteq> Inl Use_after_free"
    and "server_exec (Deliver c b sz succ) w = Inr w' \<Longrightarrow> refs_inv w'"
proof -
  have inv: "counted (srv w) (outside_refs w)" "safe_procs (srv w)" "\<forall>j \<in> set (jobs w). job_safe j"
    using assms(1) by (simp_all add: refs_inv_def)
  have "0 < outside_refs w c" using h by (simp add: outside_refs_def)
  then obtain s1 where s1: "conn_incref c (srv w) = Inr s1" "procs s1 = procs (srv w)"
      "counted s1 (\<lambda>d. outside_refs w d + of_bool (d = c))"
    using counted_incref [OF inv(1)] by blast
  obtain s2 where s2: "conn_decref c s1 = Inr s2" "counted s2 (outside_refs w)" "procs s2 = procs s1"
    using counted_decref [OF s1(3)] by blast
  from h s1(1) s2(1) show "server_exec (Deliver c b sz succ) w \<noteq> Inl Use_after_free"
    by (simp add: rpcs_got_pdu_def)
  assume "server_exec (Deliver c b sz succ) w = Inr w'"
  then have w': "w' = (if succ then w\<lparr>srv := s1, jobs := jobs w @ [Queued c b sz]\<rparr> else w\<lparr>srv := s2\<rparr>)"
    using h s1(1) s2(1) by (cases succ) (simp_all add: rpcs_got_pdu_def)
  show "refs_inv w'"
  proof (cases succ)
    case True
    then show ?thesis
      using w' inv(2,3) s1 by (intro refs_invI)
        (auto simp: outside_refs_def safe_procs_def algebra_simps elim!: counted_cong)
  next
    case False
    then show ?thesis
      using w' inv(2,3) s1 s2 by (intro refs_invI)
        (auto simp: outside_refs_def safe_procs_def elim!: counted_cong)
  qed
qed

lemma refs_inv_exec:
  assumes inv: "refs_inv w"
  shows "server_exec e w \<noteq> Inl Use_after_free" and "server_exec e w = Inr w' \<Longrightarrow> refs_inv w'"
proof -
  have c: "counted (srv w) (outside_refs w)" using inv by (simp add: refs_inv_def)
  have set_heap: "refs_inv (w\<lparr>srv := (srv w)\<lparr>heap := h\<rparr>, held := g\<rparr>)"
    if "heap_ok h (\<lambda>d. saved_refs (conns (srv w)) d + outside_refs (w\<lparr>held := g\<rparr>) d)" for h g
    using that inv by (auto simp: refs_inv_def counted_def outside_refs_def safe_procs_def)
  have "server_exec e w \<noteq> Inl Use_after_free \<and> (\<forall>w'. server_exec e w = Inr w' \<longrightarrow> refs_inv w')"
  proof (cases e)
    case (Step i)
    show ?thesis
      using refs_inv_step [OF inv, of i] inv unfolding Step by (cases "i < length (jobs w)") simp_all
  next
    case (Deliver d b sz succ)
    show ?thesis
      using refs_inv_deliver [OF inv, of d b sz succ] inv unfolding Deliver by (cases "held w d") simp_all
  next
    case (Accept d f l)
    show ?thesis
    proof (cases "heap (srv w) d")
      case None
      then have z: "saved_refs (conns (srv w)) d + outside_refs w d = 0"
        using c by (auto simp: counted_def heap_ok_def dest!: spec [of _ d])
      have "heap_ok ((heap (srv w))(d \<mapsto> fst (connection_new f l)))
          (\<lambda>e. saved_refs (conns (srv w)) e + outside_refs (w\<lparr>held := (held w)(d := True)\<rparr>) e)"
        using c z by (intro heap_ok_upd [where r = "\<lambda>e. saved_refs (conns (srv w)) e + outside_refs w e"])
          (auto simp: counted_def outside_refs_def connection_new_def charbuf_new_def)
      with None Accept set_heap show ?thesis by simp
    qed (simp add: Accept inv)
  next
    case (Dies d)
    show ?thesis
    proof (cases "heap (srv w) d")
      case (Some k)
      have "heap_ok ((heap (srv w))(d \<mapsto> k\<lparr>dead := True\<rparr>))
          (\<lambda>e. saved_refs (conns (srv w)) e + outside_refs (w\<lparr>held := held w\<rparr>) e)"
        using c Some by (intro heap_ok_upd [where r = "\<lambda>e. saved_refs (conns (srv w)) e + outside_refs w e"])
          (auto simp: counted_def heap_ok_def dest!: spec [of _ d])
      from set_heap [OF this] Some Dies show ?thesis by simp
    qed (simp add: Dies inv)
  next
    case (Reap d)
    show ?thesis
    proof (cases "held w d \<and> heap (srv w) d \<noteq> None")
      case True
      let ?w = "w\<lparr>held := (held w)(d := False)\<rparr>"
      have "heap_ok (heap (srv w)) (\<lambda>e. saved_refs (conns (srv w)) e + outside_refs ?w e + of_bool (e = d))"
        using c True by (auto simp: counted_def outside_refs_def elim!: heap_ok_cong)
      from decref_ok [OF this] obtain h where h: "conn_decref d (srv w) = Inr ((srv w)\<lparr>heap := h\<rparr>)"
        "heap_ok h (\<lambda>e. saved_refs (conns (srv w)) e + outside_refs ?w e)"
        by blast
      show ?thesis
        using h(1) set_heap [OF h(2)] True inv by (auto simp: Reap split: if_splits)
    qed (auto simp: Reap inv split: option.splits)
  qed
  then show "server_exec e w \<noteq> Inl Use_after_free" and "server_exec e w = Inr w' \<Longrightarrow> refs_inv w'"
    by blast+
qed

lemma refs_inv_new: "fresh s \<Longrightarrow> safe_procs s \<Longrightarrow> refs_inv (sworld_new s)"
  by (simp add: refs_inv_def sworld_new_def fresh_def counted_def heap_ok_def outside_refs_def saved_refs_def)

text \<open>
  C24. No thread of the server uses a connection that has been deleted: whatever messages arrive and
  connections die, in every interleaving of the dispatching threads with the reaper.
\<close>

theorem dispatch_uses_live_connections:
  assumes "fresh s" and "safe_procs s"
  shows "run_events server_exec es (sworld_new s) \<noteq> Inl Use_after_free"
  using refs_inv_new [OF assms] refs_inv_exec(2,1)
  by (rule run_events_no_fault [where P = refs_inv])

lemma counter_safe: "safe_procs counter_server"
proof -
  have "get_u8 z u \<noteq> Inl Use_after_free" for z u
    by (auto simp: get_u8_def unmarshall_rawbyte_def rbind_eq_Inl split: option.splits)
  moreover have "put_u8 x m \<noteq> Inl Use_after_free" for x m
    by (auto simp: put_u8_def marshall_rawbyte_def grow_def poke_def rbind_eq_Inl split: option.splits if_splits)
  ultimately show ?thesis
    by (auto simp: safe_procs_def counter_server_def safe_handler_def h1_fn_def finish_def rbind_eq_Inl)
qed

theorem dispatch_uses_live_connections_witness:
  "run_events server_exec (duplicate_run @ [Dies 0, Reap 0]) (sworld_new counter_server) \<noteq>
    Inl Use_after_free"
  by (rule dispatch_uses_live_connections [OF counter_fresh counter_safe])

section \<open>The leak\<close>

lemma leaked_mono: "server_exec e w = Inr w' \<Longrightarrow> leaked w c \<le> leaked w' c"
  by (cases e) (auto simp: Let_def rbind_eq_Inr split: if_splits option.splits)

lemma leaked_alive:
  assumes "refs_inv w" and "0 < leaked w c"
  shows "heap (srv w) c \<noteq> None"
  using assms by (auto simp: refs_inv_def counted_def outside_refs_def elim!: heap_okD [where c = c])

text \<open>
  \<^verbatim>\<open>dispatch\<close> returns without giving up its reference when a request is for an earlier instance of
  the server: after one such request the connection object is never deleted, whatever happens.
\<close>

theorem old_instance_leaks_connection:
  assumes "fresh s" and "safe_procs s" and "run_events server_exec es (sworld_new s) = Inr w"
    and "i < length (jobs w)" and "jobs w ! i = Queued c b sz" and "old_instance b sz (srv w)"
    and "run_events server_exec (Step i # es') w = Inr w'"
  shows "heap (srv w') c \<noteq> None"
proof -
  have inv: "refs_inv w"
    using assms(3) refs_inv_new [OF assms(1,2)] by (rule run_events_invariant) (rule refs_inv_exec)
  obtain w1 where w1: "server_exec (Step i) w = Inr w1" "run_events server_exec es' w1 = Inr w'"
    using assms(7) by (auto simp: rbind_eq_Inr simp del: server_exec.simps)
  then have "0 < leaked w1 c"
    using assms(4-6) by (auto simp: rbind_eq_Inr)
  with inv w1(1) have "refs_inv w1 \<and> 0 < leaked w1 c" by (blast intro: refs_inv_exec)
  with w1(2) have "refs_inv w' \<and> 0 < leaked w' c"
    by (rule run_events_invariant) (auto dest: leaked_mono intro: refs_inv_exec less_le_trans)
  then show ?thesis by (simp add: leaked_alive)
qed

theorem old_instance_leaks_connection_witness:
  "\<exists>w. run_events server_exec
      [Accept 0 3 0, Deliver 0 (Some (request 4 1)) 25 True, Step 0, Dies 0, Reap 0]
      (sworld_new counter_server) = Inr w \<and> heap (srv w) 0 \<noteq> None"
proof -
  let ?run = "\<lambda>es. run_events server_exec es (sworld_new counter_server)"
  let ?es = "[Accept 0 3 0, Deliver 0 (Some (request 4 1)) 25 True]" and ?es' = "[Dies 0, Reap 0]"
  have "case ?run (?es @ Step 0 # ?es') of Inl _ \<Rightarrow> False | Inr w \<Rightarrow> True"
    by code_simp
  then obtain w' where w': "?run (?es @ Step 0 # ?es') = Inr w'"
    by (auto split: sum.splits)
  obtain w where w: "?run ?es = Inr w" and step: "run_events server_exec (Step 0 # ?es') w = Inr w'"
    using w' unfolding run_events_append rbind_eq_Inr by blast
  have "case ?run ?es of
      Inl _ \<Rightarrow> False
    | Inr w \<Rightarrow> length (jobs w) = 1 \<and>
        (case jobs w ! 0 of Queued c b sz \<Rightarrow> c = 0 \<and> old_instance b sz (srv w) | _ \<Rightarrow> False)"
    by code_simp
  then obtain b sz where "length (jobs w) = 1" "jobs w ! 0 = Queued 0 b sz" "old_instance b sz (srv w)"
    unfolding w by (auto split: job.splits)
  then have "heap (srv w') 0 \<noteq> None"
    using old_instance_leaks_connection [OF counter_fresh counter_safe w _ _ _ step] by simp
  with w' show ?thesis by auto
qed

end
