(* ===== verification/Rpc_Client.thy ===== *)
theory Rpc_Client
  imports Timespec Rpc_Stub Xid_Window Connection
begin

text \<open>
  Class \<^verbatim>\<open>rpcc\<close> of \<^verbatim>\<open>src/rpc/rpc.cc\<close>: the constructor, \<^verbatim>\<open>bind\<close>, \<^verbatim>\<open>call1\<close>, \<^verbatim>\<open>get_refconn\<close>, \<^verbatim>\<open>got_pdu\<close> and
  the destructor. Any number of threads are inside \<^verbatim>\<open>call1\<close>; a thread is a value of \<open>call_pc\<close>, with a
  constructor for each place where it gives up its mutexes. The \<^verbatim>\<open>caller\<close> objects on the threads'
  stacks are addressed by the thread. The clock, the outcome of \<^verbatim>\<open>pthread_cond_timedwait\<close> and the
  result of \<^verbatim>\<open>connect_to_dst\<close> are arguments; the messages given to \<^verbatim>\<open>connection::send\<close> are logged.
\<close>

section \<open>State\<close>

type_synonym tid = nat

record caller =
  ca_xid :: u32
  ca_un :: unmarshall
  ca_intret :: i32
  ca_done :: bool

text \<open>\<^verbatim>\<open>intret\<close> is not initialised by the constructor of \<^verbatim>\<open>caller\<close>: the value it happens to have is given.\<close>

definition caller_new :: "u32 \<Rightarrow> unmarshall \<Rightarrow> i32 \<Rightarrow> caller" where
  "caller_new x un garbage = \<lparr>ca_xid = x, ca_un = un, ca_intret = garbage, ca_done = False\<rparr>"

record rpcc =
  clt_nonce :: u32
  srv_nonce :: u32
  bind_done :: bool
  next_xid :: u32
  retrans :: bool
  chan :: "cid option"
  calls :: "u32 \<rightharpoonup> tid"
  xid_rep_window :: "u32 list"
  callers :: "tid \<rightharpoonup> caller"
  cheap :: conn_heap
  csent :: "(cid \<times> block option \<times> int) list"

definition to_max :: int where
  "to_max = 120000"

definition to_min :: int where
  "to_min = 1000"

definition rpcc_new :: "bool \<Rightarrow> u32 \<Rightarrow> rpcc" where
  "rpcc_new re random =
     \<lparr>clt_nonce = (if re then random else 0), srv_nonce = 0, bind_done = False, next_xid = 1,
      retrans = re, chan = None, calls = Map.empty, xid_rep_window = [0], callers = Map.empty,
      cheap = Map.empty, csent = []\<rparr>"

text \<open>The destructor.\<close>

definition rpcc_delete :: "rpcc \<Rightarrow> (conn_call list \<times> conn_heap) res" where
  "rpcc_delete s =
     rbind (case chan s of
              None \<Rightarrow> Inr ([], cheap s)
            | Some c \<Rightarrow>
                (case cheap s c of
                   None \<Rightarrow> Inl Use_after_free
                 | Some k \<Rightarrow>
                     let (k, cs) = closeconn k in
                     rbind (ptr_decref c ((cheap s)(c \<mapsto> k))) (\<lambda>h. Inr (cs, h)))) (\<lambda>r.
     rbind (check (calls s = Map.empty) Assert_failed) (\<lambda>_. Inr r))"

section \<open>Calls\<close>

record call_locals =
  lo_req :: marshall
  ch :: "cid option"
  transmit :: bool
  curr_to :: int
  finaldeadline :: timespec
  nextdeadline :: timespec

datatype call_pc =
    C_loop call_locals
  | C_wait call_locals
  | C_finish call_locals
  | C_returned i32

text \<open>
  The start of \<^verbatim>\<open>call1\<close>, under \<^verbatim>\<open>m_\<close>: the check for being bound, the number of the call, its entry in
  \<^verbatim>\<open>calls_\<close> and the header. \<^verbatim>\<open>front()\<close> of an empty window is undefined.
\<close>

definition call1_register ::
  "tid \<Rightarrow> i32 \<Rightarrow> marshall \<Rightarrow> unmarshall \<Rightarrow> i32 \<Rightarrow> rpcc \<Rightarrow> (marshall option \<times> rpcc) res" where
  "call1_register t proc req rep garbage s =
     (if proc \<noteq> rpc_bind \<and> \<not> bind_done s \<or> proc = rpc_bind \<and> bind_done s then Inr (None, s)
      else
        let x = next_xid s;
            s = s\<lparr>next_xid := x + 1, calls := (calls s)(x \<mapsto> t),
                  callers := (callers s)(t \<mapsto> caller_new x rep garbage)\<rparr>
        in case xid_rep_window s of
             [] \<Rightarrow> Inl Out_of_bounds
           | front # _ \<Rightarrow>
               rbind (pack_req_header
                 \<lparr>rq_xid = x, rq_proc = proc, rq_clt_nonce = clt_nonce s, rq_srv_nonce = srv_nonce s,
                  rq_xid_rep = front\<rparr> req) (\<lambda>req. Inr (Some req, s)))"

definition call1_begin ::
  "tid \<Rightarrow> i32 \<Rightarrow> marshall \<Rightarrow> unmarshall \<Rightarrow> int \<Rightarrow> i32 \<Rightarrow> timespec \<Rightarrow> rpcc \<Rightarrow> (call_pc \<times> rpcc) res" where
  "call1_begin t proc req rep to garbage now s =
     rbind (call1_register t proc req rep garbage s) (\<lambda>(r, s).
     case r of
       None \<Rightarrow> Inr (C_returned bind_failure, s)
     | Some req \<Rightarrow>
         rbind (add_timespec now to) (\<lambda>final.
         Inr (C_loop \<lparr>lo_req = req, ch = None, transmit = True, curr_to = to_min,
                finaldeadline = final, nextdeadline = final\<rparr>, s)))"

text \<open>
  \<^verbatim>\<open>get_refconn\<close> in its two halves: a missing or dead channel is replaced, then the channel is handed
  out in place of the connection the caller has. \<open>fresh\<close> is what \<^verbatim>\<open>connect_to_dst\<close> gives when it is
  called: a new connection with the client's reference, or null.
\<close>

definition reconnect :: "(cid \<times> connection) option \<Rightarrow> rpcc \<Rightarrow> rpcc res" where
  "reconnect fresh s =
     rbind (case chan s of None \<Rightarrow> Inr True | Some c \<Rightarrow> ptr_isdead c (cheap s)) (\<lambda>connect.
     if \<not> connect then Inr s
     else
       rbind (case chan s of None \<Rightarrow> Inr (cheap s) | Some c \<Rightarrow> ptr_decref c (cheap s)) (\<lambda>h.
       Inr (case fresh of
              None \<Rightarrow> s\<lparr>cheap := h, chan := None\<rparr>
            | Some (c, k) \<Rightarrow> s\<lparr>cheap := h(c \<mapsto> k), chan := Some c\<rparr>)))"

definition hand_out :: "cid option \<Rightarrow> rpcc \<Rightarrow> (cid option \<times> rpcc) res" where
  "hand_out p s =
     (case chan s of
        None \<Rightarrow> Inr (p, s)
      | Some c \<Rightarrow>
          rbind (case p of None \<Rightarrow> Inr (cheap s) | Some c' \<Rightarrow> ptr_decref c' (cheap s)) (\<lambda>h.
          rbind (ptr_incref c h) (\<lambda>h.
          Inr (Some c, s\<lparr>cheap := h\<rparr>))))"

definition get_refconn :: "(cid \<times> connection) option \<Rightarrow> cid option \<Rightarrow> rpcc \<Rightarrow> (cid option \<times> rpcc) res" where
  "get_refconn fresh p s = rbind (reconnect fresh s) (hand_out p)"

definition client_send :: "cid \<Rightarrow> block option \<Rightarrow> int \<Rightarrow> rpcc \<Rightarrow> rpcc res" where
  "client_send c b sz s =
     (case cheap s c of
        None \<Rightarrow> Inl Use_after_free
      | Some _ \<Rightarrow> Inr (s\<lparr>csent := csent s @ [(c, b, sz)]\<rparr>))"

text \<open>
  One round of the loop up to the wait: transmission when it is asked for, then the deadline of the
  wait. \<open>now\<close> is the time read after the transmission.
\<close>

definition call1_transmit ::
  "(cid \<times> connection) option \<Rightarrow> call_locals \<Rightarrow> rpcc \<Rightarrow> (call_locals \<times> rpcc) res" where
  "call1_transmit fresh l s =
     (if \<not> transmit l then Inr (l, s)
      else
        rbind (get_refconn fresh (ch l) s) (\<lambda>(p, s).
        rbind (case p of
                 None \<Rightarrow> Inr s
               | Some c \<Rightarrow> client_send c (m_buf (lo_req l)) (m_ind (lo_req l)) s) (\<lambda>s.
        Inr (l\<lparr>ch := p, transmit := False\<rparr>, s))))"

definition call1_round ::
  "(cid \<times> connection) option \<Rightarrow> timespec \<Rightarrow> call_locals \<Rightarrow> rpcc \<Rightarrow> (call_pc \<times> rpcc) res" where
  "call1_round fresh now l s =
     rbind (call1_transmit fresh l s) (\<lambda>(l, s).
     if tv_sec (finaldeadline l) = 0 then Inr (C_finish l, s)
     else
       rbind (add_timespec now (curr_to l)) (\<lambda>next.
       if cmp_timespec next (finaldeadline l) > 0
       then Inr (C_wait (l\<lparr>nextdeadline := finaldeadline l,
                           finaldeadline := (finaldeadline l)\<lparr>tv_sec := 0\<rparr>\<rparr>), s)
       else Inr (C_wait (l\<lparr>nextdeadline := next\<rparr>), s)))"

text \<open>
  The inner loop: \<^verbatim>\<open>pthread_cond_timedwait\<close> returns, \<open>timedout\<close> says whether with \<^verbatim>\<open>ETIMEDOUT\<close>. With any
  other result the loop goes on unless the call is done.
\<close>

definition call1_woken :: "tid \<Rightarrow> bool \<Rightarrow> call_locals \<Rightarrow> rpcc \<Rightarrow> (call_pc \<times> rpcc) res" where
  "call1_woken t timedout l s =
     (case callers s t of
        None \<Rightarrow> Inl Use_after_free
      | Some ca \<Rightarrow>
          if ca_done ca then Inr (C_finish l, s)
          else if \<not> timedout then Inr (C_wait l, s)
          else
            rbind (if \<not> retrans s then Inr False
                   else case ch l of None \<Rightarrow> Inr True | Some c \<Rightarrow> ptr_isdead c (cheap s)) (\<lambda>again.
            rbind (check (in_int (curr_to l * 2)) Int_overflow) (\<lambda>_.
            Inr (C_loop (l\<lparr>transmit := (again \<or> transmit l), curr_to := curr_to l * 2\<rparr>), s))))"

text \<open>The end of \<^verbatim>\<open>call1\<close>; the \<^verbatim>\<open>caller\<close> object goes with the stack frame, the reply stays with the caller.\<close>

definition call1_end :: "tid \<Rightarrow> call_locals \<Rightarrow> rpcc \<Rightarrow> (call_pc \<times> unmarshall \<times> rpcc) res" where
  "call1_end t l s =
     (case callers s t of
        None \<Rightarrow> Inl Use_after_free
      | Some ca \<Rightarrow>
          rbind (update_xid_rep (ca_xid ca) (xid_rep_window s)) (\<lambda>w.
          let s = s\<lparr>calls := (calls s)(ca_xid ca := None), xid_rep_window := w\<rparr> in
          rbind (case ch l of None \<Rightarrow> Inr (cheap s) | Some c \<Rightarrow> ptr_decref c (cheap s)) (\<lambda>h.
          Inr (C_returned (if ca_done ca then ca_intret ca else timeout_failure), ca_un ca,
            s\<lparr>cheap := h, callers := (callers s)(t := None)\<rparr>))))"

text \<open>\<^verbatim>\<open>bind\<close> after its call has returned.\<close>

definition bind_end :: "i32 \<Rightarrow> i32 \<Rightarrow> rpcc \<Rightarrow> i32 \<times> rpcc" where
  "bind_end ret r s = (ret, if ret = 0 then s\<lparr>bind_done := True, srv_nonce := r\<rparr> else s)"

section \<open>Replies\<close>

definition rpcc_got_pdu :: "u8 list option \<Rightarrow> int \<Rightarrow> rpcc \<Rightarrow> (bool \<times> rpcc) res" where
  "rpcc_got_pdu b sz s =
     rbind (unpack_reply_header (unmarshall_new b sz)) (\<lambda>(h, rep).
     if \<not> u_ok rep then Inr (True, s)
     else
       rbind (update_xid_rep (rp_xid h) (xid_rep_window s)) (\<lambda>w.
       let s = s\<lparr>xid_rep_window := w\<rparr> in
       case calls s (rp_xid h) of
         None \<Rightarrow> Inr (True, s)
       | Some t \<Rightarrow>
           (case callers s t of
              None \<Rightarrow> Inl Use_after_free
            | Some ca \<Rightarrow>
                if ca_done ca then Inr (True, s)
                else
                  let (un, rep) = take_in (ca_un ca) rep in
                  Inr (True, s\<lparr>callers := (callers s)(t \<mapsto> ca\<lparr>ca_un := un, ca_intret := rp_ret h,
                    ca_done := True\<rparr>)\<rparr>))))"

end
