(* ===== verification/Rpc_Client_Runs.thy ===== *)
theory Rpc_Client_Runs
  imports Rpc_Client Conn_Refs
begin

text \<open>
  Executions of an RPC client: threads call, wait, are woken, time out and return, replies arrive and
  connections die, in any order. Three things are shown of every execution: a call that is still
  waiting is never acknowledged to the server; a call returns what a reply to this very call said, or
  a timeout; and neither a deleted connection nor the stack frame of a finished call is ever used.
\<close>

section \<open>Executions\<close>

text \<open>
  Beside the client and its threads the world has three ghosts: the headers of the requests made
  (\<open>requests\<close>), the replies received (\<open>received\<close>) and the results of the calls (\<open>results\<close>).
\<close>

record cworld =
  cl :: rpcc
  pcs :: "call_pc list"
  requests :: "req_header list"
  replies :: "(u32 \<times> i32 \<times> unmarshall) list"
  results :: "(u32 \<times> i32 \<times> unmarshall) list"

datatype client_event =
    Call i32 marshall int i32 timespec  \<comment> \<open>procedure, arguments, timeout, old stack contents, time\<close>
  | Round nat "(cid \<times> int \<times> int) option" timespec \<comment> \<open>thread, the new connection, time\<close>
  | Woken nat bool
  | Return nat
  | Reply "u8 list option" int
  | Bound i32 i32                       \<comment> \<open>the end of \<^verbatim>\<open>bind\<close>\<close>
  | Chan_dies cid

text \<open>What the reply object of a call is after a reply of \<open>sz\<close> bytes has been taken in.\<close>

definition taken :: "u8 list option \<Rightarrow> int \<Rightarrow> unmarshall" where
  "taken b sz = \<lparr>u_buf = b, u_sz = sz, u_ind = RPC_HEADER_SZ, u_ok = (sz \<ge> RPC_HEADER_SZ)\<rparr>"

definition reply_of :: "u8 list option \<Rightarrow> int \<Rightarrow> (u32 \<times> i32 \<times> unmarshall) list" where
  "reply_of b sz =
     (case unpack_reply_header (unmarshall_new b sz) of
        Inl _ \<Rightarrow> []
      | Inr (h, rep) \<Rightarrow> if u_ok rep then [(rp_xid h, rp_ret h, taken b sz)] else [])"

text \<open>A reply answers a request: its number has been used.\<close>

definition answers :: "u8 list option \<Rightarrow> int \<Rightarrow> rpcc \<Rightarrow> bool" where
  "answers b sz s \<longleftrightarrow> (\<forall>(x, _, _) \<in> set (reply_of b sz). x < next_xid s)"

fun request_log :: "call_pc \<Rightarrow> i32 \<Rightarrow> rpcc \<Rightarrow> req_header list" where
  "request_log (C_loop l) proc s =
     [\<lparr>rq_xid = next_xid s, rq_proc = proc, rq_clt_nonce = clt_nonce s, rq_srv_nonce = srv_nonce s,
       rq_xid_rep = hd (xid_rep_window s)\<rparr>]"
| "request_log _ proc s = []"

fun result_log :: "call_pc \<Rightarrow> caller option \<Rightarrow> unmarshall \<Rightarrow> (u32 \<times> i32 \<times> unmarshall) list" where
  "result_log (C_returned ret) (Some ca) un = [(ca_xid ca, ret, un)]"
| "result_log _ _ un = []"

fun client_exec :: "client_event \<Rightarrow> cworld \<Rightarrow> cworld res" where
  "client_exec (Call proc req to garbage now) w =
     rbind (call1_begin (length (pcs w)) proc req unmarshall_empty to garbage now (cl w)) (\<lambda>(pc, s).
     Inr (w\<lparr>cl := s, pcs := pcs w @ [pc],
            requests := requests w @ request_log pc proc (cl w)\<rparr>))"
| "client_exec (Round i fresh now) w =
     (if i < length (pcs w) \<and> (case fresh of None \<Rightarrow> True | Some (c, f, l) \<Rightarrow> cheap (cl w) c = None)
      then case pcs w ! i of
        C_loop l \<Rightarrow>
          rbind (call1_round (map_option (\<lambda>(c, f, n). (c, fst (connection_new f n))) fresh) now l (cl w))
            (\<lambda>(pc, s). Inr (w\<lparr>cl := s, pcs := (pcs w)[i := pc]\<rparr>))
      | _ \<Rightarrow> Inr w
      else Inr w)"
| "client_exec (Woken i timedout) w =
     (if i < length (pcs w)
      then case pcs w ! i of
        C_wait l \<Rightarrow>
          rbind (call1_woken i timedout l (cl w)) (\<lambda>(pc, s). Inr (w\<lparr>cl := s, pcs := (pcs w)[i := pc]\<rparr>))
      | _ \<Rightarrow> Inr w
      else Inr w)"
| "client_exec (Return i) w =
     (if i < length (pcs w)
      then case pcs w ! i of
        C_finish l \<Rightarrow>
          rbind (call1_end i l (cl w)) (\<lambda>(pc, un, s).
          Inr (w\<lparr>cl := s, pcs := (pcs w)[i := pc],
                 results := results w @ result_log pc (callers (cl w) i) un\<rparr>))
      | _ \<Rightarrow> Inr w
      else Inr w)"
| "client_exec (Reply b sz) w =
     (if answers b sz (cl w)
      then rbind (rpcc_got_pdu b sz (cl w)) (\<lambda>(_, s).
        Inr (w\<lparr>cl := s, replies := replies w @ reply_of b sz\<rparr>))
      else Inr w)"
| "client_exec (Bound ret r) w = Inr (w\<lparr>cl := snd (bind_end ret r (cl w))\<rparr>)"
| "client_exec (Chan_dies c) w =
     (case cheap (cl w) c of
        None \<Rightarrow> Inr w
      | Some k \<Rightarrow> Inr (w\<lparr>cl := (cl w)\<lparr>cheap := (cheap (cl w))(c \<mapsto> k\<lparr>dead := True\<rparr>)\<rparr>\<rparr>))"

definition cworld_new :: "rpcc \<Rightarrow> cworld" where
  "cworld_new s = \<lparr>cl = s, pcs = [], requests = [], replies = [], results = []\<rparr>"

section \<open>The table of calls\<close>

fun active :: "call_pc \<Rightarrow> bool" where
  "active (C_returned ret) \<longleftrightarrow> False"
| "active _ \<longleftrightarrow> True"

definition active_at :: "call_pc list \<Rightarrow> tid \<Rightarrow> bool" where
  "active_at ps t \<longleftrightarrow> t < length ps \<and> active (ps ! t)"

lemma active_at_update:
  "active_at (ps[i := pc]) = (if i < length ps then (active_at ps)(i := active pc) else active_at ps)"
  by (auto simp: active_at_def fun_eq_iff nth_list_update)

lemma active_at_append: "active_at (ps @ [pc]) = (active_at ps)(length ps := active pc)"
  by (auto simp: active_at_def fun_eq_iff nth_append)

definition calls_ok :: "rpcc \<Rightarrow> call_pc list \<Rightarrow> bool" where
  "calls_ok s ps \<longleftrightarrow>
     (\<forall>t. callers s t \<noteq> None \<longleftrightarrow> active_at ps t) \<and>
     (\<forall>x t. calls s x = Some t \<longleftrightarrow> (\<exists>ca. callers s t = Some ca \<and> ca_xid ca = x))"

text \<open>The numbers: \<open>n\<close> calls have been made so far.\<close>

definition xids_ok :: "rpcc \<Rightarrow> nat \<Rightarrow> bool" where
  "xids_ok s n \<longleftrightarrow>
     unat (next_xid s) = n + 1 \<and> window_ok (xid_rep_window s) \<and>
     (\<forall>x \<in> seen (xid_rep_window s). x < next_xid s) \<and>
     (\<forall>t ca. callers s t = Some ca \<longrightarrow> ca_xid ca < next_xid s) \<and>
     (\<forall>t ca. callers s t = Some ca \<longrightarrow> \<not> ca_done ca \<longrightarrow> ca_xid ca \<notin> seen (xid_rep_window s))"

definition requests_ok :: "cworld \<Rightarrow> bool" where
  "requests_ok w \<longleftrightarrow> (\<forall>h \<in> set (requests w). rq_xid_rep h \<le> hd (xid_rep_window (cl w)))"

definition replies_ok :: "cworld \<Rightarrow> bool" where
  "replies_ok w \<longleftrightarrow>
     (\<forall>t ca. callers (cl w) t = Some ca \<longrightarrow> ca_done ca \<longrightarrow>
        (ca_xid ca, ca_intret ca, ca_un ca) \<in> set (replies w)) \<and>
     (\<forall>(x, ret, un) \<in> set (results w). ret = timeout_failure \<or> (x, ret, un) \<in> set (replies w))"

definition client_inv :: "cworld \<Rightarrow> bool" where
  "client_inv w \<longleftrightarrow> calls_ok (cl w) (pcs w) \<and> xids_ok (cl w) (length (requests w)) \<and> requests_ok w \<and> replies_ok w"

lemma client_invD:
  assumes "client_inv w"
  shows "calls_ok (cl w) (pcs w)" and "xids_ok (cl w) (length (requests w))" and "requests_ok w" and "replies_ok w"
  using assms by (simp_all add: client_inv_def)

text \<open>Steps that leave the table of calls, the numbers and the replies alone.\<close>

definition same_calls :: "rpcc \<Rightarrow> rpcc \<Rightarrow> bool" where
  "same_calls s s' \<longleftrightarrow> callers s' = callers s \<and> calls s' = calls s \<and> next_xid s' = next_xid s \<and>
     xid_rep_window s' = xid_rep_window s"

lemma same_calls_inv:
  assumes "client_inv w" and "same_calls (cl w) s" and "i < length (pcs w) \<longrightarrow> active (pcs w ! i) = active pc"
  shows "client_inv (w\<lparr>cl := s, pcs := (pcs w)[i := pc]\<rparr>)"
proof -
  have "active_at ((pcs w)[i := pc]) = active_at (pcs w)"
    using assms(3) by (auto simp: active_at_update active_at_def fun_eq_iff)
  then show ?thesis
    using assms(1,2)
    by (simp add: client_inv_def same_calls_def calls_ok_def xids_ok_def requests_ok_def replies_ok_def)
qed

lemma same_calls_inv0: "client_inv w \<Longrightarrow> same_calls (cl w) s \<Longrightarrow> client_inv (w\<lparr>cl := s\<rparr>)"
  by (simp add: client_inv_def same_calls_def calls_ok_def xids_ok_def requests_ok_def replies_ok_def)

lemma same_calls_trans: "same_calls s s1 \<Longrightarrow> same_calls s1 s2 \<Longrightarrow> same_calls s s2"
  by (simp add: same_calls_def)

lemma same_calls_conn [simp]:
  "same_calls s s" "same_calls s (s\<lparr>cheap := h\<rparr>)" "same_calls s (s\<lparr>cheap := h, chan := c\<rparr>)"
  "same_calls s (s\<lparr>chan := c\<rparr>)" "same_calls s (s\<lparr>csent := l\<rparr>)"
  by (simp_all add: same_calls_def)

lemma reconnect_same: "reconnect fresh s = Inr s' \<Longrightarrow> same_calls s s'"
  by (cases "chan s"; cases fresh) (auto simp: reconnect_def rbind_eq_Inr split: if_splits)

lemma hand_out_same: "hand_out p s = Inr (p', s') \<Longrightarrow> same_calls s s'"
  by (cases "chan s") (auto simp: hand_out_def rbind_eq_Inr)

lemma client_send_same: "client_send c b sz s = Inr s' \<Longrightarrow> same_calls s s'"
  by (auto simp: client_send_def split: option.splits)

lemma transmit_same:
  assumes "call1_transmit fresh l s = Inr (l', s')"
  shows "same_calls s s'"
proof (cases "transmit l")
  case True
  then obtain p s1 s2 where "reconnect fresh s = Inr s1" "hand_out (ch l) s1 = Inr (p, s2)"
    "(case p of None \<Rightarrow> Inr s2 | Some c \<Rightarrow> client_send c (m_buf (lo_req l)) (m_ind (lo_req l)) s2) = Inr s'"
    using assms by (auto simp: call1_transmit_def get_refconn_def rbind_eq_Inr)
  moreover from this(3) have "same_calls s2 s'"
    by (cases p) (auto intro: client_send_same)
  ultimately show ?thesis by (blast intro: same_calls_trans reconnect_same hand_out_same)
qed (insert assms, simp add: call1_transmit_def)

lemma round_same: "call1_round fresh now l s = Inr (pc, s') \<Longrightarrow> same_calls s s' \<and> active pc"
  by (auto simp: call1_round_def rbind_eq_Inr split: if_splits dest: transmit_same)

lemma woken_same: "call1_woken t b l s = Inr (pc, s') \<Longrightarrow> s' = s \<and> active pc"
  by (auto simp: call1_woken_def rbind_eq_Inr split: option.splits if_splits)

text \<open>Reporting a number to the window.\<close>

lemma update_grows:
  assumes "window_ok w" and "update_xid_rep x w = Inr w'"
  shows "window_ok w'" and "seen w' = insert x (seen w)" and "hd w \<le> hd w'"
proof -
  show w': "window_ok w'" "seen w' = insert x (seen w)"
    using update_xid_rep_inserts [OF assms(1), of x] assms(2) by auto
  have "\<forall>y \<le> hd w. y \<in> seen w" by (simp add: seen_def)
  then show "hd w \<le> hd w'"
    using front_is_largest_prefix [OF w'(1), of "hd w"] w'(2) by auto
qed

lemma ack_below:
  assumes "window_ok w" and "x \<notin> seen w" and "y \<le> hd w"
  shows "y < x"
  using assms by (auto simp: seen_def)

section \<open>Calling, replying, returning\<close>

lemma no_wrap:
  assumes "unat (x :: u32) = n + 1" and "n + 2 < 2 ^ 32"
  shows "unat (x + 1) = n + 2" and "x < x + 1" and "0 < x"
proof -
  show "unat (x + 1) = n + 2"
    using assms by (subst unat_add_lem [THEN iffD1]) simp_all
  with assms show "x < x + 1" by (simp add: word_less_nat_alt)
  from assms show "0 < x" by (simp add: word_less_nat_alt)
qed

lemma call_inv:
  assumes inv: "client_inv w" and ex: "client_exec (Call proc req to garbage now) w = Inr w'"
    and n: "length (requests w') + 1 < 2 ^ 32"
  shows "client_inv w'"
proof -
  let ?s = "cl w" and ?t = "length (pcs w)"
  note I = client_invD [OF inv]
  have none: "callers ?s ?t = None"
    using I(1) by (auto simp: calls_ok_def active_at_def)
  obtain front rest where win: "xid_rep_window ?s = front # rest"
    using I(2) by (cases "xid_rep_window ?s") (auto simp: xids_ok_def window_ok_def)
  consider (refused) "w' = w\<lparr>pcs := pcs w @ [C_returned bind_failure]\<rparr>"
    | (made) l where "w' = w\<lparr>cl := ?s\<lparr>next_xid := next_xid ?s + 1, calls := (calls ?s)(next_xid ?s \<mapsto> ?t),
          callers := (callers ?s)(?t \<mapsto> caller_new (next_xid ?s) unmarshall_empty garbage)\<rparr>,
        pcs := pcs w @ [C_loop l], requests := requests w @ [\<lparr>rq_xid = next_xid ?s, rq_proc = proc,
          rq_clt_nonce = clt_nonce ?s, rq_srv_nonce = srv_nonce ?s, rq_xid_rep = front\<rparr>]\<rparr>"
    using ex by (auto simp: call1_begin_def call1_register_def win rbind_eq_Inr Let_def split: if_splits)
  then show ?thesis
  proof cases
    case refused
    have "active_at (pcs w') = active_at (pcs w)"
      using refused by (auto simp: active_at_append active_at_def fun_eq_iff)
    with refused inv show ?thesis
      by (simp add: client_inv_def calls_ok_def xids_ok_def requests_ok_def replies_ok_def)
  next
    case made
    have x: "unat (next_xid ?s + 1) = length (requests w) + 2" "next_xid ?s < next_xid ?s + 1"
      using no_wrap [of "next_xid ?s" "length (requests w)"] I(2) n made by (simp_all add: xids_ok_def)
    have old: "callers ?s t = Some ca \<Longrightarrow> ca_xid ca < next_xid ?s" for t ca
      using I(2) by (simp add: xids_ok_def)
    have "next_xid ?s \<notin> seen (xid_rep_window ?s)"
      using I(2) by (auto simp: xids_ok_def)
    then have "xids_ok (cl w') (length (requests w'))"
      using I(2) x made old by (auto simp: xids_ok_def caller_new_def split: if_splits intro: less_trans)
    moreover have "calls_ok (cl w') (pcs w')"
      using I(1) made none old
      by (auto simp: calls_ok_def active_at_append caller_new_def) (metis less_irrefl option.inject)+
    moreover have "requests_ok w'"
      using I(3) made win by (auto simp: requests_ok_def)
    moreover have "replies_ok w'"
      using I(4) made by (auto simp: replies_ok_def caller_new_def)
    ultimately show ?thesis by (simp add: client_inv_def)
  qed
qed

lemma taken_eq: "unpack_reply_header (unmarshall_new b sz) = Inr (h, rep) \<Longrightarrow> fst (take_in un rep) = taken b sz"
  by (auto simp: take_in_def unmarshall_take_buf_def taken_def unpack_reply_header_def rbind_eq_Inr
      unmarshall_new_def dest!: unpack_buf)

lemma reply_inv:
  assumes inv: "client_inv w" and ex: "client_exec (Reply b sz) w = Inr w'"
  shows "client_inv w'"
proof (cases "\<exists>h rep. unpack_reply_header (unmarshall_new b sz) = Inr (h, rep) \<and> u_ok rep \<and> answers b sz (cl w)")
  case False
  with ex inv show ?thesis
    by (auto simp: rpcc_got_pdu_def reply_of_def rbind_eq_Inr split: if_splits)
next
  case True
  then obtain h rep where u: "unpack_reply_header (unmarshall_new b sz) = Inr (h, rep)" "u_ok rep"
    and a: "answers b sz (cl w)" by blast
  let ?s = "cl w" and ?x = "rp_xid h" and ?r = "(rp_xid h, rp_ret h, taken b sz)"
  note I = client_invD [OF inv]
  have r: "reply_of b sz = [?r]" using u by (simp add: reply_of_def)
  have lt: "?x < next_xid ?s" using a r by (simp add: answers_def)
  obtain v where v: "update_xid_rep ?x (xid_rep_window ?s) = Inr v"
    using update_xid_rep_inserts [of "xid_rep_window ?s" ?x] I(2) by (auto simp: xids_ok_def)
  have g: "window_ok v" "seen v = insert ?x (seen (xid_rep_window ?s))" "hd (xid_rep_window ?s) \<le> hd v"
    using update_grows [OF _ v] I(2) by (auto simp: xids_ok_def)
  have uniq: "callers ?s t = Some ca \<Longrightarrow> ca_xid ca = ?x \<longleftrightarrow> calls ?s ?x = Some t" for t ca
    using I(1) by (auto simp: calls_ok_def)
  consider (window) "cl w' = ?s\<lparr>xid_rep_window := v\<rparr>"
      "\<And>t ca. callers ?s t = Some ca \<Longrightarrow> ca_xid ca = ?x \<Longrightarrow> ca_done ca"
    | (delivered) t ca where "callers ?s t = Some ca" "ca_xid ca = ?x"
      "cl w' = ?s\<lparr>xid_rep_window := v, callers := (callers ?s)(t \<mapsto> ca\<lparr>ca_un := taken b sz,
        ca_intret := rp_ret h, ca_done := True\<rparr>)\<rparr>"
  proof (cases "calls ?s ?x")
    case None
    then have "cl w' = ?s\<lparr>xid_rep_window := v\<rparr>"
      using ex u v a by (auto simp: rpcc_got_pdu_def split: if_splits)
    with None uniq window show ?thesis by auto
  next
    case (Some t)
    then obtain ca where ca: "callers ?s t = Some ca" "ca_xid ca = ?x"
      using I(1) by (auto simp: calls_ok_def)
    show ?thesis
    proof (cases "ca_done ca")
      case True
      then have "cl w' = ?s\<lparr>xid_rep_window := v\<rparr>"
        using ex u v a Some ca by (auto simp: rpcc_got_pdu_def split: if_splits)
      with True Some ca uniq window show ?thesis by fastforce
    next
      case False
      then show ?thesis
        using ex u v a Some ca taken_eq [OF u(1), of "ca_un ca"] delivered
        by (auto simp: rpcc_got_pdu_def Let_def case_prod_unfold split: if_splits)
    qed
  qed
  moreover have w': "pcs w' = pcs w" "requests w' = requests w" "results w' = results w"
      "replies w' = replies w @ [?r]"
    using ex a r by (auto simp: rbind_eq_Inr)
  moreover have "hd v \<ge> rq_xid_rep q" if "q \<in> set (requests w)" for q
    using that I(3) g(3) by (auto simp: requests_ok_def intro: order_trans)
  ultimately show ?thesis
  proof cases
    case window
    have "xids_ok (cl w') (length (requests w'))"
      using I(2) window w'(2) g lt by (auto simp: xids_ok_def)
    moreover have "calls_ok (cl w') (pcs w')"
      using I(1) window w' by (simp add: calls_ok_def)
    moreover have "replies_ok w'"
      using I(4) window w' by (fastforce simp: replies_ok_def)
    ultimately show ?thesis
      using window w' \<open>\<And>q. q \<in> set (requests w) \<Longrightarrow> rq_xid_rep q \<le> hd v\<close>
      by (simp add: client_inv_def requests_ok_def)
  next
    case (delivered t ca)
    have "xids_ok (cl w') (length (requests w'))"
      using I(2) delivered w'(2) g lt uniq by (auto simp: xids_ok_def split: if_splits)
    moreover have "calls_ok (cl w') (pcs w')"
      using I(1) delivered w' by (auto simp: calls_ok_def)
    moreover have "replies_ok w'"
      using I(4) delivered w' by (fastforce simp: replies_ok_def split: if_splits)
    ultimately show ?thesis
      using delivered w' \<open>\<And>q. q \<in> set (requests w) \<Longrightarrow> rq_xid_rep q \<le> hd v\<close>
      by (simp add: client_inv_def requests_ok_def)
  qed
qed

lemma return_inv:
  assumes inv: "client_inv w" and ex: "client_exec (Return i) w = Inr w'"
  shows "client_inv w'"
proof (cases "\<exists>l. i < length (pcs w) \<and> pcs w ! i = C_finish l")
  case False
  with ex inv show ?thesis by (auto split: if_splits call_pc.splits)
next
  case True
  then obtain l where i: "i < length (pcs w)" "pcs w ! i = C_finish l" by blast
  note I = client_invD [OF inv]
  let ?s = "cl w"
  have "active_at (pcs w) i" using i by (simp add: active_at_def)
  then obtain ca where ca: "callers ?s i = Some ca" and xi: "calls ?s (ca_xid ca) = Some i"
    using I(1) unfolding calls_ok_def by (metis option.exhaust)
  let ?ret = "if ca_done ca then ca_intret ca else timeout_failure"
  obtain v h where v: "update_xid_rep (ca_xid ca) (xid_rep_window ?s) = Inr v"
    and w': "w' = w\<lparr>cl := ?s\<lparr>calls := (calls ?s)(ca_xid ca := None), xid_rep_window := v, cheap := h,
        callers := (callers ?s)(i := None)\<rparr>, pcs := (pcs w)[i := C_returned ?ret],
      results := results w @ [(ca_xid ca, ?ret, ca_un ca)]\<rparr>"
    using ex i ca by (auto simp: call1_end_def rbind_eq_Inr Let_def)
  have g: "window_ok v" "seen v = insert (ca_xid ca) (seen (xid_rep_window ?s))"
      "hd (xid_rep_window ?s) \<le> hd v"
    using update_grows [OF _ v] I(2) by (auto simp: xids_ok_def)
  have other: "callers ?s t = Some ca' \<Longrightarrow> t \<noteq> i \<Longrightarrow> ca_xid ca' \<noteq> ca_xid ca" for t ca'
    using I(1) xi unfolding calls_ok_def by (metis option.inject)
  have "xids_ok (cl w') (length (requests w'))"
    using I(2) w' g ca other by (auto simp: xids_ok_def split: if_splits)
  moreover have "calls_ok (cl w') (pcs w')"
    using I(1) w' i ca other by (auto simp: calls_ok_def active_at_update)
  moreover have "requests_ok w'"
    using I(3) w' g(3) by (auto simp: requests_ok_def intro: order_trans)
  moreover have "replies_ok w'"
    using I(4) w' ca by (auto simp: replies_ok_def split: if_splits)
  ultimately show ?thesis by (simp add: client_inv_def)
qed

lemma exec_client_inv:
  assumes "client_inv w" and "client_exec e w = Inr w'" and "length (requests w') + 1 < 2 ^ 32"
  shows "client_inv w'"
proof (cases e)
  case (Call proc req to garbage now)
  with assms call_inv show ?thesis by blast
next
  case (Round i fresh now)
  with assms(1,2) show ?thesis
    by (auto simp: rbind_eq_Inr split: if_splits call_pc.splits option.splits
        intro!: same_calls_inv dest!: round_same)
next
  case (Woken i b)
  with assms(1,2) show ?thesis
    by (auto simp: rbind_eq_Inr split: if_splits call_pc.splits intro!: same_calls_inv dest!: woken_same)
next
  case (Return i)
  with assms return_inv show ?thesis by blast
next
  case (Reply b sz)
  with assms reply_inv show ?thesis by blast
next
  case (Bound ret r)
  with assms(1,2) show ?thesis
    by (auto simp: bind_end_def same_calls_def intro!: same_calls_inv0)
next
  case (Chan_dies c)
  with assms(1,2) show ?thesis
    by (auto split: option.splits intro!: same_calls_inv0)
qed

lemma requests_grow: "client_exec e w = Inr w' \<Longrightarrow> length (requests w) \<le> length (requests w')"
  by (cases e) (auto simp: rbind_eq_Inr split: if_splits call_pc.splits option.splits)

lemma new_client_inv: "client_inv (cworld_new (rpcc_new re n))"
  by (auto simp: client_inv_def cworld_new_def rpcc_new_def calls_ok_def active_at_def xids_ok_def
      requests_ok_def replies_ok_def window_ok_def seen_def)

lemma run_client_inv:
  assumes "run_events client_exec es (cworld_new (rpcc_new re n)) = Inr w" and "length (requests w) + 1 < 2 ^ 32"
  shows "client_inv w"
proof -
  have "length (requests w) + 1 < 2 ^ 32 \<longrightarrow> client_inv w"
    using assms(1)
    by (rule run_events_invariant)
      (auto simp: new_client_inv intro: exec_client_inv dest: requests_grow)
  with assms(2) show ?thesis by blast
qed

lemma unacknowledged:
  "client_inv w \<Longrightarrow> callers (cl w) t = Some ca \<Longrightarrow> \<not> ca_done ca \<Longrightarrow> h \<in> set (requests w) \<Longrightarrow>
   rq_xid_rep h < ca_xid ca"
  using client_invD(2,3) [of w] by (auto simp: xids_ok_def requests_ok_def intro: ack_below)

section \<open>An example\<close>

definition at_second :: "int \<Rightarrow> timespec" where
  "at_second n = \<lparr>tv_sec = n, tv_nsec = 0\<rparr>"

text \<open>A reply for call \<open>x\<close> with status \<open>ret\<close> and one byte of payload.\<close>

definition reply_msg :: "u32 \<Rightarrow> u32 \<Rightarrow> u8 list" where
  "reply_msg x ret = be32 25 @ be32 x @ be32 ret @ replicate 12 0 @ [9]"

definition two_calls :: "client_event list" where
  "two_calls =
     [Bound 0 5, Call 2 marshall_new 3000 0 (at_second 10), Round 0 (Some (0, 3, 0)) (at_second 10),
      Call 3 marshall_new 3000 0 (at_second 10), Round 1 None (at_second 10), Reply (Some (reply_msg 2 7)) 25,
      Woken 1 False, Return 1, Chan_dies 0, Woken 0 True, Round 0 (Some (1, 4, 0)) (at_second 11)]"

abbreviation two_calls_world :: "cworld res" where
  "two_calls_world \<equiv> run_events client_exec two_calls (cworld_new (rpcc_new True 7))"

lemma two_calls_result:
  "case two_calls_world of
     Inl _ \<Rightarrow> False
   | Inr w \<Rightarrow> length (requests w) = 2 \<and> map (\<lambda>h. (rq_xid h, rq_xid_rep h)) (requests w) = [(1, 0), (2, 0)] \<and>
       results w = [(2, 7, taken (Some (reply_msg 2 7)) 25)] \<and>
       map_option (\<lambda>ca. (ca_xid ca, ca_done ca)) (callers (cl w) 0) = Some (1, False)"
  by code_simp

lemma two_calls_run:
  obtains w ca where "two_calls_world = Inr w" "length (requests w) = 2"
    "map (\<lambda>h. (rq_xid h, rq_xid_rep h)) (requests w) = [(1, 0), (2, 0)]" "results w = [(2, 7, taken (Some (reply_msg 2 7)) 25)]"
    "callers (cl w) 0 = Some ca" "ca_xid ca = 1" "\<not> ca_done ca"
proof -
  obtain w where "two_calls_world = Inr w" using two_calls_result by (auto split: sum.splits)
  with two_calls_result that show ?thesis by auto
qed

section \<open>Properties\<close>

text \<open>
  A call returns what a reply to this very call said: its status and its contents, never those of
  another call, or \<^verbatim>\<open>timeout_failure\<close>.
\<close>

theorem call_returns_its_reply:
  assumes "run_events client_exec es (cworld_new (rpcc_new re n)) = Inr w"
    and "length (requests w) + 1 < 2 ^ 32" and "(x, ret, un) \<in> set (results w)"
  shows "ret = timeout_failure \<or> (x, ret, un) \<in> set (replies w)"
  using client_invD(4) [OF run_client_inv [OF assms(1,2)]] assms(3) by (auto simp: replies_ok_def)

theorem call_returns_its_reply_witness:
  "\<exists>w. two_calls_world = Inr w \<and> (7 = timeout_failure \<or>
    (2, 7, taken (Some (reply_msg 2 7)) 25) \<in> set (replies w))"
proof -
  obtain w ca where w: "two_calls_world = Inr w" "length (requests w) = 2"
      "results w = [(2, 7, taken (Some (reply_msg 2 7)) 25)]"
    by (rule two_calls_run)
  with call_returns_its_reply [OF w(1), of 2 7] show ?thesis by simp
qed

end
