(* ===== verification/Rpc_Client_Refs.thy ===== *)
theory Rpc_Client_Refs
  imports Rpc_Client_Runs
begin

text \<open>
  Reference counting of the connections of a client: the channel holds one reference, and each call
  one for the connection it sent its request on. No call and no reply ever uses a deleted connection
  or the stack frame of a call that has returned.
\<close>

fun pc_conn :: "call_pc \<Rightarrow> cid option" where
  "pc_conn (C_loop l) = ch l"
| "pc_conn (C_wait l) = ch l"
| "pc_conn (C_finish l) = ch l"
| "pc_conn (C_returned ret) = None"

definition own_ch :: "call_pc \<Rightarrow> cid \<Rightarrow> nat" where
  "own_ch p c = of_bool (pc_conn p = Some c)"

text \<open>The heap with the channel's reference and \<open>g\<close> others.\<close>

definition ccounted :: "rpcc \<Rightarrow> (cid \<Rightarrow> nat) \<Rightarrow> bool" where
  "ccounted s g \<longleftrightarrow> heap_ok (cheap s) (\<lambda>c. g c + of_bool (chan s = Some c))"

lemma ccounted_same: "ccounted s g \<Longrightarrow> cheap s' = cheap s \<Longrightarrow> chan s' = chan s \<Longrightarrow> ccounted s' g"
  by (simp add: ccounted_def)

lemma ccounted_cong: "ccounted s g \<Longrightarrow> (\<And>c. g c = g' c) \<Longrightarrow> ccounted s g'"
  by (simp add: ccounted_def)

definition fresh_conn :: "(cid \<times> connection) option \<Rightarrow> rpcc \<Rightarrow> bool" where
  "fresh_conn fresh s \<longleftrightarrow>
     (case fresh of
        None \<Rightarrow> True
      | Some (c, k) \<Rightarrow> cheap s c = None \<and> refno k = 1 \<and> cb_buf (wpdu k) = None)"

lemma reconnect_ok:
  assumes "ccounted s g" and "fresh_conn fresh s"
  shows "\<exists>s'. reconnect fresh s = Inr s' \<and> ccounted s' g"
proof -
  obtain b where b: "(case chan s of None \<Rightarrow> Inr True | Some c \<Rightarrow> ptr_isdead c (cheap s)) = Inr b"
    using assms(1) by (cases "chan s") (auto simp: ccounted_def dest!: ptr_isdead_ok)
  obtain h where h: "(case chan s of None \<Rightarrow> Inr (cheap s) | Some c \<Rightarrow> ptr_decref c (cheap s)) = Inr h"
    "heap_ok h g"
    using drop_ref [OF assms(1) [unfolded ccounted_def]] by blast
  have "heap_ok (h(c \<mapsto> k)) (\<lambda>d. g d + of_bool (c = d))" if "fresh = Some (c, k)" for c k
  proof -
    have "g c = 0"
      using assms that by (auto simp: fresh_conn_def ccounted_def heap_ok_def dest!: spec [of _ c])
    with assms(2) that show ?thesis
      by (intro heap_ok_upd [OF h(2)]) (auto simp: fresh_conn_def)
  qed
  with b h assms(1) show ?thesis
    by (cases fresh) (auto simp: reconnect_def ccounted_def)
qed

lemma hand_out_ok:
  assumes "ccounted s (\<lambda>d. g d + of_bool (p = Some d))"
  shows "\<exists>p' s'. hand_out p s = Inr (p', s') \<and> ccounted s' (\<lambda>d. g d + of_bool (p' = Some d))"
proof (cases "chan s")
  case None
  with assms show ?thesis by (simp add: hand_out_def)
next
  case (Some c)
  let ?g = "\<lambda>d. g d + of_bool (chan s = Some d)"
  have "heap_ok (cheap s) (\<lambda>d. ?g d + of_bool (p = Some d))"
    using assms by (simp add: ccounted_def add.commute add.left_commute)
  from drop_ref [OF this] obtain h where
    h: "(case p of None \<Rightarrow> Inr (cheap s) | Some c' \<Rightarrow> ptr_decref c' (cheap s)) = Inr h" "heap_ok h ?g" by blast
  obtain h' where h': "ptr_incref c h = Inr h'" "heap_ok h' (\<lambda>d. ?g d + of_bool (d = c))"
    using ptr_incref_ok [OF h(2), of c] Some by auto
  have "heap_ok h' (\<lambda>d. g d + of_bool (Some c = Some d) + of_bool (chan s = Some d))"
    using h'(2) by (rule heap_ok_cong) auto
  with Some h(1) h'(1) show ?thesis by (simp add: hand_out_def ccounted_def)
qed

lemma transmit_ok:
  assumes "ccounted s (\<lambda>d. g d + of_bool (ch l = Some d))" and "fresh_conn fresh s"
  shows "\<exists>l' s'. call1_transmit fresh l s = Inr (l', s') \<and> ccounted s' (\<lambda>d. g d + of_bool (ch l' = Some d))"
proof (cases "transmit l")
  case False
  with assms(1) show ?thesis by (simp add: call1_transmit_def)
next
  case True
  obtain s1 where s1: "reconnect fresh s = Inr s1" "ccounted s1 (\<lambda>d. g d + of_bool (ch l = Some d))"
    using reconnect_ok [OF assms] by blast
  obtain p s2 where s2: "hand_out (ch l) s1 = Inr (p, s2)" "ccounted s2 (\<lambda>d. g d + of_bool (p = Some d))"
    using hand_out_ok [OF s1(2)] by blast
  show ?thesis
  proof (cases p)
    case None
    with True s1(1) s2 show ?thesis by (simp add: call1_transmit_def get_refconn_def)
  next
    case (Some c)
    obtain k where "cheap s2 c = Some k"
      using s2(2) Some by (auto simp: ccounted_def elim!: heap_okD [where c = c])
    with True s1(1) s2 Some show ?thesis
      by (auto simp: call1_transmit_def get_refconn_def client_send_def elim: ccounted_same)
  qed
qed

text \<open>What a step must leave behind.\<close>

definition cstep_ok :: "(cid \<Rightarrow> nat) \<Rightarrow> (call_pc \<times> rpcc) res \<Rightarrow> bool" where
  "cstep_ok g r \<longleftrightarrow>
     (case r of Inl x \<Rightarrow> x \<noteq> Use_after_free | Inr (pc, s) \<Rightarrow> ccounted s (\<lambda>d. g d + own_ch pc d))"

lemma add_timespec_no_uaf: "add_timespec a b \<noteq> Inl Use_after_free"
  by (auto simp: add_timespec_def Let_def rbind_eq_Inl)

lemma round_ok:
  assumes "ccounted s (\<lambda>d. g d + own_ch (C_loop l) d)" and "fresh_conn fresh s"
  shows "cstep_ok g (call1_round fresh now l s)"
proof -
  obtain l' s' where "call1_transmit fresh l s = Inr (l', s')" "ccounted s' (\<lambda>d. g d + of_bool (ch l' = Some d))"
    using transmit_ok [of s g l fresh] assms by (auto simp: own_ch_def)
  then show ?thesis
    using add_timespec_no_uaf [of now "curr_to l'"]
    by (auto simp: call1_round_def cstep_ok_def own_ch_def rbind_def split: sum.splits)
qed

lemma woken_ok:
  assumes "ccounted s (\<lambda>d. g d + own_ch (C_wait l) d)" and "callers s t \<noteq> None"
  shows "cstep_ok g (call1_woken t b l s)"
proof -
  have "\<exists>d. (if \<not> retrans s then Inr False
      else case ch l of None \<Rightarrow> Inr True | Some c \<Rightarrow> ptr_isdead c (cheap s)) = Inr d"
    using assms(1) by (cases "ch l") (auto simp: ccounted_def own_ch_def dest!: ptr_isdead_ok)
  with assms show ?thesis
    by (auto simp: call1_woken_def cstep_ok_def own_ch_def rbind_def check_def)
qed

lemma end_ok:
  assumes "ccounted s (\<lambda>d. g d + own_ch (C_finish l) d)" and "callers s t \<noteq> None"
    and "window_ok (xid_rep_window s)"
  shows "\<exists>pc un s'. call1_end t l s = Inr (pc, un, s') \<and> ccounted s' (\<lambda>d. g d + own_ch pc d)"
proof -
  obtain ca where ca: "callers s t = Some ca" using assms(2) by auto
  obtain v where v: "update_xid_rep (ca_xid ca) (xid_rep_window s) = Inr v"
    using update_xid_rep_inserts [OF assms(3)] by blast
  have "heap_ok (cheap s) (\<lambda>d. g d + of_bool (chan s = Some d) + of_bool (ch l = Some d))"
    using assms(1) by (simp add: ccounted_def own_ch_def add.commute add.left_commute)
  from drop_ref [OF this] ca v show ?thesis
    by (cases "ch l") (auto simp: call1_end_def ccounted_def own_ch_def)
qed

section \<open>Executions\<close>

definition call_refs :: "cworld \<Rightarrow> cid \<Rightarrow> nat" where
  "call_refs w c = (\<Sum>p\<leftarrow>pcs w. own_ch p c)"

definition crefs_inv :: "cworld \<Rightarrow> bool" where
  "crefs_inv w \<longleftrightarrow> ccounted (cl w) (call_refs w)"

lemma split_refs:
  assumes "i < length (pcs w)"
  shows "\<exists>g. (\<forall>d. call_refs w d = g d + own_ch (pcs w ! i) d) \<and>
    (\<forall>pc d. (\<Sum>p\<leftarrow>(pcs w)[i := pc]. own_ch p d) = g d + own_ch pc d)"
proof -
  let ?g = "\<lambda>d. (\<Sum>p\<leftarrow>take i (pcs w) @ drop (Suc i) (pcs w). own_ch p d)"
  have "call_refs w d = ?g d + own_ch (pcs w ! i) d" for d
    unfolding call_refs_def by (subst id_take_nth_drop [OF assms]) simp
  moreover have "(\<Sum>p\<leftarrow>(pcs w)[i := pc]. own_ch p d) = ?g d + own_ch pc d" for pc d
    by (simp add: upd_conv_take_nth_drop [OF assms])
  ultimately show ?thesis by (intro exI [of _ ?g]) blast
qed

lemma thread_step:
  assumes "i < length (pcs w)" and "crefs_inv w"
    and "\<And>g. ccounted (cl w) (\<lambda>d. g d + own_ch (pcs w ! i) d) \<Longrightarrow> cstep_ok g r"
  shows "r \<noteq> Inl Use_after_free" and "r = Inr (pc, s) \<Longrightarrow> crefs_inv (w\<lparr>cl := s, pcs := (pcs w)[i := pc]\<rparr>)"
proof -
  obtain g where g: "\<And>d. call_refs w d = g d + own_ch (pcs w ! i) d"
    "\<And>pc d. (\<Sum>p\<leftarrow>(pcs w)[i := pc]. own_ch p d) = g d + own_ch pc d"
    using split_refs [OF assms(1)] by blast
  have ok: "cstep_ok g r"
    by (rule assms(3)) (rule ccounted_cong [OF assms(2) [unfolded crefs_inv_def] g(1)])
  then show "r \<noteq> Inl Use_after_free" by (auto simp: cstep_ok_def)
  assume "r = Inr (pc, s)"
  with ok have "ccounted s (\<lambda>d. g d + own_ch pc d)" by (simp add: cstep_ok_def)
  then show "crefs_inv (w\<lparr>cl := s, pcs := (pcs w)[i := pc]\<rparr>)"
    unfolding crefs_inv_def call_refs_def by (simp add: g(2))
qed

lemma got_pdu_ok:
  assumes "calls_ok s ps" and "window_ok (xid_rep_window s)"
  shows "rpcc_got_pdu b sz s \<noteq> Inl Use_after_free"
    and "rpcc_got_pdu b sz s = Inr (r, s') \<Longrightarrow> cheap s' = cheap s \<and> chan s' = chan s"
proof -
  have u: "unpack_reply_header u \<noteq> Inl Use_after_free" for u
  proof -
    have "unmarshall_rawbyte u \<noteq> Inl Use_after_free" for u
      by (auto simp: unmarshall_rawbyte_def split: option.splits)
    then show ?thesis
      by (simp add: unpack_reply_header_def unpack_def rbind_eq_Inl Let_def case_prod_unfold)
  qed
  obtain v where v: "update_xid_rep x (xid_rep_window s) = Inr (v x)" for x
    using update_xid_rep_inserts [OF assms(2)] by metis
  have c: "calls s x = Some t \<Longrightarrow> callers s t \<noteq> None" for x t
    using assms(1) by (auto simp: calls_ok_def)
  show "rpcc_got_pdu b sz s \<noteq> Inl Use_after_free"
    using u c by (auto simp: rpcc_got_pdu_def rbind_eq_Inl v Let_def case_prod_unfold split: option.splits
        dest: c)
  assume e: "rpcc_got_pdu b sz s = Inr (r, s')"
  then obtain h rep where u: "unpack_reply_header (unmarshall_new b sz) = Inr (h, rep)"
    by (auto simp: rpcc_got_pdu_def rbind_eq_Inr)
  show "cheap s' = cheap s \<and> chan s' = chan s"
    using e u v
    by (cases "calls s (rp_xid h)"; cases "callers s (the (calls s (rp_xid h)))")
      (auto simp: rpcc_got_pdu_def Let_def case_prod_unfold split: if_splits)
qed

lemma begin_ok:
  assumes "xid_rep_window s \<noteq> []"
  shows "call1_begin t proc req rep to garbage now s \<noteq> Inl Use_after_free"
    and "call1_begin t proc req rep to garbage now s = Inr (pc, s') \<Longrightarrow>
      cheap s' = cheap s \<and> chan s' = chan s \<and> (\<forall>d. own_ch pc d = 0)"
proof -
  have "marshall_rawbyte x m \<noteq> Inl Use_after_free" for x m
    by (auto simp: marshall_rawbyte_def grow_def poke_def rbind_eq_Inl split: option.splits if_splits)
  then have p: "pack_req_header h m \<noteq> Inl Use_after_free" for h m
    by (simp add: pack_req_header_def pack_def rbind_eq_Inl Let_def)
  obtain front rest where win: "xid_rep_window s = front # rest"
    using assms by (cases "xid_rep_window s") auto
  have r: "call1_register t proc req rep garbage s \<noteq> Inl Use_after_free"
    using p by (simp add: call1_register_def win Let_def rbind_eq_Inl)
  have s1: "cheap s1 = cheap s \<and> chan s1 = chan s"
    if "call1_register t proc req rep garbage s = Inr (m, s1)" for m s1
    using that by (auto simp: call1_register_def win Let_def rbind_eq_Inr split: if_splits)
  have t: "add_timespec now to \<noteq> Inl Use_after_free" by (rule add_timespec_no_uaf)
  show "call1_begin t proc req rep to garbage now s \<noteq> Inl Use_after_free"
    using r t by (auto simp: call1_begin_def rbind_eq_Inl split: option.splits)
  assume "call1_begin t proc req rep to garbage now s = Inr (pc, s')"
  then obtain m where "call1_register t proc req rep garbage s = Inr (m, s')" and "\<forall>d. own_ch pc d = 0"
    by (auto simp: call1_begin_def rbind_eq_Inr own_ch_def split: option.splits)
  then show "cheap s' = cheap s \<and> chan s' = chan s \<and> (\<forall>d. own_ch pc d = 0)"
    using s1 by blast
qed

lemma exec_refs:
  assumes inv: "client_inv w" and refs: "crefs_inv w"
  shows "client_exec e w \<noteq> Inl Use_after_free \<and> (client_exec e w = Inr w' \<longrightarrow> crefs_inv w')"
proof (cases e)
  case (Call proc req to garbage now)
  have "xid_rep_window (cl w) \<noteq> []"
    using client_invD(2) [OF inv] by (auto simp: xids_ok_def window_ok_def)
  note b = begin_ok [OF this, of "length (pcs w)" proc req unmarshall_empty to garbage now]
  show ?thesis
    using b refs unfolding Call
    by (auto simp: rbind_eq_Inl rbind_eq_Inr crefs_inv_def call_refs_def ccounted_def)
next
  case (Round i fresh now)
  show ?thesis
  proof (cases "\<exists>l. i < length (pcs w) \<and> pcs w ! i = C_loop l \<and>
      (case fresh of None \<Rightarrow> True | Some (c, f, l) \<Rightarrow> cheap (cl w) c = None)")
    case False
    with Round refs show ?thesis by (auto split: call_pc.splits if_splits)
  next
    case True
    then obtain l where i: "i < length (pcs w)" "pcs w ! i = C_loop l"
      and f: "case fresh of None \<Rightarrow> True | Some (c, f, l) \<Rightarrow> cheap (cl w) c = None" by blast
    let ?f = "map_option (\<lambda>(c, f, n). (c, fst (connection_new f n))) fresh"
    have "fresh_conn ?f (cl w)"
      using f by (auto simp: fresh_conn_def connection_new_def charbuf_new_def split: option.splits)
    then have "cstep_ok g (call1_round ?f now l (cl w))"
      if "ccounted (cl w) (\<lambda>d. g d + own_ch (pcs w ! i) d)" for g
      using that i by (intro round_ok) simp_all
    from thread_step [OF i(1) refs this] i f Round show ?thesis
      by (auto simp: rbind_eq_Inl rbind_eq_Inr)
  qed
next
  case (Woken i b)
  show ?thesis
  proof (cases "\<exists>l. i < length (pcs w) \<and> pcs w ! i = C_wait l")
    case False
    with Woken refs show ?thesis by (auto split: call_pc.splits if_splits)
  next
    case True
    then obtain l where i: "i < length (pcs w)" "pcs w ! i = C_wait l" by blast
    then have "active_at (pcs w) i" by (simp add: active_at_def)
    then have "callers (cl w) i \<noteq> None"
      using client_invD(1) [OF inv] by (simp add: calls_ok_def)
    then have "cstep_ok g (call1_woken i b l (cl w))"
      if "ccounted (cl w) (\<lambda>d. g d + own_ch (pcs w ! i) d)" for g
      using that i by (intro woken_ok) simp_all
    from thread_step [OF i(1) refs this] i Woken show ?thesis
      by (auto simp: rbind_eq_Inl rbind_eq_Inr)
  qed
next
  case (Return i)
  show ?thesis
  proof (cases "\<exists>l. i < length (pcs w) \<and> pcs w ! i = C_finish l")
    case False
    with Return refs show ?thesis by (auto split: call_pc.splits if_splits)
  next
    case True
    then obtain l where i: "i < length (pcs w)" "pcs w ! i = C_finish l" by blast
    then have "active_at (pcs w) i" by (simp add: active_at_def)
    then have cs: "callers (cl w) i \<noteq> None"
      using client_invD(1) [OF inv] by (simp add: calls_ok_def)
    have win: "window_ok (xid_rep_window (cl w))"
      using client_invD(2) [OF inv] by (simp add: xids_ok_def)
    let ?r = "map_sum id (\<lambda>(pc, un, s). (pc, s)) (call1_end i l (cl w))"
    have "cstep_ok g ?r" if "ccounted (cl w) (\<lambda>d. g d + own_ch (pcs w ! i) d)" for g
      using end_ok [OF _ cs win, of g l] that i by (auto simp: cstep_ok_def)
    note t = thread_step [OF i(1) refs this]
    have "call_refs (v\<lparr>results := x\<rparr>) = call_refs v" for v x
      by (simp add: call_refs_def fun_eq_iff)
    then have "crefs_inv (v\<lparr>results := x\<rparr>) = crefs_inv v" for v x
      by (simp add: crefs_inv_def)
    with t i Return show ?thesis
      by (cases "call1_end i l (cl w)") auto
  qed
next
  case (Reply b sz)
  have "calls_ok (cl w) (pcs w)" "window_ok (xid_rep_window (cl w))"
    using client_invD(1,2) [OF inv] by (simp_all add: xids_ok_def)
  from got_pdu_ok [OF this, of b sz] refs Reply show ?thesis
    by (auto simp: rbind_eq_Inl rbind_eq_Inr crefs_inv_def call_refs_def ccounted_def)
next
  case (Bound ret r)
  with refs show ?thesis by (auto simp: bind_end_def crefs_inv_def call_refs_def ccounted_def)
next
  case (Chan_dies c)
  have "heap_ok ((cheap (cl w))(c \<mapsto> k\<lparr>dead := True\<rparr>)) r"
    if "heap_ok (cheap (cl w)) r" "cheap (cl w) c = Some k" for k r
    using that by (intro heap_ok_upd [OF that(1)]) (auto simp: heap_ok_def dest!: spec [of _ c])
  with refs Chan_dies show ?thesis
    by (auto simp: crefs_inv_def call_refs_def ccounted_def split: option.splits)
qed

lemma run_refs:
  assumes "run_events client_exec es (cworld_new (rpcc_new re n)) = Inr w" and "length (requests w) + 1 < 2 ^ 32"
  shows "crefs_inv w"
proof -
  let ?P = "\<lambda>w. length (requests w) + 1 < 2 ^ 32 \<longrightarrow> client_inv w \<and> crefs_inv w"
  have "?P w"
    using assms(1)
  proof (rule run_events_invariant)
    show "?P (cworld_new (rpcc_new re n))"
      by (simp add: new_client_inv)
        (simp add: crefs_inv_def cworld_new_def rpcc_new_def ccounted_def call_refs_def heap_ok_def)
  next
    fix e w w'
    assume "?P w" "client_exec e w = Inr w'"
    then show "?P w'"
      using requests_grow [of e w w'] exec_client_inv [of w e w'] exec_refs [of w e w'] by auto
  qed
  with assms(2) show ?thesis by blast
qed

text \<open>
  C25. In every execution of a client, neither a call nor a reply uses a deleted connection or the
  \<^verbatim>\<open>caller\<close> of a call that has returned: whatever has happened, no next step faults that way.
\<close>

theorem client_uses_live_objects:
  assumes "run_events client_exec es (cworld_new (rpcc_new re n)) = Inr w"
    and "length (requests w) + 1 < 2 ^ 32"
  shows "client_exec e w \<noteq> Inl Use_after_free"
  using exec_refs [OF run_client_inv [OF assms] run_refs [OF assms]] by blast

theorem client_uses_live_objects_witness:
  "\<exists>w. two_calls_world = Inr w \<and> client_exec (Reply (Some (reply_msg 1 0)) 25) w \<noteq> Inl Use_after_free"
proof -
  obtain w where w: "two_calls_world = Inr w" "length (requests w) = 2"
    by (rule two_calls_run)
  with client_uses_live_objects [OF w(1)] show ?thesis by (simp del: client_exec.simps)
qed

end
