(* ===== verification/Rpc_Call.thy ===== *)
theory Rpc_Call
  imports Rpc_Server Rpc_Client
begin

text \<open>
  One remote call from end to end: \<^verbatim>\<open>rpcc::call1\<close> makes and transmits the request, the network carries
  it, \<^verbatim>\<open>rpcs::got_pdu\<close> and \<^verbatim>\<open>rpcs::dispatch\<close> run the handler and send the reply, the network carries it
  back, and \<^verbatim>\<open>rpcc::got_pdu\<close> wakes the caller. The result is shown to be the method applied to the
  arguments, for every codec of arguments and results.
\<close>

section \<open>The network\<close>

text \<open>
  What arrives for a message: the bytes sent, with the size field overwritten by the sender's
  \<^verbatim>\<open>writepdu\<close> and arbitrary values for the bytes the sender never wrote.
\<close>

definition carried :: "block \<Rightarrow> u8 list \<Rightarrow> bool" where
  "carried m b \<longleftrightarrow>
     length b = length m \<and> (\<forall>i v. 4 \<le> i \<longrightarrow> i < length m \<longrightarrow> m ! i = Some v \<longrightarrow> b ! i = v)"

lemma carried_segment:
  assumes "carried m b" and "m = p @ map Some xs @ q" and "4 \<le> length p"
  shows "take (length xs) (drop (length p) b) = xs"
proof (rule nth_equalityI)
  show "length (take (length xs) (drop (length p) b)) = length xs"
    using assms by (simp add: carried_def)
  fix i assume "i < length (take (length xs) (drop (length p) b))"
  then have i: "i < length xs" by simp
  then have "m ! (length p + i) = Some (xs ! i)" "length p + i < length m"
    using assms(2) by (simp_all add: nth_append)
  then have "b ! (length p + i) = xs ! i"
    using assms(1,3) by (simp add: carried_def)
  then show "take (length xs) (drop (length p) b) ! i = xs ! i"
    using i assms by (simp add: carried_def)
qed

text \<open>The two shapes of messages.\<close>

definition request_msg :: "req_header \<Rightarrow> u8 list \<Rightarrow> block \<Rightarrow> bool" where
  "request_msg h pl m \<longleftrightarrow> (\<exists>p. length p = 4 \<and> m = p @ map Some (enc_req_header h @ pl))"

definition reply_message :: "reply_header \<Rightarrow> u8 list \<Rightarrow> block \<Rightarrow> bool" where
  "reply_message k pl m \<longleftrightarrow>
     (\<exists>p q. length p = 4 \<and> length q = 12 \<and> m = p @ map Some (enc_reply_header k) @ q @ map Some pl)"

lemma request_carried:
  assumes "request_msg h pl m" and "carried m b"
  shows "take 20 (drop 4 b) = enc_req_header h" and "drop 24 b = pl" and "length b = 24 + length pl"
proof -
  obtain p where p: "length p = 4" "m = p @ map Some (enc_req_header h) @ map Some pl"
    using assms(1) by (auto simp: request_msg_def)
  show "length b = 24 + length pl"
    using assms(2) p by (simp add: carried_def)
  show "take 20 (drop 4 b) = enc_req_header h"
    using carried_segment [OF assms(2) p(2)] p(1) by simp
  have "take (length pl) (drop 24 b) = pl"
    using carried_segment [OF assms(2), of "p @ map Some (enc_req_header h)" pl "[]"] p by simp
  with \<open>length b = 24 + length pl\<close> show "drop 24 b = pl" by simp
qed

lemma reply_carried:
  assumes "reply_message k pl m" and "carried m b"
  shows "take 8 (drop 4 b) = enc_reply_header k" and "drop 24 b = pl" and "length b = 24 + length pl"
proof -
  obtain p q where p: "length p = 4" "length q = 12"
      "m = p @ map Some (enc_reply_header k) @ q @ map Some pl"
    using assms(1) by (auto simp: reply_message_def)
  show "length b = 24 + length pl"
    using assms(2) p by (simp add: carried_def)
  show "take 8 (drop 4 b) = enc_reply_header k"
    using carried_segment [OF assms(2) p(3)] p(1) by simp
  have "take (length pl) (drop 24 b) = pl"
    using carried_segment [OF assms(2), of "p @ map Some (enc_reply_header k) @ q" pl "[]"] p by simp
  with \<open>length b = 24 + length pl\<close> show "drop 24 b = pl" by simp
qed

lemma header_packed:
  assumes "wfm m" and "contents m = replicate 24 None @ map Some pl"
  shows "\<exists>m'. pack_req_header h m = Inr m' \<and> wfm m' \<and> m_ind m' = m_ind m \<and> request_msg h pl (contents m')"
    and "\<exists>m'. pack_reply_header k m = Inr m' \<and> wfm m' \<and> m_ind m' = m_ind m \<and> reply_message k pl (contents m')"
proof -
  have len: "m_ind m = int (24 + length pl)"
    using length_contents [OF assms(1)] assms(2) by simp
  obtain m' where "pack_req_header h m = Inr m'" "wfm m'" "m_ind m' = m_ind m"
      "contents m' = take 4 (contents m) @ map Some (enc_req_header h) @ drop (4 + 20) (contents m)"
    using overwrite_header [OF assms(1), of "enc_req_header h"] len
    by (auto simp: pack_req_header_seq)
  then show "\<exists>m'. pack_req_header h m = Inr m' \<and> wfm m' \<and> m_ind m' = m_ind m \<and> request_msg h pl (contents m')"
    using assms(2) by (auto simp: request_msg_def intro!: exI [of _ "replicate 4 None"])
  obtain m' where "pack_reply_header k m = Inr m'" "wfm m'" "m_ind m' = m_ind m"
      "contents m' = take 4 (contents m) @ map Some (enc_reply_header k) @ drop (4 + 8) (contents m)"
    using overwrite_header [OF assms(1), of "enc_reply_header k"] len
    by (auto simp: pack_reply_header_seq)
  moreover from this have "reply_message k pl (contents m')"
    unfolding reply_message_def using assms(2)
    by (intro exI [of _ "replicate 4 None"] exI [of _ "replicate 12 None"], simp)
  ultimately show "\<exists>m'. pack_reply_header k m = Inr m' \<and> wfm m' \<and> m_ind m' = m_ind m \<and>
      reply_message k pl (contents m')"
    by blast
qed

section \<open>The server's part\<close>

text \<open>
  The server can take request \<open>x\<close> of client \<open>clt\<close> on connection \<open>d\<close>: the connection is alive and the
  latest one of the client, and the requests in the window are older.
\<close>

definition server_ready :: "cid \<Rightarrow> u32 \<Rightarrow> u32 \<Rightarrow> 's rpcs \<Rightarrow> bool" where
  "server_ready d clt x s \<longleftrightarrow>
     (\<exists>k. heap s d = Some k \<and> \<not> dead k \<and> 1 \<le> refno k) \<and>
     (conns s clt = None \<or> conns s clt = Some (Some d)) \<and> counting s = 0 \<and>
     (\<forall>e \<in> set (reply_list (reply_window s) clt). r_xid e < x)"

text \<open>A message is taken in and dispatched; the reply is what was given to \<^verbatim>\<open>send\<close> last.\<close>

definition serve :: "cid \<Rightarrow> u8 list \<Rightarrow> 's rpcs \<Rightarrow> ((block option \<times> int) \<times> 's rpcs) res" where
  "serve d b s =
     rbind (rpcs_got_pdu d (Some b) (int (length b)) True s) (\<lambda>(_, _, s).
     rbind (dispatch d (Some b) (int (length b)) s) (\<lambda>(_, s).
     Inr (snd (last (sent s)), s)))"

lemma check_new:
  assumes "\<forall>e \<in> set (reply_list w clt). r_xid e < x" and "xr < x"
  shows "\<exists>w'. checkduplicate_and_update clt x xr w = (NEW, None, w') \<and>
    (\<forall>e \<in> set (reply_list w' clt). r_xid e \<le> x)"
proof -
  obtain st b w' where c: "checkduplicate_and_update clt x xr w = (st, b, w')" by (metis prod_cases3)
  have new: "st = NEW" using checkduplicate_NEW [OF c] assms by fastforce
  then have "b = None"
    using c by (auto simp: checkduplicate_and_update_def Let_def split: if_splits prod.splits option.splits)
  moreover have "\<forall>e \<in> set (reply_list w' clt). r_xid e \<le> x"
    using checkduplicate_list [OF c] assms(1) by (auto simp: new reply_new_def)
  ultimately show ?thesis using c new by blast
qed

lemma step_then:
  "dispatch_step j s = Inr (j', s') \<Longrightarrow> dispatch_steps (Suc n) j s = dispatch_steps n j' s'"
  by simp

lemma new_client_facts:
  "heap (new_client h s) = heap s" "conns (new_client h s) = conns s" "counting (new_client h s) = counting s"
  "obj (new_client h s) = obj s" "nonce (new_client h s) = nonce s" "procs (new_client h s) = procs s"
  "sent (new_client h s) = sent s"
  "reply_list (reply_window (new_client h s)) = reply_list (reply_window s)"
  by (auto simp: new_client_def reply_list_def fun_eq_iff split: option.splits)

lemma save_same_conn:
  assumes "heap s d = Some k" and "conns s n = None \<or> conns s n = Some (Some d)"
  shows "\<exists>r \<ge> refno k. save_conn n d s =
    Inr (s\<lparr>heap := (heap s)(d \<mapsto> k\<lparr>refno := r\<rparr>), conns := (conns s)(n \<mapsto> Some d)\<rparr>)"
  using assms(2)
proof
  assume "conns s n = None"
  with assms(1) show ?thesis
    by (intro exI [of _ "refno k + 1"]) (simp add: save_conn_def conn_incref_def ptr_incref_def incref_def)
next
  assume n: "conns s n = Some (Some d)"
  then have "(conns s)(n \<mapsto> Some d) = conns s" "(heap s)(d \<mapsto> k) = heap s"
    using assms(1) by (auto simp: fun_eq_iff)
  with n show ?thesis
    by (intro exI [of _ "refno k"]) (simp add: save_conn_def)
qed

text \<open>The path of a new request through \<^verbatim>\<open>dispatch\<close>, on a connection that stays alive.\<close>

lemma dispatch_new_path:
  assumes u: "unpack_req_header (unmarshall_new (Some b) n) = Inr (h, u)" "u_ok u"
    and h: "rq_clt_nonce h \<noteq> 0" "rq_srv_nonce h = 0 \<or> rq_srv_nonce h = nonce s"
    and f: "procs s (rq_proc h) = Some f"
    and s2: "save_conn (rq_clt_nonce h) d (new_client h s) = Inr s2" "counting s2 = 0"
      "heap s2 d = Some k" "\<not> dead k" "2 \<le> refno k"
    and w: "checkduplicate_and_update (rq_clt_nonce h) (rq_xid h) (rq_xid_rep h) (reply_window s2) = (NEW, None, w)"
    and run: "f u marshall_new (obj s2) = Inr (ret, u', rep, x)" "0 \<le>s ret \<or> ret = unmarshal_args_failure"
      "pack_reply_header \<lparr>rp_xid = rq_xid h, rp_ret = ret\<rparr> rep = Inr m" "m_buf m = Some buf"
  shows "dispatch d (Some b) n s = Inr (Finished,
    s2\<lparr>reply_window := add_reply (rq_clt_nonce h) (rq_xid h) (Some buf) (m_ind m) w, obj := x,
       sent := sent s2 @ [(d, Some buf, m_ind m)], heap := (heap s2)(d \<mapsto> k\<lparr>refno := refno k - 1\<rparr>)\<rparr>)"
    (is "_ = Inr (Finished, ?s7)")
proof -
  let ?s3 = "s2\<lparr>reply_window := w\<rparr>"
  let ?s5 = "s2\<lparr>reply_window := add_reply (rq_clt_nonce h) (rq_xid h) (Some buf) (m_ind m) w, obj := x\<rparr>"
  have "dispatch_step (Queued d (Some b) n) s = Inr (At_window h u d f, s)"
    using u h f by (auto simp: dispatch_header_def)
  moreover have "dispatch_step (At_window h u d f) s = Inr (At_conns h u d f, new_client h s)" by simp
  moreover have "dispatch_step (At_conns h u d f) (new_client h s) = Inr (At_check h u d f, s2)" using s2 by simp
  moreover have "dispatch_step (At_check h u d f) s2 = Inr (Running h u d f, ?s3)"
    using w by (simp add: dispatch_check_def)
  moreover have "dispatch_step (Running h u d f) ?s3 = Inr (At_reply h d (Some buf) (m_ind m), ?s3\<lparr>obj := x\<rparr>)"
    using run s2(2) h(1) by (simp add: dispatch_run_def marshall_take_buf_def word_gt_0)
  moreover have "dispatch_step (At_reply h d (Some buf) (m_ind m)) (?s3\<lparr>obj := x\<rparr>) =
      Inr (At_latest h d (Some buf) (m_ind m), ?s5)"
    by (simp add: dispatch_reply_def)
  moreover have "dispatch_step (At_latest h d (Some buf) (m_ind m)) ?s5 = Inr (At_send d (Some buf) (m_ind m), ?s5)"
    using s2 by (simp add: latest_conn_def conn_isdead_def ptr_isdead_def isdead_def)
  moreover have "dispatch_step (At_send d (Some buf) (m_ind m)) ?s5 = Inr (Finished, ?s7)"
    using s2 by (simp add: conn_send_def leave_def conn_decref_def ptr_decref_def decref_def Let_def)
  moreover have "(8 :: nat) = Suc (Suc (Suc (Suc (Suc (Suc (Suc (Suc 0)))))))" by simp
  ultimately show ?thesis
    by (simp only: dispatch_def step_then dispatch_steps.simps(1))
qed

lemma serve_replies:
  assumes b: "take 20 (drop 4 b) = enc_req_header h" "drop 24 b = pl" "length b = 24 + length pl"
      "int (length b) \<le> int_max"
    and ready: "server_ready d (rq_clt_nonce h) (rq_xid h) s"
    and h: "rq_xid_rep h < rq_xid h" "rq_clt_nonce h \<noteq> 0" "rq_srv_nonce h = 0 \<or> rq_srv_nonce h = nonce s"
    and f: "procs s (rq_proc h) = Some f"
      "\<And>u. received pl u \<Longrightarrow> \<exists>u'. f u marshall_new (obj s) = Inr (ret, u', rep, x)"
    and rep: "wfm rep" "contents rep = replicate 24 None @ map Some rpl"
    and ret: "0 \<le>s ret \<or> ret = unmarshal_args_failure"
  shows "\<exists>buf n s'. serve d b s = Inr ((Some buf, n), s') \<and>
    reply_message \<lparr>rp_xid = rq_xid h, rp_ret = ret\<rparr> rpl (take (nat n) buf) \<and> n = int (24 + length rpl) \<and>
    obj s' = x \<and> nonce s' = nonce s \<and> procs s' = procs s \<and>
    (rq_xid h < rq_xid h + 1 \<longrightarrow> server_ready d (rq_clt_nonce h) (rq_xid h + 1) s')"
proof -
  let ?clt = "rq_clt_nonce h" and ?n = "int (length b)"
  have m: "message (Some b) ?n" "24 \<le> ?n" using b by (auto simp: message_def limits)
  obtain u where u: "unpack_req_header (unmarshall_new (Some b) ?n) = Inr (h, u)" "received pl u"
    using unpack_req_header_decodes [OF m b(1)] b(2) by auto
  obtain u' where u': "f u marshall_new (obj s) = Inr (ret, u', rep, x)" using f(2) [OF u(2)] by blast
  have ok: "u_ok u" using u(2) by (simp add: received_def)
  obtain m' where m': "pack_reply_header \<lparr>rp_xid = rq_xid h, rp_ret = ret\<rparr> rep = Inr m'" "wfm m'"
      "m_ind m' = m_ind rep" "reply_message \<lparr>rp_xid = rq_xid h, rp_ret = ret\<rparr> rpl (contents m')"
    using header_packed(2) [OF rep] by blast
  obtain buf where buf: "m_buf m' = Some buf" "contents m' = take (nat (m_ind m')) buf"
    using m'(2) by (auto elim: wfmE)
  have ind: "m_ind m' = int (24 + length rpl)"
    using length_contents [OF rep(1)] rep(2) m'(3) by simp
  obtain k where k: "heap s d = Some k" "\<not> dead k" "1 \<le> refno k"
    and cn: "conns s ?clt = None \<or> conns s ?clt = Some (Some d)" and cnt: "counting s = 0"
    and old: "\<forall>e \<in> set (reply_list (reply_window s) ?clt). r_xid e < rq_xid h"
    using ready by (auto simp: server_ready_def)
  let ?s0 = "s\<lparr>heap := (heap s)(d \<mapsto> incref k)\<rparr>"
  let ?s1 = "new_client h ?s0"
  obtain r where r: "refno k + 1 \<le> r" and s2: "save_conn ?clt d ?s1 =
      Inr (?s1\<lparr>heap := (heap ?s1)(d \<mapsto> k\<lparr>refno := r\<rparr>), conns := (conns ?s1)(?clt \<mapsto> Some d)\<rparr>)" (is "_ = Inr ?s2")
    using save_same_conn [of ?s1 d "incref k" ?clt] cn by (auto simp: new_client_facts incref_def)
  obtain w where w: "checkduplicate_and_update ?clt (rq_xid h) (rq_xid_rep h) (reply_window ?s2) = (NEW, None, w)"
      "\<forall>e \<in> set (reply_list w ?clt). r_xid e \<le> rq_xid h"
    using check_new [of "reply_window ?s2" ?clt "rq_xid h" "rq_xid_rep h"] old h(1)
    by (auto simp: new_client_facts)
  have "dispatch d (Some b) ?n ?s0 = Inr (Finished,
      ?s2\<lparr>reply_window := add_reply ?clt (rq_xid h) (Some buf) (m_ind m') w, obj := x,
        sent := sent ?s2 @ [(d, Some buf, m_ind m')],
        heap := (heap ?s2)(d \<mapsto> (k\<lparr>refno := r\<rparr>)\<lparr>refno := refno (k\<lparr>refno := r\<rparr>) - 1\<rparr>)\<rparr>)"
    (is "_ = Inr (Finished, ?s7)")
    by (rule dispatch_new_path [where f = f and u' = u', OF u(1) ok h(2) _ _ s2 _ _ _ _ w(1) _ ret m'(1) buf(1)])
      (insert h(3) f(1) cnt k r u', simp_all add: new_client_facts)
  then have "serve d b s = Inr ((Some buf, m_ind m'), ?s7)"
    using k(1) by (simp add: serve_def rpcs_got_pdu_def conn_incref_def ptr_incref_def)
  moreover have "server_ready d ?clt (rq_xid h + 1) ?s7" if lt: "rq_xid h < rq_xid h + 1"
  proof -
    have "\<forall>e \<in> set (reply_list (add_reply ?clt (rq_xid h) (Some buf) (m_ind m') w) ?clt). r_xid e < rq_xid h + 1"
      using w(2) lt by (auto simp: add_reply_def intro: le_less_trans)
    with k r cnt show ?thesis by (simp add: server_ready_def new_client_facts)
  qed
  moreover have "reply_message \<lparr>rp_xid = rq_xid h, rp_ret = ret\<rparr> rpl (take (nat (m_ind m')) buf)"
    using m'(4) buf(2) by simp
  ultimately show ?thesis
    using ind by (auto simp: new_client_facts)
qed

section \<open>The client's part\<close>

text \<open>The client has a channel that is alive, or none yet and connects.\<close>

definition client_ready :: "(cid \<times> connection) option \<Rightarrow> cid \<Rightarrow> rpcc \<Rightarrow> bool" where
  "client_ready fresh c s \<longleftrightarrow>
     clt_nonce s \<noteq> 0 \<and>
     (\<exists>k. (chan s = Some c \<and> cheap s c = Some k \<or> chan s = None \<and> fresh = Some (c, k)) \<and>
        \<not> dead k \<and> 1 \<le> refno k) \<and>
     window_ok (xid_rep_window s) \<and> (\<forall>x \<in> seen (xid_rep_window s). x < next_xid s)"

definition client_header :: "i32 \<Rightarrow> rpcc \<Rightarrow> req_header" where
  "client_header proc s =
     \<lparr>rq_xid = next_xid s, rq_proc = proc, rq_clt_nonce = clt_nonce s, rq_srv_nonce = srv_nonce s,
      rq_xid_rep = hd (xid_rep_window s)\<rparr>"

lemma carry_sec: "tv_sec r \<le> tv_sec (carry_loop r)"
proof (induction r rule: carry_loop.induct)
  case (1 r)
  then show ?case by (subst carry_loop.simps) auto
qed

lemma deadline:
  assumes "ts_normal now" and "0 < tv_sec now" and "0 \<le> to"
  shows "\<exists>f. add_timespec now to = Inr f \<and> tv_sec f \<noteq> 0"
proof -
  let ?r = "\<lparr>tv_sec = tv_sec now + to sdiv 1000, tv_nsec = tv_nsec now + (to smod 1000) * 1000000\<rparr>"
  have "0 \<le> tv_nsec ?r" "0 < tv_sec ?r"
    using assms by (auto simp: int_sdiv_nonneg int_smod_nonneg ts_normal_def)
  moreover have "tv_sec ?r \<le> tv_sec (carry_loop ?r)" by (rule carry_sec)
  ultimately show ?thesis
    by (simp add: add_timespec_def Let_def del: carry_loop.simps)
qed

text \<open>The request is registered and transmitted; then the call waits.\<close>

lemma request_sent:
  assumes ready: "client_ready fresh c s" and p: "(proc = rpc_bind) \<noteq> bind_done s"
    and req: "wfm req" "contents req = replicate 24 None @ map Some pl"
    and now: "ts_normal now" "0 < tv_sec now" "0 \<le> to"
  shows "\<exists>l s1 l' s2 buf k. call1_begin t proc req rep to garbage now s = Inr (C_loop l, s1) \<and>
    call1_round fresh now l s1 = Inr (C_wait l', s2) \<and> ch l' = Some c \<and>
    s2 = s\<lparr>next_xid := next_xid s + 1, calls := (calls s)(next_xid s \<mapsto> t),
           callers := (callers s)(t \<mapsto> caller_new (next_xid s) rep garbage),
           chan := Some c, cheap := (cheap s)(c \<mapsto> k), csent := csent s @ [(c, Some buf, int (24 + length pl))]\<rparr> \<and>
    \<not> dead k \<and> 2 \<le> refno k \<and> request_msg (client_header proc s) pl (take (24 + length pl) buf)"
proof -
  obtain k where k: "chan s = Some c \<and> cheap s c = Some k \<or> chan s = None \<and> fresh = Some (c, k)"
      "\<not> dead k" "1 \<le> refno k" and win: "window_ok (xid_rep_window s)"
    using ready by (auto simp: client_ready_def)
  obtain m where m: "pack_req_header (client_header proc s) req = Inr m" "wfm m" "m_ind m = m_ind req"
      "request_msg (client_header proc s) pl (contents m)"
    using header_packed(1) [OF req] by blast
  obtain buf where buf: "m_buf m = Some buf" "contents m = take (nat (m_ind m)) buf"
    using m(2) by (auto elim: wfmE)
  have ind: "m_ind m = int (24 + length pl)"
    using length_contents [OF req(1)] req(2) m(3) by simp
  obtain final where final: "add_timespec now to = Inr final" "tv_sec final \<noteq> 0"
    using deadline [OF now] by blast
  obtain nx where nx: "add_timespec now to_min = Inr nx"
    using deadline [OF now(1,2), of to_min] by (auto simp: to_min_def)
  let ?l = "\<lparr>lo_req = m, ch = None, transmit = True, curr_to = to_min, finaldeadline = final, nextdeadline = final\<rparr>"
  let ?s1 = "s\<lparr>next_xid := next_xid s + 1, calls := (calls s)(next_xid s \<mapsto> t),
           callers := (callers s)(t \<mapsto> caller_new (next_xid s) rep garbage)\<rparr>"
  have "call1_begin t proc req rep to garbage now s = Inr (C_loop ?l, ?s1)"
    using p m(1) win final
    by (cases "xid_rep_window s")
      (simp_all add: call1_begin_def call1_register_def client_header_def Let_def window_ok_def)
  moreover have "call1_transmit fresh ?l ?s1 = Inr (?l\<lparr>ch := Some c, transmit := False\<rparr>,
      ?s1\<lparr>chan := Some c, cheap := (cheap s)(c \<mapsto> incref k), csent := csent s @ [(c, Some buf, int (24 + length pl))]\<rparr>)"
    using k buf ind
    by (auto simp: call1_transmit_def get_refconn_def reconnect_def hand_out_def ptr_isdead_def
        ptr_incref_def isdead_def client_send_def)
  moreover from this obtain l' where "call1_round fresh now ?l ?s1 = Inr (C_wait l',
      ?s1\<lparr>chan := Some c, cheap := (cheap s)(c \<mapsto> incref k), csent := csent s @ [(c, Some buf, int (24 + length pl))]\<rparr>)"
      "ch l' = Some c"
    using final(2) nx by (cases "0 < cmp_timespec nx final") (auto simp: call1_round_def)
  moreover have "\<not> dead (incref k)" "2 \<le> refno (incref k)"
    using k by (simp_all add: incref_def)
  moreover have "request_msg (client_header proc s) pl (take (24 + length pl) buf)"
    using m(4) buf(2) ind by (simp add: nat_add_distrib)
  ultimately show ?thesis by blast
qed

text \<open>The reply completes the call, which returns its status and leaves its payload to be read.\<close>

lemma reply_completes:
  assumes calls: "calls s x = Some t" "callers s t = Some ca" "ca_xid ca = x" "\<not> ca_done ca"
    and win: "window_ok (xid_rep_window s)"
    and ch: "ch l = Some c" "cheap s c = Some k" "2 \<le> refno k"
    and b: "take 8 (drop 4 b) = enc_reply_header \<lparr>rp_xid = x, rp_ret = ret\<rparr>" "drop 24 b = pl"
      "length b = 24 + length pl" "int (length b) \<le> int_max"
  shows "\<exists>s1 un w. rpcc_got_pdu (Some b) (int (length b)) s = Inr (True, s1) \<and>
    call1_woken t False l s1 = Inr (C_finish l, s1) \<and>
    call1_end t l s1 = Inr (C_returned ret, un,
      s\<lparr>calls := (calls s)(x := None), xid_rep_window := w,
        cheap := (cheap s)(c \<mapsto> k\<lparr>refno := refno k - 1\<rparr>), callers := (callers s)(t := None)\<rparr>) \<and>
    received pl un \<and> window_ok w \<and> seen w = insert x (seen (xid_rep_window s))"
proof -
  let ?n = "int (length b)" and ?h = "\<lparr>rp_xid = x, rp_ret = ret\<rparr>"
  have m: "message (Some b) ?n" "24 \<le> ?n" using b by (auto simp: message_def limits)
  obtain u where u: "unpack_reply_header (unmarshall_new (Some b) ?n) = Inr (?h, u)"
      "u_buf u = Some b" "u_sz u = ?n" "u_ok u"
    using unpack_reply_header_decodes [OF m b(1)] by (auto simp: received_def)
  obtain w1 where w1: "update_xid_rep x (xid_rep_window s) = Inr w1" "window_ok w1"
      "seen w1 = insert x (seen (xid_rep_window s))"
    using update_xid_rep_inserts [OF win] by blast
  obtain w2 where w2: "update_xid_rep x w1 = Inr w2" "window_ok w2" "seen w2 = insert x (seen w1)"
    using update_xid_rep_inserts [OF w1(2)] by blast
  let ?un = "\<lparr>u_buf = Some b, u_sz = ?n, u_ind = 24, u_ok = True\<rparr>"
  let ?ca = "ca\<lparr>ca_un := ?un, ca_intret := ret, ca_done := True\<rparr>"
  let ?s1 = "s\<lparr>xid_rep_window := w1, callers := (callers s)(t \<mapsto> ?ca)\<rparr>"
  have "fst (take_in (ca_un ca) u) = ?un"
    using u m(2) by (simp add: take_in_def unmarshall_take_buf_def)
  then have "rpcc_got_pdu (Some b) ?n s = Inr (True, ?s1)"
    using u w1(1) calls by (simp add: rpcc_got_pdu_def case_prod_unfold)
  moreover have "call1_woken t False l ?s1 = Inr (C_finish l, ?s1)"
    by (simp add: call1_woken_def)
  moreover have "call1_end t l ?s1 = Inr (C_returned ret, ?un,
      s\<lparr>calls := (calls s)(x := None), xid_rep_window := w2,
        cheap := (cheap s)(c \<mapsto> k\<lparr>refno := refno k - 1\<rparr>), callers := (callers s)(t := None)\<rparr>)"
    using calls w2(1) ch by (simp add: call1_end_def ptr_decref_def decref_def Let_def)
  moreover have "received pl ?un"
    using m b(2) by (auto simp: received_def wfu_def unread_def message_def)
  ultimately show ?thesis
    using w1(3) w2 by (intro exI [of _ ?s1] exI [of _ ?un] exI [of _ w2]) simp
qed

section \<open>The whole call\<close>

text \<open>
  An exchange without loss, in the order of the events: this is a \<^verbatim>\<open>call1\<close> for the stubs, over the
  states of a client and a server. \<open>net\<close> is the network, which carries what was given to a connection that
  is alive: nothing leaves a dead one. The last branches are not taken.
\<close>

definition wire_of :: "block option \<times> int \<Rightarrow> block" where
  "wire_of p = (case fst p of None \<Rightarrow> [] | Some b \<Rightarrow> take (nat (snd p)) b)"

definition sent_alive :: "rpcc \<Rightarrow> bool" where
  "sent_alive s = (case cheap s (fst (last (csent s))) of None \<Rightarrow> False | Some k \<Rightarrow> \<not> isdead k)"

definition exchange ::
  "(cid \<times> connection) option \<Rightarrow> (block \<Rightarrow> u8 list) \<Rightarrow> tid \<Rightarrow> cid \<Rightarrow> timespec \<Rightarrow> (rpcc \<times> 's rpcs) caller1" where
  "exchange fresh net t d now proc req rep to w =
     rbind (call1_begin t proc req rep to 0 now (fst w)) (\<lambda>(pc, cl).
     case pc of
       C_returned r \<Rightarrow> Inr (r, rep, (cl, snd w))
     | C_loop l \<Rightarrow>
         rbind (call1_round fresh now l cl) (\<lambda>(pc, cl).
         case pc of
           C_wait l \<Rightarrow>
             rbind (check (sent_alive cl) Assert_failed) (\<lambda>_.
             rbind (serve d (net (wire_of (snd (last (csent cl))))) (snd w)) (\<lambda>(msg, sv).
             let b = net (wire_of msg) in
             rbind (rpcc_got_pdu (Some b) (int (length b)) cl) (\<lambda>(_, cl).
             rbind (call1_woken t False l cl) (\<lambda>(pc, cl).
             case pc of
               C_finish l \<Rightarrow>
                 rbind (call1_end t l cl) (\<lambda>(pc, un, cl).
                 case pc of
                   C_returned r \<Rightarrow> Inr (r, un, (cl, sv))
                 | _ \<Rightarrow> Inl Assert_failed)
             | _ \<Rightarrow> Inl Assert_failed))))
         | _ \<Rightarrow> Inl Assert_failed)
     | _ \<Rightarrow> Inl Assert_failed)"

text \<open>The states from which a call succeeds.\<close>

definition linked :: "(cid \<times> connection) option \<Rightarrow> cid \<Rightarrow> cid \<Rightarrow> rpcc \<times> 's rpcs \<Rightarrow> bool" where
  "linked fresh c d w \<longleftrightarrow>
     client_ready fresh c (fst w) \<and> server_ready d (clt_nonce (fst w)) (next_xid (fst w)) (snd w) \<and>
     (srv_nonce (fst w) = 0 \<or> srv_nonce (fst w) = nonce (snd w))"

text \<open>Whatever the server does with the request, as long as it replies, the call returns the reply.\<close>

lemma exchange_completes:
  assumes cr: "client_ready fresh c cl" and net: "\<And>m. carried m (net m)" and p: "(proc = rpc_bind) \<noteq> bind_done cl"
    and req: "wfm req" "contents req = replicate 24 None @ map Some pl"
    and now: "ts_normal now" "0 < tv_sec now" "0 \<le> to" and rpl: "int (length rpl) + 24 \<le> int_max"
    and serve: "\<And>b. take 20 (drop 4 b) = enc_req_header (client_header proc cl) \<Longrightarrow> drop 24 b = pl \<Longrightarrow>
      length b = 24 + length pl \<Longrightarrow> \<exists>buf n sv'. serve d b sv = Inr ((Some buf, n), sv') \<and>
        reply_message \<lparr>rp_xid = next_xid cl, rp_ret = ret\<rparr> rpl (take (nat n) buf) \<and> Q sv'"
  shows "\<exists>un cl' sv'. exchange fresh net t d now proc req rep to (cl, sv) = Inr (ret, un, (cl', sv')) \<and>
    received rpl un \<and> Q sv' \<and> next_xid cl' = next_xid cl + 1 \<and> bind_done cl' = bind_done cl \<and>
    clt_nonce cl' = clt_nonce cl \<and> srv_nonce cl' = srv_nonce cl \<and>
    (next_xid cl < next_xid cl + 1 \<longrightarrow> client_ready fresh c cl')"
proof -
  let ?h = "client_header proc cl" and ?x = "next_xid cl"
  have win: "window_ok (xid_rep_window cl)" and seen: "\<forall>x \<in> seen (xid_rep_window cl). x < ?x"
    using cr by (auto simp: client_ready_def)
  obtain l s1 l' s2 buf k where start: "call1_begin t proc req rep to 0 now cl = Inr (C_loop l, s1)"
      "call1_round fresh now l s1 = Inr (C_wait l', s2)" "ch l' = Some c"
    and s2: "s2 = cl\<lparr>next_xid := ?x + 1, calls := (calls cl)(?x \<mapsto> t),
        callers := (callers cl)(t \<mapsto> caller_new ?x rep 0),
        chan := Some c, cheap := (cheap cl)(c \<mapsto> k), csent := csent cl @ [(c, Some buf, int (24 + length pl))]\<rparr>"
    and k: "\<not> dead k" "2 \<le> refno k" and rq: "request_msg ?h pl (take (24 + length pl) buf)"
    using request_sent [OF cr p req now] by blast
  let ?b = "net (wire_of (snd (last (csent s2))))"
  have wire: "wire_of (snd (last (csent s2))) = take (24 + length pl) buf"
    by (simp add: s2 wire_of_def nat_add_distrib)
  note b = request_carried [OF rq net]
  obtain buf' n sv' where sv': "serve d ?b sv = Inr ((Some buf', n), sv')"
      "reply_message \<lparr>rp_xid = ?x, rp_ret = ret\<rparr> rpl (take (nat n) buf')" "Q sv'"
    using serve [of ?b] b by (auto simp: wire)
  let ?r = "net (wire_of (Some buf', n))"
  have r: "take 8 (drop 4 ?r) = enc_reply_header \<lparr>rp_xid = ?x, rp_ret = ret\<rparr>" "drop 24 ?r = rpl"
      "length ?r = 24 + length rpl"
    using reply_carried [OF sv'(2) net] by (simp_all add: wire_of_def)
  have pre: "calls s2 ?x = Some t" "callers s2 t = Some (caller_new ?x rep 0)"
      "ca_xid (caller_new ?x rep 0) = ?x" "\<not> ca_done (caller_new ?x rep 0)"
      "window_ok (xid_rep_window s2)" "cheap s2 c = Some k" "int (length ?r) \<le> int_max"
    using win rpl r(3) by (simp_all add: s2 caller_new_def)
  obtain s3 un v where s3: "rpcc_got_pdu (Some ?r) (int (length ?r)) s2 = Inr (True, s3)"
      "call1_woken t False l' s3 = Inr (C_finish l', s3)"
    and s4: "call1_end t l' s3 = Inr (C_returned ret, un,
      s2\<lparr>calls := (calls s2)(?x := None), xid_rep_window := v,
        cheap := (cheap s2)(c \<mapsto> k\<lparr>refno := refno k - 1\<rparr>), callers := (callers s2)(t := None)\<rparr>)"
      "received rpl un" "window_ok v" "seen v = insert ?x (seen (xid_rep_window s2))"
    using reply_completes [OF pre(1-5) start(3) pre(6) k(2) r pre(7)] by blast
  let ?cl = "s2\<lparr>calls := (calls s2)(?x := None), xid_rep_window := v,
        cheap := (cheap s2)(c \<mapsto> k\<lparr>refno := refno k - 1\<rparr>), callers := (callers s2)(t := None)\<rparr>"
  have "exchange fresh net t d now proc req rep to (cl, sv) = Inr (ret, un, (?cl, sv'))"
    using start sv'(1) s3 s4(1) k(1) by (simp add: exchange_def sent_alive_def isdead_def s2)
  moreover have "client_ready fresh c ?cl" if "?x < ?x + 1"
    using that cr seen k s4(3,4) by (auto simp: client_ready_def s2 intro: less_trans)
  ultimately show ?thesis
    using s4(2) sv'(3) by (auto simp: s2)
qed

lemma exchange_calls:
  assumes linked: "linked fresh c d w" and net: "\<And>m. carried m (net m)" and p: "(proc = rpc_bind) \<noteq> bind_done (fst w)"
    and req: "wfm req" "contents req = replicate 24 None @ map Some pl" "int (length pl) + 24 \<le> int_max"
    and now: "ts_normal now" "0 < tv_sec now" "0 \<le> to"
    and f: "procs (snd w) proc = Some f"
      "\<And>u. received pl u \<Longrightarrow> \<exists>u'. f u marshall_new (obj (snd w)) = Inr (ret, u', rep', x)"
    and rep: "wfm rep'" "contents rep' = replicate 24 None @ map Some rpl" "int (length rpl) + 24 \<le> int_max"
    and ret: "0 \<le>s ret \<or> ret = unmarshal_args_failure"
  shows "\<exists>un w'. exchange fresh net t d now proc req rep to w = Inr (ret, un, w') \<and> received rpl un \<and>
    obj (snd w') = x \<and> procs (snd w') = procs (snd w) \<and> nonce (snd w') = nonce (snd w) \<and>
    next_xid (fst w') = next_xid (fst w) + 1 \<and> bind_done (fst w') = bind_done (fst w) \<and>
    (next_xid (fst w) < next_xid (fst w) + 1 \<longrightarrow> linked fresh c d w')"
proof -
  obtain cl sv where w: "w = (cl, sv)" by (cases w)
  let ?h = "client_header proc cl" and ?x = "next_xid cl"
  let ?Q = "\<lambda>sv'. obj sv' = x \<and> nonce sv' = nonce sv \<and> procs sv' = procs sv \<and>
    (?x < ?x + 1 \<longrightarrow> server_ready d (clt_nonce cl) (?x + 1) sv')"
  have cr: "client_ready fresh c cl" and sr: "server_ready d (clt_nonce cl) ?x sv"
    and sn: "srv_nonce cl = 0 \<or> srv_nonce cl = nonce sv"
    using linked by (simp_all add: linked_def w)
  have ack: "hd (xid_rep_window cl) < ?x"
    using cr by (auto simp: client_ready_def seen_def)
  have "\<exists>buf n sv'. serve d b sv = Inr ((Some buf, n), sv') \<and>
      reply_message \<lparr>rp_xid = ?x, rp_ret = ret\<rparr> rpl (take (nat n) buf) \<and> ?Q sv'"
    if "take 20 (drop 4 b) = enc_req_header ?h" "drop 24 b = pl" "length b = 24 + length pl" for b
  proof -
    have h: "rq_clt_nonce ?h = clt_nonce cl" "rq_xid ?h = ?x" "rq_proc ?h = proc" "rq_xid_rep ?h < ?x"
        "rq_srv_nonce ?h = 0 \<or> rq_srv_nonce ?h = nonce sv"
      using ack sn by (simp_all add: client_header_def)
    have "clt_nonce cl \<noteq> 0" "int (length b) \<le> int_max" using cr req(3) that by (simp_all add: client_ready_def)
    with serve_replies [OF that, of d sv f ret rep' x rpl] sr f rep(1,2) ret h show ?thesis
      by (simp add: w) blast
  qed
  note served = this
  have p': "(proc = rpc_bind) \<noteq> bind_done cl" using p by (simp add: w)
  obtain un cl' sv' where "exchange fresh net t d now proc req rep to (cl, sv) = Inr (ret, un, (cl', sv'))"
      "received rpl un" "?Q sv'" "next_xid cl' = ?x + 1" "bind_done cl' = bind_done cl"
      "clt_nonce cl' = clt_nonce cl" "srv_nonce cl' = srv_nonce cl" "?x < ?x + 1 \<longrightarrow> client_ready fresh c cl'"
    using exchange_completes [where Q = ?Q and t = t and rep = rep, OF cr net p' req(1,2) now rep(3) served] by blast
  with sn show ?thesis by (intro exI [of _ un] exI [of _ "(cl', sv')"]) (simp add: w linked_def)
qed

section \<open>Typed calls\<close>

text \<open>
  A result is read into a variable of the caller, whose old value must not matter.
\<close>

locale result_codec =
  fixes putR :: "'r writer" and getR :: "'r reader" and encR :: "'r \<Rightarrow> u8 list" and fitsR :: "'r \<Rightarrow> bool"
  assumes put_result: "fitsR r \<Longrightarrow> wfm m \<Longrightarrow> m_ind m + int (length (encR r)) < msg_limit \<Longrightarrow>
      \<exists>m'. putR r m = Inr m' \<and> wfm m' \<and> contents m' = contents m @ map Some (encR r)"
    and get_result: "fitsR r \<Longrightarrow> wfu u \<Longrightarrow> u_ok u \<Longrightarrow> unread u = encR r @ bs \<Longrightarrow> reads u (getR z u) r bs"

lemma result_codecI:
  assumes "wire_codec putR getR encR dflt fitsR" and "\<And>z u. getR z u = getR dflt u"
  shows "result_codec putR getR encR fitsR"
proof
  fix r m
  show "fitsR r \<Longrightarrow> wfm m \<Longrightarrow> m_ind m + int (length (encR r)) < msg_limit \<Longrightarrow>
      \<exists>m'. putR r m = Inr m' \<and> wfm m' \<and> contents m' = contents m @ map Some (encR r)"
    by (rule wire_codec.put_appends [OF assms(1)])
next
  fix r u bs z
  show "fitsR r \<Longrightarrow> wfu u \<Longrightarrow> u_ok u \<Longrightarrow> unread u = encR r @ bs \<Longrightarrow> reads u (getR z u) r bs"
    unfolding assms(2) [of z] by (rule wire_codec.get_decodes [OF assms(1)])
qed

interpretation int_result: result_codec put_int get_int be32 "\<lambda>_. True"
  by (rule result_codecI [OF int_codec.wire_codec_axioms]) (simp add: get_int_def)

interpretation string_result: result_codec put_string get_string enc_string string_fits
proof
  fix r u bs z
  assume fits: "string_fits r" and u: "wfu u" "u_ok u" "unread u = enc_string r @ bs"
  obtain u1 where u1: "get_u32 0 u = Inr (word_of_nat (length r), u1)" "wfu u1" "unread u1 = r @ bs" "u_ok u1"
    using u32_codec.get_decodes [of u "word_of_nat (length r)" "r @ bs"] u
    by (auto simp: reads_def enc_string_def)
  have n: "unat (word_of_nat (length r) :: u32) = length r"
    using fits by (intro string_length_word) (simp add: string_fits_def)
  have "uint (word_of_nat (length r) :: u32) \<le> int (length (unread u1))"
    by (simp only: uint_le_int n u1) simp
  from rawbytes_in [OF u1(2) this, of z] u1 u(2) show "reads u (get_string z u) r bs"
    by (auto simp: reads_def get_string_def n)
qed (rule string_codec.put_appends)

locale remote_method = A: strict_codec putA getA encA dfltA fitsA + R: result_codec putR getR encR fitsR
  for putA :: "'a writer" and getA encA dfltA fitsA and putR :: "'r writer" and getR encR fitsR
begin

text \<open>
  A call of a registered method over the network returns the method's status and result, and leaves
  the server's object in the state the method left it in.
\<close>

lemma remote_handled:
  assumes linked: "linked fresh c d w" and net: "\<And>m. carried m (net m)" and p: "(proc = rpc_bind) \<noteq> bind_done (fst w)"
    and now: "ts_normal now" "0 < tv_sec now" "0 \<le> to"
    and proc: "procs (snd w) proc = Some f"
    and f: "\<And>u m. received (encA a) u \<Longrightarrow>
      \<exists>u'. f u m (obj (snd w)) = rbind (putR r' m) (\<lambda>m. Inr (ret, u', m, x))" "0 \<le>s ret"
    and a: "fitsA a" "int (length (encA a)) + 24 < msg_limit"
    and r': "fitsR r'" "int (length (encR r')) + 24 < msg_limit"
  shows "\<exists>w'. rpcc_call1 putA (exchange fresh net t d now) getR proc a z to w = Inr (ret, r', w') \<and>
    obj (snd w') = x \<and> procs (snd w') = procs (snd w) \<and> nonce (snd w') = nonce (snd w) \<and>
    next_xid (fst w') = next_xid (fst w) + 1 \<and> bind_done (fst w') = bind_done (fst w) \<and>
    (next_xid (fst w) < next_xid (fst w) + 1 \<longrightarrow> linked fresh c d w')"
proof -
  have lim: "msg_limit \<le> int_max" by (simp add: limits)
  obtain req where req: "putA a marshall_new = Inr req" "wfm req"
      "contents req = replicate 24 None @ map Some (encA a)"
    using A.put_appends [OF a(1) wfm_new] a(2) by (auto simp: contents_new add.commute)
  obtain rep where rep: "putR r' marshall_new = Inr rep" "wfm rep"
      "contents rep = replicate 24 None @ map Some (encR r')"
    using R.put_result [OF r'(1) wfm_new] r'(2) by (auto simp: contents_new add.commute)
  have run: "\<exists>u'. f u marshall_new (obj (snd w)) = Inr (ret, u', rep, x)" if "received (encA a) u" for u
    using f(1) [OF that, of marshall_new] rep(1) by simp
  obtain un w' where ex: "exchange fresh net t d now proc req unmarshall_empty to w = Inr (ret, un, w')"
      "received (encR r') un" "obj (snd w') = x" "procs (snd w') = procs (snd w)"
      "nonce (snd w') = nonce (snd w)" "next_xid (fst w') = next_xid (fst w) + 1"
      "bind_done (fst w') = bind_done (fst w)" "next_xid (fst w) < next_xid (fst w) + 1 \<longrightarrow> linked fresh c d w'"
    using exchange_calls [OF linked net p req(2,3) _ now proc run rep(2,3), of t unmarshall_empty]
      a(2) r'(2) lim f(2) by fastforce
  obtain un' where "getR z un = Inr (r', un')" "okdone un'"
    using R.get_result [OF r'(1), of un "[]" z] ex(2)
    by (auto simp: received_def reads_def okdone_def dest!: unread_length)
  moreover have "\<not> ret <s 0" using f(2) by (simp add: word_sle_eq word_sless_alt)
  ultimately show ?thesis
    using req(1) ex by (auto simp: rpcc_call1_def call_m_def)
qed

lemma remote_call:
  assumes linked: "linked fresh c d w" and net: "\<And>m. carried m (net m)" and p: "(proc = rpc_bind) \<noteq> bind_done (fst w)"
    and now: "ts_normal now" "0 < tv_sec now" "0 \<le> to"
    and proc: "procs (snd w) proc = Some (h1_fn getA dfltA putR r0 meth)"
    and a: "fitsA a" "int (length (encA a)) + 24 < msg_limit"
    and meth: "meth a r0 (obj (snd w)) = (ret, r', x)" "0 \<le>s ret"
    and r': "fitsR r'" "int (length (encR r')) + 24 < msg_limit"
  shows "\<exists>w'. rpcc_call1 putA (exchange fresh net t d now) getR proc a z to w = Inr (ret, r', w') \<and>
    obj (snd w') = x \<and> procs (snd w') = procs (snd w) \<and> nonce (snd w') = nonce (snd w) \<and>
    next_xid (fst w') = next_xid (fst w) + 1 \<and> bind_done (fst w') = bind_done (fst w) \<and>
    (next_xid (fst w) < next_xid (fst w) + 1 \<longrightarrow> linked fresh c d w')"
proof -
  have "\<exists>u'. h1_fn getA dfltA putR r0 meth u m (obj (snd w)) = rbind (putR r' m) (\<lambda>m. Inr (ret, u', m, x))"
    if "received (encA a) u" for u m
    using A.handler_accepts [OF a(1) that, of putR r0 meth m "obj (snd w)"] meth by auto
  from remote_handled [OF linked net p now proc this meth(2) a r'] show ?thesis .
qed

end

section \<open>Binding\<close>

definition rpcc_bind :: "(rpcc \<times> 'v) caller1 \<Rightarrow> i32 \<Rightarrow> int \<Rightarrow> rpcc \<times> 'v \<Rightarrow> (i32 \<times> rpcc \<times> 'v) res" where
  "rpcc_bind call1 r to w =
     rbind (rpcc_call1 put_int call1 get_int rpc_bind 0 r to w) (\<lambda>(ret, r, w).
     let (ret, cl) = bind_end ret r (fst w) in Inr (ret, cl, snd w))"

interpretation bind_method: remote_method put_int get_int be32 0 "\<lambda>_. True" put_int get_int be32 "\<lambda>_. True"
  by unfold_locales

text \<open>A client that was just made is bound to the server's instance by the call of \<^verbatim>\<open>bind\<close>.\<close>

lemma bind_links:
  assumes linked: "linked fresh c d w" and net: "\<And>m. carried m (net m)" and unbound: "\<not> bind_done (fst w)"
    and now: "ts_normal now" "0 < tv_sec now" "0 \<le> to"
    and proc: "procs (snd w) rpc_bind = Some (h1_fn get_int 0 put_int r0 (rpcbind (nonce (snd w))))"
    and x: "next_xid (fst w) < next_xid (fst w) + 1"
  shows "\<exists>w'. rpcc_bind (exchange fresh net t d now) r to w = Inr (0, w') \<and> linked fresh c d w' \<and>
    bind_done (fst w') \<and> srv_nonce (fst w') = nonce (snd w) \<and> next_xid (fst w') = next_xid (fst w) + 1 \<and>
    procs (snd w') = procs (snd w) \<and> obj (snd w') = obj (snd w)"
proof -
  obtain w1 where w1: "rpcc_call1 put_int (exchange fresh net t d now) get_int rpc_bind 0 r to w =
      Inr (0, nonce (snd w), w1)"
      "obj (snd w1) = obj (snd w)" "procs (snd w1) = procs (snd w)" "nonce (snd w1) = nonce (snd w)"
      "next_xid (fst w1) = next_xid (fst w) + 1" "linked fresh c d w1"
    using bind_method.remote_call [OF linked net _ now proc, of 0 0 "nonce (snd w)" "obj (snd w)" t r] unbound x
    by (auto simp: rpcbind_def limits)
  then show ?thesis
    by (auto simp: rpcc_bind_def bind_end_def linked_def client_ready_def)
qed

text \<open>A new client and a new server with a connection between them.\<close>

lemma new_linked:
  assumes "random \<noteq> 0" and "\<not> dead k" "1 \<le> refno k" "heap s d = Some kd" "\<not> dead kd" "1 \<le> refno kd"
    and "conns s = Map.empty" "counting s = 0" "reply_window s = Map.empty"
  shows "linked (Some (c, k)) c d (rpcc_new True random, s)"
  using assms
  by (auto simp: linked_def client_ready_def server_ready_def rpcc_new_def window_ok_def seen_def reply_list_def)

end
