(* ===== verification/Rpc_Origin.thy ===== *)
theory Rpc_Origin
  imports Rpc_Server_Runs Rpc_Client_Runs Rpc_Call
begin

text \<open>
  Where the results of calls come from, with a client and a server whose threads interleave in any way
  and a network that may lose, delay, duplicate and reorder messages in both directions. Every message
  the client sends is the request of a call, with its header and its arguments; every message the server
  sends is a reply that a handler has computed for a request it was given, or a refusal. Together: what
  a call returns is what the handler of the procedure computed from the arguments of this call.
\<close>

section \<open>The messages of the server\<close>

text \<open>A request of \<open>D\<close>, a set of messages, with its header and its arguments ready to be read.\<close>

definition asks :: "(u8 list option \<times> int) set \<Rightarrow> req_header \<Rightarrow> unmarshall \<Rightarrow> bool" where
  "asks D h req \<longleftrightarrow> (\<exists>(b, sz) \<in> D. unpack_req_header (unmarshall_new b sz) = Inr (h, req)) \<and> u_ok req"

text \<open>The buffer and the size of a reply with a header in front of what is in \<open>rep\<close>.\<close>

definition packed_reply :: "u32 \<Rightarrow> i32 \<Rightarrow> marshall \<Rightarrow> block option \<Rightarrow> int \<Rightarrow> bool" where
  "packed_reply x ret rep b sz \<longleftrightarrow>
     (\<exists>m. pack_reply_header \<lparr>rp_xid = x, rp_ret = ret\<rparr> rep = Inr m \<and> b = m_buf m \<and> sz = m_ind m)"

text \<open>A reply that a registered handler has computed for a request, and a refusal.\<close>

definition computed ::
  "(i32 \<rightharpoonup> 's handler) \<Rightarrow> (u8 list option \<times> int) set \<Rightarrow> block option \<Rightarrow> int \<Rightarrow> bool" where
  "computed pt D b sz \<longleftrightarrow>
     (\<exists>h req f x ret req' rep x'. asks D h req \<and> pt (rq_proc h) = Some f \<and>
        f req marshall_new x = Inr (ret, req', rep, x') \<and> packed_reply (rq_xid h) ret rep b sz)"

definition refused :: "(u8 list option \<times> int) set \<Rightarrow> block option \<Rightarrow> int \<Rightarrow> bool" where
  "refused D b sz \<longleftrightarrow>
     (\<exists>h req ret. asks D h req \<and> ret \<in> {oldsrv_failure, atmostonce_failure} \<and>
        packed_reply (rq_xid h) ret marshall_new b sz)"

abbreviation replied ::
  "(i32 \<rightharpoonup> 's handler) \<Rightarrow> (u8 list option \<times> int) set \<Rightarrow> block option \<Rightarrow> int \<Rightarrow> bool" where
  "replied pt D b sz \<equiv> computed pt D b sz \<or> refused D b sz"

fun job_ok :: "(i32 \<rightharpoonup> 's handler) \<Rightarrow> (u8 list option \<times> int) set \<Rightarrow> 's job \<Rightarrow> bool" where
  "job_ok pt D (Queued c b sz) \<longleftrightarrow> (b, sz) \<in> D"
| "job_ok pt D (At_window h req c f) \<longleftrightarrow> asks D h req \<and> pt (rq_proc h) = Some f"
| "job_ok pt D (At_conns h req c f) \<longleftrightarrow> asks D h req \<and> pt (rq_proc h) = Some f"
| "job_ok pt D (At_check h req c f) \<longleftrightarrow> asks D h req \<and> pt (rq_proc h) = Some f"
| "job_ok pt D (Running h req c f) \<longleftrightarrow> asks D h req \<and> pt (rq_proc h) = Some f"
| "job_ok pt D (At_reply h c b sz) \<longleftrightarrow> computed pt D b sz"
| "job_ok pt D (At_latest h c b sz) \<longleftrightarrow> computed pt D b sz"
| "job_ok pt D (At_send c b sz) \<longleftrightarrow> replied pt D b sz"
| "job_ok pt D Finished \<longleftrightarrow> True"

definition window_replies :: "(i32 \<rightharpoonup> 's handler) \<Rightarrow> (u8 list option \<times> int) set \<Rightarrow> reply_window \<Rightarrow> bool" where
  "window_replies pt D w \<longleftrightarrow>
     (\<forall>clt. \<forall>e \<in> set (reply_list w clt). cb_present e \<longrightarrow> computed pt D (r_buf e) (r_sz e))"

definition server_ok :: "(i32 \<rightharpoonup> 's handler) \<Rightarrow> (u8 list option \<times> int) set \<Rightarrow> 's rpcs \<Rightarrow> bool" where
  "server_ok pt D s \<longleftrightarrow> procs s = pt \<and> window_replies pt D (reply_window s) \<and>
     (\<forall>(c, b, sz) \<in> set (sent s). replied pt D b sz)"

text \<open>Operations on connections leave all this alone.\<close>

definition same_replies :: "'s rpcs \<Rightarrow> 's rpcs \<Rightarrow> bool" where
  "same_replies s s' \<longleftrightarrow> procs s' = procs s \<and> reply_window s' = reply_window s \<and> sent s' = sent s"

lemma same_replies_ok: "same_replies s s' \<Longrightarrow> server_ok pt D s' = server_ok pt D s"
  by (simp add: same_replies_def server_ok_def)

lemma same_replies_trans: "same_replies s s' \<Longrightarrow> same_replies s' s'' \<Longrightarrow> same_replies s s''"
  by (simp add: same_replies_def)

lemma conn_ops_same:
  "conn_incref c s = Inr s' \<Longrightarrow> same_replies s s'" "conn_decref c s = Inr s' \<Longrightarrow> same_replies s s'"
  by (auto simp: same_replies_def elim!: conn_incrE conn_decrE)

lemma same_conns: "same_replies s (s\<lparr>conns := x\<rparr>)" "same_replies (s\<lparr>conns := x\<rparr>) s' \<longleftrightarrow> same_replies s s'"
    "same_replies s (s'\<lparr>conns := x\<rparr>) \<longleftrightarrow> same_replies s s'"
  by (simp_all add: same_replies_def)

lemma save_conn_same: "save_conn clt c s = Inr s' \<Longrightarrow> same_replies s s'"
  by (auto simp: save_conn_def rbind_eq_Inr same_conns same_replies_def split: option.splits if_splits
      elim!: conn_incrE conn_decrE)

lemma latest_conn_same:
  assumes "latest_conn h c s = Inr (c', s')"
  shows "same_replies s s'"
proof -
  obtain d where "conn_isdead c s = Inr d" using assms by (auto simp: latest_conn_def rbind_eq_Inr)
  then show ?thesis using assms
    by (cases "case conns s (rq_clt_nonce h) of None \<Rightarrow> None | Some p \<Rightarrow> p")
      (auto simp: latest_conn_def rbind_eq_Inr Let_def same_replies_def split: if_splits
        elim!: conn_incrE conn_decrE)
qed

lemma check_replies:
  assumes "window_replies pt D w" and "checkduplicate_and_update clt x r w = (st, kept, w')"
  shows "window_replies pt D w'" and "kept = Some (b, sz) \<Longrightarrow> computed pt D b sz"
proof -
  have "set (reply_list w' clt') \<subseteq> insert (reply_new x) (set (reply_list w clt'))" for clt'
    using checkduplicate_list [OF assms(2)] checkduplicate_other [OF _ assms(2)]
    by (cases "clt' = clt") (auto split: if_splits)
  with assms(1) show "window_replies pt D w'" by (fastforce simp: window_replies_def reply_new_def)
  assume "kept = Some (b, sz)"
  then obtain e where "fst (scan_replies x r None (reply_list w clt)) = Some e" "cb_present e" "b = r_buf e" "sz = r_sz e"
    using assms(2) by (auto simp: checkduplicate_and_update_def Let_def split: if_splits prod.splits option.splits)
  with scan_some [of x r None "reply_list w clt" e] assms(1) show "computed pt D b sz" by (auto simp: window_replies_def)
qed

lemma add_reply_replies:
  assumes "window_replies pt D w" and "computed pt D b sz"
  shows "window_replies pt D (add_reply clt x b sz w)"
  using assms by (auto simp: window_replies_def add_reply_def split: if_splits)

lemma send_replied: "server_ok pt D s \<Longrightarrow> replied pt D b sz \<Longrightarrow> conn_send c b sz s = Inr s' \<Longrightarrow> server_ok pt D s'"
  by (auto simp: server_ok_def elim!: conn_sendE)

lemma leave_replied: "server_ok pt D s \<Longrightarrow> leave c s = Inr (j, s') \<Longrightarrow> server_ok pt D s' \<and> job_ok pt D j"
  by (auto simp: leave_def rbind_eq_Inr same_replies_ok dest!: conn_ops_same)

lemma header_replied:
  assumes "server_ok pt D s" and "(b, sz) \<in> D" and "dispatch_header c b sz s = Inr (j, s')"
  shows "server_ok pt D s' \<and> job_ok pt D j"
proof -
  obtain h req where u: "unpack_req_header (unmarshall_new b sz) = Inr (h, req)"
    using assms(3) by (auto simp: dispatch_header_def rbind_eq_Inr)
  show ?thesis
  proof (cases "u_ok req")
    case False
    with assms(3) u leave_replied [OF assms(1)] show ?thesis by (simp add: dispatch_header_def)
  next
    case True
    with u assms(2) have asks: "asks D h req" by (auto simp: asks_def)
    have pt: "procs s = pt" using assms(1) by (simp add: server_ok_def)
    consider (old) rep where "pack_reply_header \<lparr>rp_xid = rq_xid h, rp_ret = oldsrv_failure\<rparr> marshall_new = Inr rep"
        "conn_send c (m_buf rep) (m_ind rep) s = Inr s'" "j = Finished"
      | (unknown) "leave c s = Inr (j, s')"
      | (known) f where "pt (rq_proc h) = Some f" "s' = s" "j = At_window h req c f \<or> j = Running h req c f"
      using assms(3) u True pt by (auto simp: dispatch_header_def rbind_eq_Inr split: if_splits option.splits)
    then show ?thesis
    proof cases
      case old
      with asks have "refused D (m_buf rep) (m_ind rep)" by (auto simp: refused_def packed_reply_def)
      with old send_replied [OF assms(1)] show ?thesis by auto
    qed (insert asks assms(1) leave_replied [OF assms(1)], auto)
  qed
qed

lemma check_replied:
  assumes "server_ok pt D s" and "asks D h req" and "pt (rq_proc h) = Some f" and "dispatch_check h req c f s = Inr (j, s')"
  shows "server_ok pt D s' \<and> job_ok pt D j"
proof -
  obtain st kept w where chk:
    "checkduplicate_and_update (rq_clt_nonce h) (rq_xid h) (rq_xid_rep h) (reply_window s) = (st, kept, w)"
    by (metis prod_cases3)
  let ?s = "s\<lparr>reply_window := w\<rparr>"
  have win: "window_replies pt D (reply_window s)" using assms(1) by (simp add: server_ok_def)
  have ok: "server_ok pt D ?s" using assms(1) check_replies(1) [OF win chk] by (simp add: server_ok_def)
  show ?thesis
  proof (cases st)
    case FORGOTTEN
    then obtain rep where "pack_reply_header \<lparr>rp_xid = rq_xid h, rp_ret = atmostonce_failure\<rparr> marshall_new = Inr rep"
        "j = At_send c (m_buf rep) (m_ind rep)" "s' = ?s"
      using assms(4) chk by (auto simp: dispatch_check_def rbind_eq_Inr)
    with ok assms(2) show ?thesis by (auto simp: refused_def packed_reply_def)
  next
    case DONE
    then obtain b sz where "kept = Some (b, sz)" "j = At_send c b sz" "s' = ?s"
      using assms(4) chk by (auto simp: dispatch_check_def split: option.splits)
    with ok check_replies(2) [OF win chk] show ?thesis by simp
  qed (insert assms(2-4) chk ok leave_replied [OF ok], auto simp: dispatch_check_def)
qed

lemma run_replied:
  assumes "server_ok pt D s" and "asks D h req" and "pt (rq_proc h) = Some f" and "dispatch_run h req c f s = Inr (j, s')"
  shows "server_ok pt D s' \<and> job_ok pt D j"
proof -
  obtain s1 ret req' rep x m where
      s1: "(if counting s \<noteq> 0 then updatestat (rq_proc h) s else Inr s) = Inr s1"
    and f: "f req marshall_new (obj s1) = Inr (ret, req', rep, x)"
    and m: "pack_reply_header \<lparr>rp_xid = rq_xid h, rp_ret = ret\<rparr> rep = Inr m"
    and j: "j = At_reply h c (m_buf m) (m_ind m) \<or> j = At_latest h c (m_buf m) (m_ind m)" "s' = s1\<lparr>obj := x\<rparr>"
    using assms(4) by (auto simp: dispatch_run_def rbind_eq_Inr Let_def marshall_take_buf_def split: if_splits)
  have "same_replies s s'"
    using s1 j(2) by (auto simp: updatestat_def rbind_eq_Inr Let_def same_replies_def split: if_splits)
  moreover have "computed pt D (m_buf m) (m_ind m)"
    unfolding computed_def packed_reply_def using assms(2,3) f m by blast
  ultimately show ?thesis using assms(1) j(1) by (auto simp: same_replies_ok)
qed

lemma dispatch_step_replied:
  assumes "server_ok pt D s" and "job_ok pt D j" and "dispatch_step j s = Inr (j', s')"
  shows "server_ok pt D s' \<and> job_ok pt D j'"
proof (cases j)
  case (Queued c b sz)
  with assms header_replied [OF assms(1)] show ?thesis by simp
next
  case (At_check h req c f)
  with assms check_replied [OF assms(1), of h req f c j' s'] show ?thesis by simp
next
  case (Running h req c f)
  with assms run_replied [OF assms(1), of h req f c j' s'] show ?thesis by simp
next
  case (At_window h req c f)
  with assms show ?thesis
    by (auto simp: server_ok_def window_replies_def new_client_lists) (auto simp: new_client_def split: option.splits)
next
  case (At_reply h c b sz)
  with assms add_reply_replies show ?thesis by (auto simp: server_ok_def dispatch_reply_def)
next
  case (At_send c b sz)
  with assms(3) obtain s1 where "conn_send c b sz s = Inr s1" "leave c s1 = Inr (j', s')" by (auto simp: rbind_eq_Inr)
  with At_send assms(1,2) send_replied leave_replied show ?thesis by (metis job_ok.simps(8))
qed (insert assms, auto simp: rbind_eq_Inr same_replies_ok dest!: save_conn_same latest_conn_same)

text \<open>All executions of the server that are given messages of \<open>D\<close> only.\<close>

fun event_ok :: "(u8 list option \<times> int) set \<Rightarrow> amo_event \<Rightarrow> bool" where
  "event_ok D (Request clt x r) \<longleftrightarrow>
     (\<exists>h req. asks D h req \<and> clt = rq_clt_nonce h \<and> x = rq_xid h \<and> r = rq_xid_rep h)"
| "event_ok D (Finish clt x b sz) \<longleftrightarrow> True"

lemma job_events_ok: "job_ok pt D j \<Longrightarrow> e \<in> set (job_events j) \<Longrightarrow> event_ok D e"
  by (cases j) auto

definition sworld_ok :: "(i32 \<rightharpoonup> 's handler) \<Rightarrow> (u8 list option \<times> int) set \<Rightarrow> 's sworld \<Rightarrow> bool" where
  "sworld_ok pt D w \<longleftrightarrow> server_ok pt D (srv w) \<and> (\<forall>j \<in> set (jobs w). job_ok pt D j) \<and> (\<forall>e \<in> set (trace w). event_ok D e)"

fun gives :: "(u8 list option \<times> int) set \<Rightarrow> server_event \<Rightarrow> bool" where
  "gives D (Deliver c b sz succ) \<longleftrightarrow> (b, sz) \<in> D" | "gives D _ \<longleftrightarrow> True"

lemma sworld_step_ok:
  assumes "gives D e" and "sworld_ok pt D w" and "server_exec e w = Inr w'"
  shows "sworld_ok pt D w'"
proof (cases e)
  case (Deliver c b sz succ)
  with assms show ?thesis
    by (auto simp: sworld_ok_def rpcs_got_pdu_def rbind_eq_Inr same_replies_ok split: if_splits dest!: conn_ops_same)
next
  case (Step i)
  show ?thesis
  proof (cases "i < length (jobs w)")
    case True
    then have "job_ok pt D (jobs w ! i)" using assms(2) by (simp add: sworld_ok_def)
    moreover obtain j s where "dispatch_step (jobs w ! i) (srv w) = Inr (j, s)" "srv w' = s" "jobs w' = (jobs w)[i := j]"
        "trace w' = trace w @ job_events (jobs w ! i)"
      using assms(3) Step True by (auto simp: Let_def rbind_eq_Inr)
    ultimately show ?thesis
      using assms(2) dispatch_step_replied [of pt D "srv w" "jobs w ! i" j s]
      by (auto simp: sworld_ok_def dest!: subsetD [OF set_update_subset_insert] dest: job_events_ok)
  qed (insert assms Step, simp)
qed (insert assms, auto simp: sworld_ok_def rbind_eq_Inr same_replies_def server_ok_def
    split: if_splits option.splits dest!: conn_ops_same)

lemma run_sworld_ok:
  assumes "fresh s" and "sent s = []" and "run_events server_exec es (sworld_new s) = Inr v"
    and "\<And>e. e \<in> set es \<Longrightarrow> gives D e"
  shows "sworld_ok (procs s) D v"
proof -
  have "sworld_ok (procs s) D (sworld_new s)"
    using assms(1,2) by (simp add: sworld_ok_def sworld_new_def server_ok_def fresh_def window_replies_def reply_list_def)
  from run_events_invariant_on [where P = "sworld_ok (procs s) D", OF assms(3) this assms(4) sworld_step_ok]
  show ?thesis .
qed

lemma request_given:
  assumes "fresh s" and "sent s = []" and "run_events server_exec es (sworld_new s) = Inr v" and "Request clt x r \<in> set (trace v)"
  shows "\<exists>c b sz succ h u. Deliver c b sz succ \<in> set es \<and> unpack_req_header (unmarshall_new b sz) = Inr (h, u) \<and>
    clt = rq_clt_nonce h \<and> x = rq_xid h \<and> r = rq_xid_rep h"
proof -
  let ?D = "{(b, sz). \<exists>c succ. Deliver c b sz succ \<in> set es}"
  have "gives ?D e" if "e \<in> set es" for e
    using that by (cases "(?D, e)" rule: gives.cases) auto
  from run_sworld_ok [OF assms(1-3) this] assms(4) have "event_ok ?D (Request clt x r)"
    unfolding sworld_ok_def by blast
  then obtain h u b sz where "(b, sz) \<in> ?D" "unpack_req_header (unmarshall_new b sz) = Inr (h, u)"
      "clt = rq_clt_nonce h" "x = rq_xid h" "r = rq_xid_rep h"
    unfolding asks_def event_ok.simps by blast
  then show ?thesis by blast
qed

section \<open>The messages of the client\<close>

text \<open>
  Header and arguments of a call that the events \<open>es\<close> make, for a client that starts as \<open>s\<close>: the client is
  in a state to make it, and the header has the next number.
\<close>

definition made :: "rpcc \<Rightarrow> client_event list \<Rightarrow> req_header \<Rightarrow> marshall \<Rightarrow> bool" where
  "made s es h req \<longleftrightarrow>
     (\<exists>es1 es2 proc to garbage now w. es = es1 @ Call proc req to garbage now # es2 \<and>
        run_events client_exec es1 (cworld_new s) = Inr w \<and> (proc = rpc_bind) \<noteq> bind_done (cl w) \<and>
        h = client_header proc (cl w))"

lemma made_snoc: "made s es h req \<Longrightarrow> made s (es @ [e]) h req"
  unfolding made_def by force

definition requested :: "rpcc \<Rightarrow> client_event list \<Rightarrow> block option \<Rightarrow> int \<Rightarrow> bool" where
  "requested s es b sz \<longleftrightarrow>
     (\<exists>h req m. made s es h req \<and> pack_req_header h req = Inr m \<and> b = m_buf m \<and> sz = m_ind m)"

fun pc_ok :: "rpcc \<Rightarrow> client_event list \<Rightarrow> call_pc \<Rightarrow> bool" where
  "pc_ok s es (C_loop l) \<longleftrightarrow> requested s es (m_buf (lo_req l)) (m_ind (lo_req l))"
| "pc_ok s es (C_wait l) \<longleftrightarrow> requested s es (m_buf (lo_req l)) (m_ind (lo_req l))"
| "pc_ok s es (C_finish l) \<longleftrightarrow> True"
| "pc_ok s es (C_returned r) \<longleftrightarrow> True"

definition cworld_ok :: "rpcc \<Rightarrow> client_event list \<Rightarrow> cworld \<Rightarrow> bool" where
  "cworld_ok s es w \<longleftrightarrow> (\<forall>pc \<in> set (pcs w). pc_ok s es pc) \<and> (\<forall>(c, b, sz) \<in> set (csent (cl w)). requested s es b sz)"

lemma requested_snoc: "requested s es b sz \<Longrightarrow> requested s (es @ [e]) b sz"
  by (auto simp: requested_def dest: made_snoc)

lemma pc_ok_snoc: "pc_ok s es pc \<Longrightarrow> pc_ok s (es @ [e]) pc"
  by (cases pc) (auto dest: requested_snoc)

lemma cworld_ok_snoc: "cworld_ok s es w \<Longrightarrow> cworld_ok s (es @ [e]) w"
  by (auto simp: cworld_ok_def dest: pc_ok_snoc requested_snoc)

lemma transmit_sends:
  assumes "call1_transmit fr l s = Inr (l', s')"
  shows "lo_req l' = lo_req l" and "\<forall>(c, b, sz) \<in> set (csent s') - set (csent s). b = m_buf (lo_req l) \<and> sz = m_ind (lo_req l)"
proof -
  have "csent s2 = csent s" if "get_refconn fr (ch l) s = Inr (p, s2)" for p s2
    using that by (auto simp: get_refconn_def reconnect_def hand_out_def rbind_eq_Inr split: if_splits option.splits)
  with assms show "lo_req l' = lo_req l"
    and "\<forall>(c, b, sz) \<in> set (csent s') - set (csent s). b = m_buf (lo_req l) \<and> sz = m_ind (lo_req l)"
    by (auto simp: call1_transmit_def rbind_eq_Inr client_send_def split: if_splits option.splits)
qed

lemma round_sends:
  assumes "call1_round fr now l s = Inr (pc, s')" and "requested s0 es (m_buf (lo_req l)) (m_ind (lo_req l))"
  shows "pc_ok s0 es pc" and "\<forall>(c, b, sz) \<in> set (csent s') - set (csent s). requested s0 es b sz"
proof -
  obtain l1 where l1: "call1_transmit fr l s = Inr (l1, s')"
    using assms(1) by (auto simp: call1_round_def rbind_eq_Inr split: if_splits)
  note sends = transmit_sends [OF l1]
  show "pc_ok s0 es pc"
    using assms l1 sends(1) by (auto simp: call1_round_def rbind_eq_Inr split: if_splits)
  show "\<forall>(c, b, sz) \<in> set (csent s') - set (csent s). requested s0 es b sz"
    using sends(2) assms(2) by (auto dest!: bspec)
qed

lemma begin_sends:
  assumes "run_events client_exec es (cworld_new s) = Inr w"
    and "call1_begin t proc req un to garbage now (cl w) = Inr (pc, s')"
  shows "pc_ok s (es @ [Call proc req to garbage now]) pc" and "csent s' = csent (cl w)"
proof -
  show "csent s' = csent (cl w)"
    using assms(2) by (auto simp: call1_begin_def call1_register_def rbind_eq_Inr Let_def split: if_splits list.splits)
  show "pc_ok s (es @ [Call proc req to garbage now]) pc"
  proof (cases "(proc = rpc_bind) \<noteq> bind_done (cl w)")
    case True
    then have "made s (es @ [Call proc req to garbage now]) (client_header proc (cl w)) req"
      unfolding made_def using assms(1) by blast
    moreover have "\<exists>l. pc = C_loop l \<and> pack_req_header (client_header proc (cl w)) req = Inr (lo_req l)"
      using assms(2) True
      by (auto simp: call1_begin_def call1_register_def client_header_def rbind_eq_Inr Let_def split: list.splits)
    ultimately have "\<exists>l. pc = C_loop l \<and>
        requested s (es @ [Call proc req to garbage now]) (m_buf (lo_req l)) (m_ind (lo_req l))"
      unfolding requested_def by blast
    then show ?thesis by auto
  next
    case False
    with assms(2) show ?thesis by (auto simp: call1_begin_def call1_register_def split: if_splits)
  qed
qed

lemma got_pdu_csent:
  assumes "rpcc_got_pdu b sz s = Inr (r, s')"
  shows "csent s' = csent s"
proof -
  obtain h rep where u: "unpack_reply_header (unmarshall_new b sz) = Inr (h, rep)"
    using assms by (auto simp: rpcc_got_pdu_def rbind_eq_Inr)
  show ?thesis
  proof (cases "calls s (rp_xid h)")
    case None
    with assms u show ?thesis by (auto simp: rpcc_got_pdu_def rbind_eq_Inr split: if_splits)
  next
    case (Some t)
    with assms u show ?thesis
      by (cases "callers s t") (auto simp: rpcc_got_pdu_def rbind_eq_Inr Let_def case_prod_unfold split: if_splits)
  qed
qed

lemma cworld_step_ok:
  assumes "run_events client_exec es (cworld_new s) = Inr w" and "cworld_ok s es w" and "client_exec e w = Inr w'"
  shows "cworld_ok s (es @ [e]) w'"
proof -
  have ok: "cworld_ok s (es @ [e]) w" by (rule cworld_ok_snoc [OF assms(2)])
  have at: "pc_ok s (es @ [e]) (pcs w ! i)" if "i < length (pcs w)" for i
    using ok that by (simp add: cworld_ok_def)
  have upd: "\<forall>pc \<in> set ((pcs w)[i := pc']). pc_ok s (es @ [e]) pc" if "pc_ok s (es @ [e]) pc'" for i pc'
    using ok that by (auto simp: cworld_ok_def dest!: subsetD [OF set_update_subset_insert])
  show ?thesis
  proof (cases e)
    case (Call proc req to garbage now)
    then obtain pc s' where "call1_begin (length (pcs w)) proc req unmarshall_empty to garbage now (cl w) = Inr (pc, s')"
        "cl w' = s'" "pcs w' = pcs w @ [pc]"
      using assms(3) by (auto simp: rbind_eq_Inr)
    with begin_sends [OF assms(1)] ok Call show ?thesis by (auto simp: cworld_ok_def)
  next
    case (Round i fr now)
    show ?thesis
    proof (cases "w' = w")
      case False
      with assms(3) Round obtain l pc s' where l: "i < length (pcs w)" "pcs w ! i = C_loop l"
          "call1_round (map_option (\<lambda>(c, f, n). (c, fst (connection_new f n))) fr) now l (cl w) = Inr (pc, s')"
          "w' = w\<lparr>cl := s', pcs := (pcs w)[i := pc]\<rparr>"
        by (auto simp: rbind_eq_Inr split: if_splits call_pc.splits)
      with at [of i] round_sends [OF l(3), of s "es @ [e]"] upd ok show ?thesis by (fastforce simp: cworld_ok_def)
    qed (insert ok, simp)
  next
    case (Woken i b)
    show ?thesis
    proof (cases "w' = w")
      case False
      with assms(3) Woken obtain l pc s' where l: "i < length (pcs w)" "pcs w ! i = C_wait l"
          "call1_woken i b l (cl w) = Inr (pc, s')" "w' = w\<lparr>cl := s', pcs := (pcs w)[i := pc]\<rparr>"
        by (auto simp: rbind_eq_Inr split: if_splits call_pc.splits)
      moreover have "requested s (es @ [e]) (m_buf (lo_req l)) (m_ind (lo_req l))" using at [OF l(1)] unfolding l(2) by simp
      with l(3) have "pc_ok s (es @ [e]) pc" "s' = cl w"
        by (auto simp: call1_woken_def rbind_eq_Inr split: option.splits if_splits)
      ultimately show ?thesis using upd ok by (auto simp: cworld_ok_def)
    qed (insert ok, simp)
  next
    case (Return i)
    show ?thesis
    proof (cases "w' = w")
      case False
      with assms(3) Return obtain l pc un s' where l: "i < length (pcs w)" "pcs w ! i = C_finish l"
          "call1_end i l (cl w) = Inr (pc, un, s')" "cl w' = s'" "pcs w' = (pcs w)[i := pc]"
        by (auto simp: rbind_eq_Inr split: if_splits call_pc.splits)
      moreover from l(3) have "pc_ok s (es @ [e]) pc" "csent s' = csent (cl w)"
        by (auto simp: call1_end_def rbind_eq_Inr Let_def split: option.splits)
      ultimately show ?thesis using upd ok by (auto simp: cworld_ok_def)
    qed (insert ok, simp)
  next
    case (Reply b sz)
    with assms(3) ok got_pdu_csent show ?thesis by (auto simp: cworld_ok_def rbind_eq_Inr split: if_splits)
  qed (insert assms(3) ok, auto simp: cworld_ok_def bind_end_def split: option.splits if_splits)
qed

lemma client_requests:
  assumes "run_events client_exec es (cworld_new s) = Inr w" and "csent s = []"
  shows "cworld_ok s es w"
  using assms
proof (induction es arbitrary: w rule: rev_induct)
  case Nil
  then show ?case by (auto simp: cworld_ok_def cworld_new_def)
next
  case (snoc e es)
  then obtain w1 where "run_events client_exec es (cworld_new s) = Inr w1" "client_exec e w1 = Inr w"
    by (auto simp: run_events_snoc rbind_eq_Inr)
  with snoc.IH snoc.prems(2) cworld_step_ok show ?case by blast
qed

text \<open>The number of a call determines its header and its arguments.\<close>

lemma made_earlier:
  assumes "es = es1 @ Call proc req to garbage now # es2" and "es = es1' @ e' # es2'" and "length es1 < length es1'"
    and "run_events client_exec es1 (cworld_new (rpcc_new re n)) = Inr w" and "(proc = rpc_bind) \<noteq> bind_done (cl w)"
    and "run_events client_exec es1' (cworld_new (rpcc_new re n)) = Inr w'" and "length (requests w') + 1 < 2 ^ 32"
  shows "next_xid (cl w) < next_xid (cl w')"
proof -
  obtain us where us: "es1' = es1 @ Call proc req to garbage now # us"
    using assms(1-3) by (auto simp: append_eq_append_conv2 append_eq_Cons_conv Cons_eq_append_conv)
  then obtain w1 where w1: "client_exec (Call proc req to garbage now) w = Inr w1" "run_events client_exec us w1 = Inr w'"
    using assms(4,6) by (auto simp: run_events_append rbind_eq_Inr)
  have "length (requests w1) \<le> length (requests w')"
    by (rule run_events_invariant [OF w1(2)]) (auto dest: requests_grow)
  moreover have "length (requests w1) = Suc (length (requests w))"
    using w1(1) assms(5) by (auto simp: call1_begin_def call1_register_def rbind_eq_Inr Let_def split: if_splits list.splits)
  ultimately have less: "length (requests w) < length (requests w')" by simp
  have "client_inv w" "client_inv w'" using run_client_inv assms(4,6,7) less by auto
  with less show ?thesis by (auto simp: word_less_nat_alt xids_ok_def dest!: client_invD(2))
qed

lemma requests_prefix:
  assumes "run_events client_exec (es @ es') s = Inr w'" and "run_events client_exec es s = Inr w"
  shows "length (requests w) \<le> length (requests w')"
proof -
  have "run_events client_exec es' w = Inr w'" using assms by (simp add: run_events_append)
  then show ?thesis by (rule run_events_invariant) (auto dest: requests_grow)
qed

lemma made_unique:
  assumes "run_events client_exec es (cworld_new (rpcc_new re n)) = Inr w" and "length (requests w) + 1 < 2 ^ 32"
    and "made (rpcc_new re n) es h req" and "made (rpcc_new re n) es h' req'" and "rq_xid h' = rq_xid h"
  shows "h' = h \<and> req' = req"
proof -
  obtain es1 es2 p to g t w1 where a: "es = es1 @ Call p req to g t # es2"
      "run_events client_exec es1 (cworld_new (rpcc_new re n)) = Inr w1" "(p = rpc_bind) \<noteq> bind_done (cl w1)"
      "h = client_header p (cl w1)"
    using assms(3) unfolding made_def by blast
  obtain es1' es2' p' to' g' t' w1' where b: "es = es1' @ Call p' req' to' g' t' # es2'"
      "run_events client_exec es1' (cworld_new (rpcc_new re n)) = Inr w1'" "(p' = rpc_bind) \<noteq> bind_done (cl w1')"
      "h' = client_header p' (cl w1')"
    using assms(4) unfolding made_def by blast
  have "length (requests w1) + 1 < 2 ^ 32" "length (requests w1') + 1 < 2 ^ 32"
    using requests_prefix [OF _ a(2)] requests_prefix [OF _ b(2)] assms(1,2) a(1) b(1) by fastforce+
  moreover have "next_xid (cl w1') = next_xid (cl w1)" using assms(5) a(4) b(4) by (simp add: client_header_def)
  ultimately have "length es1 = length es1'"
    using made_earlier [OF a(1) b(1) _ a(2,3) b(2)] made_earlier [OF b(1) a(1) _ b(2,3) a(2)] by (metis less_irrefl linorder_neqE_nat)
  with a b show ?thesis by auto
qed

lemma requests_kept: "client_exec e w = Inr w' \<Longrightarrow> set (requests w) \<subseteq> set (requests w')"
  by (cases e) (auto simp: rbind_eq_Inr split: if_splits call_pc.splits option.splits)

lemma made_requests:
  assumes "run_events client_exec es (cworld_new s) = Inr w" and "made s es h req"
  shows "h \<in> set (requests w)"
proof -
  obtain es1 es2 p to g t w1 where a: "es = es1 @ Call p req to g t # es2"
      "run_events client_exec es1 (cworld_new s) = Inr w1" "(p = rpc_bind) \<noteq> bind_done (cl w1)" "h = client_header p (cl w1)"
    using assms(2) unfolding made_def by blast
  then obtain w2 where w2: "client_exec (Call p req to g t) w1 = Inr w2" "run_events client_exec es2 w2 = Inr w"
    using assms(1) by (auto simp: run_events_append rbind_eq_Inr)
  from w2(1) a(3,4) have "h \<in> set (requests w2)"
    by (auto simp: call1_begin_def call1_register_def client_header_def rbind_eq_Inr Let_def split: if_splits list.splits)
  with w2(2) show ?thesis by (rule run_events_invariant) (auto dest: requests_kept)
qed

definition the_call :: "rpcc \<Rightarrow> client_event list \<Rightarrow> u32 \<Rightarrow> req_header \<Rightarrow> marshall \<Rightarrow> bool" where
  "the_call s es x h req \<longleftrightarrow> made s es h req \<and> rq_xid h = x \<and>
     (\<forall>h' req'. made s es h' req' \<and> rq_xid h' = x \<longrightarrow> h' = h \<and> req' = req)"

section \<open>The network between them\<close>

text \<open>
  What arrives is something that was sent, with the bytes the sender did not write set to anything.
  Nothing is said about how often, when and in which order it arrives, or whether it does.
\<close>

definition arrives :: "(cid \<times> block option \<times> int) list \<Rightarrow> u8 list option \<Rightarrow> int \<Rightarrow> bool" where
  "arrives log b sz \<longleftrightarrow>
     (\<exists>(c, m, n) \<in> set log. \<exists>bt. b = Some bt \<and> sz = int (length bt) \<and> carried (wire_of (m, n)) bt)"

definition network :: "client_event list \<Rightarrow> cworld \<Rightarrow> server_event list \<Rightarrow> 's sworld \<Rightarrow> bool" where
  "network ces w ses v \<longleftrightarrow>
     (\<forall>b sz. Reply b sz \<in> set ces \<longrightarrow> arrives (sent (srv v)) b sz) \<and>
     (\<forall>c b sz succ. Deliver c b sz succ \<in> set ses \<longrightarrow> arrives (csent (cl w)) b sz)"

text \<open>A message under construction: room for the header, then the bytes written.\<close>

definition carries :: "marshall \<Rightarrow> u8 list \<Rightarrow> bool" where
  "carries m pl \<longleftrightarrow> wfm m \<and> contents m = replicate 24 None @ map Some pl \<and> int (length pl) + 24 \<le> int_max"

definition arguments_ok :: "client_event list \<Rightarrow> bool" where
  "arguments_ok ces \<longleftrightarrow> (\<forall>proc req to g t. Call proc req to g t \<in> set ces \<longrightarrow> (\<exists>args. carries req args))"

definition handlers_ok :: "(i32 \<rightharpoonup> 's handler) \<Rightarrow> bool" where
  "handlers_ok pt \<longleftrightarrow>
     (\<forall>p f u x ret u' rep x'. pt p = Some f \<longrightarrow> f u marshall_new x = Inr (ret, u', rep, x') \<longrightarrow> (\<exists>pl. carries rep pl))"

lemma carries_new: "carries marshall_new []"
  by (simp add: carries_def wfm_new contents_new int_max_def)

lemma wire_contents: "wfm m \<Longrightarrow> wire_of (m_buf m, m_ind m) = contents m"
  by (erule wfmE) (simp add: wire_of_def)

lemma request_arrives:
  assumes "carries req args" and "pack_req_header h req = Inr m" and "carried (wire_of (m_buf m, m_ind m)) bt"
  shows "\<exists>u. unpack_req_header (unmarshall_new (Some bt) (int (length bt))) = Inr (h, u) \<and> received args u"
proof -
  from assms(1,2) have "wfm m" "request_msg h args (contents m)" "int (length args) + 24 \<le> int_max"
    using header_packed(1) [of req args h] by (auto simp: carries_def)
  with request_carried [of h args "contents m" bt] assms(3)
  have bt: "take 20 (drop 4 bt) = enc_req_header h" "drop 24 bt = args" "length bt = 24 + length args"
      "int (length bt) \<le> int_max"
    by (simp_all add: wire_contents)
  then have "message (Some bt) (int (length bt))" "24 \<le> int (length bt)" by (auto simp: message_def limits)
  from unpack_req_header_decodes [OF this bt(1)] bt(2) show ?thesis by auto
qed

lemma reply_arrives:
  assumes "carries rep pl" and "packed_reply x ret rep m n" and "carried (wire_of (m, n)) bt"
  shows "reply_of (Some bt) (int (length bt)) = [(x, ret, taken (Some bt) (int (length bt)))]"
    and "received pl (taken (Some bt) (int (length bt)))"
proof -
  let ?k = "\<lparr>rp_xid = x, rp_ret = ret\<rparr>" and ?n = "int (length bt)"
  obtain q where q: "pack_reply_header ?k rep = Inr q" "m = m_buf q" "n = m_ind q"
    using assms(2) by (auto simp: packed_reply_def)
  with assms(1) have "wfm q" "reply_message ?k pl (contents q)" "int (length pl) + 24 \<le> int_max"
    using header_packed(2) [of rep pl ?k] by (auto simp: carries_def)
  with reply_carried [of ?k pl "contents q" bt] assms(3) q
  have bt: "take 8 (drop 4 bt) = enc_reply_header ?k" "drop 24 bt = pl" "length bt = 24 + length pl" "?n \<le> int_max"
    by (simp_all add: wire_contents)
  then have msg: "message (Some bt) ?n" "24 \<le> ?n" by (auto simp: message_def limits)
  from unpack_reply_header_decodes [OF this bt(1)] obtain u where
    u: "unpack_reply_header (unmarshall_new (Some bt) ?n) = Inr (?k, u)" "received pl u" using bt(2) by auto
  then show "reply_of (Some bt) ?n = [(x, ret, taken (Some bt) ?n)]" by (simp add: reply_of_def received_def)
  show "received pl (taken (Some bt) ?n)"
    using payload_at [OF msg, of "taken (Some bt) ?n"] bt(2,3) by (simp add: received_def taken_def)
qed

lemma reply_step:
  "client_exec e w = Inr w' \<Longrightarrow> r \<in> set (replies w') \<Longrightarrow>
   r \<in> set (replies w) \<or> (\<exists>b sz. e = Reply b sz \<and> r \<in> set (reply_of b sz))"
  by (cases e) (auto simp: rbind_eq_Inr split: if_splits call_pc.splits option.splits)

lemma replies_received:
  assumes "run_events client_exec es (cworld_new s) = Inr w" and "r \<in> set (replies w)"
  shows "\<exists>b sz. Reply b sz \<in> set es \<and> r \<in> set (reply_of b sz)"
proof -
  let ?P = "\<lambda>w. \<forall>r \<in> set (replies w). \<exists>b sz. Reply b sz \<in> set es \<and> r \<in> set (reply_of b sz)"
  have "?P w"
  proof (rule run_events_invariant_on [where P = ?P and Q = "\<lambda>e. e \<in> set es", OF assms(1)])
    show "?P (cworld_new s)" by (simp add: cworld_new_def)
    show "?P w'" if "e \<in> set es" "?P v" "client_exec e v = Inr w'" for e v w'
      using that reply_step by blast
  qed
  with assms(2) show ?thesis by blast
qed

section \<open>Where results come from\<close>

text \<open>A message of the client that arrives is the request of one of its calls, with its arguments.\<close>

lemma message_of_call:
  assumes "cworld_ok s ces w" and "arguments_ok ces" and "arrives (csent (cl w)) b sz"
  shows "\<exists>h u req args. unpack_req_header (unmarshall_new b sz) = Inr (h, u) \<and> made s ces h req \<and>
    carries req args \<and> received args u"
proof -
  obtain c m n bt where m: "(c, m, n) \<in> set (csent (cl w))" "b = Some bt" "sz = int (length bt)" "carried (wire_of (m, n)) bt"
    using assms(3) by (auto simp: arrives_def)
  then have "requested s ces m n" using assms(1) by (auto simp: cworld_ok_def)
  then obtain h req q where q: "made s ces h req" "pack_req_header h req = Inr q" "m = m_buf q" "n = m_ind q"
    by (auto simp: requested_def)
  from q(1) obtain args where args: "carries req args" using assms(2) unfolding made_def arguments_ok_def by fastforce
  with request_arrives [OF args q(2), of bt] m(2-4) q show ?thesis by blast
qed

lemma asked_by_call:
  assumes "cworld_ok s ces w" and "arguments_ok ces" and "asks {(b, sz). arrives (csent (cl w)) b sz} h u"
  shows "\<exists>req args. made s ces h req \<and> carries req args \<and> received args u"
  using assms(3) message_of_call [OF assms(1,2)] by (fastforce simp: asks_def)

text \<open>While a call waits, no message of the client that arrives acknowledges it.\<close>

lemma message_not_acknowledging:
  assumes "run_events client_exec ces (cworld_new (rpcc_new re n)) = Inr w" and "length (requests w) + 1 < 2 ^ 32"
    and "arguments_ok ces" and "callers (cl w) t = Some ca" and "\<not> ca_done ca" and "arrives (csent (cl w)) b sz"
  shows "\<exists>h u. unpack_req_header (unmarshall_new b sz) = Inr (h, u) \<and> rq_xid_rep h < ca_xid ca"
proof -
  have "cworld_ok (rpcc_new re n) ces w" by (rule client_requests [OF assms(1)]) (simp add: rpcc_new_def)
  from message_of_call [OF this assms(3,6)] obtain h u req where
    u: "unpack_req_header (unmarshall_new b sz) = Inr (h, u)" "made (rpcc_new re n) ces h req" by blast
  from u(2) have "h \<in> set (requests w)" by (rule made_requests [OF assms(1)])
  with run_client_inv [OF assms(1,2)] assms(4,5) have "rq_xid_rep h < ca_xid ca" by (rule unacknowledged)
  with u(1) show ?thesis by blast
qed

text \<open>
  The result of a call: its procedure's handler, given exactly the arguments of the call, computes the
  status \<open>ret\<close>, and \<open>un\<close> is ready to read exactly the bytes the handler wrote.
\<close>

definition computes :: "(i32 \<rightharpoonup> 's handler) \<Rightarrow> req_header \<Rightarrow> marshall \<Rightarrow> i32 \<Rightarrow> unmarshall \<Rightarrow> bool" where
  "computes pt h req ret un \<longleftrightarrow>
     (\<exists>args f u y u' rep y' res. carries req args \<and> received args u \<and> pt (rq_proc h) = Some f \<and>
        f u marshall_new y = Inr (ret, u', rep, y') \<and> carries rep res \<and> received res un)"

text \<open>A reply that arrives is a refusal or was computed from the arguments of the call with its number.\<close>

lemma reply_computed:
  assumes "cworld_ok s ces w" and "arguments_ok ces"
    and "handlers_ok pt" and "replied pt {(b, sz). arrives (csent (cl w)) b sz} m n" and "carried (wire_of (m, n)) bt"
    and "(x, ret, un) \<in> set (reply_of (Some bt) (int (length bt)))"
  shows "ret \<in> {oldsrv_failure, atmostonce_failure} \<or>
    (\<exists>h req. made s ces h req \<and> rq_xid h = x \<and> computes pt h req ret un)"
  using assms(4)
proof
  assume "refused {(b, sz). arrives (csent (cl w)) b sz} m n"
  then obtain h :: req_header and r where r: "r \<in> {oldsrv_failure, atmostonce_failure}" "packed_reply (rq_xid h) r marshall_new m n"
    by (auto simp: refused_def)
  have "ret = r" using assms(6) unfolding reply_arrives(1) [OF carries_new r(2) assms(5)] by simp
  with r(1) show ?thesis by blast
next
  assume "computed pt {(b, sz). arrives (csent (cl w)) b sz} m n"
  then obtain h u f y r u' rep y' where c: "asks {(b, sz). arrives (csent (cl w)) b sz} h u" "pt (rq_proc h) = Some f"
      "f u marshall_new y = Inr (r, u', rep, y')" "packed_reply (rq_xid h) r rep m n"
    unfolding computed_def by blast
  obtain res where res: "carries rep res" using assms(3) c(2,3) unfolding handlers_ok_def by blast
  have r: "x = rq_xid h" "ret = r" "received res un"
    using assms(6) reply_arrives(2) [OF res c(4) assms(5)] unfolding reply_arrives(1) [OF res c(4) assms(5)] by simp_all
  obtain req args where "made s ces h req" "carries req args" "received args u"
    using asked_by_call [OF assms(1,2) c(1)] by blast
  with c(2,3) res r show ?thesis unfolding computes_def by blast
qed

text \<open>
  C10. A call that is still waiting is never acknowledged: as long as the reply of call \<open>x\<close> has not
  arrived, every message the client has sent, before or after, for this or for another call, reaches a
  server with an \<^verbatim>\<open>xid_rep\<close> below \<open>x\<close>. This holds for any number of threads until the 32 bit numbers are used
  up.
\<close>

theorem waiting_call_not_acknowledged:
  assumes "run_events client_exec ces (cworld_new (rpcc_new re n)) = Inr w" and "length (requests w) + 1 < 2 ^ 32"
    and "arguments_ok ces" and "callers (cl w) t = Some ca" and "\<not> ca_done ca" and "arrives (csent (cl w)) b sz"
  shows "\<exists>h u. unpack_req_header (unmarshall_new b sz) = Inr (h, u) \<and> rq_xid_rep h < ca_xid ca"
  by (rule message_not_acknowledging [OF assms])


section \<open>An example\<close>

text \<open>The results of a registered method are carried when they fit into a message.\<close>

lemma finish_carries:
  assumes "\<And>r. \<exists>m pl. put r marshall_new = Inr m \<and> carries m pl" and "finish put r0 run args marshall_new s = Inr (b, u, rep, s')"
  shows "\<exists>pl. carries rep pl"
proof -
  obtain b' r s1 where run: "run r0 s = (b', r, s1)" by (metis prod_cases3)
  obtain m pl where "put r marshall_new = Inr m" "carries m pl" using assms(1) by blast
  with assms(2) run carries_new show ?thesis by (auto simp: finish_def split: if_splits)
qed

lemma put_u8_carries: "\<exists>m. put_u8 r marshall_new = Inr m \<and> carries m [r]"
  using u8_codec.put_appends [OF TrueI wfm_new, of r] by (auto simp: carries_def contents_new limits)

lemma counter_handlers: "handlers_ok (procs counter_server)"
  unfolding handlers_ok_def
proof (intro allI impI)
  fix p f u x ret u' rep x'
  assume "procs counter_server p = Some f" and "f u marshall_new x = Inr (ret, u', rep, x')"
  then obtain a u1 where fin:
    "finish put_u8 0 (\<lambda>r n. (0, a, n + 1)) u1 marshall_new x = Inr (ret, u', rep, x')"
    by (auto simp: counter_server_def h1_fn_def rbind_eq_Inr split: if_splits)
  have "\<exists>m pl. put_u8 r marshall_new = Inr m \<and> carries m pl" for r using put_u8_carries by blast
  from finish_carries [OF this fin] show "\<exists>pl. carries rep pl" .
qed

lemma carried_eval [code]:
  "carried m b \<longleftrightarrow> length b = length m \<and> list_all2 (\<lambda>v x. v = None \<or> v = Some x) (drop 4 m) (drop 4 b)"
  (is "_ \<longleftrightarrow> ?len \<and> ?all")
proof (cases ?len)
  case True
  have "?all \<longleftrightarrow> (\<forall>j < length m - 4. m ! (4 + j) = None \<or> m ! (4 + j) = Some (b ! (4 + j)))"
    using True by (simp add: list_all2_conv_all_nth)
  also have "\<dots> \<longleftrightarrow> (\<forall>i v. 4 \<le> i \<longrightarrow> i < length m \<longrightarrow> m ! i = Some v \<longrightarrow> b ! i = v)" (is "?from4 \<longleftrightarrow> ?all4")
  proof
    assume ok: ?from4
    have "b ! i = v" if "4 \<le> i" "i < length m" "m ! i = Some v" for i v
      using ok [rule_format, of "i - 4"] that by auto
    then show ?all4 by blast
  next
    assume ?all4
    then have "m ! (4 + j) = None \<or> m ! (4 + j) = Some (b ! (4 + j))" if "j < length m - 4" for j
      using that by (cases "m ! (4 + j)") auto
    then show ?from4 by blast
  qed
  finally show ?thesis using True by (simp add: carried_def)
qed (simp add: carried_def)

definition byte_request :: marshall where
  "byte_request = (case put_u8 9 marshall_new of Inl e \<Rightarrow> marshall_new | Inr m \<Rightarrow> m)"

text \<open>A call whose request and whose reply arrive twice.\<close>

definition one_call :: "client_event list" where
  "one_call =
     [Bound 0 5, Call 2 byte_request 3000 0 (at_second 10), Round 0 (Some (0, 3, 0)) (at_second 10),
      Reply (Some (reply_msg 1 0)) 25, Reply (Some (reply_msg 1 0)) 25, Woken 0 False, Return 0]"

definition two_deliveries :: "server_event list" where
  "two_deliveries =
     [Accept 0 3 0, Deliver 0 (Some (request 5 1)) 25 True, Deliver 0 (Some (request 5 1)) 25 True,
      Step 0, Step 1, Step 1, Step 0, Step 0, Step 1, Step 0, Step 0, Step 0, Step 0, Step 0, Step 1, Step 1]"

lemma one_call_result:
  "case (run_events client_exec one_call (cworld_new (rpcc_new True 7)), run_events server_exec two_deliveries (sworld_new counter_server)) of
     (Inr w, Inr v) \<Rightarrow> length (requests w) = 1 \<and> results w = [(1, 0, taken (Some (reply_msg 1 0)) 25)] \<and>
       (\<exists>e \<in> set (csent (cl w)). carried (wire_of (snd e)) (request 5 1)) \<and>
       (\<exists>e \<in> set (sent (srv v)). carried (wire_of (snd e)) (reply_msg 1 0)) \<and> obj (srv v) = 1 \<and> length (sent (srv v)) = 2
   | _ \<Rightarrow> False"
  by code_simp

lemma byte_request_carries: "carries byte_request [9]"
  using put_u8_carries [of 9] by (auto simp: byte_request_def)

lemma arrivesI:
  "\<exists>e \<in> set log. carried (wire_of (snd e)) bt \<Longrightarrow> sz = int (length bt) \<Longrightarrow> arrives log (Some bt) sz"
  unfolding arrives_def by force


text \<open>The messages of the two calls: the first call waits, the second one is not acknowledging it.\<close>

definition second_request :: "u8 list" where
  "second_request = be32 0 @ be32 2 @ be32 3 @ be32 7 @ be32 5 @ be32 0"

lemma two_calls_sent:
  "case two_calls_world of
     Inl _ \<Rightarrow> False
   | Inr w \<Rightarrow> \<exists>e \<in> set (csent (cl w)). carried (wire_of (snd e)) second_request"
  by code_simp

theorem waiting_call_not_acknowledged_witness:
  "\<exists>w ca h u. two_calls_world = Inr w \<and> callers (cl w) 0 = Some ca \<and> ca_xid ca = 1 \<and>
    unpack_req_header (unmarshall_new (Some second_request) 24) = Inr (h, u) \<and> rq_xid_rep h < ca_xid ca"
proof -
  obtain w ca where w: "two_calls_world = Inr w" "length (requests w) = 2" "callers (cl w) 0 = Some ca"
      "ca_xid ca = 1" "\<not> ca_done ca"
    by (rule two_calls_run)
  have "arrives (csent (cl w)) (Some second_request) 24"
    using arrivesI [of "csent (cl w)" second_request 24] two_calls_sent w(1) by (simp add: second_request_def length_be)
  moreover have "arguments_ok two_calls" using carries_new by (auto simp: arguments_ok_def two_calls_def)
  ultimately show ?thesis using waiting_call_not_acknowledged [OF w(1) _ _ w(3,5)] w by fastforce
qed

text \<open>The first call of \<open>one_call\<close> while it waits.\<close>

lemma waiting_result:
  "case run_events client_exec (take 3 one_call) (cworld_new (rpcc_new True 7)) of
     Inl _ \<Rightarrow> False
   | Inr w \<Rightarrow> length (requests w) = 1 \<and> (\<exists>e \<in> set (csent (cl w)). carried (wire_of (snd e)) (request 5 1)) \<and>
       map_option (\<lambda>ca. (ca_xid ca, ca_done ca)) (callers (cl w) 0) = Some (1, False)"
  by code_simp

end
