(* ===== verification/Rpc_Timeout.thy ===== *)
theory Rpc_Timeout
  imports Rpc_Client_Runs
begin

text \<open>
  The loop of \<^verbatim>\<open>rpcc::call1\<close> ends: the timeout of a round doubles from one round to the next and a round
  that would end after the final deadline is the last one, so a call makes a number of rounds that is
  logarithmic in its timeout, whatever the other threads do and the network loses, as long as the clock
  does not go back before the start of the call.
\<close>

section \<open>A measure of the rounds left\<close>

function doublings :: "int \<Rightarrow> int \<Rightarrow> nat" where
  "doublings to c = (if 0 < c \<and> c \<le> to then Suc (doublings to (c * 2)) else 0)"
  by pat_completeness auto
termination
  by (relation "measure (\<lambda>(to, c). nat (to + 1 - c))") auto

declare doublings.simps [simp del]

fun call_rank :: "int \<Rightarrow> call_pc \<Rightarrow> nat" where
  "call_rank to (C_loop l) =
     (if tv_sec (finaldeadline l) = 0 then 2 else 2 * doublings to (curr_to l) + 4)"
| "call_rank to (C_wait l) =
     (if tv_sec (finaldeadline l) = 0 then 3 else 2 * doublings to (curr_to l) + 3)"
| "call_rank to (C_finish l) = 1"
| "call_rank to (C_returned r) = 0"

text \<open>The locals of a call with timeout \<open>to\<close> that began at \<open>t0\<close>.\<close>

definition locals_timed :: "timespec \<Rightarrow> int \<Rightarrow> call_locals \<Rightarrow> bool" where
  "locals_timed t0 to l \<longleftrightarrow>
     0 < curr_to l \<and> (tv_sec (finaldeadline l) = 0 \<or> add_timespec t0 to = Inr (finaldeadline l))"

fun timed :: "timespec \<Rightarrow> int \<Rightarrow> call_pc \<Rightarrow> bool" where
  "timed t0 to (C_loop l) \<longleftrightarrow> locals_timed t0 to l"
| "timed t0 to (C_wait l) \<longleftrightarrow>
     locals_timed t0 to l \<and> (tv_sec (finaldeadline l) \<noteq> 0 \<longrightarrow> curr_to l \<le> to)"
| "timed t0 to _ \<longleftrightarrow> True"

lemma cmp_later:
  assumes "0 \<le> tv_nsec a" "tv_nsec a \<le> 1000000000" "0 \<le> tv_nsec b" "tv_nsec b \<le> 1000000000"
    and "nanos b < nanos a"
  shows "0 < cmp_timespec a b"
  using assms by (auto simp: cmp_timespec_def nanos_def)

text \<open>A round whose timeout exceeds that of the call is the last one.\<close>

lemma last_round:
  assumes "ts_normal t0" "ts_normal now" "nanos t0 \<le> nanos now" "0 \<le> to" "to < c"
    and "add_timespec t0 to = Inr f" "add_timespec now c = Inr n"
  shows "0 < cmp_timespec n f"
  using add_timespec_exact [OF assms(1,4)] add_timespec_exact [OF assms(2), of c] assms(3-)
  by (intro cmp_later) auto

lemma transmit_keeps:
  "call1_transmit fresh l s = Inr (l', s') \<Longrightarrow> curr_to l' = curr_to l \<and> finaldeadline l' = finaldeadline l"
  by (auto simp: call1_transmit_def rbind_eq_Inr split: if_splits)

lemma round_rank:
  assumes start: "ts_normal t0" "0 \<le> to" and t: "timed t0 to (C_loop l)"
    and now: "ts_normal now" "nanos t0 \<le> nanos now"
    and r: "call1_round fresh now l s = Inr (pc, s')"
  shows "timed t0 to pc \<and> call_rank to pc < call_rank to (C_loop l)"
proof -
  obtain l1 where l1: "curr_to l1 = curr_to l" "finaldeadline l1 = finaldeadline l"
    and r1: "(if tv_sec (finaldeadline l1) = 0 then Inr (C_finish l1, s')
      else rbind (add_timespec now (curr_to l1)) (\<lambda>n.
        if cmp_timespec n (finaldeadline l1) > 0
        then Inr (C_wait (l1\<lparr>nextdeadline := finaldeadline l1, finaldeadline := (finaldeadline l1)\<lparr>tv_sec := 0\<rparr>\<rparr>), s')
        else Inr (C_wait (l1\<lparr>nextdeadline := n\<rparr>), s'))) = Inr (pc, s')"
    using r by (auto simp: call1_round_def rbind_eq_Inr dest!: transmit_keeps split: if_splits)
  have lt: "locals_timed t0 to l" using t by simp
  show ?thesis
  proof (cases "tv_sec (finaldeadline l) = 0")
    case False
    then have f: "add_timespec t0 to = Inr (finaldeadline l)" and c: "0 < curr_to l"
      using lt by (auto simp: locals_timed_def)
    obtain n where n: "add_timespec now (curr_to l) = Inr n" using r1 False l1 by (auto simp: rbind_eq_Inr)
    show ?thesis
    proof (cases "0 < cmp_timespec n (finaldeadline l)")
      case True
      then show ?thesis using r1 False l1 n lt by (auto simp: locals_timed_def)
    next
      case late: False
      then have "curr_to l \<le> to" using last_round [OF start(1) now start(2) _ f n] by force
      then show ?thesis using r1 False l1 n lt late by (auto simp: locals_timed_def)
    qed
  qed (insert r1 l1, auto)
qed

lemma woken_rank:
  assumes t: "timed t0 to (C_wait l)" and w: "call1_woken i b l s = Inr (pc, s')"
  shows "timed t0 to pc \<and> (pc = C_wait l \<or> call_rank to pc < call_rank to (C_wait l))"
proof -
  consider "pc = C_wait l" | "pc = C_finish l"
    | l' where "pc = C_loop l'" "curr_to l' = curr_to l * 2" "finaldeadline l' = finaldeadline l"
    using w by (auto simp: call1_woken_def rbind_eq_Inr split: if_splits option.splits)
  then show ?thesis
  proof cases
    case (3 l')
    have "doublings to (curr_to l) = Suc (doublings to (curr_to l * 2))" if "tv_sec (finaldeadline l) \<noteq> 0"
      using t that by (subst doublings.simps) (simp add: locals_timed_def)
    with t 3 show ?thesis by (auto simp: locals_timed_def)
  qed (insert t, auto)
qed

section \<open>Executions\<close>

text \<open>The number of times thread \<open>i\<close> goes on to another place of \<^verbatim>\<open>call1\<close>.\<close>

fun moves :: "nat \<Rightarrow> client_event list \<Rightarrow> cworld \<Rightarrow> nat" where
  "moves i [] w = 0"
| "moves i (e # es) w =
     (case client_exec e w of
        Inl _ \<Rightarrow> 0
      | Inr w' \<Rightarrow> (if pcs w' ! i = pcs w ! i then 0 else 1) + moves i es w')"

text \<open>The clock does not go back before the start of the call.\<close>

fun clock_ok :: "nat \<Rightarrow> timespec \<Rightarrow> client_event \<Rightarrow> bool" where
  "clock_ok i t0 (Round j fresh now) \<longleftrightarrow> (j = i \<longrightarrow> ts_normal now \<and> nanos t0 \<le> nanos now)"
| "clock_ok i t0 _ \<longleftrightarrow> True"

lemma exec_rank:
  assumes start: "ts_normal t0" "0 \<le> to" and i: "i < length (pcs w)" and t: "timed t0 to (pcs w ! i)"
    and c: "clock_ok i t0 e" and ex: "client_exec e w = Inr w'"
  shows "i < length (pcs w') \<and> timed t0 to (pcs w' ! i) \<and>
    (pcs w' ! i = pcs w ! i \<or> call_rank to (pcs w' ! i) < call_rank to (pcs w ! i))"
proof (cases e)
  case (Call proc req to' garbage now)
  with ex i t show ?thesis by (auto simp: rbind_eq_Inr nth_append)
next
  case (Round j fresh now)
  show ?thesis
  proof (cases "j = i \<and> (\<exists>l. pcs w ! i = C_loop l) \<and> (case fresh of None \<Rightarrow> True | Some (c, f, l) \<Rightarrow> cheap (cl w) c = None)")
    case True
    then obtain l where l: "pcs w ! i = C_loop l" by blast
    obtain pc s where pc: "call1_round (map_option (\<lambda>(c, f, n). (c, fst (connection_new f n))) fresh) now l (cl w) =
        Inr (pc, s)" "w' = w\<lparr>cl := s, pcs := (pcs w)[i := pc]\<rparr>"
      using Round True ex i l by (auto simp: rbind_eq_Inr)
    have "ts_normal now" "nanos t0 \<le> nanos now" using c Round True by simp_all
    from round_rank [OF start t [unfolded l] this pc(1)] show ?thesis using pc(2) i l by auto
  next
    case False
    with Round ex i t show ?thesis
      by (auto simp: rbind_eq_Inr nth_list_update split: if_splits call_pc.splits)
  qed
next
  case (Woken j b)
  show ?thesis
  proof (cases "j = i \<and> (\<exists>l. pcs w ! i = C_wait l)")
    case True
    then obtain l where l: "pcs w ! i = C_wait l" by blast
    obtain pc s where pc: "call1_woken i b l (cl w) = Inr (pc, s)" "w' = w\<lparr>cl := s, pcs := (pcs w)[i := pc]\<rparr>"
      using Woken True ex i l by (auto simp: rbind_eq_Inr)
    from woken_rank [OF t [unfolded l] pc(1)] show ?thesis using pc(2) i l by auto
  next
    case False
    with Woken ex i t show ?thesis
      by (auto simp: rbind_eq_Inr nth_list_update split: if_splits call_pc.splits)
  qed
next
  case (Return j)
  show ?thesis
  proof (cases "j = i")
    case True
    with Return ex i t show ?thesis
      by (auto simp: rbind_eq_Inr call1_end_def Let_def split: if_splits call_pc.splits option.splits)
  next
    case False
    with Return ex i t show ?thesis
      by (auto simp: rbind_eq_Inr split: if_splits call_pc.splits)
  qed
qed (insert ex i t, auto simp: rbind_eq_Inr split: if_splits option.splits)

lemma moves_rank:
  assumes "ts_normal t0" "0 \<le> to"
  shows "i < length (pcs w) \<Longrightarrow> timed t0 to (pcs w ! i) \<Longrightarrow> \<forall>e \<in> set es. clock_ok i t0 e \<Longrightarrow>
    moves i es w \<le> call_rank to (pcs w ! i)"
proof (induction es arbitrary: w)
  case (Cons e es)
  show ?case
  proof (cases "client_exec e w")
    case (Inr w')
    with exec_rank [OF assms Cons.prems(1,2) _ Inr] Cons.prems(3) Cons.IH [of w'] show ?thesis by auto
  qed simp
qed simp

section \<open>Properties\<close>

text \<open>
  C21. A call ends. In every execution, whatever the other threads and the network do, and as long as the
  clock never shows a time before the start of the call, a thread that enters \<^verbatim>\<open>call1\<close> with a timeout
  that is not negative goes on from one place of it to the next at most twice as often as one second can be
  doubled before it exceeds the timeout (\<open>doublings\<close>), and four times more: eighteen times for the
  default timeout of two minutes.
\<close>

theorem call1_steps_bounded:
  assumes "client_exec (Call proc req to garbage t0) w0 = Inr w" and "ts_normal t0" and "0 \<le> to"
    and "\<forall>e \<in> set es. clock_ok (length (pcs w0)) t0 e"
  shows "moves (length (pcs w0)) es w \<le> 2 * doublings to to_min + 4"
proof -
  let ?i = "length (pcs w0)"
  obtain pc s where b: "call1_begin ?i proc req unmarshall_empty to garbage t0 (cl w0) = Inr (pc, s)"
    and w: "pcs w = pcs w0 @ [pc]"
    using assms(1) by (auto simp: rbind_eq_Inr)
  have "timed t0 to pc \<and> call_rank to pc \<le> 2 * doublings to to_min + 4"
    using b by (auto simp: call1_begin_def rbind_eq_Inr locals_timed_def to_min_def split: option.splits)
  with moves_rank [OF assms(2,3), of ?i w es] assms(4) w show ?thesis by simp
qed

text \<open>An example: nothing is ever answered and the clock stands still; the call with a timeout of three seconds gives up.\<close>

definition no_answer :: "client_event list" where
  "no_answer =
     [Round 0 None (at_second 10), Woken 0 True, Round 0 None (at_second 10), Woken 0 True,
      Round 0 None (at_second 10), Woken 0 False, Woken 0 True, Round 0 None (at_second 10), Return 0]"

definition asked :: "cworld res" where
  "asked = run_events client_exec [Bound 0 5, Call 2 marshall_new 3000 0 (at_second 10)] (cworld_new (rpcc_new True 7))"

lemma no_answer_result:
  "case asked of
     Inl _ \<Rightarrow> False
   | Inr w \<Rightarrow> moves 0 no_answer w = 8 \<and>
       (case run_events client_exec no_answer w of
          Inl _ \<Rightarrow> False | Inr v \<Rightarrow> map (\<lambda>(x, ret, un). (x, ret)) (results v) = [(1, timeout_failure)])"
  by code_simp

theorem call1_steps_bounded_witness:
  "\<exists>w. asked = Inr w \<and> moves 0 no_answer w = 8 \<and> moves 0 no_answer w \<le> 2 * doublings 3000 to_min + 4 \<and>
    2 * doublings 3000 to_min + 4 = 8 \<and> 2 * doublings to_max to_min + 4 = 18"
proof -
  obtain w0 w where w: "client_exec (Bound 0 5) (cworld_new (rpcc_new True 7)) = Inr w0"
      "client_exec (Call 2 marshall_new 3000 0 (at_second 10)) w0 = Inr w" "asked = Inr w"
    using no_answer_result by (auto simp: asked_def rbind_eq_Inr split: sum.splits)
  have i: "length (pcs w0) = 0" using w(1) by (auto simp: cworld_new_def)
  have "\<forall>e \<in> set no_answer. clock_ok (length (pcs w0)) (at_second 10) e"
    by (simp add: no_answer_def at_second_def ts_normal_def)
  moreover have "ts_normal (at_second 10)" by (simp add: at_second_def ts_normal_def)
  ultimately have b: "moves 0 no_answer w \<le> 2 * doublings 3000 to_min + 4"
    using call1_steps_bounded [OF w(2), of no_answer] i by simp
  have d: "doublings 3000 to_min = 2" "doublings to_max to_min = 7" by code_simp+
  have "moves 0 no_answer w = 8" using no_answer_result unfolding w(3) sum.case by (rule conjunct1)
  with b d w(3) show ?thesis by (intro exI [of _ w]) simp
qed

end
