(* ===== verification/Rpc_Errors.thy ===== *)
theory Rpc_Errors
  imports Rpc_Call Rpc_Timeout
begin

text \<open>
  Calls that fail, from end to end: a request with the wrong arguments, a request for an earlier
  instance of the server, a second \<^verbatim>\<open>bind\<close>, and a server that cannot be reached.
\<close>

section \<open>Wrong arguments\<close>

lemma exchange_rejects:
  assumes linked: "linked fresh c d w" and net: "\<And>m. carried m (net m)" and p: "(proc = rpc_bind) \<noteq> bind_done (fst w)"
    and req: "wfm req" "contents req = replicate 24 None @ map Some pl" "int (length pl) + 24 \<le> int_max"
    and now: "ts_normal now" "0 < tv_sec now" "0 \<le> to"
    and proc: "procs (snd w) proc = Some (h1_fn g z put r0 meth)"
    and bad: "\<And>u. received pl u \<Longrightarrow> \<exists>a u'. g z u = Inr (a, u') \<and> \<not> okdone u'"
  shows "\<exists>w'. call_m (exchange fresh net t d now) get proc req r to w = Inr (unmarshal_args_failure, r, w') \<and>
    obj (snd w') = obj (snd w) \<and> procs (snd w') = procs (snd w) \<and> nonce (snd w') = nonce (snd w) \<and>
    next_xid (fst w') = next_xid (fst w) + 1 \<and> bind_done (fst w') = bind_done (fst w) \<and>
    (next_xid (fst w) < next_xid (fst w) + 1 \<longrightarrow> linked fresh c d w')"
proof -
  have f: "\<exists>u'. h1_fn g z put r0 meth u marshall_new (obj (snd w)) =
      Inr (unmarshal_args_failure, u', marshall_new, obj (snd w))" if "received pl u" for u
    using bad [OF that] by (auto simp: h1_fn_def finish_def)
  have rep: "contents marshall_new = replicate 24 None @ map Some []" "int (length ([] :: u8 list)) + 24 \<le> int_max"
    by (simp_all add: contents_new limits)
  have neg: "unmarshal_args_failure <s 0" by (simp add: unmarshal_args_failure_def word_sless_alt)
  obtain un w' where "exchange fresh net t d now proc req unmarshall_empty to w = Inr (unmarshal_args_failure, un, w')"
      "obj (snd w') = obj (snd w)" "procs (snd w') = procs (snd w)" "nonce (snd w') = nonce (snd w)"
      "next_xid (fst w') = next_xid (fst w) + 1" "bind_done (fst w') = bind_done (fst w)"
      "next_xid (fst w) < next_xid (fst w) + 1 \<longrightarrow> linked fresh c d w'"
    using exchange_calls [where t = t and rep = unmarshall_empty,
        OF linked net p req now proc f wfm_new rep disjI2 [OF refl]] by blast
  with neg show ?thesis by (intro exI [of _ w']) (simp add: call_m_def)
qed

section \<open>A request for an earlier instance\<close>

lemma serve_refuses:
  assumes b: "take 20 (drop 4 b) = enc_req_header h" "length b = 24 + length pl" "int (length b) \<le> int_max"
    and k: "heap s d = Some k" and old: "rq_srv_nonce h \<noteq> 0" "rq_srv_nonce h \<noteq> nonce s"
  shows "\<exists>buf n s'. serve d b s = Inr ((Some buf, n), s') \<and>
    reply_message \<lparr>rp_xid = rq_xid h, rp_ret = oldsrv_failure\<rparr> [] (take (nat n) buf) \<and>
    (\<exists>m. s' = s\<lparr>heap := (heap s)(d \<mapsto> incref k), sent := sent s @ [m]\<rparr>)"
proof -
  let ?n = "int (length b)" and ?s0 = "s\<lparr>heap := (heap s)(d \<mapsto> incref k)\<rparr>"
  have m: "message (Some b) ?n" "24 \<le> ?n" using b by (auto simp: message_def limits)
  obtain u where u: "unpack_req_header (unmarshall_new (Some b) ?n) = Inr (h, u)" "u_ok u"
    using unpack_req_header_decodes [OF m b(1)] by (auto simp: received_def)
  obtain m' where m': "pack_reply_header \<lparr>rp_xid = rq_xid h, rp_ret = oldsrv_failure\<rparr> marshall_new = Inr m'" "wfm m'"
      "reply_message \<lparr>rp_xid = rq_xid h, rp_ret = oldsrv_failure\<rparr> [] (contents m')"
    using header_packed(2) [OF wfm_new, of "[]"] by (auto simp: contents_new)
  obtain buf where buf: "m_buf m' = Some buf" "contents m' = take (nat (m_ind m')) buf"
    using m'(2) by (auto elim: wfmE)
  let ?s1 = "?s0\<lparr>sent := sent s @ [(d, Some buf, m_ind m')]\<rparr>"
  have "dispatch_step (Queued d (Some b) ?n) ?s0 = Inr (Finished, ?s1)"
    using u old m'(1) buf(1) by (simp add: dispatch_header_def conn_send_def)
  moreover have "dispatch_steps n Finished s = Inr (Finished, s)" for n and s :: "'a rpcs"
    by (induction n) simp_all
  ultimately have "dispatch d (Some b) ?n ?s0 = Inr (Finished, ?s1)"
    by (simp add: dispatch_def numeral_eq_Suc)
  then show ?thesis
    using k m'(3) buf(2) by (auto simp: serve_def rpcs_got_pdu_def conn_incref_def ptr_incref_def)
qed

text \<open>
  A client bound to an earlier instance is told so. The handler does not run; the server's object is
  as it was.
\<close>

lemma exchange_refused:
  assumes cr: "client_ready fresh c clt" and net: "\<And>m. carried m (net m)"
    and p: "proc \<noteq> rpc_bind" "bind_done clt"
    and req: "wfm req" "contents req = replicate 24 None @ map Some pl" "int (length pl) + 24 \<le> int_max"
    and now: "ts_normal now" "0 < tv_sec now" "0 \<le> to"
    and old: "srv_nonce clt \<noteq> 0" "srv_nonce clt \<noteq> nonce sv" and k: "heap sv d = Some k"
  shows "\<exists>clt' m. call_m (exchange fresh net t d now) get proc req r to (clt, sv) =
    Inr (oldsrv_failure, r, (clt', sv\<lparr>heap := (heap sv)(d \<mapsto> incref k), sent := sent sv @ [m]\<rparr>))"
proof -
  have neg: "oldsrv_failure <s 0" by (simp add: oldsrv_failure_def word_sless_alt)
  have p': "(proc = rpc_bind) \<noteq> bind_done clt" using p by simp
  have rpl: "int (length ([] :: u8 list)) + 24 \<le> int_max" by (simp add: limits)
  have "\<exists>buf n sv'. serve d b sv = Inr ((Some buf, n), sv') \<and>
      reply_message \<lparr>rp_xid = next_xid clt, rp_ret = oldsrv_failure\<rparr> [] (take (nat n) buf) \<and>
      (\<exists>m. sv' = sv\<lparr>heap := (heap sv)(d \<mapsto> incref k), sent := sent sv @ [m]\<rparr>)"
    if "take 20 (drop 4 b) = enc_req_header (client_header proc clt)" "drop 24 b = pl" "length b = 24 + length pl" for b
    using serve_refuses [OF that(1,3) _ k] old req(3) that(3) by (simp add: client_header_def)
  note served = this
  obtain un clt' sv' where "exchange fresh net t d now proc req unmarshall_empty to (clt, sv) =
      Inr (oldsrv_failure, un, (clt', sv'))"
      "\<exists>m. sv' = sv\<lparr>heap := (heap sv)(d \<mapsto> incref k), sent := sent sv @ [m]\<rparr>"
    using exchange_completes [where t = t and rep = unmarshall_empty, OF cr net p' req(1,2) now rpl served] by blast
  with neg show ?thesis by (auto simp: call_m_def simp del: fun_upd_apply)
qed

section \<open>A channel whose peer has gone\<close>

text \<open>
  The server's end of the client's channel is closed: the poll thread finds the end of the stream and
  calls \<^verbatim>\<open>read_cb\<close> on the channel, which marks it dead.
\<close>

definition peer_closed :: "rpcc \<Rightarrow> rpcc res" where
  "peer_closed s =
     (case chan s of
        None \<Rightarrow> Inr s
      | Some c \<Rightarrow>
          (case cheap s c of
             None \<Rightarrow> Inl Use_after_free
           | Some k \<Rightarrow>
               rbind (read_cb (fd k) (Read_eof False) (Read_eof False) True k) (\<lambda>(pdu, calls, k).
               Inr (s\<lparr>cheap := (cheap s)(c \<mapsto> k)\<rparr>))))"

text \<open>A connection between two messages.\<close>

definition quiet :: "connection \<Rightarrow> bool" where
  "quiet k \<longleftrightarrow> rpdu k = charbuf_new \<and> cb_buf (wpdu k) = None"

abbreviation all_quiet :: "conn_heap \<Rightarrow> bool" where
  "all_quiet h \<equiv> \<forall>c k. h c = Some k \<longrightarrow> quiet k"

lemma peer_closed_dead:
  assumes "chan s = Some c" and "cheap s c = Some k" and "quiet k" and "\<not> dead k"
  shows "peer_closed s = Inr (s\<lparr>cheap := (cheap s)(c \<mapsto> k\<lparr>dead := True\<rparr>)\<rparr>)"
  using assms by (simp add: peer_closed_def read_cb_def readpdu_def quiet_def charbuf_new_def check_def rbind_def)

lemma dead_channel_released:
  assumes "h c = Some k" and "dead k" and "quiet k" and "1 \<le> refno k"
  shows "\<exists>h'. ptr_isdead c h = Inr True \<and> ptr_decref c h = Inr h'"
  using assms
  by (auto simp: ptr_isdead_def ptr_decref_def isdead_def decref_def connection_delete_def quiet_def check_def
      rbind_def Let_def)

lemma begin_loops:
  assumes "(proc = rpc_bind) \<noteq> bind_done s" and "call1_begin t proc req rep to 0 now s = Inr (pc, s1)"
  shows "\<exists>l. pc = C_loop l \<and> transmit l \<and> chan s1 = chan s \<and> cheap s1 = cheap s"
proof -
  have "(case pc of C_loop l \<Rightarrow> transmit l | _ \<Rightarrow> False) \<and> chan s1 = chan s \<and> cheap s1 = cheap s"
    using assms by (auto simp: call1_begin_def call1_register_def rbind_eq_Inr Let_def split: list.splits)
  then show ?thesis by (cases pc) auto
qed

lemma begin_frame:
  assumes "(proc = rpc_bind) \<noteq> bind_done s"
  shows "call1_begin t proc req rep to 0 now (s\<lparr>chan := None, cheap := h\<rparr>) =
    rbind (call1_begin t proc req rep to 0 now s) (\<lambda>(pc, s1). Inr (pc, s1\<lparr>chan := None, cheap := h\<rparr>))"
proof (cases "xid_rep_window s")
  case (Cons front w)
  let ?h = "\<lparr>rq_xid = next_xid s, rq_proc = proc, rq_clt_nonce = clt_nonce s, rq_srv_nonce = srv_nonce s,
    rq_xid_rep = front\<rparr>"
  show ?thesis
    using assms Cons
    by (cases "pack_req_header ?h req"; cases "add_timespec now to")
      (auto simp: call1_begin_def call1_register_def rbind_def Let_def)
qed (insert assms, auto simp: call1_begin_def call1_register_def Let_def)

text \<open>A call on a dead channel gives it up and connects, as a call without a channel does.\<close>

lemma exchange_reconnects:
  assumes p: "(proc = rpc_bind) \<noteq> bind_done s" and c: "chan s = Some c" "ptr_isdead c (cheap s) = Inr True"
    "ptr_decref c (cheap s) = Inr h"
  shows "exchange fresh net t d now proc req rep to (s, sv) =
    exchange fresh net t d now proc req rep to (s\<lparr>chan := None, cheap := h\<rparr>, sv)"
proof -
  let ?b = "call1_begin t proc req rep to 0 now"
  have round: "call1_round fresh now l s1 = call1_round fresh now l (s1\<lparr>chan := None, cheap := h\<rparr>)"
    if "chan s1 = chan s" "cheap s1 = cheap s" "transmit l" for l and s1 :: rpcc
  proof -
    have "reconnect fresh s1 = reconnect fresh (s1\<lparr>chan := None, cheap := h\<rparr>)"
      using that c by (cases fresh) (auto simp: reconnect_def)
    then show ?thesis using that(3) by (simp add: call1_round_def call1_transmit_def get_refconn_def)
  qed
  show ?thesis
  proof (cases "?b s")
    case (Inr r)
    obtain pc s1 where r: "r = (pc, s1)" by (cases r)
    obtain l where l: "pc = C_loop l" "transmit l" "chan s1 = chan s" "cheap s1 = cheap s"
      using begin_loops [OF p] Inr r by blast
    with Inr r begin_frame [OF p, of t req rep to now h] round [OF l(3,4,2)] show ?thesis
      unfolding exchange_def fst_conv snd_conv by simp
  qed (insert begin_frame [OF p, of t req rep to now h], simp add: exchange_def)
qed

text \<open>Calls leave the connections between two messages, and the client with a channel.\<close>

lemma decref_quiet: "ptr_decref c h = Inr h' \<Longrightarrow> all_quiet h \<Longrightarrow> all_quiet h'"
  by (auto simp: ptr_decref_def decref_def quiet_def rbind_eq_Inr Let_def split: option.splits if_splits)

lemma incref_quiet: "ptr_incref c h = Inr h' \<Longrightarrow> all_quiet h \<Longrightarrow> all_quiet h'"
  by (auto simp: ptr_incref_def incref_def quiet_def split: option.splits if_splits)

lemma transmit_quiet:
  assumes "call1_transmit (Some (c, k)) l s = Inr (l', s')" and "all_quiet (cheap s)" and "quiet k" and "transmit l"
  shows "all_quiet (cheap s') \<and> chan s' \<noteq> None"
proof -
  obtain s1 p s2 where s1: "reconnect (Some (c, k)) s = Inr s1" and s2: "hand_out (ch l) s1 = Inr (p, s2)"
    and s': "cheap s' = cheap s2" "chan s' = chan s2"
    using assms(1,4)
    by (auto simp: call1_transmit_def get_refconn_def client_send_def rbind_eq_Inr split: option.splits)
  have "all_quiet (cheap s1) \<and> chan s1 \<noteq> None"
  proof (cases "chan s")
    case None
    then show ?thesis using s1 assms(2,3) by (auto simp: reconnect_def split: if_splits)
  next
    case (Some a)
    then consider "s1 = s" | h where "ptr_decref a (cheap s) = Inr h" "s1 = s\<lparr>cheap := h(c \<mapsto> k), chan := Some c\<rparr>"
      using s1 by (auto simp: reconnect_def rbind_eq_Inr split: if_splits)
    then show ?thesis using assms(2,3) Some by cases (auto split: if_splits dest: decref_quiet)
  qed
  with s2 s' show ?thesis
    by (auto simp: hand_out_def rbind_eq_Inr split: option.splits dest!: decref_quiet incref_quiet)
qed

lemma got_pdu_frame:
  assumes "rpcc_got_pdu b sz s = Inr r"
  shows "cheap (snd r) = cheap s \<and> chan (snd r) = chan s"
proof -
  obtain h rep where u: "unpack_reply_header (unmarshall_new b sz) = Inr (h, rep)"
    using assms by (auto simp: rpcc_got_pdu_def rbind_eq_Inr)
  show ?thesis
  proof (cases "u_ok rep")
    case True
    then obtain w where w: "update_xid_rep (rp_xid h) (xid_rep_window s) = Inr w"
      using assms u by (auto simp: rpcc_got_pdu_def rbind_eq_Inr)
    show ?thesis
    proof (cases "calls s (rp_xid h)")
      case (Some t)
      then obtain ca where "callers s t = Some ca"
        using assms u w True by (cases "callers s t") (auto simp: rpcc_got_pdu_def Let_def)
      with Some show ?thesis
        using assms u w True by (cases "ca_done ca") (auto simp: rpcc_got_pdu_def Let_def case_prod_unfold)
    qed (insert assms u w True, auto simp: rpcc_got_pdu_def Let_def)
  qed (insert assms u, auto simp: rpcc_got_pdu_def)
qed

lemma exchange_quiet:
  assumes ex: "exchange (Some (c, k)) net t d now proc req rep to (s, sv) = Inr (r, un, (s', sv'))"
    and p: "(proc = rpc_bind) \<noteq> bind_done s" and q: "all_quiet (cheap s)" "quiet k"
  shows "all_quiet (cheap s') \<and> chan s' \<noteq> None"
proof -
  obtain pc s1 where b: "call1_begin t proc req rep to 0 now s = Inr (pc, s1)"
    using ex by (auto simp: exchange_def rbind_eq_Inr)
  then obtain l where l: "pc = C_loop l" "transmit l" "cheap s1 = cheap s" using begin_loops [OF p] by blast
  obtain pc2 s2 where s2: "call1_round (Some (c, k)) now l s1 = Inr (pc2, s2)"
    using ex b l(1) by (auto simp: exchange_def rbind_eq_Inr)
  then obtain l2 where l2: "pc2 = C_wait l2" using ex b l(1) by (cases pc2) (auto simp: exchange_def)
  obtain b' s3 pc3 s4 sv1 where s3: "rpcc_got_pdu (Some b') (int (length b')) s2 = Inr s3"
    and s4: "call1_woken t False l2 (snd s3) = Inr (pc3, s4)"
    and ex4: "(case pc3 of C_finish l \<Rightarrow> rbind (call1_end t l s4) (\<lambda>(pc, un, s).
        case pc of C_returned r \<Rightarrow> Inr (r, un, (s, sv1)) | _ \<Rightarrow> Inl Assert_failed)
      | _ \<Rightarrow> Inl Assert_failed) = Inr (r, un, (s', sv'))"
    using ex b l(1) s2 l2 by (auto simp: exchange_def rbind_eq_Inr Let_def)
  obtain l3 where l3: "pc3 = C_finish l3" using ex4 by (cases pc3) auto
  obtain pc4 un4 s5 where e4: "call1_end t l3 s4 = Inr (pc4, un4, s5)" using ex4 l3 by (auto simp: rbind_eq_Inr)
  then have e: "call1_end t l3 s4 = Inr (pc4, un, s')" using ex4 l3 by (cases pc4) auto
  have "all_quiet (cheap s2) \<and> chan s2 \<noteq> None"
    using s2 l q by (auto simp: call1_round_def rbind_eq_Inr split: if_splits dest!: transmit_quiet)
  moreover have "cheap (snd s3) = cheap s2" "chan (snd s3) = chan s2" using got_pdu_frame [OF s3] by simp_all
  moreover have "s4 = snd s3"
    using s4 by (auto simp: call1_woken_def rbind_eq_Inr split: option.splits if_splits)
  ultimately show ?thesis
    using e by (auto simp: call1_end_def rbind_eq_Inr Let_def split: option.splits dest!: decref_quiet)
qed

lemma bind_quiet:
  assumes "rpcc_bind (exchange (Some (c, k)) net t d now) r to (s, sv) = Inr (ret, (s', sv'))"
    and "\<not> bind_done s" and "all_quiet (cheap s)" and "quiet k"
  shows "all_quiet (cheap s') \<and> chan s' \<noteq> None"
proof -
  obtain m ret' un s1 sv1 where "exchange (Some (c, k)) net t d now rpc_bind m unmarshall_empty to (s, sv) =
      Inr (ret', un, (s1, sv1))" "cheap s' = cheap s1" "chan s' = chan s1"
    using assms(1)
    by (auto simp: rpcc_bind_def rpcc_call1_def call_m_def bind_end_def rbind_eq_Inr split: if_splits)
  with exchange_quiet [of c k net t d now rpc_bind m unmarshall_empty to s sv ret' un s1 sv1] assms(2-4)
  show ?thesis by simp
qed

text \<open>
  A client whose channel died with an earlier instance connects to the new instance, and is told that
  it is bound to another one.
\<close>

lemma closed_then_refused:
  assumes cr: "client_ready None c0 clt" "all_quiet (cheap clt)" and fresh: "\<not> dead k'" "1 \<le> refno k'"
    and net: "\<And>m. carried m (net m)" and p: "proc \<noteq> rpc_bind" "bind_done clt"
    and req: "wfm req" "contents req = replicate 24 None @ map Some pl" "int (length pl) + 24 \<le> int_max"
    and now: "ts_normal now" "0 < tv_sec now" "0 \<le> to"
    and old: "srv_nonce clt \<noteq> 0" "srv_nonce clt \<noteq> nonce sv" and k: "heap sv d = Some k"
  shows "\<exists>clt1 clt' m. peer_closed clt = Inr clt1 \<and>
    call_m (exchange (Some (c', k')) net t d now) get proc req r to (clt1, sv) =
      Inr (oldsrv_failure, r, (clt', sv\<lparr>heap := (heap sv)(d \<mapsto> incref k), sent := sent sv @ [m]\<rparr>))"
proof -
  obtain k0 where k0: "chan clt = Some c0" "cheap clt c0 = Some k0" "\<not> dead k0" "1 \<le> refno k0" "quiet k0"
    using cr by (auto simp: client_ready_def)
  let ?h = "(cheap clt)(c0 \<mapsto> k0\<lparr>dead := True\<rparr>)"
  let ?s1 = "clt\<lparr>cheap := ?h\<rparr>"
  have closed: "peer_closed clt = Inr ?s1" using peer_closed_dead [OF k0(1,2,5,3)] .
  obtain h where h: "ptr_isdead c0 ?h = Inr True" "ptr_decref c0 ?h = Inr h"
    using dead_channel_released [of ?h c0 "k0\<lparr>dead := True\<rparr>"] k0(4,5) by (auto simp: quiet_def)
  let ?s2 = "?s1\<lparr>chan := None, cheap := h\<rparr>"
  have "client_ready (Some (c', k')) c' ?s2" using cr(1) fresh by (simp add: client_ready_def)
  then obtain clt' m where "call_m (exchange (Some (c', k')) net t d now) get proc req r to (?s2, sv) =
      Inr (oldsrv_failure, r, (clt', sv\<lparr>heap := (heap sv)(d \<mapsto> incref k), sent := sent sv @ [m]\<rparr>))"
    using exchange_refused [OF _ net p(1) _ req now _ _ k, of "Some (c', k')" c' ?s2 t get r] p(2) old
    by (auto simp del: fun_upd_apply)
  moreover have "exchange (Some (c', k')) net t d now proc req unmarshall_empty to (?s1, sv) =
      exchange (Some (c', k')) net t d now proc req unmarshall_empty to (?s2, sv)"
    using p k0(1) h by (intro exchange_reconnects [where c = c0]) simp_all
  ultimately have "call_m (exchange (Some (c', k')) net t d now) get proc req r to (?s1, sv) =
      Inr (oldsrv_failure, r, (clt', sv\<lparr>heap := (heap sv)(d \<mapsto> incref k), sent := sent sv @ [m]\<rparr>))"
    by (simp only: call_m_def)
  with closed show ?thesis by blast
qed

section \<open>Calls before and after binding\<close>

text \<open>\<^verbatim>\<open>bind\<close> can be called once, and nothing else before it.\<close>

lemma exchange_unbound:
  assumes "(proc = rpc_bind) = bind_done (fst w)"
  shows "call_m (exchange fresh net t d now) get proc req r to w = Inr (bind_failure, r, w)"
  using assms
  by (cases w) (auto simp: call_m_def exchange_def call1_begin_def call1_register_def bind_failure_def word_sless_alt)

section \<open>A server that cannot be reached\<close>

text \<open>
  \<^verbatim>\<open>call1\<close> when every \<^verbatim>\<open>connect\<close> fails and every wait times out. The clock, in nanoseconds, is part of the
  world: every round reads it, a wait lasts until its deadline, and then the thread goes on with some
  delay. The list of delays is the fuel of the loop.
\<close>

definition reading :: "int \<Rightarrow> timespec" where
  "reading clock = \<lparr>tv_sec = clock div 1000000000, tv_nsec = clock mod 1000000000\<rparr>"

fun retry :: "int list \<Rightarrow> tid \<Rightarrow> call_locals \<Rightarrow> rpcc \<times> int \<Rightarrow> (i32 \<times> unmarshall \<times> rpcc \<times> int) res" where
  "retry [] t l w = Inl Assert_failed"
| "retry (delay # delays) t l (s, clock) =
     rbind (call1_round None (reading clock) l s) (\<lambda>(pc, s).
     case pc of
       C_finish l \<Rightarrow>
         rbind (call1_end t l s) (\<lambda>(pc, un, s).
         case pc of C_returned r \<Rightarrow> Inr (r, un, s, clock) | _ \<Rightarrow> Inl Assert_failed)
     | C_wait l \<Rightarrow>
         rbind (call1_woken t True l s) (\<lambda>(pc, s).
         case pc of
           C_loop l' \<Rightarrow> retry delays t l' (s, max clock (nanos (nextdeadline l)) + delay)
         | _ \<Rightarrow> Inl Assert_failed)
     | _ \<Rightarrow> Inl Assert_failed)"

definition unanswered :: "int list \<Rightarrow> tid \<Rightarrow> (rpcc \<times> int) caller1" where
  "unanswered delays t proc req rep to w =
     rbind (call1_begin t proc req rep to 0 (reading (snd w)) (fst w)) (\<lambda>(pc, clt).
     case pc of
       C_returned r \<Rightarrow> Inr (r, rep, (clt, snd w))
     | C_loop l \<Rightarrow> retry delays t l (clt, snd w)
     | _ \<Rightarrow> Inl Assert_failed)"

lemma reading_facts:
  "ts_normal (reading clock)" "nanos (reading clock) = clock" "1000000000 \<le> clock \<Longrightarrow> 0 < tv_sec (reading clock)"
  by (simp_all add: reading_def ts_normal_def nanos_def pos_imp_zdiv_pos_iff)

lemma cmp_not_later:
  assumes "0 \<le> tv_nsec a" "tv_nsec a \<le> 1000000000" "0 \<le> tv_nsec b" "tv_nsec b \<le> 1000000000"
    and "\<not> 0 < cmp_timespec a b"
  shows "nanos a \<le> nanos b"
  using cmp_later [OF assms(1-4)] assms(5) by force

lemma later_by: "x \<le> f \<Longrightarrow> 0 \<le> d \<Longrightarrow> max (max c x + d) f + y \<le> max c f + (d + y)" for c x f d y :: int
  by (auto simp: max_def)

text \<open>
  The call gives up, and it does not outlast its final deadline by more than the delays.
\<close>

lemma retry_times_out:
  assumes start: "1000000000 \<le> t0" "0 \<le> to" "to \<le> 2 ^ 28"
    and s: "chan s = None" "callers s t = Some ca" "\<not> ca_done ca" "window_ok (xid_rep_window s)"
  shows "timed (reading t0) to (C_loop l) \<Longrightarrow> ch l = None \<Longrightarrow>
    tv_sec (finaldeadline l) \<noteq> 0 \<longrightarrow> curr_to l \<le> 2 * to + to_min \<Longrightarrow>
    t0 \<le> clock \<Longrightarrow> \<forall>x \<in> set delays. 0 \<le> x \<Longrightarrow> call_rank to (C_loop l) \<le> 2 * length delays \<Longrightarrow>
    \<exists>v clock'. retry delays t l (s, clock) = Inr (timeout_failure, ca_un ca, s\<lparr>calls := (calls s)(ca_xid ca := None),
      xid_rep_window := v, callers := (callers s)(t := None)\<rparr>, clock') \<and>
      clock' \<le> max clock (t0 + to * 1000000) + sum_list delays"
proof (induction delays arbitrary: l clock)
  case (Cons delay delays)
  let ?now = "reading clock"
  have now: "ts_normal ?now" "nanos (reading t0) \<le> nanos ?now" "0 < tv_sec ?now"
    using Cons.prems(4) start(1) by (simp_all add: reading_facts)
  have d: "0 \<le> delay" "0 \<le> sum_list delays" using Cons.prems(5) by (simp_all add: sum_list_nonneg)
  obtain v where v: "update_xid_rep (ca_xid ca) (xid_rep_window s) = Inr v"
    using update_xid_rep_inserts [OF s(4)] by blast
  let ?l = "l\<lparr>ch := None, transmit := False\<rparr>"
  have tr: "call1_transmit None l s = Inr (?l, s)"
    using s(1) Cons.prems(2) by (auto simp: call1_transmit_def get_refconn_def reconnect_def hand_out_def)
  show ?case
  proof (cases "tv_sec (finaldeadline l) = 0")
    case True
    then show ?thesis
      using tr s v d by (intro exI [of _ v] exI [of _ clock])
        (simp add: call1_round_def call1_end_def Let_def del: fun_upd_apply)
  next
    case False
    have c: "0 < curr_to l" and f: "add_timespec (reading t0) to = Inr (finaldeadline l)"
      using Cons.prems(1) False by (simp_all add: locals_timed_def)
    obtain n where n: "add_timespec ?now (curr_to l) = Inr n" using deadline [OF now(1,3), of "curr_to l"] c by auto
    let ?w = "if cmp_timespec n (finaldeadline l) > 0
      then ?l\<lparr>nextdeadline := finaldeadline l, finaldeadline := (finaldeadline l)\<lparr>tv_sec := 0\<rparr>\<rparr>
      else ?l\<lparr>nextdeadline := n\<rparr>"
    have r: "call1_round None ?now l s = Inr (C_wait ?w, s)" using tr False n by (simp add: call1_round_def)
    have nx: "nanos (nextdeadline ?w) \<le> t0 + to * 1000000"
      using add_timespec_exact [OF reading_facts(1) start(2), of t0] add_timespec_exact [OF now(1), of "curr_to l"]
        cmp_not_later [of n "finaldeadline l"] c f n by (auto simp: reading_facts)
    note wait = round_rank [OF reading_facts(1) start(2) Cons.prems(1) now(1,2) r]
    let ?l' = "?w\<lparr>transmit := (retrans s \<or> transmit ?w), curr_to := curr_to l * 2\<rparr>"
    let ?clock = "max clock (nanos (nextdeadline ?w)) + delay"
    have "in_int (curr_to l * 2)"
      using c Cons.prems(3) False start(3) by (simp add: in_int_def limits to_min_def)
    then have w: "call1_woken t True ?w s = Inr (C_loop ?l', s)"
      using s(2,3) by (cases "retrans s") (simp_all add: call1_woken_def)
    note loop = woken_rank [OF conjunct1 [OF wait] w]
    have step: "retry (delay # delays) t l (s, clock) = retry delays t ?l' (s, ?clock)" using r w by simp
    have "timed (reading t0) to (C_loop ?l')" "ch ?l' = None" "t0 \<le> ?clock" "\<forall>x \<in> set delays. 0 \<le> x"
      using loop Cons.prems(4,5) d(1) by simp_all
    moreover have "call_rank to (C_loop ?l') \<le> 2 * length delays"
      using conjunct2 [OF loop] conjunct2 [OF wait] Cons.prems(6) by simp
    moreover have "tv_sec (finaldeadline ?l') \<noteq> 0 \<longrightarrow> curr_to ?l' \<le> 2 * to + to_min"
      using conjunct1 [OF wait] by (auto simp: to_min_def)
    moreover have "max ?clock (t0 + to * 1000000) + sum_list delays \<le>
        max clock (t0 + to * 1000000) + sum_list (delay # delays)"
      unfolding sum_list.Cons by (rule later_by [OF nx d(1)])
    ultimately show ?thesis
      using Cons.IH [of ?l' ?clock] unfolding step by (meson order_trans)
  qed
qed (simp split: if_splits)

text \<open>Enough fuel makes the call return, with the status \<^verbatim>\<open>timeout_failure\<close>.\<close>

lemma unanswered_times_out:
  assumes p: "(proc = rpc_bind) \<noteq> bind_done clt" and none: "chan clt = None" "window_ok (xid_rep_window clt)"
    and req: "wfm req" "contents req = replicate 24 None @ map Some pl"
    and start: "1000000000 \<le> t0" "0 \<le> to" "to \<le> 2 ^ 28"
    and delays: "\<forall>x \<in> set delays. 0 \<le> x" "doublings to to_min + 2 \<le> length delays"
  shows "\<exists>clt' t1. unanswered delays t proc req rep to (clt, t0) = Inr (timeout_failure, rep, (clt', t1)) \<and>
    chan clt' = None \<and> bind_done clt' = bind_done clt \<and> calls clt' = (calls clt)(next_xid clt := None) \<and>
    t1 \<le> t0 + to * 1000000 + sum_list delays"
proof -
  let ?s = "clt\<lparr>next_xid := next_xid clt + 1, calls := (calls clt)(next_xid clt \<mapsto> t),
           callers := (callers clt)(t \<mapsto> caller_new (next_xid clt) rep 0)\<rparr>"
  obtain m where m: "pack_req_header (client_header proc clt) req = Inr m"
    using header_packed(1) [OF req] by blast
  obtain final where final: "add_timespec (reading t0) to = Inr final" "tv_sec final \<noteq> 0"
    using deadline [OF reading_facts(1) reading_facts(3) [OF start(1)] start(2)] by blast
  let ?l = "\<lparr>lo_req = m, ch = None, transmit = True, curr_to = to_min, finaldeadline = final, nextdeadline = final\<rparr>"
  have b: "call1_begin t proc req rep to 0 (reading t0) clt = Inr (C_loop ?l, ?s)"
    using p m none(2) final
    by (cases "xid_rep_window clt")
      (simp_all add: call1_begin_def call1_register_def client_header_def Let_def window_ok_def)
  have "\<exists>v t1. retry delays t ?l (?s, t0) = Inr (timeout_failure, ca_un (caller_new (next_xid clt) rep 0),
      ?s\<lparr>calls := (calls ?s)(ca_xid (caller_new (next_xid clt) rep 0) := None), xid_rep_window := v,
         callers := (callers ?s)(t := None)\<rparr>, t1) \<and> t1 \<le> max t0 (t0 + to * 1000000) + sum_list delays"
    using none delays final start(2)
    by (intro retry_times_out [OF start])
      (simp_all add: caller_new_def locals_timed_def to_min_def)
  with b none(1) start(2) show ?thesis by (auto simp: unanswered_def caller_new_def simp del: fun_upd_apply)
qed

lemma bind_times_out:
  assumes start: "1000000000 \<le> t0" "0 \<le> to" "to \<le> 2 ^ 28"
    and delays: "\<forall>x \<in> set delays. 0 \<le> x" "doublings to to_min + 2 \<le> length delays"
  shows "\<exists>clt t1. rpcc_bind (unanswered delays t) r to (rpcc_new re random, t0) = Inr (timeout_failure, (clt, t1)) \<and>
    chan clt = None \<and> calls clt = Map.empty \<and> t1 \<le> t0 + to * 1000000 + sum_list delays"
proof -
  obtain req where req: "put_int 0 marshall_new = Inr req" "wfm req"
      "contents req = replicate 24 None @ map Some (be32 0)"
    using int_codec.put_appends [OF TrueI wfm_new, of 0] by (auto simp: contents_new limits)
  have new: "(rpc_bind = rpc_bind) \<noteq> bind_done (rpcc_new re random)" "chan (rpcc_new re random) = None"
      "window_ok (xid_rep_window (rpcc_new re random))" "calls (rpcc_new re random) = Map.empty"
    by (simp_all add: rpcc_new_def window_ok_def)
  obtain clt t1 where "unanswered delays t rpc_bind req unmarshall_empty to (rpcc_new re random, t0) =
      Inr (timeout_failure, unmarshall_empty, (clt, t1))" "chan clt = None"
      "calls clt = (calls (rpcc_new re random))(next_xid (rpcc_new re random) := None)"
      "t1 \<le> t0 + to * 1000000 + sum_list delays"
    using unanswered_times_out [OF new(1-3) req(2,3) start delays, of t unmarshall_empty] by blast
  moreover have "timeout_failure <s 0" "timeout_failure \<noteq> 0" by (simp_all add: timeout_failure_def word_sless_alt)
  ultimately show ?thesis
    using req(1) new(4) by (simp add: rpcc_bind_def rpcc_call1_def call_m_def bind_end_def fun_upd_idem)
qed

end
