(* ===== verification/Rpctest.thy ===== *)
theory Rpctest
  imports Rpc_Errors
begin

text \<open>
  The test program \<^verbatim>\<open>src/rpc/rpctest.cc\<close> as a client of the whole RPC stack: the handlers of its server,
  the marshalling test, the simple tests, the loops of its client threads and the sequential part of
  its failure test. A failed assertion is the error \<open>Assert_failed\<close>, so that a test passes when its
  model returns. The random numbers, uninitialised variables, and how late a thread goes on after a wait
  that has timed out are arguments.
\<close>

section \<open>The server\<close>

definition c_str :: "string \<Rightarrow> u8 list" where
  "c_str s = map of_char s"

text \<open>
  The class has no data. The length given to the string constructor is converted to \<^verbatim>\<open>size_t\<close>; the pause
  of \<^verbatim>\<open>handle_slow\<close> has no effect on its result.
\<close>

definition handle_22 :: "u8 list \<Rightarrow> u8 list \<Rightarrow> (u8 list, unit) handled" where
  "handle_22 a b r s = (0, a @ b, s)"

definition handle_fast :: "i32 \<Rightarrow> (i32, unit) handled" where
  "handle_fast a r s = (0, a + 1, s)"

definition handle_slow :: "i32 \<Rightarrow> (i32, unit) handled" where
  "handle_slow a r s = (0, a + 2, s)"

definition handle_bigrep :: "i32 \<Rightarrow> (u8 list, unit) handled" where
  "handle_bigrep len r s = (0, replicate (unat (scast len :: u64)) 0x78, s)"

definition startserver :: "i32 \<Rightarrow> u32 \<Rightarrow> unit rpcs res" where
  "startserver r0 n =
     rbind (rpcs_new n 0 r0 ()) (\<lambda>s.
     rbind (reg1 22 (h2_fn get_string [] get_string [] put_string [] handle_22) s) (\<lambda>s.
     rbind (reg1 23 (h1_fn get_int 0 put_int r0 handle_fast) s) (\<lambda>s.
     rbind (reg1 24 (h1_fn get_int 0 put_int r0 handle_slow) s) (\<lambda>s.
     reg1 25 (h1_fn get_int 0 put_string [] handle_bigrep) s))))"

abbreviation test :: "bool \<Rightarrow> unit res" where
  "test b \<equiv> check b Assert_failed"

section \<open>The tests\<close>

text \<open>
  \<^verbatim>\<open>testmarshall\<close>, for a header, an integer, a long integer and a string. \<open>g\<close> is what the bytes of the
  buffer that were never written happen to be.
\<close>

definition buffer :: "(nat \<Rightarrow> u8) \<Rightarrow> block \<Rightarrow> u8 list" where
  "buffer g b = map (\<lambda>k. case b ! k of None \<Rightarrow> g k | Some v \<Rightarrow> v) [0..<length b]"

definition testmarshall_of :: "(nat \<Rightarrow> u8) \<Rightarrow> req_header \<Rightarrow> i32 \<Rightarrow> u64 \<Rightarrow> u8 list \<Rightarrow> unit res" where
  "testmarshall_of g rh i l s =
     rbind (pack_req_header rh marshall_new) (\<lambda>m.
     rbind (test (m_ind m = RPC_HEADER_SZ)) (\<lambda>_.
     rbind (put_int i m) (\<lambda>m.
     rbind (put_u64 l m) (\<lambda>m.
     rbind (put_string s m) (\<lambda>m.
     let ((b, sz), m) = marshall_take_buf m in
     rbind (test (sz = RPC_HEADER_SZ + 4 + 8 + int (length s) + 4)) (\<lambda>_.
     rbind (unpack_req_header (unmarshall_new (map_option (buffer g) b) sz)) (\<lambda>(rh1, un).
     rbind (test (rh = rh1)) (\<lambda>_.
     rbind (get_int 0 un) (\<lambda>(i1, un).
     rbind (get_u64 0 un) (\<lambda>(l1, un).
     rbind (get_string [] un) (\<lambda>(s1, un).
     rbind (test (okdone un)) (\<lambda>_.
     test (i1 = i \<and> l1 = l \<and> s1 = s)))))))))))))"

definition testmarshall :: "(nat \<Rightarrow> u8) \<Rightarrow> unit res" where
  "testmarshall g =
     testmarshall_of g \<lparr>rq_xid = 1, rq_proc = 2, rq_clt_nonce = 3, rq_srv_nonce = 4, rq_xid_rep = 5\<rparr>
       12345 1223344455 (c_str ''hallo....'')"

text \<open>
  The loops of the client threads, over the numbers they draw. A thread that measures the time of a
  call computes the difference even when it does not print it.
\<close>

fun client1_big :: "'w caller1 \<Rightarrow> i32 list \<Rightarrow> 'w \<Rightarrow> 'w res" where
  "client1_big call1 [] w = Inr w"
| "client1_big call1 (arg # args) w =
     rbind (rpcc_call1 put_int call1 get_string 25 arg [] to_max w) (\<lambda>(ret, rep, w).
     rbind (test (ret = 0)) (\<lambda>_.
     rbind (test (int (length rep) = sint arg)) (\<lambda>_.
     client1_big call1 args w)))"

fun client1_mixed :: "'w caller1 \<Rightarrow> i32 \<Rightarrow> (bool \<times> i32 \<times> timespec \<times> timespec) list \<Rightarrow> 'w \<Rightarrow> 'w res" where
  "client1_mixed call1 r [] w = Inr w"
| "client1_mixed call1 r ((which, arg, start, end) # draws) w =
     rbind (rpcc_call1 put_int call1 get_int (if which then 23 else 24) arg r to_max w) (\<lambda>(ret, rep, w).
     rbind (diff_timespec end start) (\<lambda>diff.
     rbind (test (ret = 0)) (\<lambda>_.
     rbind (test (rep = (if which then arg + 1 else arg + 2))) (\<lambda>_.
     client1_mixed call1 r draws w))))"

definition client1 ::
  "'w caller1 \<Rightarrow> i32 \<Rightarrow> i32 list \<Rightarrow> (bool \<times> i32 \<times> timespec \<times> timespec) list \<Rightarrow> 'w \<Rightarrow> 'w res" where
  "client1 call1 r args draws w = rbind (client1_big call1 args w) (client1_mixed call1 r draws)"

text \<open>The loop of \<^verbatim>\<open>client2\<close> runs for ten seconds: as many arguments are drawn as calls fit.\<close>

fun client2 :: "'w caller1 \<Rightarrow> i32 list \<Rightarrow> 'w \<Rightarrow> 'w res" where
  "client2 call1 [] w = Inr w"
| "client2 call1 (arg # args) w =
     rbind (rpcc_call1 put_int call1 get_string 25 arg [] to_max w) (\<lambda>(ret, rep, w).
     rbind (test (int (length rep) = sint arg)) (\<lambda>_.
     client2 call1 args w))"

fun client3_from :: "'w caller1 \<Rightarrow> i32 \<Rightarrow> i32 list \<Rightarrow> 'w \<Rightarrow> 'w res" where
  "client3_from call1 r [] w = Inr w"
| "client3_from call1 r (i # draws) w =
     rbind (rpcc_call1 put_int call1 get_int 24 i r 3000 w) (\<lambda>(ret, rep, w).
     rbind (test (ret = timeout_failure \<or> rep = i + 2)) (\<lambda>_.
     client3_from call1 r draws w))"

definition client3 :: "'w caller1 \<Rightarrow> i32 \<Rightarrow> 'w \<Rightarrow> 'w res" where
  "client3 call1 r w = client3_from call1 r [0, 1, 2, 3] w"

text \<open>
  \<^verbatim>\<open>simple_tests\<close>: \<open>call1\<close> is the call of the client \<open>w\<close>, \<open>call1'\<close> that of the client \<open>w1\<close> of the server that
  does not exist. The world of \<open>w1\<close> has the clock, which \<^verbatim>\<open>time(0)\<close> reads before and after its \<^verbatim>\<open>bind\<close>.
\<close>

definition time_of :: "int \<Rightarrow> int" where
  "time_of clock = tv_sec (reading clock)"

definition simple_tests ::
  "'w caller1 \<Rightarrow> (rpcc \<times> int) caller1 \<Rightarrow> i32 \<Rightarrow> rpcc \<times> int \<Rightarrow> 'w \<Rightarrow> 'w res" where
  "simple_tests call1 call1' r w1 w =
     rbind (rpcc_call2 put_string put_string call1 get_string 22 (c_str ''hello'') (c_str '' goodbye'') [] to_max w)
       (\<lambda>(intret, rep, w).
     rbind (test (intret = 0)) (\<lambda>_.
     rbind (test (rep = c_str ''hello goodbye'')) (\<lambda>_.
     rbind (rpcc_call1 put_int call1 get_string 25 70000 rep 200000 w) (\<lambda>(intret, rep, w).
     rbind (test (intret = 0)) (\<lambda>_.
     rbind (test (length rep = 70000)) (\<lambda>_.
     rbind (rpcc_call1 put_string call1 get_string 22 (c_str ''just one'') rep to_max w) (\<lambda>(intret, rep, w).
     rbind (test (intret <s 0)) (\<lambda>_.
     rbind (rpcc_call2 put_int put_int call1 get_string 23 1001 1002 rep to_max w) (\<lambda>(intret, rep, w).
     rbind (test (intret <s 0)) (\<lambda>_.
     rbind (rpcc_call2 put_string put_string call1 get_int 23 (c_str ''hello'') (c_str '' goodbye'') r to_max w)
       (\<lambda>(intret, wrongrep, w).
     rbind (test (intret <s 0)) (\<lambda>_.
     rbind (rpcc_call1 put_int call1 get_int 23 77 0 3000 w) (\<lambda>(intret, xx, w).
     rbind (test (intret = 0 \<and> xx = 78)) (\<lambda>_.
     rbind (rpcc_call2 put_string put_string call1 get_string 22 (replicate 1000 0x78) (c_str ''x'') [] 3000 w)
       (\<lambda>(_, rep1, w).
     rbind (test (length rep1 = 1001)) (\<lambda>_.
     rbind (rpcc_call2 put_string put_string call1 get_string 22 (replicate 1000000 0x78) (c_str ''z'') rep to_max w)
       (\<lambda>(intret, rep, w).
     rbind (test (length rep = 1000001)) (\<lambda>_.
     let t0 = time_of (snd w1) in
     rbind (rpcc_bind call1' r 3000 w1) (\<lambda>(intret, c1, clock).
     let t1 = time_of clock in
     rbind (test (intret <s 0 \<and> t1 - t0 \<le> 4)) (\<lambda>_.
     Inr w))))))))))))))))))))"

text \<open>
  \<^verbatim>\<open>failure_test\<close> up to its concurrent part. \<^verbatim>\<open>delete server\<close> closes the channel of the old client \<open>old\<close>. While
  the server is down a new client calls with \<open>down\<close>; afterwards \<open>old\<close> and a new client \<open>new\<close> call the new
  instance \<open>sv\<close>, each on a connection of its own. The destructor of the old client, which nothing uses
  any more, is left out.
\<close>

definition failure_test ::
  "(rpcc \<times> int) caller1 \<Rightarrow> (rpcc \<times> 's) caller1 \<Rightarrow> (rpcc \<times> 's) caller1 \<Rightarrow> i32 \<Rightarrow> int \<Rightarrow> rpcc \<Rightarrow> rpcc \<Rightarrow> rpcc \<Rightarrow> 's \<Rightarrow>
   (rpcc \<times> 's) res" where
  "failure_test down call_old call_new r clock first old new sv =
     rbind (peer_closed old) (\<lambda>old.
     rbind (rpcc_bind down r 3000 (first, clock)) (\<lambda>(ret, first, _).
     rbind (test (ret <s 0)) (\<lambda>_.
     rbind (rpcc_delete first) (\<lambda>_.
     rbind (rpcc_call2 put_string put_string call_old get_string 22 (c_str ''hello'') (c_str '' goodbye'') []
       to_max (old, sv)) (\<lambda>(intret, rep, _, sv).
     rbind (test (intret = oldsrv_failure)) (\<lambda>_.
     rbind (rpcc_bind call_new r to_max (new, sv)) (\<lambda>(ret, w).
     rbind (test (0 \<le>s ret)) (\<lambda>_.
     rbind (rpcc_bind call_new r to_max w) (\<lambda>(ret, w).
     rbind (test (ret <s 0)) (\<lambda>_.
     rbind (rpcc_call2 put_string put_string call_new get_string 22 (c_str ''hello'') (c_str '' goodbye'') rep
       to_max w) (\<lambda>(intret, rep, w).
     rbind (test (intret = 0)) (\<lambda>_.
     rbind (test (rep = c_str ''hello goodbye'')) (\<lambda>_.
     Inr w)))))))))))))"

section \<open>Marshalling\<close>

lemma length_buffer [simp]: "length (buffer g b) = length b"
  by (simp add: buffer_def)

lemma buffer_carried: "carried (take k b) (take k (buffer g b))"
  by (auto simp: carried_def buffer_def)

lemma testmarshall_of_passes:
  assumes "int (length s) + 40 < msg_limit"
  shows "testmarshall_of g rh i l s = Inr ()"
proof -
  let ?pl = "be32 i @ be64 l @ enc_string s"
  have lim: "msg_limit \<le> int_max" by (simp add: limits)
  obtain m0 where m0: "pack_req_header rh marshall_new = Inr m0" "wfm m0" "m_ind m0 = 24" "request_msg rh [] (contents m0)"
    using header_packed(1) [OF wfm_new, of "[]"] by (auto simp: contents_new)
  obtain m1 where m1: "put_int i m0 = Inr m1" "wfm m1" "contents m1 = contents m0 @ map Some (be32 i)"
    using int_codec.put_appends [of m0 i] m0 by (auto simp: limits)
  moreover have i1: "m_ind m1 = 28" using length_contents [OF m1(2)] length_contents [OF m0(2)] m0(3) m1(3) by simp
  ultimately obtain m2 where m2: "put_u64 l m1 = Inr m2" "wfm m2" "contents m2 = contents m1 @ map Some (be64 l)"
    using u64_codec.put_appends [of m1 l] by (auto simp: limits)
  moreover have i2: "m_ind m2 = 36" using length_contents [OF m2(2)] length_contents [OF m1(2)] i1 m2(3) by simp
  moreover have fits: "string_fits s" using assms by (simp add: string_fits_def limits)
  ultimately obtain m3 where m3: "put_string s m2 = Inr m3" "wfm m3" "contents m3 = contents m2 @ map Some (enc_string s)"
    using string_codec.put_appends [of s m2] assms by (auto simp: enc_string_def)
  have i3: "m_ind m3 = 40 + int (length s)"
    using length_contents [OF m3(2)] length_contents [OF m2(2)] i2 m3(3) by (simp add: enc_string_def)
  obtain b where b: "m_buf m3 = Some b" "contents m3 = take (nat (m_ind m3)) b" "m_ind m3 \<le> int (length b)"
      "int (length b) \<le> int_max"
    using m3(2) i3 assms by (auto simp: limits max_def elim!: wfmE split: if_splits)
  have "request_msg rh ?pl (take (nat (m_ind m3)) b)"
    using m0(4) m1(3) m2(3) m3(3) b(2) by (auto simp: request_msg_def)
  note req = request_carried [OF this buffer_carried, of g]
  have msg: "message (Some (buffer g b)) (m_ind m3)" "24 \<le> m_ind m3"
    using b i3 assms lim by (auto simp: message_def limits)
  have "take 20 (drop 4 (buffer g b)) = enc_req_header rh"
  proof -
    have "20 \<le> nat (m_ind m3) - 4" using msg(2) by linarith
    with req(1) show ?thesis by (simp add: drop_take min_def)
  qed
  then obtain u where u: "unpack_req_header (unmarshall_new (Some (buffer g b)) (m_ind m3)) = Inr (rh, u)" "received ?pl u"
    using unpack_req_header_decodes [OF msg] req(2) by auto
  obtain u1 where u1: "get_int 0 u = Inr (i, u1)" "received (be64 l @ enc_string s) u1"
    using int_codec.get_decodes [of u i] u(2) by (auto simp: received_def reads_def)
  obtain u2 where u2: "get_u64 0 u1 = Inr (l, u2)" "received (enc_string s) u2"
    using u64_codec.get_decodes [of u1 l] u1(2) by (auto simp: received_def reads_def)
  obtain u3 where u3: "get_string [] u2 = Inr (s, u3)" "received [] u3"
    using string_codec.get_decodes [OF fits, of u2 "[]"] u2(2) by (auto simp: received_def reads_def)
  have "okdone u3" using u3(2) unread_length [of u3] by (simp add: received_def okdone_def)
  with m0(1,3) m1(1) m2(1) m3(1) b(1) i3 u(1) u1(1) u2(1) u3(1) show ?thesis
    by (simp add: testmarshall_of_def marshall_take_buf_def)
qed

section \<open>Calls of the tests\<close>

definition test_procs :: "i32 \<Rightarrow> unit rpcs \<Rightarrow> bool" where
  "test_procs r0 s \<longleftrightarrow>
     procs s 22 = Some (h2_fn get_string [] get_string [] put_string [] handle_22) \<and>
     procs s 23 = Some (h1_fn get_int 0 put_int r0 handle_fast) \<and>
     procs s 24 = Some (h1_fn get_int 0 put_int r0 handle_slow) \<and>
     procs s 25 = Some (h1_fn get_int 0 put_string [] handle_bigrep)"

lemma startserver_registers:
  "\<exists>s. startserver r0 n = Inr s \<and> test_procs r0 s \<and> nonce s = n \<and> conns s = Map.empty \<and> counting s = 0 \<and>
    reply_window s = Map.empty \<and> procs s rpc_bind = Some (h1_fn get_int 0 put_int r0 (rpcbind n))"
  by (simp add: startserver_def rpcs_new_def reg1_def test_procs_def rpc_consts)

text \<open>A client and a server that can do \<open>n\<close> more calls, and a network and a clock to do them with.\<close>

definition alive :: "(cid \<times> connection) option \<Rightarrow> cid \<Rightarrow> cid \<Rightarrow> i32 \<Rightarrow> nat \<Rightarrow> rpcc \<times> unit rpcs \<Rightarrow> bool" where
  "alive fresh c d r0 n w \<longleftrightarrow>
     linked fresh c d w \<and> bind_done (fst w) \<and> unat (next_xid (fst w)) + n < 2 ^ 32 \<and> test_procs r0 (snd w)"

definition lossless :: "(block \<Rightarrow> u8 list) \<Rightarrow> timespec \<Rightarrow> bool" where
  "lossless net now \<longleftrightarrow> (\<forall>m. carried m (net m)) \<and> ts_normal now \<and> 0 < tv_sec now"

lemma alive_next:
  assumes "alive fresh c d r0 (Suc n) w" and "procs (snd w') = procs (snd w)"
    and "next_xid (fst w') = next_xid (fst w) + 1" and "bind_done (fst w') = bind_done (fst w)"
    and "next_xid (fst w) < next_xid (fst w) + 1 \<longrightarrow> linked fresh c d w'"
  shows "alive fresh c d r0 n w'"
proof -
  have "unat (next_xid (fst w) + 1) = unat (next_xid (fst w)) + 1"
    using assms(1) by (simp add: alive_def unat_add_lem [THEN iffD1])
  with assms show ?thesis by (simp add: alive_def test_procs_def word_less_nat_alt)
qed

interpretation two_strings: pair_codec put_string get_string enc_string "[]" string_fits
  put_string get_string enc_string "[]" string_fits
  by unfold_locales

interpretation concat_method: remote_method "put_pair put_string put_string" "get_pair get_string get_string"
  "\<lambda>p. enc_string (fst p) @ enc_string (snd p)" "([], [])" "\<lambda>p. string_fits (fst p) \<and> string_fits (snd p)"
  put_string get_string enc_string string_fits
  by unfold_locales

interpretation two_ints: pair_codec put_int get_int be32 0 "\<lambda>_. True" put_int get_int be32 0 "\<lambda>_. True"
  by unfold_locales

interpretation bigrep_method: remote_method put_int get_int be32 0 "\<lambda>_. True"
  put_string get_string enc_string string_fits
  by unfold_locales

lemma call_22:
  assumes a: "alive fresh c d r0 (Suc n) w" and net: "lossless net now" and to: "0 \<le> to"
    and len: "int (length x) + int (length y) + 40 < msg_limit"
  shows "\<exists>w'. rpcc_call2 put_string put_string (exchange fresh net t d now) get_string 22 x y z to w =
    Inr (0, x @ y, w') \<and> alive fresh c d r0 n w'"
proof -
  have p: "((22 :: i32) = rpc_bind) \<noteq> bind_done (fst w)" using a by (simp add: alive_def rpc_bind_def)
  have "procs (snd w) 22 = Some (h1_fn (get_pair get_string get_string) ([], []) put_string [] (\<lambda>(a, b). handle_22 a b))"
    using a by (simp add: alive_def test_procs_def h2_as_h1)
  from concat_method.remote_call [OF _ _ p _ _ to this, of fresh c d net now "(x, y)" 0 "x @ y" "obj (snd w)" t z]
  show ?thesis
    using a net len alive_next [OF a]
    by (fastforce simp: alive_def lossless_def handle_22_def string_fits_def enc_string_def limits call2_as_call1)
qed

lemma call_int:
  assumes a: "alive fresh c d r0 (Suc n) w" and net: "lossless net now" and to: "0 \<le> to"
  shows "\<exists>w'. rpcc_call1 put_int (exchange fresh net t d now) get_int (if b then 23 else 24) x z to w =
    Inr (0, (if b then x + 1 else x + 2), w') \<and> alive fresh c d r0 n w'"
proof -
  let ?p = "if b then 23 else 24 :: i32" and ?h = "if b then handle_fast else handle_slow"
  have p: "(?p = rpc_bind) \<noteq> bind_done (fst w)" using a by (simp add: alive_def rpc_bind_def)
  have "procs (snd w) ?p = Some (h1_fn get_int 0 put_int r0 ?h)"
    using a by (simp add: alive_def test_procs_def)
  from bind_method.remote_call [OF _ _ p _ _ to this, of fresh c d net now x 0 "if b then x + 1 else x + 2" "obj (snd w)" t z]
  show ?thesis
    using a net alive_next [OF a]
    by (fastforce simp: alive_def lossless_def handle_fast_def handle_slow_def limits)
qed

lemma call_25:
  assumes a: "alive fresh c d r0 (Suc n) w" and net: "lossless net now" and to: "0 \<le> to"
    and x: "0 \<le> sint x" "sint x + 40 < msg_limit"
  shows "\<exists>w'. rpcc_call1 put_int (exchange fresh net t d now) get_string 25 x z to w =
    Inr (0, replicate (nat (sint x)) 0x78, w') \<and> alive fresh c d r0 n w'"
proof -
  have p: "((25 :: i32) = rpc_bind) \<noteq> bind_done (fst w)" using a by (simp add: alive_def rpc_bind_def)
  have proc: "procs (snd w) 25 = Some (h1_fn get_int 0 put_string [] handle_bigrep)"
    using a by (simp add: alive_def test_procs_def)
  have "uint (scast x :: u64) = int (nat (sint x))"
    using x by (simp only: scast_eq uint_word_of_int) (simp add: limits)
  then have "handle_bigrep x [] (obj (snd w)) = (0, replicate (nat (sint x)) 0x78, obj (snd w))"
    by (simp add: handle_bigrep_def unat_eq_nat_uint)
  moreover have "string_fits (replicate (nat (sint x)) 0x78)" "int (length (be32 x)) + 24 < msg_limit"
      "int (length (enc_string (replicate (nat (sint x)) 0x78))) + 24 < msg_limit"
    using x by (simp_all add: string_fits_def enc_string_def limits)
  moreover have "linked fresh c d w" "\<And>m. carried m (net m)" "ts_normal now" "0 < tv_sec now"
    using a net by (simp_all add: alive_def lossless_def)
  ultimately have "\<exists>w'. rpcc_call1 put_int (exchange fresh net t d now) get_string 25 x z to w =
      Inr (0, replicate (nat (sint x)) 0x78, w') \<and> obj (snd w') = obj (snd w) \<and> procs (snd w') = procs (snd w) \<and>
      nonce (snd w') = nonce (snd w) \<and> next_xid (fst w') = next_xid (fst w) + 1 \<and>
      bind_done (fst w') = bind_done (fst w) \<and> (next_xid (fst w) < next_xid (fst w) + 1 \<longrightarrow> linked fresh c d w')"
    by (intro bigrep_method.remote_call [OF _ _ p _ _ to proc]) simp_all
  with alive_next [OF a] show ?thesis by blast
qed

text \<open>Calls with the wrong arguments.\<close>

lemma reject:
  assumes a: "alive fresh c d r0 (Suc n) w" and net: "lossless net now" and to: "0 \<le> to"
    and proc: "procs (snd w) proc = Some (h1_fn g z putR r1 meth)" "proc \<noteq> rpc_bind"
    and req: "wfm req" "contents req = replicate 24 None @ map Some pl" "int (length pl) + 24 \<le> int_max"
    and bad: "\<And>u. received pl u \<Longrightarrow> \<exists>a u'. g z u = Inr (a, u') \<and> \<not> okdone u'"
  shows "\<exists>w'. call_m (exchange fresh net t d now) get proc req r to w = Inr (unmarshal_args_failure, r, w') \<and>
    alive fresh c d r0 n w'"
proof -
  have l: "linked fresh c d w" and p: "(proc = rpc_bind) \<noteq> bind_done (fst w)"
    and net: "\<And>m. carried m (net m)" and now: "ts_normal now" "0 < tv_sec now"
    using a net proc(2) by (simp_all add: alive_def lossless_def)
  obtain w' where "call_m (exchange fresh net t d now) get proc req r to w = Inr (unmarshal_args_failure, r, w')"
      "procs (snd w') = procs (snd w)" "next_xid (fst w') = next_xid (fst w) + 1" "bind_done (fst w') = bind_done (fst w)"
      "next_xid (fst w) < next_xid (fst w) + 1 \<longrightarrow> linked fresh c d w'"
    using exchange_rejects [OF l net p req now to proc(1) bad, of t get r] by blast
  with alive_next [OF a] show ?thesis by blast
qed

lemma requests_of:
  assumes "wire_codec put get enc dflt fits" and "fits a" "int (length (enc a)) + 24 < msg_limit"
  shows "\<exists>req. put a marshall_new = Inr req \<and> wfm req \<and> contents req = replicate 24 None @ map Some (enc a)"
  using wire_codec.put_appends [OF assms(1,2) wfm_new] assms(3) by (auto simp: contents_new add.commute)

lemma too_few:
  assumes "received (enc_string x) u" and "string_fits x"
  shows "\<exists>a u'. get_pair get_string get_string ([], []) u = Inr (a, u') \<and> \<not> okdone u'"
proof -
  obtain u1 where u1: "get_string [] u = Inr (x, u1)" "received [] u1"
    using string_codec.get_decodes [OF assms(2), of u "[]"] assms(1) by (auto simp: received_def reads_def)
  then obtain k u2 where "get_u32 0 u1 = Inr (k, u2)" "\<not> u_ok u2"
    using u32_short [of u1 0] by (auto simp: received_def runs_short_def)
  then show ?thesis using u1(1) by (simp add: get_pair_def get_string_def okdone_def)
qed

lemma too_many:
  assumes "received (be32 x @ y # ys) u"
  shows "\<exists>a u'. get_int 0 u = Inr (a, u') \<and> \<not> okdone u'"
proof -
  obtain u1 where "get_int 0 u = Inr (x, u1)" "received (y # ys) u1"
    using int_codec.get_decodes [of u x "y # ys"] assms by (auto simp: received_def reads_def)
  moreover from this(2) have "\<not> okdone u1" using unread_length [of u1] by (auto simp: received_def okdone_def)
  ultimately show ?thesis by blast
qed

lemma length_c_str [simp]: "length (c_str s) = length s"
  by (simp add: c_str_def)

lemma hello_goodbye: "c_str ''hello'' @ c_str '' goodbye'' = c_str ''hello goodbye''"
  by (simp add: c_str_def)

lemma call_too_few:
  assumes "alive fresh c d r0 (Suc n) w" and "lossless net now"
  shows "\<exists>w'. rpcc_call1 put_string (exchange fresh net t d now) get_string 22 (c_str ''just one'') r to_max w =
    Inr (unmarshal_args_failure, r, w') \<and> alive fresh c d r0 n w'"
proof -
  obtain req where req: "put_string (c_str ''just one'') marshall_new = Inr req" "wfm req"
      "contents req = replicate 24 None @ map Some (enc_string (c_str ''just one''))"
    using requests_of [OF string_codec.wire_codec_axioms, of "c_str ''just one''"]
    by (auto simp: string_fits_def enc_string_def limits)
  have proc: "procs (snd w) 22 =
      Some (h1_fn (get_pair get_string get_string) ([], []) put_string [] (\<lambda>(a, b). handle_22 a b))"
    using assms(1) by (simp add: alive_def test_procs_def h2_as_h1)
  have bad: "\<exists>a u'. get_pair get_string get_string ([], []) u = Inr (a, u') \<and> \<not> okdone u'"
    if "received (enc_string (c_str ''just one'')) u" for u
    by (rule too_few [OF that]) (simp add: string_fits_def)
  from reject [OF assms _ proc _ req(2,3) _ bad, of to_max t get_string r] show ?thesis
    using req(1) by (simp add: rpcc_call1_def to_max_def rpc_bind_def enc_string_def limits)
qed

lemma call_too_many:
  assumes "alive fresh c d r0 (Suc n) w" and "lossless net now"
  shows "\<exists>w'. rpcc_call2 put_int put_int (exchange fresh net t d now) get_string 23 x y r to_max w =
    Inr (unmarshal_args_failure, r, w') \<and> alive fresh c d r0 n w'"
proof -
  let ?pl = "be32 x @ be32 y"
  obtain req where req: "put_pair put_int put_int (x, y) marshall_new = Inr req" "wfm req"
      "contents req = replicate 24 None @ map Some ?pl"
    using requests_of [OF two_ints.wire_codec_axioms, of "(x, y)"] by (auto simp: limits)
  have proc: "procs (snd w) 23 = Some (h1_fn get_int 0 put_int r0 handle_fast)"
    using assms(1) by (simp add: alive_def test_procs_def)
  have bad: "\<exists>a u'. get_int 0 u = Inr (a, u') \<and> \<not> okdone u'" if "received ?pl u" for u
    using too_many [of x _ _ u] that by (simp add: be32_def)
  from reject [OF assms _ proc _ req(2,3) _ bad, of to_max t get_string r] show ?thesis
    using req(1) by (simp add: call2_as_call1 rpcc_call1_def to_max_def rpc_bind_def limits)
qed

lemma call_wrong_type:
  assumes "alive fresh c d r0 (Suc n) w" and "lossless net now"
  shows "\<exists>w'. rpcc_call2 put_string put_string (exchange fresh net t d now) get_int 23 (c_str ''hello'') (c_str '' goodbye'')
      r to_max w = Inr (unmarshal_args_failure, r, w') \<and> alive fresh c d r0 n w'"
proof -
  let ?pl = "enc_string (c_str ''hello'') @ enc_string (c_str '' goodbye'')"
  obtain req where req: "put_pair put_string put_string (c_str ''hello'', c_str '' goodbye'') marshall_new = Inr req" "wfm req"
      "contents req = replicate 24 None @ map Some ?pl"
    using requests_of [OF two_strings.wire_codec_axioms, of "(c_str ''hello'', c_str '' goodbye'')"]
    by (auto simp: limits string_fits_def enc_string_def)
  have proc: "procs (snd w) 23 = Some (h1_fn get_int 0 put_int r0 handle_fast)"
    using assms(1) by (simp add: alive_def test_procs_def)
  have bad: "\<exists>a u'. get_int 0 u = Inr (a, u') \<and> \<not> okdone u'" if "received ?pl u" for u
    using too_many [of 5 _ _ u] that by (simp add: enc_string_def c_str_def)
  from reject [OF assms _ proc _ req(2,3) _ bad, of to_max t get_int r] show ?thesis
    using req(1) by (simp add: call2_as_call1 rpcc_call1_def to_max_def rpc_bind_def limits enc_string_def)
qed

section \<open>Passing\<close>

lemma client1_big_passes:
  assumes "lossless net now"
  shows "alive fresh c d r0 (length args + n) w \<Longrightarrow> \<forall>x \<in> set args. 0 \<le> sint x \<and> sint x < 2000 \<Longrightarrow>
    \<exists>w'. client1_big (exchange fresh net t d now) args w = Inr w' \<and> alive fresh c d r0 n w'"
proof (induction args arbitrary: w)
  case (Cons x args)
  then obtain w' where "rpcc_call1 put_int (exchange fresh net t d now) get_string 25 x [] to_max w =
      Inr (0, replicate (nat (sint x)) 0x78, w')" "alive fresh c d r0 (length args + n) w'"
    using call_25 [of fresh c d r0 "length args + n" w net now to_max x t "[]"] assms
    by (auto simp: to_max_def limits)
  with Cons.IH [of w'] Cons.prems(2) show ?case by auto
qed auto

lemma client1_mixed_passes:
  assumes "lossless net now"
  shows "alive fresh c d r0 (length ms) w \<Longrightarrow>
    \<forall>(b, x, start, end) \<in> set ms. \<exists>k. diff_timespec end start = Inr k \<Longrightarrow>
    \<exists>w'. client1_mixed (exchange fresh net t d now) r ms w = Inr w' \<and> alive fresh c d r0 0 w'"
proof (induction ms arbitrary: w)
  case (Cons m ms)
  obtain b x start "end" where m: "m = (b, x, start, end)" by (metis prod_cases4)
  then obtain k where k: "diff_timespec end start = Inr k" using Cons.prems(2) by auto
  obtain w' where "rpcc_call1 put_int (exchange fresh net t d now) get_int (if b then 23 else 24) x r to_max w =
      Inr (0, (if b then x + 1 else x + 2), w')" "alive fresh c d r0 (length ms) w'"
    using call_int [of fresh c d r0 "length ms" w net now to_max t b x r] assms Cons.prems(1)
    by (auto simp: to_max_def)
  with Cons.IH [of w'] Cons.prems(2) k show ?case by (auto simp: m)
qed auto

lemma simple_tests_pass:
  assumes a: "alive fresh c d r0 8 w" and net: "lossless net now"
    and w1: "rpcc_bind call1' r 3000 w1 = Inr (e, c1, t1)" "e <s 0" "time_of t1 - time_of (snd w1) \<le> 4"
  shows "\<exists>w'. simple_tests (exchange fresh net t d now) call1' r w1 w = Inr w' \<and> alive fresh c d r0 0 w'"
proof -
  let ?call = "exchange fresh net t d now" and ?alive = "alive fresh c d r0"
  have lim: "msg_limit = 2 ^ 30" by (simp add: limits)
  have neg: "unmarshal_args_failure <s 0" by (simp add: unmarshal_args_failure_def word_sless_alt)
  obtain w2 where w2: "rpcc_call2 put_string put_string ?call get_string 22 (c_str ''hello'') (c_str '' goodbye'') [] to_max w =
      Inr (0, c_str ''hello goodbye'', w2)" "?alive 7 w2"
    using call_22 [of fresh c d r0 7 w net now to_max "c_str ''hello''" "c_str '' goodbye''" t "[]"] a net
    by (auto simp: hello_goodbye to_max_def lim)
  obtain w3 where w3: "rpcc_call1 put_int ?call get_string 25 70000 (c_str ''hello goodbye'') 200000 w2 =
      Inr (0, replicate 70000 0x78, w3)" "?alive 6 w3"
    using call_25 [of fresh c d r0 6 w2 net now 200000 70000 t "c_str ''hello goodbye''"] w2(2) net
    by (auto simp: lim)
  let ?rep = "replicate 70000 0x78 :: u8 list"
  obtain w4 where w4: "rpcc_call1 put_string ?call get_string 22 (c_str ''just one'') ?rep to_max w3 =
      Inr (unmarshal_args_failure, ?rep, w4)" "?alive 5 w4"
    using call_too_few [of fresh c d r0 5 w3 net now t ?rep] w3(2) net by auto
  obtain w5 where w5: "rpcc_call2 put_int put_int ?call get_string 23 1001 1002 ?rep to_max w4 =
      Inr (unmarshal_args_failure, ?rep, w5)" "?alive 4 w5"
    using call_too_many [of fresh c d r0 4 w4 net now t 1001 1002 ?rep] w4(2) net by auto
  obtain w6 where w6: "rpcc_call2 put_string put_string ?call get_int 23 (c_str ''hello'') (c_str '' goodbye'') r to_max w5 =
      Inr (unmarshal_args_failure, r, w6)" "?alive 3 w6"
    using call_wrong_type [of fresh c d r0 3 w5 net now t r] w5(2) net by auto
  obtain w7 where w7: "rpcc_call1 put_int ?call get_int 23 77 0 3000 w6 = Inr (0, 78, w7)" "?alive 2 w7"
    using call_int [of fresh c d r0 2 w6 net now 3000 t True 77 0] w6(2) net by auto
  obtain w8 where w8: "rpcc_call2 put_string put_string ?call get_string 22 (replicate 1000 0x78) (c_str ''x'') [] 3000 w7 =
      Inr (0, replicate 1000 0x78 @ c_str ''x'', w8)" "?alive 1 w8"
    using call_22 [of fresh c d r0 1 w7 net now 3000 "replicate 1000 0x78" "c_str ''x''" t "[]"] w7(2) net
    by (auto simp: lim numeral_2_eq_2)
  obtain w9 where w9: "rpcc_call2 put_string put_string ?call get_string 22 (replicate 1000000 0x78) (c_str ''z'') ?rep to_max w8 =
      Inr (0, replicate 1000000 0x78 @ c_str ''z'', w9)" "?alive 0 w9"
    using call_22 [of fresh c d r0 0 w8 net now to_max "replicate 1000000 0x78" "c_str ''z''" t ?rep] w8(2) net
    by (auto simp: lim to_max_def)
  show ?thesis
    using w2(1) w3(1) w4(1) w5(1) w6(1) w7(1) w8(1) w9 w1 neg by (simp add: simple_tests_def)
qed

lemma client2_passes:
  assumes "lossless net now"
  shows "alive fresh c d r0 (length args) w \<Longrightarrow> \<forall>x \<in> set args. 0 \<le> sint x \<and> sint x < 2000 \<Longrightarrow>
    \<exists>w'. client2 (exchange fresh net t d now) args w = Inr w'"
proof (induction args arbitrary: w)
  case (Cons x args)
  then obtain w' where "rpcc_call1 put_int (exchange fresh net t d now) get_string 25 x [] to_max w =
      Inr (0, replicate (nat (sint x)) 0x78, w')" "alive fresh c d r0 (length args) w'"
    using call_25 [of fresh c d r0 "length args" w net now to_max x t "[]"] assms
    by (auto simp: to_max_def limits)
  with Cons.IH [of w'] Cons.prems(2) show ?case by auto
qed auto

lemma client3_passes:
  assumes "lossless net now"
  shows "alive fresh c d r0 (length args) w \<Longrightarrow> \<exists>w'. client3_from (exchange fresh net t d now) r args w = Inr w'"
proof (induction args arbitrary: w)
  case (Cons x args)
  then obtain w' where "rpcc_call1 put_int (exchange fresh net t d now) get_int 24 x r 3000 w = Inr (0, x + 2, w')"
      "alive fresh c d r0 (length args) w'"
    using call_int [of fresh c d r0 "length args" w net now 3000 t False x r] assms by auto
  with Cons.IH [of w'] show ?case by auto
qed auto

lemma bound_alive:
  assumes net: "lossless net now" and l: "linked (Some (c, k)) c d (rpcc_new True random, sv)"
    and sv: "test_procs r0 sv" "nonce sv = n" "procs sv rpc_bind = Some (h1_fn get_int 0 put_int r0 (rpcbind n))"
    and n: "j + 2 < 2 ^ 32"
  shows "\<exists>w. rpcc_bind (exchange (Some (c, k)) net t d now) r to_max (rpcc_new True random, sv) = Inr (0, w) \<and>
    alive (Some (c, k)) c d r0 j w"
proof -
  have net: "\<And>m. carried m (net m)" "ts_normal now" "0 < tv_sec now" using net by (simp_all add: lossless_def)
  obtain w where "rpcc_bind (exchange (Some (c, k)) net t d now) r to_max (rpcc_new True random, sv) = Inr (0, w)"
      "linked (Some (c, k)) c d w" "bind_done (fst w)" "next_xid (fst w) = 2" "procs (snd w) = procs sv"
    using bind_links [OF l net(1) _ net(2,3), of to_max r0 t r] sv(2,3) by (auto simp: rpcc_new_def to_max_def)
  then show ?thesis using sv(1) n by (auto simp: alive_def test_procs_def)
qed

lemma diff_timespec_passes:
  "tv_sec start \<le> tv_sec end \<Longrightarrow> tv_sec end - tv_sec start \<le> 2000000 \<Longrightarrow> \<exists>k. diff_timespec end start = Inr k"
  using to_int32_id [of "(tv_sec end - tv_sec start) * 1000"] by (simp add: diff_timespec_def Let_def)

lemma within_four_seconds: "t1 \<le> t0 + 4000000000 \<Longrightarrow> time_of t1 - time_of t0 \<le> 4"
  by (simp add: time_of_def reading_def)

text \<open>A network, a clock and a connection for the examples.\<close>

definition plain_net :: "block \<Rightarrow> u8 list" where
  "plain_net = map (\<lambda>v. case v of None \<Rightarrow> 0xFF | Some x \<Rightarrow> x)"

definition second :: "int \<Rightarrow> timespec" where
  "second k = \<lparr>tv_sec = k, tv_nsec = 0\<rparr>"

definition link :: connection where
  "link = fst (connection_new 4 0)"

lemma example_facts: "lossless plain_net (second 100)" "\<not> dead link" "refno link = 1"
  "ts_normal (second k)" "tv_sec (second k) = k"
  by (auto simp: lossless_def plain_net_def second_def link_def connection_new_def carried_def ts_normal_def)

lemma four_rounds: "doublings 3000 to_min = 2"
  by (simp add: doublings.simps to_min_def)

section \<open>Properties\<close>

text \<open>
  C14. The marshalling test and the simple tests of \<^verbatim>\<open>rpctest\<close> pass over a network that neither loses nor
  damages messages: what was written is read back, calls return what the handlers compute, also for a
  request of a million bytes, requests with too few, too many or other arguments are refused without
  an effect on the server, and \<^verbatim>\<open>bind\<close> with a timeout of three seconds to a server that does not exist
  fails, and within the four seconds the test allows, when the scheduler lets the thread go on at most
  a second late in total after its waits.
\<close>

theorem rpctest_simple_tests_pass:
  assumes "lossless net now" and "random \<noteq> 0" and "\<not> dead k" "1 \<le> refno k" "\<not> dead kd" "1 \<le> refno kd"
    and "startserver r0 n = Inr sv"
    and "1000000000 \<le> clock" "\<forall>x \<in> set delays. 0 \<le> x" "sum_list delays \<le> 1000000000"
      "doublings 3000 to_min + 2 \<le> length delays"
  shows "testmarshall g = Inr () \<and>
    (\<exists>w w'. rpcc_bind (exchange (Some (c, k)) net t d now) r to_max
        (rpcc_new True random, sv\<lparr>heap := [d \<mapsto> kd]\<rparr>) = Inr (0, w) \<and>
      simple_tests (exchange (Some (c, k)) net t d now) (unanswered delays t) r
        (rpcc_new True random', clock) w = Inr w')"
proof
  show "testmarshall g = Inr ()"
    unfolding testmarshall_def by (rule testmarshall_of_passes) (simp add: limits)
  have sv: "test_procs r0 sv" "nonce sv = n" "conns sv = Map.empty" "counting sv = 0" "reply_window sv = Map.empty"
      "procs sv rpc_bind = Some (h1_fn get_int 0 put_int r0 (rpcbind n))"
    using startserver_registers [of r0 n] assms(7) by auto
  have "linked (Some (c, k)) c d (rpcc_new True random, sv\<lparr>heap := [d \<mapsto> kd]\<rparr>)"
    using assms(2-6) sv by (intro new_linked [of _ _ _ _ kd]) simp_all
  then obtain w where w: "rpcc_bind (exchange (Some (c, k)) net t d now) r to_max
      (rpcc_new True random, sv\<lparr>heap := [d \<mapsto> kd]\<rparr>) = Inr (0, w)" "alive (Some (c, k)) c d r0 8 w"
    using bound_alive [OF assms(1), of c k d random "sv\<lparr>heap := [d \<mapsto> kd]\<rparr>" r0 n 8 t r] sv
    by (auto simp: test_procs_def)
  obtain c1 t1 where w1: "rpcc_bind (unanswered delays t) r 3000 (rpcc_new True random', clock) =
      Inr (timeout_failure, (c1, t1))" "t1 \<le> clock + 3000 * 1000000 + sum_list delays"
    using bind_times_out [OF assms(8) _ _ assms(9,11), of t r True random'] by auto
  have "timeout_failure <s 0" by (simp add: timeout_failure_def word_sless_alt)
  moreover have "time_of t1 - time_of (snd (rpcc_new True random', clock)) \<le> 4"
    using w1(2) assms(10) by (intro within_four_seconds) simp
  ultimately show "\<exists>w w'. rpcc_bind (exchange (Some (c, k)) net t d now) r to_max
      (rpcc_new True random, sv\<lparr>heap := [d \<mapsto> kd]\<rparr>) = Inr (0, w) \<and>
    simple_tests (exchange (Some (c, k)) net t d now) (unanswered delays t) r
      (rpcc_new True random', clock) w = Inr w'"
    using simple_tests_pass [OF w(2) assms(1) w1(1)] w(1) by blast
qed

theorem rpctest_simple_tests_pass_witness:
  "\<exists>sv w w'. startserver 7 9 = Inr sv \<and>
    rpcc_bind (exchange (Some (3, link)) plain_net 1 6 (second 100)) 0 to_max
      (rpcc_new True 8, sv\<lparr>heap := [6 \<mapsto> link]\<rparr>) = Inr (0, w) \<and>
    simple_tests (exchange (Some (3, link)) plain_net 1 6 (second 100))
      (unanswered (replicate 4 250000) 1) 0 (rpcc_new True 5, 100500000000) w = Inr w'"
proof -
  obtain sv where sv: "startserver 7 9 = Inr sv" using startserver_registers [of 7 9] by blast
  from rpctest_simple_tests_pass [OF example_facts(1) _ _ _ _ _ sv, of 8 link link 100500000000
      "replicate 4 250000" "\<lambda>_. 0" 3 1 6 0 5] sv
  show ?thesis by (auto simp: example_facts four_rounds sum_list_replicate)
qed

text \<open>
  The loops of the client threads of \<^verbatim>\<open>rpctest\<close> pass, each run on its own by a client that was just
  bound: every reply has the size or the value asked for, for every sequence of random arguments, as
  long as the clock does not go back between the readings.
\<close>

theorem rpctest_clients_pass:
  assumes "lossless net now" and "random \<noteq> 0" and "\<not> dead k" "1 \<le> refno k" "\<not> dead kd" "1 \<le> refno kd"
    and "startserver r0 n = Inr sv"
    and "\<forall>x \<in> set args. 0 \<le> sint x \<and> sint x < 2000" "length args + length ms + 6 < 2 ^ 32"
    and "\<forall>(b, x, start, end) \<in> set ms. tv_sec start \<le> tv_sec end \<and> tv_sec end - tv_sec start \<le> 2000000"
  shows "\<exists>w w1 w2 w3. rpcc_bind (exchange (Some (c, k)) net t d now) r to_max
      (rpcc_new True random, sv\<lparr>heap := [d \<mapsto> kd]\<rparr>) = Inr (0, w) \<and>
    client1 (exchange (Some (c, k)) net t d now) r args ms w = Inr w1 \<and>
    client2 (exchange (Some (c, k)) net t d now) args w = Inr w2 \<and>
    client3 (exchange (Some (c, k)) net t d now) r w = Inr w3"
proof -
  let ?j = "length args + length ms + 4"
  have sv: "test_procs r0 sv" "nonce sv = n" "conns sv = Map.empty" "counting sv = 0" "reply_window sv = Map.empty"
      "procs sv rpc_bind = Some (h1_fn get_int 0 put_int r0 (rpcbind n))"
    using startserver_registers [of r0 n] assms(7) by auto
  have "linked (Some (c, k)) c d (rpcc_new True random, sv\<lparr>heap := [d \<mapsto> kd]\<rparr>)"
    using assms(2-6) sv by (intro new_linked [of _ _ _ _ kd]) simp_all
  then obtain w where w: "rpcc_bind (exchange (Some (c, k)) net t d now) r to_max
      (rpcc_new True random, sv\<lparr>heap := [d \<mapsto> kd]\<rparr>) = Inr (0, w)" "alive (Some (c, k)) c d r0 ?j w"
    using bound_alive [OF assms(1), of c k d random "sv\<lparr>heap := [d \<mapsto> kd]\<rparr>" r0 n ?j t r] sv assms(9)
    by (auto simp: test_procs_def)
  then have alive: "alive (Some (c, k)) c d r0 i w" if "i \<le> ?j" for i using that by (simp add: alive_def)
  have ms: "\<forall>(b, x, start, end) \<in> set ms. \<exists>k. diff_timespec end start = Inr k"
    using assms(10) diff_timespec_passes by fastforce
  obtain w0 where w0: "client1_big (exchange (Some (c, k)) net t d now) args w = Inr w0"
      "alive (Some (c, k)) c d r0 (length ms) w0"
    using client1_big_passes [OF assms(1) alive assms(8), of "length ms" t] by auto
  obtain w1 where "client1_mixed (exchange (Some (c, k)) net t d now) r ms w0 = Inr w1"
    using client1_mixed_passes [OF assms(1) w0(2) ms] by blast
  moreover obtain w2 where "client2 (exchange (Some (c, k)) net t d now) args w = Inr w2"
    using client2_passes [OF assms(1) alive assms(8), of t] by auto
  moreover obtain w3 where "client3 (exchange (Some (c, k)) net t d now) r w = Inr w3"
    using client3_passes [OF assms(1) alive, of "[0, 1, 2, 3]" t r] by (auto simp: client3_def)
  ultimately show ?thesis using w(1) w0(1) by (auto simp: client1_def)
qed

theorem rpctest_clients_pass_witness:
  "\<exists>sv w w1 w2 w3. startserver 7 9 = Inr sv \<and>
    rpcc_bind (exchange (Some (3, link)) plain_net 1 6 (second 100)) 0 to_max
      (rpcc_new True 8, sv\<lparr>heap := [6 \<mapsto> link]\<rparr>) = Inr (0, w) \<and>
    client1 (exchange (Some (3, link)) plain_net 1 6 (second 100)) 0 [1999, 0]
      [(True, 41, second 100, second 101), (False, 40, second 101, second 101)] w = Inr w1 \<and>
    client2 (exchange (Some (3, link)) plain_net 1 6 (second 100)) [1999, 0] w = Inr w2 \<and>
    client3 (exchange (Some (3, link)) plain_net 1 6 (second 100)) 0 w = Inr w3"
proof -
  obtain sv where sv: "startserver 7 9 = Inr sv" using startserver_registers [of 7 9] by blast
  from rpctest_clients_pass [OF example_facts(1) _ _ _ _ _ sv, of 8 link link "[1999, 0]"
      "[(True, 41, second 100, second 101), (False, 40, second 101, second 101)]" 3 1 6 0] sv
  show ?thesis by (simp add: example_facts)
qed

text \<open>
  C15. The failure test of \<^verbatim>\<open>rpctest\<close> passes up to its concurrent part, for an old client that is bound to
  an earlier instance and has a channel that is alive and between two messages: \<^verbatim>\<open>delete server\<close> makes the
  channel dead, \<^verbatim>\<open>bind\<close> of another client fails while the server is down, the old client gives its dead
  channel up, connects to the new instance and gets \<^verbatim>\<open>oldsrv_failure\<close>, and a new client binds exactly once
  and is served.
\<close>

theorem rpctest_failure_test_passes:
  assumes "lossless net now" and "random \<noteq> 0" and "\<not> dead k" "1 \<le> refno k"
    and "d \<noteq> d'" "\<not> dead kd" "1 \<le> refno kd" and "startserver r0 n = Inr sv"
    and "client_ready None c0 old" "all_quiet (cheap old)" "bind_done old" "srv_nonce old \<noteq> 0" "srv_nonce old \<noteq> n"
    and "\<not> dead k'" "1 \<le> refno k'"
    and "1000000000 \<le> clock" "\<forall>x \<in> set delays. 0 \<le> x" "doublings 3000 to_min + 2 \<le> length delays"
  shows "\<exists>w'. failure_test (unanswered delays t) (exchange (Some (c', k')) net t d' now)
    (exchange (Some (c, k)) net t d now) r clock
    (rpcc_new True random') old (rpcc_new True random) (sv\<lparr>heap := [d' \<mapsto> kd', d \<mapsto> kd]\<rparr>) = Inr w'"
proof -
  let ?sv = "sv\<lparr>heap := [d' \<mapsto> kd', d \<mapsto> kd]\<rparr>"
  have net: "\<And>m. carried m (net m)" "ts_normal now" "0 < tv_sec now" using assms(1) by (simp_all add: lossless_def)
  have sv: "test_procs r0 sv" "nonce sv = n" "conns sv = Map.empty" "counting sv = 0" "reply_window sv = Map.empty"
      "procs sv rpc_bind = Some (h1_fn get_int 0 put_int r0 (rpcbind n))"
    using startserver_registers [of r0 n] assms(8) by auto
  have neg: "timeout_failure <s 0" "bind_failure <s 0" "bind_failure \<noteq> 0"
    by (simp_all add: timeout_failure_def bind_failure_def word_sless_alt)
  obtain f t1 where f: "rpcc_bind (unanswered delays t) r 3000 (rpcc_new True random', clock) =
      Inr (timeout_failure, (f, t1))" "chan f = None" "calls f = Map.empty"
    using bind_times_out [OF assms(16) _ _ assms(17,18), of t r True random'] by auto
  obtain req where req: "put_pair put_string put_string (c_str ''hello'', c_str '' goodbye'') marshall_new = Inr req" "wfm req"
      "contents req = replicate 24 None @ map Some (enc_string (c_str ''hello'') @ enc_string (c_str '' goodbye''))"
    using requests_of [OF two_strings.wire_codec_axioms, of "(c_str ''hello'', c_str '' goodbye'')"]
    by (auto simp: limits string_fits_def enc_string_def)
  have hd: "heap ?sv d' = Some kd'" using assms(5) by simp
  obtain old1 old' m where old1: "peer_closed old = Inr old1" and old: "rpcc_call2 put_string put_string
      (exchange (Some (c', k')) net t d' now) get_string 22 (c_str ''hello'') (c_str '' goodbye'') [] to_max (old1, ?sv) =
      Inr (oldsrv_failure, [], (old', ?sv\<lparr>heap := (heap ?sv)(d' \<mapsto> incref kd'), sent := sent ?sv @ [m]\<rparr>))"
    using closed_then_refused [OF assms(9,10,14,15) net(1) _ assms(11) req(2,3) _ net(2,3) _ assms(12) _ hd,
        of 22 to_max c' t get_string "[]"] req(1) assms(13) sv(2)
    by (auto simp: call2_as_call1 rpcc_call1_def rpc_bind_def to_max_def limits enc_string_def simp del: fun_upd_apply)
  let ?s2 = "?sv\<lparr>heap := (heap ?sv)(d' \<mapsto> incref kd'), sent := sent ?sv @ [m]\<rparr>"
  have "linked (Some (c, k)) c d (rpcc_new True random, ?s2)"
    using assms(2-7) sv by (intro new_linked [of _ _ _ _ kd]) simp_all
  then obtain w where w: "rpcc_bind (exchange (Some (c, k)) net t d now) r to_max (rpcc_new True random, ?s2) = Inr (0, w)"
      "alive (Some (c, k)) c d r0 1 w"
    using bound_alive [OF assms(1), of c k d random ?s2 r0 n 1 t r] sv by (auto simp: test_procs_def)
  have again: "rpcc_bind (exchange (Some (c, k)) net t d now) r to_max w = Inr (bind_failure, w)"
    using exchange_unbound [of rpc_bind w "Some (c, k)" net t d now get_int _ r to_max] w(2) neg(3)
      requests_of [OF int_codec.wire_codec_axioms, of 0]
    by (cases w) (auto simp: rpcc_bind_def rpcc_call1_def bind_end_def alive_def limits)
  obtain w' where "rpcc_call2 put_string put_string (exchange (Some (c, k)) net t d now) get_string 22
      (c_str ''hello'') (c_str '' goodbye'') [] to_max w = Inr (0, c_str ''hello goodbye'', w')"
    using call_22 [of "Some (c, k)" c d r0 0 w net now to_max "c_str ''hello''" "c_str '' goodbye''" t "[]"] w(2) assms(1)
    by (auto simp: hello_goodbye to_max_def limits)
  with f old1 old w(1) again neg show ?thesis
    by (simp add: failure_test_def rpcc_delete_def del: fun_upd_apply)
qed

text \<open>An old client as the program makes it: bound to instance 10 of the server.\<close>

lemma old_client:
  "\<exists>sv old sv'. startserver 7 10 = Inr sv \<and>
    rpcc_bind (exchange (Some (2, link)) plain_net 1 4 (second 100)) 0 to_max
      (rpcc_new True 3, sv\<lparr>heap := [4 \<mapsto> link]\<rparr>) = Inr (0, (old, sv')) \<and>
    client_ready None 2 old \<and> all_quiet (cheap old) \<and> bind_done old \<and> srv_nonce old = 10"
proof -
  obtain sv where sv: "startserver 7 10 = Inr sv" "nonce sv = 10" "conns sv = Map.empty" "counting sv = 0"
      "reply_window sv = Map.empty" "procs sv rpc_bind = Some (h1_fn get_int 0 put_int 7 (rpcbind 10))"
    using startserver_registers [of 7 10] by blast
  let ?w = "(rpcc_new True 3, sv\<lparr>heap := [4 \<mapsto> link]\<rparr>)"
  have link: "linked (Some (2, link)) 2 4 ?w"
    using example_facts sv by (intro new_linked [of _ _ _ _ link]) simp_all
  have net: "\<And>m. carried m (plain_net m)" "ts_normal (second 100)" "0 < tv_sec (second 100)"
    using example_facts(1) by (simp_all add: lossless_def)
  obtain old sv' where b: "rpcc_bind (exchange (Some (2, link)) plain_net 1 4 (second 100)) 0 to_max ?w = Inr (0, (old, sv'))"
      "linked (Some (2, link)) 2 4 (old, sv')" "bind_done old" "srv_nonce old = 10"
    using bind_links [OF link net(1) _ net(2,3), of to_max 7 1 0] sv(2,6) by (auto simp: rpcc_new_def to_max_def)
  have "all_quiet (cheap old) \<and> chan old \<noteq> None"
    using bind_quiet [OF b(1)] by (simp add: rpcc_new_def link_def connection_new_def quiet_def charbuf_new_def)
  moreover from this have "client_ready None 2 old" using b(2) by (auto simp: linked_def client_ready_def)
  ultimately show ?thesis using sv(1) b by blast
qed

theorem rpctest_failure_test_passes_witness:
  "\<exists>sv0 old sv1 sv w'. startserver 7 10 = Inr sv0 \<and>
    rpcc_bind (exchange (Some (2, link)) plain_net 1 4 (second 100)) 0 to_max
      (rpcc_new True 3, sv0\<lparr>heap := [4 \<mapsto> link]\<rparr>) = Inr (0, (old, sv1)) \<and>
    startserver 7 9 = Inr sv \<and>
    failure_test (unanswered (replicate 4 250000) 1)
      (exchange (Some (7, link)) plain_net 1 5 (second 100)) (exchange (Some (3, link)) plain_net 1 6 (second 100)) 0
      100500000000 (rpcc_new True 4) old (rpcc_new True 8) (sv\<lparr>heap := [5 \<mapsto> link, 6 \<mapsto> link]\<rparr>) = Inr w'"
proof -
  obtain sv where sv: "startserver 7 9 = Inr sv" using startserver_registers [of 7 9] by blast
  obtain sv0 old sv1 where old: "startserver 7 10 = Inr sv0"
      "rpcc_bind (exchange (Some (2, link)) plain_net 1 4 (second 100)) 0 to_max
        (rpcc_new True 3, sv0\<lparr>heap := [4 \<mapsto> link]\<rparr>) = Inr (0, (old, sv1))"
      "client_ready None 2 old" "all_quiet (cheap old)" "bind_done old" "srv_nonce old = 10"
    using old_client by blast
  have "\<exists>w'. failure_test (unanswered (replicate 4 250000) 1)
      (exchange (Some (7, link)) plain_net 1 5 (second 100)) (exchange (Some (3, link)) plain_net 1 6 (second 100)) 0
      100500000000 (rpcc_new True 4) old (rpcc_new True 8) (sv\<lparr>heap := [5 \<mapsto> link, 6 \<mapsto> link]\<rparr>) = Inr w'"
    by (rule rpctest_failure_test_passes [OF example_facts(1) _ _ _ _ _ _ sv old(3,4,5)])
      (simp_all add: old(6) example_facts four_rounds)
  with old(1,2) sv show ?thesis by blast
qed

end
