(* ===== verification/Listener.thy ===== *)
theory Listener
  imports Conn_Refs
begin

text \<open>
  The listening side of \<^verbatim>\<open>src/rpc/connection.cc\<close>, class \<^verbatim>\<open>tcpsconn\<close>, and \<^verbatim>\<open>connect_to_dst\<close>. The listener has a
  map from descriptors to the connections it has accepted, in the order of the descriptors, and one
  reference to each of them. The results of the system calls are arguments.
\<close>

section \<open>class tcpsconn\<close>

text \<open>\<open>pipe_open\<close>: the writing end of the pipe is open; \<open>accepting\<close>: the thread is in its loop.\<close>

record tcpsconn =
  l_conns :: "(int \<times> cid) list"
  pipe_open :: bool
  accepting :: bool

text \<open>The constructor asserts that socket, bind, listen and pipe succeed.\<close>

definition tcpsconn_new :: "bool \<Rightarrow> bool \<Rightarrow> bool \<Rightarrow> bool \<Rightarrow> tcpsconn res" where
  "tcpsconn_new socket_ok bind_ok listen_ok pipe_ok =
     rbind (check socket_ok Assert_failed) (\<lambda>_.
     rbind (check bind_ok Assert_failed) (\<lambda>_.
     rbind (check listen_ok Assert_failed) (\<lambda>_.
     rbind (check pipe_ok Assert_failed) (\<lambda>_.
     Inr \<lparr>l_conns = [], pipe_open = True, accepting = True\<rparr>))))"

text \<open>
  The loop that drops dead connections. \<^verbatim>\<open>erase(i)\<close> invalidates the iterator, and the loop goes on with
  \<^verbatim>\<open>i++\<close>: the node it reads is gone.
\<close>

fun collect :: "(int \<times> cid) list \<Rightarrow> conn_heap \<Rightarrow> unit res" where
  "collect [] h = Inr ()"
| "collect ((f, c) # rest) h =
     (case h c of
        None \<Rightarrow> Inl Use_after_free
      | Some k \<Rightarrow>
          if isdead k \<and> ref k = 1 then rbind (ptr_decref c h) (\<lambda>_. Inl Use_after_free)
          else collect rest h)"

text \<open>\<^verbatim>\<open>conns_[ch->channo()] = ch\<close>\<close>

fun map_assign :: "int \<Rightarrow> cid \<Rightarrow> (int \<times> cid) list \<Rightarrow> (int \<times> cid) list" where
  "map_assign f c [] = [(f, c)]"
| "map_assign f c ((g, d) # rest) =
     (if f < g then (f, c) # (g, d) # rest
      else if f = g then (f, c) # rest
      else (g, d) # map_assign f c rest)"

text \<open>
  \<^verbatim>\<open>process_accept\<close>, given the result of \<^verbatim>\<open>accept\<close>, the address of the new object and \<^verbatim>\<open>lossy_\<close>; a failed
  \<^verbatim>\<open>accept\<close> ends the thread.
\<close>

definition process_accept ::
  "int \<Rightarrow> cid \<Rightarrow> int \<Rightarrow> tcpsconn \<Rightarrow> conn_heap \<Rightarrow> (tcpsconn \<times> conn_heap \<times> conn_call list) res" where
  "process_accept s1 c lt t h =
     (if s1 < 0 then Inr (t\<lparr>accepting := False\<rparr>, h, [])
      else
        let (k, cs) = connection_new s1 lt;
            h = h(c \<mapsto> k)
        in
          rbind (collect (l_conns t) h) (\<lambda>_.
          Inr (t\<lparr>l_conns := map_assign s1 c (l_conns t)\<rparr>, h, cs)))"

text \<open>
  A pass through the loop of \<^verbatim>\<open>accept_conn\<close>: \<^verbatim>\<open>select\<close> is interrupted, fails, or says that the pipe and the
  listening socket are readable. The pipe is readable when its other end has been closed.
\<close>

datatype accept_event = Select_interrupted | Select_failed | Select_ready bool

definition accept_conn ::
  "accept_event \<Rightarrow> int \<Rightarrow> cid \<Rightarrow> int \<Rightarrow> tcpsconn \<Rightarrow> conn_heap \<Rightarrow> (tcpsconn \<times> conn_heap \<times> conn_call list) res" where
  "accept_conn e s1 c lt t h =
     (if \<not> accepting t then Inr (t, h, [])
      else case e of
        Select_interrupted \<Rightarrow> Inr (t, h, [])
      | Select_failed \<Rightarrow> Inl Assert_failed
      | Select_ready tcp_ready \<Rightarrow>
          if \<not> pipe_open t then Inr (t\<lparr>accepting := False\<rparr>, h, [])
          else if tcp_ready then process_accept s1 c lt t h
          else Inl Assert_failed)"

text \<open>The destructor after the thread has been joined: all connections are closed and given up.\<close>

fun close_all :: "(int \<times> cid) list \<Rightarrow> conn_heap \<Rightarrow> (conn_heap \<times> conn_call list) res" where
  "close_all [] h = Inr (h, [])"
| "close_all ((f, c) # rest) h =
     (case h c of
        None \<Rightarrow> Inl Use_after_free
      | Some k \<Rightarrow>
          let (k, cs) = closeconn k in
          rbind (ptr_decref c (h(c \<mapsto> k))) (\<lambda>h.
          rbind (close_all rest h) (\<lambda>(h, cs'). Inr (h, cs @ cs'))))"

definition tcpsconn_delete :: "tcpsconn \<Rightarrow> conn_heap \<Rightarrow> (conn_heap \<times> conn_call list) res" where
  "tcpsconn_delete t h = close_all (l_conns t) h"

section \<open>connect\_to\_dst\<close>

text \<open>The new connection at address \<open>c\<close>, or null when \<^verbatim>\<open>connect\<close> fails.\<close>

definition connect_to_dst :: "int \<Rightarrow> bool \<Rightarrow> cid \<Rightarrow> int \<Rightarrow> (cid \<times> connection \<times> conn_call list) option" where
  "connect_to_dst s connected c lt =
     (if \<not> connected then None else Some (c, connection_new s lt))"

section \<open>What the listener holds\<close>

text \<open>The map is sorted, its connections are different, on the heap, idle, and counted.\<close>

definition listener_ok :: "tcpsconn \<Rightarrow> conn_heap \<Rightarrow> bool" where
  "listener_ok t h \<longleftrightarrow>
     sorted_wrt (<) (map fst (l_conns t)) \<and> distinct (map snd (l_conns t)) \<and>
     (\<forall>(f, c) \<in> set (l_conns t). \<exists>k. h c = Some k \<and> fd k = f \<and> 1 \<le> refno k)"

lemma map_assign_set: "set (map_assign f c m) = insert (f, c) {p \<in> set m. fst p \<noteq> f}"
  if "sorted_wrt (<) (map fst m)"
  using that
proof (induction f c m rule: map_assign.induct)
  case (2 f c g d rest)
  then show ?case by (auto 4 3)
qed simp

lemma map_assign_sorted: "sorted_wrt (<) (map fst m) \<Longrightarrow> sorted_wrt (<) (map fst (map_assign f c m))"
proof (induction f c m rule: map_assign.induct)
  case (2 f c g d rest)
  then have rest: "sorted_wrt (<) (map fst rest)" "\<forall>x \<in> set rest. g < fst x" by simp_all
  then have "\<forall>x \<in> set (map_assign f c rest). g < fst x" if "g < f"
    using map_assign_set [of rest f c] that by simp
  with 2 rest show ?case by fastforce
qed simp

lemma map_assign_distinct:
  "distinct (map snd m) \<Longrightarrow> c \<notin> snd ` set m \<Longrightarrow> sorted_wrt (<) (map fst m) \<Longrightarrow>
   distinct (map snd (map_assign f c m))"
proof (induction f c m rule: map_assign.induct)
  case (2 f c g d rest)
  then have "d \<notin> snd ` set (map_assign f c rest)" using map_assign_set [of rest f c] by auto
  with 2 show ?case by auto
qed simp

text \<open>The collecting loop comes to its end exactly when it has nothing to collect.\<close>

lemma collect_iff:
  assumes "\<forall>(f, c) \<in> set m. \<exists>k. h c = Some k \<and> 1 \<le> refno k \<and> cb_buf (wpdu k) = None"
  shows "collect m h = (if \<exists>(f, c) \<in> set m. \<exists>k. h c = Some k \<and> dead k \<and> refno k = 1
    then Inl Use_after_free else Inr ())"
  using assms
  by (induction m) (auto simp: isdead_def ref_def ptr_decref_def decref_def connection_delete_def Let_def
      split: if_splits)

text \<open>What the destructor leaves of a connection.\<close>

definition released :: "connection \<Rightarrow> connection option" where
  "released k = (if refno k = 1 then None else Some (k\<lparr>dead := True, refno := refno k - 1\<rparr>))"

lemma close_one:
  assumes "1 \<le> refno k" and "refno k = 1 \<Longrightarrow> cb_buf (wpdu k) = None"
  shows "ptr_decref c (h(c \<mapsto> fst (closeconn k))) = Inr (h(c := released k))"
  using assms
  by (cases "dead k") (auto simp: closeconn_def ptr_decref_def decref_def connection_delete_def Let_def released_def)

lemma close_all_released:
  assumes "distinct (map snd m)"
    and "\<forall>(f, c) \<in> set m. \<exists>k. h c = Some k \<and> 1 \<le> refno k \<and> (refno k = 1 \<longrightarrow> cb_buf (wpdu k) = None)"
  shows "\<exists>cs. close_all m h = Inr (\<lambda>c. if c \<in> snd ` set m then Option.bind (h c) released else h c, cs)"
  using assms
proof (induction m arbitrary: h)
  case (Cons p m)
  obtain f c where p: "p = (f, c)" by (cases p)
  obtain k where k: "h c = Some k" "1 \<le> refno k" "refno k = 1 \<longrightarrow> cb_buf (wpdu k) = None"
    using Cons.prems(2) p by auto
  let ?h = "h(c := released k)"
  have c: "c \<notin> snd ` set m" using Cons.prems(1) p by auto
  have "\<forall>(f, d) \<in> set m. \<exists>k. ?h d = Some k \<and> 1 \<le> refno k \<and> (refno k = 1 \<longrightarrow> cb_buf (wpdu k) = None)"
    using Cons.prems(2) c by (force simp: p)
  moreover have "distinct (map snd m)" using Cons.prems(1) by simp
  ultimately obtain cs where
    "close_all m ?h = Inr (\<lambda>d. if d \<in> snd ` set m then Option.bind (?h d) released else ?h d, cs)"
    using Cons.IH [of ?h] by blast
  moreover have "(\<lambda>d. if d \<in> snd ` set m then Option.bind (?h d) released else ?h d) =
      (\<lambda>d. if d \<in> snd ` set (p # m) then Option.bind (h d) released else h d)"
    using c k(1) by (auto simp: fun_eq_iff p)
  ultimately show ?case
    using k close_one [of k c h] by (auto simp: p case_prod_unfold Let_def)
qed simp

text \<open>A listener with two connections, the second of them given.\<close>

definition two_conns :: "connection \<Rightarrow> tcpsconn \<times> conn_heap" where
  "two_conns k = (\<lparr>l_conns = [(3, 0), (4, 1)], pipe_open = True, accepting = True\<rparr>,
     [0 \<mapsto> fst (connection_new 3 0), 1 \<mapsto> k])"

section \<open>Properties\<close>

text \<open>
  Accepting a connection while a dead connection with no other user is in the map is an error: the
  loop that collects it goes on from an iterator it has just erased. In every other case the new
  connection is in the map and on the heap, and the others are as they were.
\<close>

theorem process_accept_collects_wrongly:
  assumes ok: "listener_ok t h" and idle: "\<forall>c k. h c = Some k \<longrightarrow> cb_buf (wpdu k) = None"
    and new: "h c = None" "0 \<le> s1" "s1 \<notin> fst ` set (l_conns t)"
  shows "process_accept s1 c n t h =
    (if \<exists>(f, c) \<in> set (l_conns t). \<exists>k. h c = Some k \<and> dead k \<and> refno k = 1 then Inl Use_after_free
     else Inr (t\<lparr>l_conns := map_assign s1 c (l_conns t)\<rparr>, h(c \<mapsto> fst (connection_new s1 n)),
       [Add_callback s1 CB_RDONLY])) \<and>
    listener_ok (t\<lparr>l_conns := map_assign s1 c (l_conns t)\<rparr>) (h(c \<mapsto> fst (connection_new s1 n)))"
proof -
  let ?h = "h(c \<mapsto> fst (connection_new s1 n))" and ?m = "l_conns t"
  have c: "c \<notin> snd ` set ?m" using ok new(1) by (force simp: listener_ok_def)
  have "\<forall>(f, d) \<in> set ?m. \<exists>k. ?h d = Some k \<and> 1 \<le> refno k \<and> cb_buf (wpdu k) = None"
  proof safe
    fix f d
    assume fd: "(f, d) \<in> set ?m"
    then obtain k where "h d = Some k" "1 \<le> refno k" using ok by (fastforce simp: listener_ok_def)
    moreover have "d \<noteq> c" using fd c by force
    ultimately show "\<exists>k. ?h d = Some k \<and> 1 \<le> refno k \<and> cb_buf (wpdu k) = None" using idle by auto
  qed
  note col = collect_iff [OF this]
  moreover have "(\<exists>(f, d) \<in> set ?m. \<exists>k. ?h d = Some k \<and> dead k \<and> refno k = 1) \<longleftrightarrow>
      (\<exists>(f, d) \<in> set ?m. \<exists>k. h d = Some k \<and> dead k \<and> refno k = 1)"
    using c by (intro bex_cong) (auto simp: image_iff)
  ultimately have "collect ?m ?h =
      (if \<exists>(f, d) \<in> set ?m. \<exists>k. h d = Some k \<and> dead k \<and> refno k = 1 then Inl Use_after_free else Inr ())"
    by (simp only:)
  moreover have "listener_ok (t\<lparr>l_conns := map_assign s1 c ?m\<rparr>) ?h"
    using ok c map_assign_set [of ?m s1 c] map_assign_sorted [of ?m s1 c] map_assign_distinct [of ?m c s1]
    by (auto simp: listener_ok_def connection_new_def image_iff)
  ultimately show ?thesis
    using new(2) by (simp add: process_accept_def connection_new_def Let_def del: fun_upd_apply)
qed

theorem process_accept_collects_wrongly_witness:
  "(let (t, h) = two_conns ((fst (connection_new 4 0))\<lparr>dead := True\<rparr>) in process_accept 5 2 0 t h = Inl Use_after_free) \<and>
   (let (t, h) = two_conns ((fst (connection_new 4 0))\<lparr>dead := True, refno := 2\<rparr>) in
      listener_ok (t\<lparr>l_conns := map_assign 5 2 (l_conns t)\<rparr>) (h(2 \<mapsto> fst (connection_new 5 0))))"
proof -
  let ?k = "(fst (connection_new 4 0))\<lparr>dead := True\<rparr>"
  let ?t = "fst (two_conns ?k)" and ?h = "\<lambda>n. snd (two_conns (?k\<lparr>refno := n\<rparr>))"
  have "listener_ok ?t (?h n)" if "1 \<le> n" for n
    using that by (simp add: listener_ok_def two_conns_def connection_new_def)
  moreover have "\<forall>c k. ?h n c = Some k \<longrightarrow> cb_buf (wpdu k) = None" for n
    by (simp add: two_conns_def connection_new_def charbuf_new_def)
  moreover have "?h n 2 = None" "5 \<notin> fst ` set (l_conns ?t)" for n by (simp_all add: two_conns_def)
  ultimately show ?thesis
    using process_accept_collects_wrongly [of ?t "?h 1" 2 5 0] process_accept_collects_wrongly [of ?t "?h 2" 2 5 0]
    by (simp add: two_conns_def connection_new_def)
qed

text \<open>
  C35. The destructor of the listener closes every connection it has accepted and gives up its reference:
  a connection with no other user is deleted, the others are dead and have one user less, and no
  deleted connection is touched.
\<close>

theorem listener_destructor_releases:
  assumes "listener_ok t h" and "\<forall>(f, c) \<in> set (l_conns t). \<forall>k. h c = Some k \<longrightarrow> refno k = 1 \<longrightarrow> cb_buf (wpdu k) = None"
  shows "\<exists>cs. tcpsconn_delete t h =
    Inr (\<lambda>c. if c \<in> snd ` set (l_conns t) then Option.bind (h c) released else h c, cs)"
proof -
  have "\<forall>(f, c) \<in> set (l_conns t). \<exists>k. h c = Some k \<and> 1 \<le> refno k \<and> (refno k = 1 \<longrightarrow> cb_buf (wpdu k) = None)"
    using assms by (fastforce simp: listener_ok_def)
  moreover have "distinct (map snd (l_conns t))" using assms(1) by (simp add: listener_ok_def)
  ultimately show ?thesis unfolding tcpsconn_delete_def by (intro close_all_released)
qed

theorem listener_destructor_releases_witness:
  "let k = (fst (connection_new 4 0))\<lparr>refno := 2\<rparr>; (t, h) = two_conns k in
   \<exists>cs. tcpsconn_delete t h = Inr ([1 \<mapsto> k\<lparr>dead := True, refno := 1\<rparr>], cs)"
proof -
  let ?k = "(fst (connection_new 4 0))\<lparr>refno := 2\<rparr>"
  let ?t = "fst (two_conns ?k)" and ?h = "snd (two_conns ?k)"
  have "listener_ok ?t ?h" by (simp add: listener_ok_def two_conns_def connection_new_def)
  moreover have "\<forall>(f, c) \<in> set (l_conns ?t). \<forall>k. ?h c = Some k \<longrightarrow> refno k = 1 \<longrightarrow> cb_buf (wpdu k) = None"
    by (simp add: two_conns_def connection_new_def charbuf_new_def)
  moreover have "(\<lambda>c. if c \<in> snd ` set (l_conns ?t) then Option.bind (?h c) released else ?h c) =
      [1 \<mapsto> ?k\<lparr>dead := True, refno := 1\<rparr>]"
    by (auto simp: fun_eq_iff two_conns_def released_def connection_new_def)
  ultimately show ?thesis
    using listener_destructor_releases [of ?t ?h] by (simp add: two_conns_def Let_def)
qed

end
