(* ===== verification/Thr_Pool.thy ===== *)
theory Thr_Pool
  imports Prelude
begin

text \<open>
  The thread pool of \<^verbatim>\<open>src/rpc/thr_pool.cc\<close> and the bounded queue of \<^verbatim>\<open>src/rpc/fifo.h\<close> it is built on. The
  bodies of the loops in \<^verbatim>\<open>enq\<close> and \<^verbatim>\<open>deq\<close> run under the queue's mutex and are single steps; a thread
  that calls \<^verbatim>\<open>pthread_cond_wait\<close> sleeps until a signal, or without one, lets it test again. Workers,
  threads that add jobs, and the destructor take their steps in any order.
\<close>

section \<open>class fifo\<close>

record 'a fifo =
  items :: "'a list"
  limit :: u32

definition fifo_new :: "int \<Rightarrow> 'a fifo" where
  "fifo_new m = \<lparr>items = [], limit = word_of_int m\<rparr>"

text \<open>The declared result type of \<^verbatim>\<open>size\<close> is \<^verbatim>\<open>bool\<close>.\<close>

definition fifo_size :: "'a fifo \<Rightarrow> bool" where
  "fifo_size f \<longleftrightarrow> length (items f) \<noteq> 0"

datatype enq_result = Enq_returns bool | Enq_waits

datatype 'a deq_result = Deq_returns 'a bool | Deq_waits

text \<open>
  One pass through the loop of \<^verbatim>\<open>enq\<close>; \<^verbatim>\<open>non_empty_c_\<close> is signalled when it returns true. One pass
  through the loop of \<^verbatim>\<open>deq\<close>, which says whether it signals \<^verbatim>\<open>has_space_c_\<close>.
\<close>

definition enq :: "'a \<Rightarrow> bool \<Rightarrow> 'a fifo \<Rightarrow> enq_result \<times> 'a fifo" where
  "enq e blocking f =
     (if limit f = 0 \<or> length (items f) < unat (limit f) then (Enq_returns True, f\<lparr>items := items f @ [e]\<rparr>)
      else if blocking then (Enq_waits, f)
      else (Enq_returns False, f))"

definition deq :: "'a fifo \<Rightarrow> 'a deq_result \<times> 'a fifo" where
  "deq f =
     (case items f of
        [] \<Rightarrow> (Deq_waits, f)
      | e # r \<Rightarrow> (Deq_returns e (limit f \<noteq> 0 \<and> length r < unat (limit f)), f\<lparr>items := r\<rparr>))"

section \<open>class ThrPool\<close>

text \<open>A job whose function is null, the poison pill, is \<open>None\<close>.\<close>

type_synonym 'j job_t = "'j option"

datatype 'j worker = W_take | W_wait | W_run 'j | W_exited

datatype 'j adder = A_add 'j | A_wait 'j | A_returned bool

datatype destructor = D_none | D_enq nat | D_wait nat | D_join nat | D_done

text \<open>
  Beside the members of the class the state has its threads: the workers, those inside \<^verbatim>\<open>addJob\<close>, and
  the destructor. \<open>added\<close> and \<open>taken\<close> are ghosts: the jobs \<^verbatim>\<open>addJob\<close> returned true for, and the jobs
  workers have started.
\<close>

record 'j pool =
  nthreads :: nat
  blockadd :: bool
  jobq :: "'j job_t fifo"
  th :: "'j worker list"
  adders :: "'j adder list"
  dtor :: destructor
  added :: "'j list"
  taken :: "'j list"

text \<open>
  The constructor. The size of the queue is computed as an \<^verbatim>\<open>int\<close> and stored as an unsigned number; the
  product is exact for the sizes of the theorems below up to twenty million threads.
\<close>

definition ThrPool_new :: "nat \<Rightarrow> bool \<Rightarrow> 'j pool" where
  "ThrPool_new sz blocking =
     \<lparr>nthreads = sz, blockadd = blocking, jobq = fifo_new (100 * int sz), th = replicate sz W_take,
      adders = [], dtor = D_none, added = [], taken = []\<rparr>"

text \<open>
  \<^verbatim>\<open>pthread_cond_signal\<close> wakes one of the threads that wait, if there are any; which one is not said:
  thread \<open>k\<close> if it waits, else the first.
\<close>

definition wake_one :: "('t \<Rightarrow> 't option) \<Rightarrow> nat \<Rightarrow> 't list \<Rightarrow> 't list" where
  "wake_one w k ts =
     (case filter (\<lambda>i. w (ts ! i) \<noteq> None) [0..<length ts] of
        [] \<Rightarrow> ts
      | i # is \<Rightarrow> let i = (if k \<in> set is then k else i) in ts[i := the (w (ts ! i))])"

fun worker_woken :: "'j worker \<Rightarrow> 'j worker option" where
  "worker_woken W_wait = Some W_take"
| "worker_woken _ = None"

fun adder_woken :: "'j adder \<Rightarrow> 'j adder option" where
  "adder_woken (A_wait j) = Some (A_add j)"
| "adder_woken _ = None"

fun dtor_woken :: "destructor \<Rightarrow> destructor" where
  "dtor_woken (D_wait i) = D_enq i"
| "dtor_woken d = d"

definition signal_non_empty :: "nat \<Rightarrow> 'j pool \<Rightarrow> 'j pool" where
  "signal_non_empty k p = p\<lparr>th := wake_one worker_woken k (th p)\<rparr>"

definition signal_has_space :: "nat \<Rightarrow> 'j pool \<Rightarrow> 'j pool" where
  "signal_has_space k p =
     (if \<exists>a \<in> set (adders p). adder_woken a \<noteq> None then p\<lparr>adders := wake_one adder_woken k (adders p)\<rparr>
      else p\<lparr>dtor := dtor_woken (dtor p)\<rparr>)"

text \<open>\<^verbatim>\<open>do_worker\<close> with \<^verbatim>\<open>takeJob\<close>; running the job is left to the job.\<close>

definition worker_step :: "nat \<Rightarrow> nat \<Rightarrow> 'j pool \<Rightarrow> 'j pool" where
  "worker_step i k p =
     (case th p ! i of
        W_take \<Rightarrow>
          (case deq (jobq p) of
             (Deq_waits, f) \<Rightarrow> p\<lparr>th := (th p)[i := W_wait]\<rparr>
           | (Deq_returns j sig, f) \<Rightarrow>
               let p = p\<lparr>jobq := f\<rparr>;
                   p = (if sig then signal_has_space k p else p)
               in case j of
                    None \<Rightarrow> p\<lparr>th := (th p)[i := W_exited]\<rparr>
                  | Some x \<Rightarrow> p\<lparr>th := (th p)[i := W_run x], taken := taken p @ [x]\<rparr>)
      | W_run x \<Rightarrow> p\<lparr>th := (th p)[i := W_take]\<rparr>
      | _ \<Rightarrow> p)"

definition addJob_step :: "nat \<Rightarrow> nat \<Rightarrow> 'j pool \<Rightarrow> 'j pool" where
  "addJob_step i k p =
     (case adders p ! i of
        A_add j \<Rightarrow>
          (case enq (Some j) (blockadd p) (jobq p) of
             (Enq_waits, f) \<Rightarrow> p\<lparr>adders := (adders p)[i := A_wait j]\<rparr>
           | (Enq_returns b, f) \<Rightarrow>
               let p = p\<lparr>jobq := f, adders := (adders p)[i := A_returned b]\<rparr>
               in if b then (signal_non_empty k p)\<lparr>added := added p @ [j]\<rparr> else p)
      | _ \<Rightarrow> p)"

text \<open>The two loops of the destructor.\<close>

definition dtor_step :: "nat \<Rightarrow> 'j pool \<Rightarrow> 'j pool" where
  "dtor_step k p =
     (case dtor p of
        D_enq i \<Rightarrow>
          if i < nthreads p then
            (case enq None True (jobq p) of
               (Enq_returns b, f) \<Rightarrow> signal_non_empty k (p\<lparr>jobq := f, dtor := D_enq (i + 1)\<rparr>)
             | (Enq_waits, f) \<Rightarrow> p\<lparr>dtor := D_wait i\<rparr>)
          else p\<lparr>dtor := D_join 0\<rparr>
      | D_join i \<Rightarrow>
          if i < nthreads p
          then (case th p ! i of W_exited \<Rightarrow> p\<lparr>dtor := D_join (i + 1)\<rparr> | _ \<Rightarrow> p)
          else p\<lparr>dtor := D_done\<rparr>
      | _ \<Rightarrow> p)"

section \<open>Executions\<close>

datatype 'j pool_event =
    Add 'j
  | Adder nat nat
  | Worker nat nat
  | Destroy
  | Dtor nat
  | Spurious_worker nat
  | Spurious_adder nat
  | Spurious_dtor

text \<open>
  The destructor is called only when no other thread is using the pool or will use it. A thread may
  come out of \<^verbatim>\<open>pthread_cond_wait\<close> without a signal.
\<close>

fun pool_exec :: "'j pool_event \<Rightarrow> 'j pool \<Rightarrow> 'j pool" where
  "pool_exec (Add j) p = (if dtor p = D_none then p\<lparr>adders := adders p @ [A_add j]\<rparr> else p)"
| "pool_exec (Adder i k) p = (if i < length (adders p) then addJob_step i k p else p)"
| "pool_exec (Worker i k) p = (if i < length (th p) then worker_step i k p else p)"
| "pool_exec Destroy p =
     (if dtor p = D_none \<and> (\<forall>a \<in> set (adders p). case a of A_returned _ \<Rightarrow> True | _ \<Rightarrow> False)
      then p\<lparr>dtor := D_enq 0\<rparr> else p)"
| "pool_exec (Dtor k) p = dtor_step k p"
| "pool_exec (Spurious_worker i) p =
     (if i < length (th p) \<and> worker_woken (th p ! i) \<noteq> None then p\<lparr>th := (th p)[i := W_take]\<rparr> else p)"
| "pool_exec (Spurious_adder i) p =
     (if i < length (adders p) then
        case adder_woken (adders p ! i) of None \<Rightarrow> p | Some a \<Rightarrow> p\<lparr>adders := (adders p)[i := a]\<rparr>
      else p)"
| "pool_exec Spurious_dtor p = p\<lparr>dtor := dtor_woken (dtor p)\<rparr>"

section \<open>The invariant\<close>

abbreviation count_of :: "('a \<Rightarrow> bool) \<Rightarrow> 'a list \<Rightarrow> nat" where
  "count_of P xs \<equiv> length (filter P xs)"

fun jobs_of :: "'j job_t list \<Rightarrow> 'j list" where
  "jobs_of [] = []"
| "jobs_of (None # q) = jobs_of q"
| "jobs_of (Some x # q) = x # jobs_of q"

fun w_takes :: "'j worker \<Rightarrow> bool" where
  "w_takes W_take \<longleftrightarrow> True"
| "w_takes _ \<longleftrightarrow> False"

fun w_waits :: "'j worker \<Rightarrow> bool" where
  "w_waits W_wait \<longleftrightarrow> True"
| "w_waits _ \<longleftrightarrow> False"

fun w_exited :: "'j worker \<Rightarrow> bool" where
  "w_exited W_exited \<longleftrightarrow> True"
| "w_exited _ \<longleftrightarrow> False"

fun a_adds :: "'j adder \<Rightarrow> bool" where
  "a_adds (A_add j) \<longleftrightarrow> True"
| "a_adds _ \<longleftrightarrow> False"

fun a_waits :: "'j adder \<Rightarrow> bool" where
  "a_waits (A_wait j) \<longleftrightarrow> True"
| "a_waits _ \<longleftrightarrow> False"

fun pills :: "nat \<Rightarrow> destructor \<Rightarrow> nat" where
  "pills n D_none = 0"
| "pills n (D_enq i) = i"
| "pills n (D_wait i) = i"
| "pills n _ = n"

text \<open>The jobs come out of the queue in the order in which they were added.\<close>

definition jobs_ok :: "'j pool \<Rightarrow> bool" where
  "jobs_ok p \<longleftrightarrow> added p = taken p @ jobs_of (items (jobq p))"

text \<open>
  No wake-up is lost: while a worker sleeps there is an awake worker for every queued job, and while a
  thread sleeps that wants to add a job there is an awake one for every free place.
\<close>

definition workers_ok :: "'j pool \<Rightarrow> bool" where
  "workers_ok p \<longleftrightarrow>
     (count_of w_waits (th p) > 0 \<longrightarrow> length (items (jobq p)) \<le> count_of w_takes (th p))"

definition adders_ok :: "'j pool \<Rightarrow> bool" where
  "adders_ok p \<longleftrightarrow>
     length (items (jobq p)) \<le> unat (limit (jobq p)) \<and> 0 < unat (limit (jobq p)) \<and>
     (count_of a_waits (adders p) > 0 \<longrightarrow>
        unat (limit (jobq p)) \<le> length (items (jobq p)) + count_of a_adds (adders p)) \<and>
     ((\<exists>i. dtor p = D_wait i) \<longrightarrow> length (items (jobq p)) = unat (limit (jobq p)))"

text \<open>
  The pills are at the end of the queue, as many as the destructor has added and no worker has taken,
  and a worker has taken one only after all jobs.
\<close>

definition queue_shape :: "'j job_t list \<Rightarrow> nat \<Rightarrow> nat \<Rightarrow> bool" where
  "queue_shape q exited n \<longleftrightarrow>
     (\<exists>js m. q = map Some js @ replicate m None \<and> m + exited = n \<and> (exited > 0 \<longrightarrow> js = []))"

definition pills_ok :: "'j pool \<Rightarrow> bool" where
  "pills_ok p \<longleftrightarrow>
     length (th p) = nthreads p \<and> pills (nthreads p) (dtor p) \<le> nthreads p \<and>
     (dtor p \<noteq> D_none \<longrightarrow> count_of a_adds (adders p) = 0 \<and> count_of a_waits (adders p) = 0) \<and>
     queue_shape (items (jobq p)) (count_of w_exited (th p)) (pills (nthreads p) (dtor p)) \<and>
     (\<forall>i. dtor p = D_wait i \<longrightarrow> i < nthreads p) \<and>
     (\<forall>i. dtor p = D_join i \<longrightarrow> i \<le> nthreads p \<and> (\<forall>k < i. w_exited (th p ! k))) \<and>
     (dtor p = D_done \<longrightarrow> (\<forall>k < nthreads p. w_exited (th p ! k)))"

lemma jobs_of_append [simp]: "jobs_of (q @ r) = jobs_of q @ jobs_of r"
  by (induction q rule: jobs_of.induct) simp_all

lemma jobs_of_some [simp]: "jobs_of (map Some js) = js" "jobs_of (replicate m None) = []"
  by (induction js, simp_all, induction m, simp_all)

lemma wake_one_cases:
  obtains (none) "\<forall>t \<in> set ts. w t = None" "wake_one w k ts = ts"
  | (one) i t where "i < length ts" "w (ts ! i) = Some t" "wake_one w k ts = ts[i := t]"
proof (cases "filter (\<lambda>i. w (ts ! i) \<noteq> None) [0..<length ts]")
  case Nil
  then have "\<forall>t \<in> set ts. w t = None" by (auto simp: filter_empty_conv in_set_conv_nth)
  with Nil none show ?thesis by (simp add: wake_one_def)
next
  case (Cons i0 rest)
  let ?i = "if k \<in> set rest then k else i0"
  have "?i \<in> set (filter (\<lambda>i. w (ts ! i) \<noteq> None) [0..<length ts])"
    unfolding Cons by simp
  then have "?i < length ts" "w (ts ! ?i) \<noteq> None" by auto
  moreover have "wake_one w k ts = ts[?i := the (w (ts ! ?i))]"
    unfolding wake_one_def Cons list.case Let_def ..
  ultimately show ?thesis using one by auto
qed

lemma worker_woken_iff: "worker_woken t = Some t' \<longleftrightarrow> t = W_wait \<and> t' = W_take"
  by (cases t) auto

lemma adder_woken_iff: "adder_woken a = Some a' \<longleftrightarrow> (\<exists>j. a = A_wait j \<and> a' = A_add j)"
  by (cases a) auto

lemma no_waits: "(\<forall>t \<in> set ts. worker_woken t = None) \<longleftrightarrow> count_of w_waits ts = 0"
    "(\<forall>a \<in> set as. adder_woken a = None) \<longleftrightarrow> count_of a_waits as = 0"
proof -
  have "worker_woken t = None \<longleftrightarrow> \<not> w_waits t" for t :: "'a worker" by (cases t) auto
  then show "(\<forall>t \<in> set ts. worker_woken t = None) \<longleftrightarrow> count_of w_waits ts = 0"
    by (auto simp: filter_empty_conv)
  have "adder_woken a = None \<longleftrightarrow> \<not> a_waits a" for a :: "'b adder" by (cases a) auto
  then show "(\<forall>a \<in> set as. adder_woken a = None) \<longleftrightarrow> count_of a_waits as = 0"
    by (auto simp: filter_empty_conv)
qed

text \<open>What a signal does to the numbers of sleeping and awake threads.\<close>

lemma signalled_workers:
  fixes ts :: "'j worker list" and k :: nat
  defines "ts' \<equiv> wake_one worker_woken k ts"
  shows "length ts' = length ts"
    and "count_of w_exited ts' = count_of w_exited ts"
    and "i < length ts \<Longrightarrow> w_exited (ts' ! i) = w_exited (ts ! i)"
    and "count_of w_waits ts' > 0 \<Longrightarrow> count_of w_takes ts' = count_of w_takes ts + 1 \<and> count_of w_waits ts > 0"
proof -
  consider (none) "count_of w_waits ts = 0" "ts' = ts"
    | (one) i where "i < length ts" "ts ! i = W_wait" "ts' = ts[i := W_take]"
    unfolding ts'_def
    by (rule wake_one_cases [of ts worker_woken k]) (auto simp: no_waits worker_woken_iff)
  note C = this
  show "length ts' = length ts" by (cases rule: C) auto
  show "count_of w_exited ts' = count_of w_exited ts"
  proof (cases rule: C)
    case (one i)
    with filter_update [of i ts w_exited W_take] show ?thesis by simp
  qed simp
  show "i < length ts \<Longrightarrow> w_exited (ts' ! i) = w_exited (ts ! i)"
    by (cases rule: C) (auto simp: nth_list_update)
  show "count_of w_waits ts' > 0 \<Longrightarrow> count_of w_takes ts' = count_of w_takes ts + 1 \<and> count_of w_waits ts > 0"
  proof (cases rule: C)
    case (one i)
    with filter_update [of i ts w_takes W_take] filter_update [of i ts w_waits W_take]
    show "count_of w_waits ts' > 0 \<Longrightarrow> ?thesis" by (simp del: length_greater_0_conv)
  qed simp
qed

lemma signalled_adders:
  fixes as :: "'j adder list" and k :: nat
  assumes "count_of a_waits as > 0"
  shows "length (wake_one adder_woken k as) = length as"
    and "count_of a_adds (wake_one adder_woken k as) = count_of a_adds as + 1"
proof -
  obtain i j where i: "i < length as" "as ! i = A_wait j" "wake_one adder_woken k as = as[i := A_add j]"
    using assms by (cases rule: wake_one_cases [of as adder_woken k]) (auto simp: no_waits adder_woken_iff)
  with filter_update [of i as a_adds "A_add j"]
  show "count_of a_adds (wake_one adder_woken k as) = count_of a_adds as + 1" by simp
  from i show "length (wake_one adder_woken k as) = length as" by simp
qed

definition pool_inv :: "'j pool \<Rightarrow> bool" where
  "pool_inv p \<longleftrightarrow> jobs_ok p \<and> workers_ok p \<and> adders_ok p \<and> pills_ok p"

lemmas pool_inv_defs = pool_inv_def jobs_ok_def workers_ok_def adders_ok_def pills_ok_def

lemma shape_take:
  "queue_shape (Some j # q) e n \<Longrightarrow> queue_shape q e n"
  "queue_shape (None # q) e n \<Longrightarrow> queue_shape q (Suc e) n"
proof -
  assume "queue_shape (Some j # q) e n"
  then obtain js m where q: "Some j # q = map Some js @ replicate m None" "m + e = n" "e > 0 \<longrightarrow> js = []"
    by (auto simp: queue_shape_def)
  then have "js \<noteq> []" by (cases m) auto
  then have "q = map Some (tl js) @ replicate m None" using q(1) by (cases js) auto
  with q show "queue_shape q e n" unfolding queue_shape_def by (metis list.sel(2))
next
  assume "queue_shape (None # q) e n"
  then obtain js m where q: "None # q = map Some js @ replicate m None" "m + e = n" by (auto simp: queue_shape_def)
  then have "js = []" "m > 0" "q = replicate (m - 1) None" by (cases js; cases m; auto)+
  with q(2) show "queue_shape q (Suc e) n" unfolding queue_shape_def by (intro exI [of _ "[]"] exI [of _ "m - 1"]) simp
qed

lemma shape_add:
  "queue_shape q e 0 \<Longrightarrow> queue_shape (q @ [Some j]) e 0"
  "queue_shape q e n \<Longrightarrow> queue_shape (q @ [None]) e (Suc n)"
proof -
  assume "queue_shape q e 0"
  then obtain js where "q = map Some js" "e = 0" by (auto simp: queue_shape_def)
  then show "queue_shape (q @ [Some j]) e 0"
    unfolding queue_shape_def by (intro exI [of _ "js @ [j]"] exI [of _ 0]) simp
next
  assume "queue_shape q e n"
  then obtain js m where "q = map Some js @ replicate m None" "m + e = n" "e > 0 \<longrightarrow> js = []"
    by (auto simp: queue_shape_def)
  then show "queue_shape (q @ [None]) e (Suc n)"
    unfolding queue_shape_def by (intro exI [of _ js] exI [of _ "Suc m"]) (simp add: replicate_append_same)
qed

lemma shape_count: "queue_shape q e n \<Longrightarrow> e \<le> n" "queue_shape [] e n \<Longrightarrow> e = n" "queue_shape q n n \<Longrightarrow> 0 < n \<Longrightarrow> q = []"
  by (auto simp: queue_shape_def)

lemma shape_new [simp]: "queue_shape [] 0 0"
  by (simp add: queue_shape_def)

lemma exited_update:
  "w_exited (ts ! k) \<Longrightarrow> i < length ts \<Longrightarrow> \<not> w_exited (ts ! i) \<Longrightarrow> w_exited (ts[i := y] ! k)"
  by (cases "k = i") auto

text \<open>The signal of \<^verbatim>\<open>deq\<close>, after an entry has left the queue.\<close>

lemma space_signalled:
  assumes "pills_ok p" and "adders_ok p" and "items (jobq p) = x # q"
  shows "adders_ok (signal_has_space k (p\<lparr>jobq := (jobq p)\<lparr>items := q\<rparr>\<rparr>))"
proof (cases "count_of a_waits (adders p) > 0")
  case True
  then have d: "dtor p = D_none" using assms(1) by (auto simp: pills_ok_def)
  have ex: "\<exists>a \<in> set (adders p). adder_woken a \<noteq> None" using True no_waits(2) [of "adders p"] by auto
  from signalled_adders(2) [OF True, of k] assms(2,3) d ex True show ?thesis
    by (auto simp: adders_ok_def signal_has_space_def)
next
  case False
  then have "\<not> (\<exists>a \<in> set (adders p). adder_woken a \<noteq> None)" using no_waits(2) [of "adders p"] by auto
  moreover have "dtor_woken d \<noteq> D_wait i" for d i by (cases d) auto
  ultimately show ?thesis
    using assms(2,3) False by (auto simp: adders_ok_def signal_has_space_def)
qed

lemma signal_has_space_keeps [simp]:
  "jobq (signal_has_space k p) = jobq p" "th (signal_has_space k p) = th p"
  "added (signal_has_space k p) = added p" "taken (signal_has_space k p) = taken p"
  "nthreads (signal_has_space k p) = nthreads p"
  "pills n (dtor (signal_has_space k p)) = pills n (dtor p)"
  "dtor (signal_has_space k p) = D_none \<longleftrightarrow> dtor p = D_none"
  "dtor (signal_has_space k p) = D_join i \<longleftrightarrow> dtor p = D_join i"
  "dtor (signal_has_space k p) = D_done \<longleftrightarrow> dtor p = D_done"
  by (cases "dtor p"; simp add: signal_has_space_def)+

lemma signal_not_wait: "dtor (signal_has_space k p) = D_wait i \<Longrightarrow> dtor p = D_wait i"
  by (cases "dtor p") (auto simp: signal_has_space_def split: if_splits)

lemma signal_keeps_returned:
  "count_of a_adds (adders p) = 0 \<Longrightarrow> count_of a_waits (adders p) = 0 \<Longrightarrow>
   adders (signal_has_space k p) = adders p"
  using no_waits(2) [of "adders p"] by (auto simp: signal_has_space_def)

text \<open>A worker that changes its state without taking anything from the queue.\<close>

lemma worker_moves:
  assumes inv: "pool_inv p" and i: "i < length (th p)" and e: "\<not> w_exited (th p ! i)" "\<not> w_exited t"
    and w: "workers_ok (p\<lparr>th := (th p)[i := t]\<rparr>)"
  shows "pool_inv (p\<lparr>th := (th p)[i := t]\<rparr>)"
proof -
  have n: "count_of w_exited ((th p)[i := t]) = count_of w_exited (th p)"
    using filter_update [OF i, of w_exited t] e by simp
  have "pills_ok p" using inv by (simp add: pool_inv_def)
  then have "pills_ok (p\<lparr>th := (th p)[i := t]\<rparr>)"
    using i e unfolding pills_ok_def by (simp add: n exited_update)
  with inv w show ?thesis by (simp add: pool_inv_def jobs_ok_def adders_ok_def)
qed

lemma worker_step_inv:
  assumes inv: "pool_inv p" and i: "i < length (th p)"
  shows "pool_inv (worker_step i k p)"
proof -
  have I: "jobs_ok p" "workers_ok p" "adders_ok p" "pills_ok p" using inv by (simp_all add: pool_inv_def)
  note U = filter_update [OF i]
  show ?thesis
  proof (cases "th p ! i")
    case W_take
    show ?thesis
    proof (cases "items (jobq p)")
      case Nil
      then have s: "worker_step i k p = p\<lparr>th := (th p)[i := W_wait]\<rparr>"
        using W_take by (simp add: worker_step_def deq_def)
      show ?thesis
        unfolding s using inv i W_take Nil by (intro worker_moves) (simp_all add: workers_ok_def)
    next
      case (Cons x q)
      let ?p = "p\<lparr>jobq := (jobq p)\<lparr>items := q\<rparr>\<rparr>"
      let ?s = "signal_has_space k ?p"
      have sig: "limit (jobq p) \<noteq> 0 \<and> length q < unat (limit (jobq p))"
        using I(3) Cons by (auto simp: adders_ok_def)
      have sp: "adders_ok ?s" by (rule space_signalled [OF I(4,3) Cons])
      have sh: "queue_shape (x # q) (count_of w_exited (th p)) (pills (nthreads p) (dtor p))"
        using I(4) Cons by (simp add: pills_ok_def)
      have keep: "dtor p \<noteq> D_none \<longrightarrow> adders ?s = adders p"
        using I(4) signal_keeps_returned [of ?p k] by (auto simp: pills_ok_def)
      show ?thesis
      proof (cases x)
        case None
        then have s: "worker_step i k p = ?s\<lparr>th := (th p)[i := W_exited]\<rparr>"
          using W_take Cons sig by (simp add: worker_step_def deq_def Let_def)
        have "pills_ok (worker_step i k p)"
          unfolding s pills_ok_def
          using I(4) keep U [of w_exited W_exited] W_take sh None i
          by (auto simp: pills_ok_def dest!: signal_not_wait intro!: exited_update shape_take)
        moreover have "workers_ok (worker_step i k p)"
          unfolding s using I(2) U [of w_takes W_exited] U [of w_waits W_exited] W_take Cons
          by (auto simp: workers_ok_def)
        moreover have "adders_ok (worker_step i k p)" unfolding s using sp by (simp add: adders_ok_def)
        moreover have "jobs_ok (worker_step i k p)"
          unfolding s using I(1) Cons None by (simp add: jobs_ok_def)
        ultimately show ?thesis by (simp add: pool_inv_def)
      next
        case (Some j)
        then have s: "worker_step i k p = ?s\<lparr>th := (th p)[i := W_run j], taken := taken p @ [j]\<rparr>"
          using W_take Cons sig by (simp add: worker_step_def deq_def Let_def)
        have "pills_ok (worker_step i k p)"
          unfolding s pills_ok_def
          using I(4) keep U [of w_exited "W_run j"] W_take sh Some i
          by (auto simp: pills_ok_def dest!: signal_not_wait intro!: exited_update intro: shape_take)
        moreover have "workers_ok (worker_step i k p)"
          unfolding s using I(2) U [of w_takes "W_run j"] U [of w_waits "W_run j"] W_take Cons
          by (auto simp: workers_ok_def)
        moreover have "adders_ok (worker_step i k p)" unfolding s using sp by (simp add: adders_ok_def)
        moreover have "jobs_ok (worker_step i k p)"
          unfolding s using I(1) Cons Some by (simp add: jobs_ok_def)
        ultimately show ?thesis by (simp add: pool_inv_def)
      qed
    qed
  next
    case (W_run x)
    then have s: "worker_step i k p = p\<lparr>th := (th p)[i := W_take]\<rparr>" by (simp add: worker_step_def)
    show ?thesis
      unfolding s using inv i I(2) U [of w_takes W_take] U [of w_waits W_take] W_run
      by (intro worker_moves) (auto simp: workers_ok_def)
  qed (insert inv, simp_all add: worker_step_def)
qed

text \<open>The signal of \<^verbatim>\<open>enq\<close>, after an entry has been added.\<close>

lemma entry_signalled:
  assumes "workers_ok p" and "items q = items (jobq p) @ [x]"
  shows "workers_ok (signal_non_empty k (p\<lparr>jobq := q, adders := as, dtor := d\<rparr>))"
  using assms signalled_workers(4) [of k "th p"]
  by (auto simp: workers_ok_def signal_non_empty_def)

lemma workers_ok_cong:
  "jobq p' = jobq p \<Longrightarrow> th p' = th p \<Longrightarrow> workers_ok p' = workers_ok p"
  by (simp add: workers_ok_def)

lemma addJob_step_inv:
  assumes inv: "pool_inv p" and i: "i < length (adders p)"
  shows "pool_inv (addJob_step i k p)"
proof (cases "adders p ! i")
  case (A_add j)
  have I: "jobs_ok p" "workers_ok p" "adders_ok p" "pills_ok p" using inv by (simp_all add: pool_inv_def)
  note U = filter_update [OF i]
  have "0 < count_of a_adds (adders p)"
    using nth_mem [OF i] A_add by (auto simp: filter_empty_conv intro!: bexI [of _ "A_add j"])
  then have d: "dtor p = D_none" using I(4) by (auto simp: pills_ok_def)
  show ?thesis
  proof (cases "length (items (jobq p)) < unat (limit (jobq p))")
    case True
    let ?f = "(jobq p)\<lparr>items := items (jobq p) @ [Some j]\<rparr>"
    let ?as = "(adders p)[i := A_returned True]"
    have s: "addJob_step i k p =
        (signal_non_empty k (p\<lparr>jobq := ?f, adders := ?as, dtor := dtor p\<rparr>))\<lparr>added := added p @ [j]\<rparr>"
      using A_add True by (simp add: addJob_step_def enq_def Let_def)
    have "pills_ok (addJob_step i k p)"
      unfolding s using I(4) d signalled_workers(1,2) [of k "th p"]
      by (auto simp: pills_ok_def signal_non_empty_def intro!: shape_add(1))
    moreover have "workers_ok (addJob_step i k p)"
      unfolding s using entry_signalled [OF I(2), of ?f "Some j" k "dtor p" ?as] by (simp add: workers_ok_def)
    moreover have "adders_ok (addJob_step i k p)"
      unfolding s using I(3) U [of a_adds "A_returned True"] U [of a_waits "A_returned True"] A_add d True
      by (auto simp: adders_ok_def signal_non_empty_def)
    moreover have "jobs_ok (addJob_step i k p)"
      unfolding s using I(1) by (simp add: jobs_ok_def signal_non_empty_def)
    ultimately show ?thesis by (simp add: pool_inv_def)
  next
    case full: False
    have nz: "limit (jobq p) \<noteq> 0" using I(3) by (auto simp: adders_ok_def)
    let ?a = "if blockadd p then A_wait j else A_returned False"
    have "addJob_step i k p = p\<lparr>adders := (adders p)[i := ?a]\<rparr>"
      using A_add nz full by (simp add: addJob_step_def enq_def Let_def)
    moreover have "\<not> a_adds ?a" by simp
    ultimately obtain a where s: "addJob_step i k p = p\<lparr>adders := (adders p)[i := a]\<rparr>" "\<not> a_adds a" by blast
    show ?thesis
      unfolding s using I U [of a_adds a] U [of a_waits a] A_add d s(2) full by (auto simp: pool_inv_defs)
  qed
qed (insert inv, simp_all add: addJob_step_def)

lemma dtor_step_inv:
  assumes inv: "pool_inv p"
  shows "pool_inv (dtor_step k p)"
proof -
  have I: "jobs_ok p" "workers_ok p" "adders_ok p" "pills_ok p" using inv by (simp_all add: pool_inv_def)
  show ?thesis
  proof (cases "dtor p")
    case (D_enq i)
    show ?thesis
    proof (cases "i < nthreads p \<and> length (items (jobq p)) < unat (limit (jobq p))")
      case True
      let ?f = "(jobq p)\<lparr>items := items (jobq p) @ [None]\<rparr>"
      have s: "dtor_step k p = signal_non_empty k (p\<lparr>jobq := ?f, adders := adders p, dtor := D_enq (i + 1)\<rparr>)"
        using D_enq True by (simp add: dtor_step_def enq_def)
      have "pills_ok (dtor_step k p)"
        unfolding s using I(4) D_enq True signalled_workers(1,2) [of k "th p"]
        by (auto simp: pills_ok_def signal_non_empty_def intro!: shape_add(2))
      moreover have "workers_ok (dtor_step k p)"
        unfolding s by (rule entry_signalled [OF I(2)]) simp
      moreover have "adders_ok (dtor_step k p)"
        unfolding s using I(3,4) True D_enq by (auto simp: adders_ok_def pills_ok_def signal_non_empty_def)
      moreover have "jobs_ok (dtor_step k p)"
        unfolding s using I(1) by (simp add: jobs_ok_def signal_non_empty_def)
      ultimately show ?thesis by (simp add: pool_inv_def)
    next
      case False
      have "limit (jobq p) \<noteq> 0" using I(3) by (auto simp: adders_ok_def)
      with False consider "dtor_step k p = p\<lparr>dtor := D_wait i\<rparr>" "i < nthreads p" "length (items (jobq p)) = unat (limit (jobq p))"
        | "dtor_step k p = p\<lparr>dtor := D_join 0\<rparr>" "i = nthreads p"
        using D_enq I(3,4) by (cases "i < nthreads p") (simp_all add: dtor_step_def enq_def adders_ok_def pills_ok_def)
      then show ?thesis
        using I D_enq by cases (auto simp: pool_inv_defs)
    qed
  next
    case (D_join i)
    have "(\<forall>k < Suc i. w_exited (th p ! k))" if "th p ! i = W_exited"
      using I(4) D_join that by (auto simp: pills_ok_def less_Suc_eq)
    then show ?thesis
      using I D_join by (auto simp: dtor_step_def pool_inv_defs Suc_le_eq split: worker.splits)
  qed (insert inv, simp_all add: dtor_step_def)
qed

lemma pool_exec_inv:
  assumes inv: "pool_inv p"
  shows "pool_inv (pool_exec e p)"
proof (cases e)
  case (Destroy)
  then show ?thesis
    using inv by (auto simp: pool_inv_defs filter_empty_conv split: adder.splits)
next
  case (Spurious_worker i)
  show ?thesis
  proof (cases "i < length (th p) \<and> th p ! i = W_wait")
    case True
    then have s: "pool_exec e p = p\<lparr>th := (th p)[i := W_take]\<rparr>" by (simp add: Spurious_worker)
    have "workers_ok (p\<lparr>th := (th p)[i := W_take]\<rparr>)"
      using inv True filter_update [of i "th p" w_takes W_take] nth_mem [of i "th p"]
      by (fastforce simp: pool_inv_def workers_ok_def filter_empty_conv)
    with inv True show ?thesis unfolding s by (intro worker_moves) simp_all
  next
    case False
    then show ?thesis using inv Spurious_worker by (cases "th p ! i") auto
  qed
next
  case (Spurious_adder i)
  then show ?thesis
  proof (cases "i < length (adders p) \<and> a_waits (adders p ! i)")
    case True
    then obtain j where j: "adders p ! i = A_wait j" by (cases "adders p ! i") auto
    have n: "0 < count_of a_waits (adders p)"
      using True by (auto simp: filter_empty_conv intro!: bexI [of _ "adders p ! i"])
    show ?thesis
      using inv Spurious_adder True j n filter_update [of i "adders p" a_adds "A_add j"]
        filter_update [of i "adders p" a_waits "A_add j"]
      by (auto simp: pool_inv_defs)
  next
    case False
    then show ?thesis using inv Spurious_adder by (cases "adders p ! i") auto
  qed
next
  case Spurious_dtor
  then show ?thesis
    using inv by (cases "dtor p") (auto simp: pool_inv_defs)
qed (insert inv, auto simp: worker_step_inv addJob_step_inv dtor_step_inv, auto simp: pool_inv_defs)

lemma new_pool_inv:
  assumes "0 < sz" and "100 * sz < 2 ^ 32"
  shows "pool_inv (ThrPool_new sz blocking)"
proof -
  have "(word_of_int (100 * int sz) :: u32) = word_of_nat (100 * sz)" by simp
  moreover have "unat (word_of_nat (100 * sz) :: u32) = 100 * sz"
    using assms(2) by (simp only: unat_of_nat) simp
  ultimately show ?thesis
    using assms(1) by (auto simp: pool_inv_defs ThrPool_new_def fifo_new_def)
qed

abbreviation pool_run :: "'j pool_event list \<Rightarrow> 'j pool \<Rightarrow> 'j pool" where
  "pool_run \<equiv> fold pool_exec"

lemma pool_run_inv: "pool_inv p \<Longrightarrow> pool_inv (pool_run es p)"
  by (induction es arbitrary: p) (simp_all add: pool_exec_inv)

lemma worker_step_keeps:
  "limit (jobq (worker_step i k p)) = limit (jobq p)" "nthreads (worker_step i k p) = nthreads p"
  "dtor p \<noteq> D_none \<Longrightarrow> dtor (worker_step i k p) \<noteq> D_none"
  by (cases "th p ! i"; cases "items (jobq p)"; auto simp: worker_step_def deq_def Let_def split: option.splits)+

lemma addJob_step_keeps:
  "limit (jobq (addJob_step i k p)) = limit (jobq p)" "nthreads (addJob_step i k p) = nthreads p"
  "dtor (addJob_step i k p) = dtor p"
  by (cases "adders p ! i"; simp add: addJob_step_def enq_def Let_def signal_non_empty_def)+

lemma dtor_step_keeps:
  "limit (jobq (dtor_step k p)) = limit (jobq p)" "nthreads (dtor_step k p) = nthreads p"
  "dtor p \<noteq> D_none \<Longrightarrow> dtor (dtor_step k p) \<noteq> D_none"
  by (cases "dtor p"; auto simp: dtor_step_def enq_def signal_non_empty_def split: worker.splits)+

lemma pool_exec_limit:
  "limit (jobq (pool_exec e p)) = limit (jobq p)" "nthreads (pool_exec e p) = nthreads p"
  by (cases e; simp add: worker_step_keeps addJob_step_keeps dtor_step_keeps split: option.split)+

section \<open>Shutting down\<close>

text \<open>
  The work that is left: every step of a worker or of the destructor that changes anything makes it
  smaller, once the destructor has been called.
\<close>

fun worker_work :: "'j worker \<Rightarrow> nat" where
  "worker_work (W_run j) = 2"
| "worker_work W_take = 1"
| "worker_work _ = 0"

fun dtor_work :: "nat \<Rightarrow> destructor \<Rightarrow> nat" where
  "dtor_work n D_none = 0"
| "dtor_work n (D_enq i) = 10 * (n - i) + n + 3"
| "dtor_work n (D_wait i) = 10 * (n - i) + n + 2"
| "dtor_work n (D_join i) = Suc (n - i)"
| "dtor_work n D_done = 0"

definition work :: "'j pool \<Rightarrow> nat" where
  "work p = dtor_work (nthreads p) (dtor p) + 6 * length (items (jobq p)) + sum_list (map worker_work (th p))"

fun spurious :: "'j pool_event \<Rightarrow> bool" where
  "spurious (Spurious_worker i) \<longleftrightarrow> True"
| "spurious (Spurious_adder i) \<longleftrightarrow> True"
| "spurious Spurious_dtor \<longleftrightarrow> True"
| "spurious _ \<longleftrightarrow> False"

lemma worker_work_update:
  "i < length ts \<Longrightarrow> sum_list (map worker_work (ts[i := t])) + worker_work (ts ! i) =
   sum_list (map worker_work ts) + worker_work t"
proof (induction ts arbitrary: i)
  case (Cons x ts)
  then show ?case by (cases i) auto
qed simp

lemma worker_work_signal:
  "sum_list (map worker_work (wake_one worker_woken k ts)) \<le> sum_list (map worker_work ts) + 1"
proof (cases rule: wake_one_cases [of ts worker_woken k])
  case (one i t)
  with worker_work_update [of i ts t] show ?thesis by (simp add: worker_woken_iff)
qed simp

lemma dtor_work_woken: "dtor_work n (dtor_woken d) \<le> dtor_work n d + 1"
  by (cases d) simp_all

lemma worker_step_work:
  assumes inv: "pool_inv p" and i: "i < length (th p)" and d: "dtor p \<noteq> D_none" and ch: "worker_step i k p \<noteq> p"
  shows "work (worker_step i k p) < work p"
proof (cases "th p ! i")
  case W_take
  show ?thesis
  proof (cases "items (jobq p)")
    case Nil
    with W_take worker_work_update [OF i, of W_wait] show ?thesis
      by (simp add: worker_step_def deq_def work_def)
  next
    case (Cons x q)
    let ?p = "p\<lparr>jobq := (jobq p)\<lparr>items := q\<rparr>\<rparr>"
    let ?s = "if limit (jobq p) \<noteq> 0 \<and> length q < unat (limit (jobq p)) then signal_has_space k ?p else ?p"
    have "dtor_work (nthreads p) (dtor ?s) \<le> dtor_work (nthreads p) (dtor p) + 1"
      using dtor_work_woken [of "nthreads p" "dtor p"] by (simp add: signal_has_space_def)
    moreover have s: "th ?s = th p" "jobq ?s = jobq ?p" "nthreads ?s = nthreads p" by simp_all
    ultimately show ?thesis
      using W_take Cons worker_work_update [OF i, of W_exited] worker_work_update [OF i, of "W_run (the x)"]
      by (cases x) (simp_all add: worker_step_def deq_def Let_def work_def s del: if_split)
  qed
next
  case (W_run x)
  with worker_work_update [OF i, of W_take] show ?thesis by (simp add: worker_step_def work_def)
qed (insert ch, simp_all add: worker_step_def)

lemma dtor_step_work:
  assumes ch: "dtor_step k p \<noteq> p"
  shows "work (dtor_step k p) < work p"
proof (cases "dtor p")
  case (D_enq i)
  then show ?thesis
    using worker_work_signal [of k "th p"]
    by (auto simp: dtor_step_def enq_def work_def signal_non_empty_def)
next
  case (D_join i)
  then show ?thesis
    using ch by (auto simp: dtor_step_def work_def split: worker.splits if_splits)
qed (insert ch, simp_all add: dtor_step_def)

lemma returned_no_step:
  assumes "pool_inv p" and "dtor p \<noteq> D_none" and "i < length (adders p)"
  shows "addJob_step i k p = p"
proof -
  have "\<not> a_adds (adders p ! i)"
    using assms nth_mem [OF assms(3)] by (auto simp: pool_inv_defs filter_empty_conv)
  then show ?thesis by (cases "adders p ! i") (simp_all add: addJob_step_def)
qed

lemma exec_work:
  assumes "pool_inv p" and "dtor p \<noteq> D_none" and "\<not> spurious e" and "pool_exec e p \<noteq> p"
  shows "work (pool_exec e p) < work p"
  using assms
  by (cases e) (auto simp: returned_no_step intro: worker_step_work dtor_step_work split: if_splits)

text \<open>Until the destructor is done, a worker or the destructor can go on.\<close>

lemma not_stuck:
  assumes inv: "pool_inv p" and d: "dtor p \<noteq> D_none" "dtor p \<noteq> D_done"
  shows "\<exists>e. \<not> spurious e \<and> pool_exec e p \<noteq> p"
proof (cases "\<exists>t \<in> set (th p). w_takes t \<or> (\<exists>x. t = W_run x)")
  case True
  then obtain i where i: "i < length (th p)" "th p ! i = W_take \<or> (\<exists>x. th p ! i = W_run x)"
    by (metis in_set_conv_nth w_takes.elims(2))
  then have "th (worker_step i 0 p) ! i \<noteq> th p ! i"
    by (cases "items (jobq p)") (auto simp: worker_step_def deq_def Let_def split: option.splits)
  then have "pool_exec (Worker i 0) p \<noteq> p" using i(1) by auto
  then show ?thesis by (metis spurious.simps(6))
next
  case False
  have I: "workers_ok p" "adders_ok p" "pills_ok p" using inv by (simp_all add: pool_inv_def)
  have takes: "count_of w_takes (th p) = 0"
    using False by (auto simp: filter_empty_conv)
  have all: "w_exited t \<or> w_waits t" if "t \<in> set (th p)" for t
    by (insert that False, cases t) auto
  have exited: "count_of w_waits (th p) = 0 \<Longrightarrow> count_of w_exited (th p) = nthreads p"
    using all I(3) by (auto simp: pills_ok_def filter_empty_conv intro!: arg_cong [of _ _ length] filter_True)
  have "dtor_step 0 p \<noteq> p"
  proof (cases "dtor p")
    case (D_enq i)
    have "i < nthreads p \<Longrightarrow> items (jobq p) = []"
      using I(1,3) D_enq takes exited
      by (cases "count_of w_waits (th p) = 0") (auto simp: workers_ok_def pills_ok_def dest: shape_count(1))
    moreover have "dtor (dtor_step 0 p) \<noteq> dtor p"
      using D_enq by (auto simp: dtor_step_def enq_def signal_non_empty_def)
    ultimately show ?thesis by auto
  next
    case (D_wait i)
    then have "count_of w_waits (th p) = 0"
      using I(1,2) takes by (auto simp: workers_ok_def adders_ok_def)
    with exited D_wait I(3) show ?thesis by (auto simp: pills_ok_def dest: shape_count(1))
  next
    case (D_join i)
    show ?thesis
    proof (cases "i < nthreads p")
      case True
      have "count_of w_exited (th p) = length (th p)"
        using I(1,3) D_join takes exited
        by (cases "count_of w_waits (th p) = 0") (auto simp: workers_ok_def pills_ok_def dest: shape_count(2))
      then have "\<forall>t \<in> set (th p). w_exited t"
        using length_filter_less [of _ "th p" w_exited] by fastforce
      then have "w_exited (th p ! i)" using True I(3) by (simp add: pills_ok_def)
      then have "th p ! i = W_exited" by (cases "th p ! i") auto
      with D_join True show ?thesis by (auto simp: dtor_step_def dest: arg_cong [of _ _ dtor])
    next
      case False
      with D_join show ?thesis by (auto simp: dtor_step_def dest: arg_cong [of _ _ dtor])
    qed
  qed (insert d, simp_all)
  then show ?thesis by (metis pool_exec.simps(5) spurious.simps(8))
qed

text \<open>A sequence of events in which every event has an effect and none is a wake-up without a signal.\<close>

fun effective :: "'j pool_event list \<Rightarrow> 'j pool \<Rightarrow> bool" where
  "effective [] p \<longleftrightarrow> True"
| "effective (e # es) p \<longleftrightarrow> \<not> spurious e \<and> pool_exec e p \<noteq> p \<and> effective es (pool_exec e p)"

lemma destroying_stays:
  assumes "dtor p \<noteq> D_none"
  shows "dtor (pool_exec e p) \<noteq> D_none"
proof -
  have "dtor_woken d \<noteq> D_none" if "d \<noteq> D_none" for d using that by (cases d) auto
  with assms show ?thesis
    by (cases e) (simp_all add: worker_step_keeps addJob_step_keeps dtor_step_keeps split: option.split)
qed

lemma effective_bounded:
  "pool_inv p \<Longrightarrow> dtor p \<noteq> D_none \<Longrightarrow> effective es p \<Longrightarrow> length es + work (pool_run es p) \<le> work p"
proof (induction es arbitrary: p)
  case (Cons e es)
  then show ?case
    using Cons.IH [OF pool_exec_inv [OF Cons.prems(1)] destroying_stays [OF Cons.prems(2)]]
      exec_work [OF Cons.prems(1,2)] by fastforce
qed simp

section \<open>Properties\<close>

text \<open>An example: two workers, both asleep; two jobs are added; then the pool is destroyed.\<close>

definition two_jobs :: "nat pool_event list" where
  "two_jobs = [Worker 0 0, Worker 1 0, Add 7, Adder 0 1, Add 8, Worker 1 0, Spurious_worker 0, Worker 0 0, Adder 1 0]"

definition two_jobs_destroyed :: "nat pool_event list" where
  "two_jobs_destroyed = two_jobs @ [Destroy, Dtor 0, Worker 0 0, Worker 0 0, Dtor 0, Worker 0 0, Worker 1 0, Worker 1 0,
     Dtor 0, Dtor 0, Dtor 0, Dtor 0]"

text \<open>
  C19. Whatever the interleaving, the workers start exactly the jobs for which \<^verbatim>\<open>addJob\<close> returned true,
  each once and in the order in which they were added, and the queue never has more than a hundred
  entries for each thread.
\<close>

theorem pool_runs_jobs_in_order:
  assumes "0 < sz" and "100 * sz < 2 ^ 32" and "p = pool_run es (ThrPool_new sz blocking)"
  shows "added p = taken p @ jobs_of (items (jobq p)) \<and> length (items (jobq p)) \<le> 100 * sz"
proof -
  have "limit (jobq (pool_run es q)) = limit (jobq q)" for q :: "'a pool"
    by (induction es arbitrary: q) (simp_all add: pool_exec_limit)
  then have "unat (limit (jobq p)) = 100 * sz"
    using assms(2) unat_of_nat [of "100 * sz", where 'a = 32] by (simp add: assms(3) ThrPool_new_def fifo_new_def)
  with pool_run_inv [OF new_pool_inv [OF assms(1,2)], of es blocking] assms(3) show ?thesis
    by (simp add: pool_inv_defs)
qed

theorem pool_runs_jobs_in_order_witness:
  "let p = pool_run two_jobs (ThrPool_new 2 True) in
    added p = [7, 8] \<and> taken p = [7] \<and> added p = taken p @ jobs_of (items (jobq p)) \<and>
    length (items (jobq p)) \<le> 100 * 2"
proof -
  have "added (pool_run two_jobs (ThrPool_new 2 True)) = [7, 8] \<and> taken (pool_run two_jobs (ThrPool_new 2 True)) = [7]"
    by code_simp
  with pool_runs_jobs_in_order [of 2 _ two_jobs True, OF _ _ refl] show ?thesis by (simp add: Let_def)
qed

text \<open>
  C32. The condition variables lose no wake-up: while some worker sleeps, at least as many workers are
  about to take a job as there are jobs in the queue; and while some thread sleeps in \<^verbatim>\<open>addJob\<close>, at
  least as many are about to add one as there are free places.
\<close>

theorem pool_loses_no_wakeup:
  assumes "0 < sz" and "100 * sz < 2 ^ 32" and "p = pool_run es (ThrPool_new sz blocking)"
  shows "((\<exists>t \<in> set (th p). w_waits t) \<longrightarrow> length (items (jobq p)) \<le> count_of w_takes (th p)) \<and>
    ((\<exists>a \<in> set (adders p). a_waits a) \<longrightarrow>
      unat (limit (jobq p)) \<le> length (items (jobq p)) + count_of a_adds (adders p))"
  using pool_run_inv [OF new_pool_inv [OF assms(1,2)], of es blocking] assms(3)
  by (auto simp: pool_inv_defs filter_empty_conv)

theorem pool_loses_no_wakeup_witness:
  "let p = pool_run [Worker 0 0, Worker 1 0, Add (7 :: nat), Adder 0 1] (ThrPool_new 2 True) in
    (\<exists>t \<in> set (th p). w_waits t) \<and> length (items (jobq p)) \<le> count_of w_takes (th p)"
proof -
  let ?p = "pool_run [Worker 0 0, Worker 1 0, Add (7 :: nat), Adder 0 1] (ThrPool_new 2 True)"
  have "\<exists>t \<in> set (th ?p). w_waits t" by code_simp
  with pool_loses_no_wakeup [of 2 ?p, OF _ _ refl] show ?thesis by (simp add: Let_def)
qed

text \<open>
  C20. The destructor terminates and drains the queue. Once it has been called, every sequence of steps
  that have an effect is bounded by the work that is left; until it is done, some thread can take such
  a step; and when it is done every job that was added has been started and every worker has exited.
\<close>

theorem pool_destructor_drains:
  assumes "0 < sz" and "100 * sz < 2 ^ 32" and "p = pool_run es (ThrPool_new sz blocking)"
    and "dtor p \<noteq> D_none"
  shows "(effective es' p \<longrightarrow> length es' \<le> work p) \<and>
    (dtor p \<noteq> D_done \<longrightarrow> (\<exists>e. \<not> spurious e \<and> pool_exec e p \<noteq> p)) \<and>
    (dtor p = D_done \<longrightarrow> taken p = added p \<and> (\<forall>t \<in> set (th p). w_exited t))"
proof (intro conjI)
  have inv: "pool_inv p" using pool_run_inv [OF new_pool_inv [OF assms(1,2)]] assms(3) by simp
  show "effective es' p \<longrightarrow> length es' \<le> work p"
    using effective_bounded [OF inv assms(4), of es'] by auto
  show "dtor p \<noteq> D_done \<longrightarrow> (\<exists>e. \<not> spurious e \<and> pool_exec e p \<noteq> p)"
    using not_stuck [OF inv assms(4)] by blast
  show "dtor p = D_done \<longrightarrow> taken p = added p \<and> (\<forall>t \<in> set (th p). w_exited t)"
  proof
    assume d: "dtor p = D_done"
    then have all: "\<forall>t \<in> set (th p). w_exited t"
      using inv by (auto simp: pool_inv_defs in_set_conv_nth)
    have "nthreads (pool_run es q) = nthreads q" for q :: "'a pool"
      by (induction es arbitrary: q) (simp_all add: pool_exec_limit)
    then have "0 < nthreads p" using assms(1) by (simp add: assms(3) ThrPool_new_def)
    moreover have "queue_shape (items (jobq p)) (nthreads p) (nthreads p)"
      using all inv d filter_True [OF all] by (auto simp: pool_inv_defs)
    ultimately have "items (jobq p) = []" by (rule shape_count(3) [rotated])
    with all inv show "taken p = added p \<and> (\<forall>t \<in> set (th p). w_exited t)"
      by (simp add: pool_inv_defs)
  qed
qed

theorem pool_destructor_drains_witness:
  "let p = pool_run two_jobs_destroyed (ThrPool_new 2 True) in
    dtor p = D_done \<and> taken p = added p \<and> added p = [7, 8]"
proof -
  let ?p = "pool_run two_jobs_destroyed (ThrPool_new 2 True)"
  have "dtor ?p = D_done \<and> added ?p = [7, 8]" by code_simp
  with pool_destructor_drains [of 2 ?p two_jobs_destroyed True, OF _ _ refl] show ?thesis by (simp add: Let_def)
qed

end
