(* ===== verification/Aio.thy ===== *)
theory Aio
  imports Connection
begin

text \<open>
  The two implementations of \<^verbatim>\<open>aio_mgr\<close> in \<^verbatim>\<open>src/rpc/pollmgr.cc\<close>: \<^verbatim>\<open>SelectAIO\<close>, which the program uses, and
  \<^verbatim>\<open>EPollAIO\<close>. The contract of the abstract class is a locale, interpreted on both; sequences of calls
  give the same answers with either.
\<close>

section \<open>class SelectAIO\<close>

text \<open>
  The bit sets are functions; \<open>pipe0\<close> is the reading end of the pipe and \<open>piped\<close> the number of bytes in
  it. The macros are defined for descriptors below \<^verbatim>\<open>FD_SETSIZE\<close> only.
\<close>

definition FD_SETSIZE :: int where
  "FD_SETSIZE = 1024"

definition fd_ok :: "int \<Rightarrow> bool" where
  "fd_ok d \<longleftrightarrow> 0 \<le> d \<and> d < FD_SETSIZE"

record select_aio =
  rfds :: "int \<Rightarrow> bool"
  wfds :: "int \<Rightarrow> bool"
  highfds :: int
  pipe0 :: int
  piped :: nat

definition SelectAIO_new :: "int \<Rightarrow> select_aio" where
  "SelectAIO_new p =
     \<lparr>rfds = (\<lambda>_. False)(p := True), wfds = \<lambda>_. False, highfds = p, pipe0 = p, piped = 0\<rparr>"

definition select_watch_fd :: "int \<Rightarrow> poll_flag \<Rightarrow> select_aio \<Rightarrow> select_aio res" where
  "select_watch_fd d flag s =
     (let s = s\<lparr>highfds := (if highfds s \<le> d then d else highfds s)\<rparr> in
      rbind (check (fd_ok d) Out_of_bounds) (\<lambda>_.
      let s = (if flag = CB_RDONLY then s\<lparr>rfds := (rfds s)(d := True)\<rparr>
               else if flag = CB_WRONLY then s\<lparr>wfds := (wfds s)(d := True)\<rparr>
               else s\<lparr>rfds := (rfds s)(d := True), wfds := (wfds s)(d := True)\<rparr>)
      in Inr (s\<lparr>piped := piped s + 1\<rparr>)))"

definition select_is_watched :: "int \<Rightarrow> poll_flag \<Rightarrow> select_aio \<Rightarrow> bool res" where
  "select_is_watched d flag s =
     rbind (check (fd_ok d) Out_of_bounds) (\<lambda>_.
     Inr (if flag = CB_RDONLY then rfds s d
          else if flag = CB_WRONLY then wfds s d
          else rfds s d \<and> wfds s d))"

text \<open>The loop that looks for the highest descriptor still in use.\<close>

definition new_high :: "select_aio \<Rightarrow> int" where
  "new_high s = fold (\<lambda>i h. if rfds s i then i else if wfds s i then i else h) [0..highfds s] (pipe0 s)"

definition select_unwatch_fd :: "int \<Rightarrow> poll_flag \<Rightarrow> select_aio \<Rightarrow> (bool \<times> select_aio) res" where
  "select_unwatch_fd d flag s =
     rbind (check (fd_ok d) Out_of_bounds) (\<lambda>_.
     rbind (case flag of
              CB_RDONLY \<Rightarrow> Inr (s\<lparr>rfds := (rfds s)(d := False)\<rparr>)
            | CB_WRONLY \<Rightarrow> Inr (s\<lparr>wfds := (wfds s)(d := False)\<rparr>)
            | CB_RDWR \<Rightarrow> Inr (s\<lparr>wfds := (wfds s)(d := False), rfds := (rfds s)(d := False)\<rparr>)
            | CB_NONE \<Rightarrow> Inl Assert_failed) (\<lambda>s.
     let s = (if \<not> rfds s d \<and> \<not> wfds s d \<and> d = highfds s then s\<lparr>highfds := new_high s\<rparr> else s);
         s = (if flag = CB_RDWR then s\<lparr>piped := piped s + 1\<rparr> else s)
     in Inr (\<not> rfds s d \<and> \<not> wfds s d, s)))"

text \<open>
  \<^verbatim>\<open>wait_ready\<close> after \<^verbatim>\<open>select\<close> has returned with the ready descriptors of the sets copied before: the
  descriptors to report, and the byte read from the pipe.
\<close>

definition select_ready ::
  "int \<Rightarrow> (int \<Rightarrow> bool) \<Rightarrow> (int \<Rightarrow> bool) \<Rightarrow> select_aio \<Rightarrow> ((int list \<times> int list) \<times> select_aio) res" where
  "select_ready high trfds twfds s =
     rbind (if pipe0 s \<in> set [0..high] \<and> trfds (pipe0 s)
            then rbind (check (0 < piped s) Assert_failed) (\<lambda>_. Inr (s\<lparr>piped := piped s - 1\<rparr>))
            else Inr s) (\<lambda>s.
     let fds = filter (\<lambda>d. \<not> (d = pipe0 s \<and> trfds d)) [0..high]
     in Inr ((filter trfds fds, filter twfds fds), s))"

text \<open>Every watched descriptor is in the range \<^verbatim>\<open>select\<close> looks at, and the pipe is always watched.\<close>

definition select_ok :: "select_aio \<Rightarrow> bool" where
  "select_ok s \<longleftrightarrow>
     rfds s (pipe0 s) \<and> highfds s < FD_SETSIZE \<and> (\<forall>d. rfds s d \<or> wfds s d \<longrightarrow> 0 \<le> d \<and> d \<le> highfds s)"

lemma select_ok_new: "fd_ok p \<Longrightarrow> select_ok (SelectAIO_new p)"
  by (simp add: select_ok_def SelectAIO_new_def fd_ok_def)

lemma fold_high:
  fixes xs :: "int list"
  assumes "sorted xs"
  shows "(\<exists>i \<in> set xs. P i) \<Longrightarrow> fold (\<lambda>i h. if P i then i else h) xs h \<in> set xs"
    and "i \<in> set xs \<Longrightarrow> P i \<Longrightarrow> i \<le> fold (\<lambda>i h. if P i then i else h) xs h"
proof -
  let ?f = "\<lambda>i h. if P i then i else h"
  have top: "i \<in> set xs \<Longrightarrow> P i \<Longrightarrow> i \<le> fold ?f xs h" for i h
    using assms(1)
  proof (induction xs arbitrary: h rule: rev_induct)
    case (snoc x xs)
    then show ?case by (auto simp: sorted_append)
  qed simp
  moreover have mem: "(\<exists>i \<in> set xs. P i) \<Longrightarrow> fold ?f xs h \<in> set xs" for h
    by (induction xs arbitrary: h rule: rev_induct) auto
  ultimately show "(\<exists>i \<in> set xs. P i) \<Longrightarrow> fold ?f xs h \<in> set xs"
    and "i \<in> set xs \<Longrightarrow> P i \<Longrightarrow> i \<le> fold ?f xs h"
    by blast+
qed

lemma new_high_bounds:
  assumes "rfds s (pipe0 s)" and "\<And>d. rfds s d \<or> wfds s d \<Longrightarrow> 0 \<le> d \<and> d \<le> highfds s"
  shows "new_high s \<le> highfds s" and "rfds s d \<or> wfds s d \<Longrightarrow> d \<le> new_high s"
proof -
  let ?P = "\<lambda>i. rfds s i \<or> wfds s i"
  have f: "new_high s = fold (\<lambda>i h. if ?P i then i else h) [0..highfds s] (pipe0 s)"
    unfolding new_high_def by (rule fold_cong) auto
  have "pipe0 s \<in> set [0..highfds s]" using assms by simp
  then have "new_high s \<in> set [0..highfds s]"
    unfolding f using assms by (intro fold_high) auto
  then show "new_high s \<le> highfds s" by simp
  show "?P d \<Longrightarrow> d \<le> new_high s"
    unfolding f using assms by (intro fold_high) auto
qed

section \<open>The contract of aio\_mgr\<close>

fun flag_has :: "poll_flag \<Rightarrow> bool \<Rightarrow> bool" where
  "flag_has CB_NONE b \<longleftrightarrow> False"
| "flag_has CB_RDONLY b \<longleftrightarrow> b"
| "flag_has CB_WRONLY b \<longleftrightarrow> \<not> b"
| "flag_has CB_RDWR b \<longleftrightarrow> True"

text \<open>The directions watched: \<open>True\<close> for reading.\<close>

type_synonym interest = "bool \<Rightarrow> int \<Rightarrow> bool"

definition add_interest :: "int \<Rightarrow> poll_flag \<Rightarrow> interest \<Rightarrow> interest" where
  "add_interest d f w = (\<lambda>b g. w b g \<or> g = d \<and> flag_has f b)"

definition del_interest :: "int \<Rightarrow> poll_flag \<Rightarrow> interest \<Rightarrow> interest" where
  "del_interest d f w = (\<lambda>b g. w b g \<and> \<not> (g = d \<and> flag_has f b))"

definition idle :: "int \<Rightarrow> interest \<Rightarrow> bool" where
  "idle d w \<longleftrightarrow> \<not> w True d \<and> \<not> w False d"

datatype aio_call = Watch int poll_flag | Unwatch int poll_flag

text \<open>
  The calls a client may make: on descriptors in range, with a direction, and only watched descriptors
  are unwatched. The answers of \<^verbatim>\<open>unwatch_fd\<close> are collected.
\<close>

fun legal :: "(int \<Rightarrow> bool) \<Rightarrow> aio_call list \<Rightarrow> interest \<Rightarrow> bool" where
  "legal fds [] w \<longleftrightarrow> True"
| "legal fds (Watch d f # cs) w \<longleftrightarrow> fds d \<and> f \<noteq> CB_NONE \<and> legal fds cs (add_interest d f w)"
| "legal fds (Unwatch d f # cs) w \<longleftrightarrow>
     fds d \<and> f \<noteq> CB_NONE \<and> \<not> idle d w \<and> legal fds cs (del_interest d f w)"

fun answers_of :: "aio_call list \<Rightarrow> interest \<Rightarrow> bool list" where
  "answers_of [] w = []"
| "answers_of (Watch d f # cs) w = answers_of cs (add_interest d f w)"
| "answers_of (Unwatch d f # cs) w =
     idle d (del_interest d f w) # answers_of cs (del_interest d f w)"

fun aio_calls ::
  "(int \<Rightarrow> poll_flag \<Rightarrow> 's \<Rightarrow> 's res) \<Rightarrow> (int \<Rightarrow> poll_flag \<Rightarrow> 's \<Rightarrow> (bool \<times> 's) res) \<Rightarrow>
   aio_call list \<Rightarrow> 's \<Rightarrow> (bool list \<times> 's) res" where
  "aio_calls watch unwatch [] s = Inr ([], s)"
| "aio_calls watch unwatch (Watch d f # cs) s = rbind (watch d f s) (aio_calls watch unwatch cs)"
| "aio_calls watch unwatch (Unwatch d f # cs) s =
     rbind (unwatch d f s) (\<lambda>(b, s).
     rbind (aio_calls watch unwatch cs s) (\<lambda>(bs, s). Inr (b # bs, s)))"

locale aio_mgr =
  fixes watch :: "int \<Rightarrow> poll_flag \<Rightarrow> 's \<Rightarrow> 's res"
    and unwatch :: "int \<Rightarrow> poll_flag \<Rightarrow> 's \<Rightarrow> (bool \<times> 's) res"
    and watching :: "'s \<Rightarrow> interest"
    and inv :: "'s \<Rightarrow> bool"
    and fds :: "int \<Rightarrow> bool"
  assumes watch_law: "inv s \<Longrightarrow> fds d \<Longrightarrow> f \<noteq> CB_NONE \<Longrightarrow>
      \<exists>s'. watch d f s = Inr s' \<and> inv s' \<and> watching s' = add_interest d f (watching s)"
    and unwatch_law: "inv s \<Longrightarrow> fds d \<Longrightarrow> f \<noteq> CB_NONE \<Longrightarrow> \<not> idle d (watching s) \<Longrightarrow>
      \<exists>s'. unwatch d f s = Inr (idle d (watching s'), s') \<and> inv s' \<and>
        watching s' = del_interest d f (watching s)"
begin

lemma calls_answered:
  "inv s \<Longrightarrow> legal fds cs (watching s) \<Longrightarrow>
   \<exists>s'. aio_calls watch unwatch cs s = Inr (answers_of cs (watching s), s') \<and> inv s'"
proof (induction cs "watching s" arbitrary: s rule: answers_of.induct)
  case (2 d f cs)
  then obtain s1 where "watch d f s = Inr s1" "inv s1" "watching s1 = add_interest d f (watching s)"
    using watch_law by (metis legal.simps(2))
  with 2(1) [of s1] 2(3) show ?case by simp
next
  case (3 d f cs)
  then obtain s1 where "unwatch d f s = Inr (idle d (watching s1), s1)" "inv s1"
      "watching s1 = del_interest d f (watching s)"
    using unwatch_law by (metis legal.simps(3))
  with 3(1) [of s1] 3(3) show ?case by auto
qed simp

end

text \<open>The pipe is private to \<^verbatim>\<open>SelectAIO\<close> and no client unwatches it, so its bit is left out.\<close>

definition select_watching :: "select_aio \<Rightarrow> interest" where
  "select_watching s = (\<lambda>b d. if b then rfds s d \<and> d \<noteq> pipe0 s else wfds s d)"

lemma select_watch_ok:
  assumes "select_ok s" and "fd_ok d" and "f \<noteq> CB_NONE"
  shows "\<exists>s'. select_watch_fd d f s = Inr s' \<and> select_ok s' \<and>
    rfds s' = (if flag_has f True then (rfds s)(d := True) else rfds s) \<and>
    wfds s' = (if flag_has f False then (wfds s)(d := True) else wfds s) \<and>
    pipe0 s' = pipe0 s \<and> piped s' = piped s + 1"
  using assms by (cases f) (auto simp: select_watch_fd_def select_ok_def fd_ok_def Let_def)

lemma select_ok_piped: "select_ok s \<Longrightarrow> select_ok (if b then s\<lparr>piped := n\<rparr> else s)"
  by (simp add: select_ok_def)

lemma select_ok_high:
  assumes "select_ok s"
  shows "select_ok (s\<lparr>highfds := new_high s\<rparr>)"
proof -
  have "new_high s \<le> highfds s" "rfds s d \<or> wfds s d \<Longrightarrow> d \<le> new_high s" for d
    using new_high_bounds [of s] assms by (auto simp: select_ok_def)
  with assms show ?thesis by (auto simp: select_ok_def)
qed

lemma select_unwatch_ok:
  assumes "select_ok s" and "fd_ok d" and "d \<noteq> pipe0 s" and "f \<noteq> CB_NONE"
  shows "\<exists>s'. select_unwatch_fd d f s = Inr (\<not> rfds s' d \<and> \<not> wfds s' d, s') \<and> select_ok s' \<and>
    rfds s' = (if flag_has f True then (rfds s)(d := False) else rfds s) \<and>
    wfds s' = (if flag_has f False then (wfds s)(d := False) else wfds s) \<and>
    pipe0 s' = pipe0 s \<and> piped s' = (if f = CB_RDWR then piped s + 1 else piped s)"
proof -
  let ?s = "s\<lparr>rfds := (if flag_has f True then (rfds s)(d := False) else rfds s),
      wfds := (if flag_has f False then (wfds s)(d := False) else wfds s)\<rparr>"
  have ok: "select_ok ?s" using assms(1,3) by (auto simp: select_ok_def)
  let ?t = "if \<not> rfds ?s d \<and> \<not> wfds ?s d \<and> d = highfds s then ?s\<lparr>highfds := new_high ?s\<rparr> else ?s"
  have comm: "s\<lparr>wfds := v, rfds := u\<rparr> = s\<lparr>rfds := u, wfds := v\<rparr>" for u v by simp
  have "select_unwatch_fd d f s = Inr (\<not> rfds ?t d \<and> \<not> wfds ?t d,
      if f = CB_RDWR then ?t\<lparr>piped := piped s + 1\<rparr> else ?t)"
    using assms(2,4) by (cases f) (auto simp: select_unwatch_fd_def Let_def comm)
  moreover have "select_ok ?t" using ok select_ok_high [OF ok] by simp
  then have "select_ok (if f = CB_RDWR then ?t\<lparr>piped := piped s + 1\<rparr> else ?t)"
    by (rule select_ok_piped)
  ultimately show ?thesis by (intro exI [of _ "if f = CB_RDWR then ?t\<lparr>piped := piped s + 1\<rparr> else ?t"]) simp
qed

interpretation select: aio_mgr select_watch_fd select_unwatch_fd select_watching
  "\<lambda>s. select_ok s \<and> pipe0 s = n" "\<lambda>d. fd_ok d \<and> d \<noteq> n" for n
proof
  fix s d f
  assume s: "select_ok s \<and> pipe0 s = n" and d: "fd_ok d \<and> d \<noteq> n" and f: "f \<noteq> CB_NONE"
  obtain s' where "select_watch_fd d f s = Inr s'" "select_ok s'" "pipe0 s' = n"
    and r: "rfds s' = (if flag_has f True then (rfds s)(d := True) else rfds s)"
      "wfds s' = (if flag_has f False then (wfds s)(d := True) else wfds s)"
    using select_watch_ok [of s d f] s d f by auto
  moreover from this have "select_watching s' = add_interest d f (select_watching s)"
    using s d by (auto simp: select_watching_def add_interest_def fun_eq_iff)
  ultimately show "\<exists>s'. select_watch_fd d f s = Inr s' \<and> (select_ok s' \<and> pipe0 s' = n) \<and>
      select_watching s' = add_interest d f (select_watching s)" by blast
  obtain s' where s': "select_unwatch_fd d f s = Inr (\<not> rfds s' d \<and> \<not> wfds s' d, s')" "select_ok s'"
      "rfds s' = (if flag_has f True then (rfds s)(d := False) else rfds s)"
      "wfds s' = (if flag_has f False then (wfds s)(d := False) else wfds s)" "pipe0 s' = n"
    using select_unwatch_ok [of s d f] s d f by auto
  then have "select_watching s' = del_interest d f (select_watching s)"
    using s by (auto simp: select_watching_def del_interest_def fun_eq_iff)
  moreover have "idle d (select_watching s') = (\<not> rfds s' d \<and> \<not> wfds s' d)"
    using s' d by (simp add: idle_def select_watching_def)
  ultimately show "\<exists>s'. select_unwatch_fd d f s = Inr (idle d (select_watching s'), s') \<and>
      (select_ok s' \<and> pipe0 s' = n) \<and> select_watching s' = del_interest d f (select_watching s)"
    using s' by auto
qed

section \<open>class EPollAIO\<close>

definition MAX_POLL_FDS :: int where
  "MAX_POLL_FDS = 128"

fun flag_bits :: "poll_flag \<Rightarrow> u32" where
  "flag_bits CB_NONE = 0"
| "flag_bits CB_RDONLY = 0x1"
| "flag_bits CB_WRONLY = 0x10"
| "flag_bits CB_RDWR = 0x11"

definition CB_MASK :: u32 where
  "CB_MASK = NOT 0x11"

definition EPOLLIN :: u32 where "EPOLLIN = 1"

definition EPOLLOUT :: u32 where "EPOLLOUT = 4"

definition EPOLLET :: u32 where "EPOLLET = 2 ^ 31"

text \<open>The kernel's list of descriptors for \<^verbatim>\<open>pollfd_\<close> is \<open>registered\<close>.\<close>

record epoll_aio =
  fdstatus :: "u32 list"
  registered :: "int \<rightharpoonup> u32"

datatype epoll_op = CTL_ADD | CTL_MOD | CTL_DEL

text \<open>\<^verbatim>\<open>epoll_ctl\<close>: adding fails for a descriptor in the list, changing and deleting for one that is not.\<close>

fun epoll_ctl :: "epoll_op \<Rightarrow> int \<Rightarrow> u32 \<Rightarrow> epoll_aio \<Rightarrow> epoll_aio res" where
  "epoll_ctl CTL_ADD d ev s =
     rbind (check (registered s d = None) Assert_failed) (\<lambda>_. Inr (s\<lparr>registered := (registered s)(d \<mapsto> ev)\<rparr>))"
| "epoll_ctl CTL_MOD d ev s =
     rbind (check (registered s d \<noteq> None) Assert_failed) (\<lambda>_. Inr (s\<lparr>registered := (registered s)(d \<mapsto> ev)\<rparr>))"
| "epoll_ctl CTL_DEL d ev s =
     rbind (check (registered s d \<noteq> None) Assert_failed) (\<lambda>_. Inr (s\<lparr>registered := (registered s)(d := None)\<rparr>))"

definition EPollAIO_new :: epoll_aio where
  "EPollAIO_new = \<lparr>fdstatus = replicate (nat MAX_POLL_FDS) 0, registered = Map.empty\<rparr>"

definition status_events :: "u32 \<Rightarrow> u32" where
  "status_events st =
     (let ev = EPOLLET;
          ev = (if st AND flag_bits CB_RDONLY \<noteq> 0 then ev OR EPOLLIN else ev)
      in if st AND flag_bits CB_WRONLY \<noteq> 0 then ev OR EPOLLOUT else ev)"

definition epoll_watch_fd :: "int \<Rightarrow> poll_flag \<Rightarrow> epoll_aio \<Rightarrow> epoll_aio res" where
  "epoll_watch_fd d flag s =
     rbind (check (d < MAX_POLL_FDS) Assert_failed) (\<lambda>_.
     rbind (check (0 \<le> d) Out_of_bounds) (\<lambda>_.
     let op = (if fdstatus s ! nat d \<noteq> 0 then CTL_MOD else CTL_ADD);
         st = fdstatus s ! nat d OR flag_bits flag;
         s = s\<lparr>fdstatus := (fdstatus s)[nat d := st]\<rparr>
     in
       rbind (check (flag = CB_RDWR \<longrightarrow> status_events st = EPOLLET OR EPOLLIN OR EPOLLOUT) Assert_failed) (\<lambda>_.
       epoll_ctl op d (status_events st) s)))"

definition epoll_unwatch_fd :: "int \<Rightarrow> poll_flag \<Rightarrow> epoll_aio \<Rightarrow> (bool \<times> epoll_aio) res" where
  "epoll_unwatch_fd d flag s =
     rbind (check (d < MAX_POLL_FDS) Assert_failed) (\<lambda>_.
     rbind (check (0 \<le> d) Out_of_bounds) (\<lambda>_.
     let st = fdstatus s ! nat d AND NOT (flag_bits flag);
         s = s\<lparr>fdstatus := (fdstatus s)[nat d := st]\<rparr>;
         op = (if st \<noteq> 0 then CTL_MOD else CTL_DEL)
     in
       rbind (check (flag = CB_RDWR \<longrightarrow> op = CTL_DEL) Assert_failed) (\<lambda>_.
       rbind (epoll_ctl op d (status_events st) s) (\<lambda>s.
       Inr (op = CTL_DEL, s)))))"

definition epoll_is_watched :: "int \<Rightarrow> poll_flag \<Rightarrow> epoll_aio \<Rightarrow> bool res" where
  "epoll_is_watched d flag s =
     rbind (check (d < MAX_POLL_FDS) Assert_failed) (\<lambda>_.
     rbind (check (0 \<le> d) Out_of_bounds) (\<lambda>_.
     Inr (fdstatus s ! nat d AND CB_MASK = flag_bits flag)))"

definition epoll_wait_ready :: "(int \<times> u32) list \<Rightarrow> int list \<times> int list" where
  "epoll_wait_ready ready =
     (map fst (filter (\<lambda>(d, ev). ev AND EPOLLIN \<noteq> 0) ready),
      map fst (filter (\<lambda>(d, ev). ev AND EPOLLOUT \<noteq> 0) ready))"

text \<open>The array holds the four values of the flags, and a descriptor is registered unless its value is 0.\<close>

definition epoll_ok :: "epoll_aio \<Rightarrow> bool" where
  "epoll_ok s \<longleftrightarrow>
     length (fdstatus s) = nat MAX_POLL_FDS \<and> set (fdstatus s) \<subseteq> {0, 0x1, 0x10, 0x11} \<and>
     (\<forall>d. 0 \<le> d \<longrightarrow> d < MAX_POLL_FDS \<longrightarrow> (registered s d = None \<longleftrightarrow> fdstatus s ! nat d = 0))"

definition epoll_watching :: "epoll_aio \<Rightarrow> interest" where
  "epoll_watching s =
     (\<lambda>b d. 0 \<le> d \<and> d < MAX_POLL_FDS \<and>
        fdstatus s ! nat d AND flag_bits (if b then CB_RDONLY else CB_WRONLY) \<noteq> 0)"

text \<open>A change of one entry of the array, with the registration that goes with it.\<close>

lemma epoll_entry:
  assumes ok: "epoll_ok s" and d: "0 \<le> d" "d < MAX_POLL_FDS"
    and st: "st \<in> {0, 0x1, 0x10, 0x11}" and r: "r = None \<longleftrightarrow> st = 0"
    and s': "s' = s\<lparr>fdstatus := (fdstatus s)[nat d := st], registered := (registered s)(d := r)\<rparr>"
  shows "epoll_ok s'"
    and "epoll_watching s' = (\<lambda>b g. if g = d then st AND flag_bits (if b then CB_RDONLY else CB_WRONLY) \<noteq> 0
      else epoll_watching s b g)"
proof -
  have len: "nat d < length (fdstatus s)" using ok d by (simp add: epoll_ok_def MAX_POLL_FDS_def)
  have eq: "nat g = nat d \<longleftrightarrow> g = d" if "0 \<le> g" for g using that d(1) by auto
  show "epoll_ok s'"
    unfolding epoll_ok_def
  proof (intro conjI allI impI)
    show "length (fdstatus s') = nat MAX_POLL_FDS" using ok by (simp add: s' epoll_ok_def)
    show "set (fdstatus s') \<subseteq> {0, 0x1, 0x10, 0x11}"
      using ok st set_update_subset_insert [of "fdstatus s" "nat d" st] unfolding epoll_ok_def s' by auto
    fix g assume "0 \<le> g" "g < MAX_POLL_FDS"
    then show "registered s' g = None \<longleftrightarrow> fdstatus s' ! nat g = 0"
      using ok r len eq [of g] by (cases "g = d") (simp_all add: s' epoll_ok_def)
  qed
  show "epoll_watching s' = (\<lambda>b g. if g = d then st AND flag_bits (if b then CB_RDONLY else CB_WRONLY) \<noteq> 0
      else epoll_watching s b g)"
    using d len eq by (auto simp: fun_eq_iff epoll_watching_def s')
qed

text \<open>Setting and clearing flags on the four values.\<close>

abbreviation dir_bits :: "bool \<Rightarrow> u32" where
  "dir_bits b \<equiv> flag_bits (if b then CB_RDONLY else CB_WRONLY)"

lemma status_set:
  assumes "st \<in> {0, 0x1, 0x10, 0x11}" and "f \<noteq> CB_NONE"
  shows "st OR flag_bits f \<in> {0, 0x1, 0x10, 0x11}" and "st OR flag_bits f \<noteq> 0"
    and "(st OR flag_bits f) AND dir_bits b \<noteq> 0 \<longleftrightarrow> st AND dir_bits b \<noteq> 0 \<or> flag_has f b"
  using assms by (cases f; cases b; elim insertE emptyE; simp)+

lemma status_clear:
  assumes "st \<in> {0, 0x1, 0x10, 0x11}"
  shows "st AND NOT (flag_bits f) \<in> {0, 0x1, 0x10, 0x11}"
    and "(st AND NOT (flag_bits f)) AND dir_bits b \<noteq> 0 \<longleftrightarrow> st AND dir_bits b \<noteq> 0 \<and> \<not> flag_has f b"
    and "f = CB_RDWR \<Longrightarrow> st AND NOT (flag_bits f) = 0"
  using assms by (cases f; cases b; elim insertE emptyE; simp)+

lemma status_zero:
  assumes "st \<in> {0, 0x1, 0x10, 0x11}"
  shows "st = 0 \<longleftrightarrow> \<not> st AND dir_bits True \<noteq> 0 \<and> \<not> st AND dir_bits False \<noteq> 0"
  using assms by (elim insertE emptyE; simp)

lemma status_both: "st \<in> {0, 0x1, 0x10, 0x11} \<Longrightarrow> status_events (st OR 0x11) = EPOLLET OR EPOLLIN OR EPOLLOUT"
  by (elim insertE emptyE; simp add: status_events_def or.assoc)

lemma epoll_status:
  assumes "epoll_ok s" and "0 \<le> d \<and> d < MAX_POLL_FDS"
  shows "fdstatus s ! nat d \<in> {0, 0x1, 0x10, 0x11}" and "registered s d = None \<longleftrightarrow> fdstatus s ! nat d = 0"
proof -
  have "fdstatus s ! nat d \<in> set (fdstatus s)" using assms by (simp add: epoll_ok_def)
  with assms(1) show "fdstatus s ! nat d \<in> {0, 0x1, 0x10, 0x11}" unfolding epoll_ok_def by blast
  from assms show "registered s d = None \<longleftrightarrow> fdstatus s ! nat d = 0" by (simp add: epoll_ok_def)
qed

interpretation epoll: aio_mgr epoll_watch_fd epoll_unwatch_fd epoll_watching epoll_ok
  "\<lambda>d. 0 \<le> d \<and> d < MAX_POLL_FDS"
proof
  fix s d f
  assume ok: "epoll_ok s" and d: "0 \<le> d \<and> d < MAX_POLL_FDS" and f: "f \<noteq> CB_NONE"
  let ?st = "fdstatus s ! nat d" and ?w = "fdstatus s ! nat d OR flag_bits f"
  note st = epoll_status [OF ok d] and w = status_set [OF epoll_status(1) [OF ok d] f]
  let ?s = "s\<lparr>fdstatus := (fdstatus s)[nat d := ?w], registered := (registered s)(d := Some (status_events ?w))\<rparr>"
  have "Some (status_events ?w) = None \<longleftrightarrow> ?w = 0" using w(2) by simp
  note e = epoll_entry [OF ok conjunct1 [OF d] conjunct2 [OF d] w(1) this refl]
  have "epoll_watch_fd d f s = Inr ?s"
    using d st status_both [OF st(1)]
    by (cases "?st = 0"; cases "f = CB_RDWR") (simp_all add: epoll_watch_fd_def Let_def)
  moreover have "epoll_watching ?s = add_interest d f (epoll_watching s)"
    unfolding e(2) add_interest_def using w(3) d by (simp only: fun_eq_iff epoll_watching_def) auto
  ultimately show "\<exists>s'. epoll_watch_fd d f s = Inr s' \<and> epoll_ok s' \<and>
      epoll_watching s' = add_interest d f (epoll_watching s)"
    using e(1) by blast
next
  fix s d f
  assume ok: "epoll_ok s" and d: "0 \<le> d \<and> d < MAX_POLL_FDS" and f: "f \<noteq> CB_NONE"
    and busy: "\<not> idle d (epoll_watching s)"
  let ?st = "fdstatus s ! nat d" and ?w = "fdstatus s ! nat d AND NOT (flag_bits f)"
  note st = epoll_status [OF ok d] and w = status_clear [OF epoll_status(1) [OF ok d], of f]
  let ?r = "if ?w = 0 then None else Some (status_events ?w)"
  let ?s = "s\<lparr>fdstatus := (fdstatus s)[nat d := ?w], registered := (registered s)(d := ?r)\<rparr>"
  have "?st \<noteq> 0"
    using busy d status_zero [OF st(1)] unfolding idle_def epoll_watching_def by blast
  with st(2) have reg: "registered s d \<noteq> None" by simp
  have "?r = None \<longleftrightarrow> ?w = 0" by simp
  note e = epoll_entry [OF ok conjunct1 [OF d] conjunct2 [OF d] w(1) this refl]
  have i: "idle d (epoll_watching ?s) \<longleftrightarrow> ?w = 0"
    unfolding e(2) idle_def using status_zero [OF w(1)] by simp
  have "epoll_unwatch_fd d f s = Inr (?w = 0, ?s)"
    using d reg w(3) by (cases "?w = 0") (auto simp: epoll_unwatch_fd_def Let_def)
  moreover have "epoll_watching ?s = del_interest d f (epoll_watching s)"
    unfolding e(2) del_interest_def using w(2) d by (simp only: fun_eq_iff epoll_watching_def) auto
  ultimately show "\<exists>s'. epoll_unwatch_fd d f s = Inr (idle d (epoll_watching s'), s') \<and> epoll_ok s' \<and>
      epoll_watching s' = del_interest d f (epoll_watching s)"
    using e(1) i by (intro exI [of _ ?s]) (simp only: simp_thms)
qed

section \<open>Properties\<close>

lemma legal_mono: "(\<And>d. P d \<Longrightarrow> Q d) \<Longrightarrow> legal P cs w \<Longrightarrow> legal Q cs w"
  by (induction cs w rule: answers_of.induct) auto

lemma epoll_ok_new: "epoll_ok EPollAIO_new" "epoll_watching EPollAIO_new = (\<lambda>_ _. False)"
  by (auto simp: epoll_ok_def EPollAIO_new_def epoll_watching_def MAX_POLL_FDS_def fun_eq_iff)

text \<open>
  C34. The two implementations of \<^verbatim>\<open>aio_mgr\<close> are interchangeable for watching and unwatching: every
  sequence of calls that stays in the range of descriptors and unwatches only what is watched gets
  the same answers from both, those of a set of watched directions, and no assertion fails.
\<close>

theorem aio_implementations_agree:
  assumes "fd_ok p" and "legal (\<lambda>d. 0 \<le> d \<and> d < MAX_POLL_FDS \<and> d \<noteq> p) cs (\<lambda>_ _. False)"
  shows "\<exists>s e. aio_calls select_watch_fd select_unwatch_fd cs (SelectAIO_new p) =
      Inr (answers_of cs (\<lambda>_ _. False), s) \<and>
    aio_calls epoll_watch_fd epoll_unwatch_fd cs EPollAIO_new = Inr (answers_of cs (\<lambda>_ _. False), e)"
proof -
  have new: "select_watching (SelectAIO_new p) = (\<lambda>_ _. False)"
    by (auto simp: select_watching_def SelectAIO_new_def fun_eq_iff)
  have pipe: "pipe0 (SelectAIO_new p) = p" by (simp add: SelectAIO_new_def)
  have "legal (\<lambda>d. fd_ok d \<and> d \<noteq> p) cs (\<lambda>_ _. False)"
    by (rule legal_mono [OF _ assms(2)]) (simp add: fd_ok_def MAX_POLL_FDS_def FD_SETSIZE_def)
  with select.calls_answered [of "SelectAIO_new p" p cs] select_ok_new [OF assms(1)]
  have "\<exists>s. aio_calls select_watch_fd select_unwatch_fd cs (SelectAIO_new p) =
      Inr (answers_of cs (\<lambda>_ _. False), s)"
    unfolding new by (auto simp: pipe)
  moreover have "legal (\<lambda>d. 0 \<le> d \<and> d < MAX_POLL_FDS) cs (\<lambda>_ _. False)"
    by (rule legal_mono [OF _ assms(2)]) simp
  with epoll.calls_answered [of EPollAIO_new cs]
  have "\<exists>e. aio_calls epoll_watch_fd epoll_unwatch_fd cs EPollAIO_new = Inr (answers_of cs (\<lambda>_ _. False), e)"
    by (simp add: epoll_ok_new) blast
  ultimately show ?thesis by blast
qed

theorem aio_implementations_agree_witness:
  "\<exists>s e. aio_calls select_watch_fd select_unwatch_fd
      [Watch 5 CB_RDONLY, Watch 5 CB_WRONLY, Unwatch 5 CB_WRONLY, Watch 7 CB_RDWR, Unwatch 5 CB_RDWR]
      (SelectAIO_new 3) = Inr ([False, True], s) \<and>
    aio_calls epoll_watch_fd epoll_unwatch_fd
      [Watch 5 CB_RDONLY, Watch 5 CB_WRONLY, Unwatch 5 CB_WRONLY, Watch 7 CB_RDWR, Unwatch 5 CB_RDWR]
      EPollAIO_new = Inr ([False, True], e)"
proof -
  let ?cs = "[Watch 5 CB_RDONLY, Watch 5 CB_WRONLY, Unwatch 5 CB_WRONLY, Watch 7 CB_RDWR, Unwatch 5 CB_RDWR]"
  have a: "answers_of ?cs (\<lambda>_ _. False) = [False, True]"
    by (simp add: idle_def del_interest_def add_interest_def)
  have "legal (\<lambda>d. 0 \<le> d \<and> d < MAX_POLL_FDS \<and> d \<noteq> 3) ?cs (\<lambda>_ _. False)"
    by (simp add: MAX_POLL_FDS_def idle_def del_interest_def add_interest_def)
  with aio_implementations_agree [of 3 ?cs] show ?thesis
    unfolding a by (simp only: fd_ok_def FD_SETSIZE_def) simp
qed

text \<open>
  \<^verbatim>\<open>EPollAIO::is_watched\<close> never says yes: its mask is the complement of the flags, so what is left of
  the status is never equal to a flag, whatever is watched.
\<close>

theorem epoll_is_watched_never:
  assumes "0 \<le> d" and "d < MAX_POLL_FDS" and "f \<noteq> CB_NONE"
  shows "epoll_is_watched d f s = Inr False"
proof -
  have "x AND NOT 0x11 \<noteq> flag_bits f" for x :: u32
  proof
    assume "x AND NOT 0x11 = flag_bits f"
    then have "(x AND NOT 0x11) AND 0x11 = flag_bits f AND 0x11" by simp
    moreover have "(x AND NOT 0x11) AND 0x11 = 0" by (simp add: and.assoc)
    ultimately show False using assms(3) by (cases f) simp_all
  qed
  with assms(1,2) show ?thesis by (simp add: epoll_is_watched_def CB_MASK_def)
qed

theorem epoll_is_watched_never_witness:
  "\<exists>s. epoll_watch_fd 5 CB_RDONLY EPollAIO_new = Inr s \<and> epoll_watching s True 5 \<and>
    epoll_is_watched 5 CB_RDONLY s = Inr False"
proof -
  obtain s where "epoll_watch_fd 5 CB_RDONLY EPollAIO_new = Inr s" "epoll_watching s True 5"
    using epoll.watch_law [OF epoll_ok_new(1), of 5 CB_RDONLY] by (auto simp: MAX_POLL_FDS_def add_interest_def)
  with epoll_is_watched_never [of 5 CB_RDONLY s] show ?thesis by (simp add: MAX_POLL_FDS_def)
qed

end
