(* ===== verification/Pollmgr.thy ===== *)
theory Pollmgr
  imports Aio
begin

text \<open>
  Class \<^verbatim>\<open>PollMgr\<close> of \<^verbatim>\<open>src/rpc/pollmgr.cc\<close>: the table of callbacks and the loop of the polling thread, over
  \<^verbatim>\<open>SelectAIO\<close>. Threads that add, delete and remove callbacks and the polling thread take their steps in
  any order; a thread inside \<^verbatim>\<open>block_remove_fd\<close> waits until the loop has come round, or until its one
  \<^verbatim>\<open>pthread_cond_wait\<close>, which no loop surrounds, returns without a reason. What a callback does is left to
  the callback.
\<close>

section \<open>State and operations\<close>

record 'c pollmgr =
  callbacks :: "'c option list"
  aio :: select_aio
  pending_change :: bool

definition PollMgr_new :: "int \<Rightarrow> 'c pollmgr" where
  "PollMgr_new p =
     \<lparr>callbacks = replicate (nat MAX_POLL_FDS) None, aio = SelectAIO_new p, pending_change = False\<rparr>"

text \<open>The array of callbacks, with its bounds.\<close>

definition callback_at :: "int \<Rightarrow> 'c pollmgr \<Rightarrow> 'c option res" where
  "callback_at d m =
     rbind (check (0 \<le> d \<and> nat d < length (callbacks m)) Out_of_bounds) (\<lambda>_. Inr (callbacks m ! nat d))"

definition set_callback :: "int \<Rightarrow> 'c option \<Rightarrow> 'c pollmgr \<Rightarrow> 'c pollmgr res" where
  "set_callback d c m =
     rbind (check (0 \<le> d \<and> nat d < length (callbacks m)) Out_of_bounds) (\<lambda>_.
     Inr (m\<lparr>callbacks := (callbacks m)[nat d := c]\<rparr>))"

definition add_callback :: "int \<Rightarrow> poll_flag \<Rightarrow> 'c \<Rightarrow> 'c pollmgr \<Rightarrow> 'c pollmgr res" where
  "add_callback d flag c m =
     rbind (check (d < MAX_POLL_FDS) Assert_failed) (\<lambda>_.
     rbind (select_watch_fd d flag (aio m)) (\<lambda>a.
     let m = m\<lparr>aio := a\<rparr> in
     rbind (callback_at d m) (\<lambda>old.
     rbind (check (old = None \<or> old = Some c) Assert_failed) (\<lambda>_.
     set_callback d (Some c) m))))"

text \<open>\<^verbatim>\<open>block_remove_fd\<close> before and after the wait.\<close>

definition block_remove_start :: "int \<Rightarrow> 'c pollmgr \<Rightarrow> 'c pollmgr res" where
  "block_remove_start d m =
     rbind (select_unwatch_fd d CB_RDWR (aio m)) (\<lambda>(_, a). Inr (m\<lparr>aio := a, pending_change := True\<rparr>))"

definition block_remove_end :: "int \<Rightarrow> 'c pollmgr \<Rightarrow> 'c pollmgr res" where
  "block_remove_end d m = set_callback d None m"

definition del_callback :: "int \<Rightarrow> poll_flag \<Rightarrow> 'c pollmgr \<Rightarrow> 'c pollmgr res" where
  "del_callback d flag m =
     rbind (select_unwatch_fd d flag (aio m)) (\<lambda>(gone, a).
     let m = m\<lparr>aio := a\<rparr> in if gone then set_callback d None m else Inr m)"

definition has_callback :: "int \<Rightarrow> poll_flag \<Rightarrow> 'c \<Rightarrow> 'c pollmgr \<Rightarrow> bool res" where
  "has_callback d flag c m =
     rbind (callback_at d m) (\<lambda>old.
     if old = None \<or> old \<noteq> Some c then Inr False else select_is_watched d flag (aio m))"

section \<open>The loop\<close>

text \<open>
  The polling thread: about to look at \<^verbatim>\<open>pending_change_\<close>; about to copy the sets; inside \<^verbatim>\<open>select\<close>; going
  through the ready descriptors (with the direction, \<open>True\<close> for reading); inside a callback.
\<close>

datatype 'c loop =
    L_top
  | L_wait
  | L_select "int \<Rightarrow> bool" "int \<Rightarrow> bool" int
  | L_calls "(int \<times> bool) list"
  | L_call 'c int bool "(int \<times> bool) list"

datatype select_result = Interrupted | Ready "int list" "int list"

text \<open>A step of the loop; the second component says whether it broadcasts \<^verbatim>\<open>changedone_c_\<close>.\<close>

fun loop_step :: "select_result \<Rightarrow> 'c loop \<Rightarrow> 'c pollmgr \<Rightarrow> ('c loop \<times> bool \<times> 'c pollmgr) res" where
  "loop_step r L_top m = Inr (L_wait, pending_change m, m\<lparr>pending_change := False\<rparr>)"
| "loop_step r L_wait m = Inr (L_select (rfds (aio m)) (wfds (aio m)) (highfds (aio m)), False, m)"
| "loop_step Interrupted (L_select rs ws high) m = Inr (L_top, False, m)"
| "loop_step (Ready rr wr) (L_select rs ws high) m =
     rbind (select_ready high (\<lambda>d. rs d \<and> d \<in> set rr) (\<lambda>d. ws d \<and> d \<in> set wr) (aio m)) (\<lambda>((readable, writable), a).
     Inr (if readable = [] \<and> writable = [] then L_top
          else L_calls (map (\<lambda>d. (d, True)) readable @ map (\<lambda>d. (d, False)) writable),
          False, m\<lparr>aio := a\<rparr>))"
| "loop_step r (L_calls []) m = Inr (L_top, False, m)"
| "loop_step r (L_calls ((d, b) # ds)) m =
     rbind (callback_at d m) (\<lambda>c.
     Inr (case c of None \<Rightarrow> L_calls ds | Some c \<Rightarrow> L_call c d b ds, False, m))"
| "loop_step r (L_call c d b ds) m = Inr (L_calls ds, False, m)"

section \<open>Executions\<close>

text \<open>
  Threads inside \<^verbatim>\<open>block_remove_fd\<close>: waiting, woken by the broadcast, woken spuriously, returned after the
  one or the other (the list \<open>removers\<close> keeps the threads that have returned). The ghost \<open>removed\<close> has the
  descriptors for which a call has returned and that have not been added again since.
\<close>

datatype remover = R_wait int | R_woken int | R_spurious int | R_returned int | R_premature int

record 'c pworld =
  pm :: "'c pollmgr"
  loop :: "'c loop"
  removers :: "remover list"
  removed :: "int \<Rightarrow> bool"

fun wake :: "remover \<Rightarrow> remover" where
  "wake (R_wait d) = R_woken d"
| "wake r = r"

fun removing :: "int \<Rightarrow> remover \<Rightarrow> bool" where
  "removing d (R_returned _) \<longleftrightarrow> False"
| "removing d (R_premature _) \<longleftrightarrow> False"
| "removing d (R_spurious d') \<longleftrightarrow> d = d'"
| "removing d (R_wait d') \<longleftrightarrow> d = d'"
| "removing d (R_woken d') \<longleftrightarrow> d = d'"

datatype 'c poll_event =
    Add_cb int poll_flag 'c
  | Del_cb int poll_flag
  | Remove_fd int
  | Wake_spurious nat
  | Remove_returns nat
  | Loop select_result

text \<open>
  The users of the class keep three rules: they leave its pipe alone, they name a direction, and they add
  no callback for a descriptor while it is being removed (\<^verbatim>\<open>connection\<close> sets \<^verbatim>\<open>dead_\<close> before it removes
  its descriptor, and adds callbacks only while it is not dead). \<^verbatim>\<open>select\<close> reports the pipe exactly when
  there is something in it, and returns only when something is ready.
\<close>

definition select_answers :: "select_result \<Rightarrow> 'c pworld \<Rightarrow> bool" where
  "select_answers r w \<longleftrightarrow>
     (case (r, loop w) of
        (Ready rr wr, L_select rs ws high) \<Rightarrow>
          (pipe0 (aio (pm w)) \<in> set rr \<longleftrightarrow> 0 < piped (aio (pm w))) \<and> (rr \<noteq> [] \<or> wr \<noteq> [])
      | _ \<Rightarrow> True)"

fun poll_exec :: "'c poll_event \<Rightarrow> 'c pworld \<Rightarrow> 'c pworld res" where
  "poll_exec (Add_cb d flag c) w =
     (if d \<noteq> pipe0 (aio (pm w)) \<and> flag \<noteq> CB_NONE \<and> \<not> (\<exists>r \<in> set (removers w). removing d r)
      then rbind (add_callback d flag c (pm w)) (\<lambda>m. Inr (w\<lparr>pm := m, removed := (removed w)(d := False)\<rparr>))
      else Inr w)"
| "poll_exec (Del_cb d flag) w =
     (if d \<noteq> pipe0 (aio (pm w)) \<and> flag \<noteq> CB_NONE
      then rbind (del_callback d flag (pm w)) (\<lambda>m. Inr (w\<lparr>pm := m\<rparr>))
      else Inr w)"
| "poll_exec (Remove_fd d) w =
     (if d \<noteq> pipe0 (aio (pm w))
      then rbind (block_remove_start d (pm w)) (\<lambda>m. Inr (w\<lparr>pm := m, removers := removers w @ [R_wait d]\<rparr>))
      else Inr w)"
| "poll_exec (Wake_spurious i) w =
     (if i < length (removers w) then
        case removers w ! i of
          R_wait d \<Rightarrow> Inr (w\<lparr>removers := (removers w)[i := R_spurious d]\<rparr>)
        | _ \<Rightarrow> Inr w
      else Inr w)"
| "poll_exec (Remove_returns i) w =
     (if i < length (removers w) then
        case removers w ! i of
          R_woken d \<Rightarrow>
            rbind (block_remove_end d (pm w)) (\<lambda>m.
            Inr (w\<lparr>pm := m, removers := (removers w)[i := R_returned d], removed := (removed w)(d := True)\<rparr>))
        | R_spurious d \<Rightarrow>
            rbind (block_remove_end d (pm w)) (\<lambda>m.
            Inr (w\<lparr>pm := m, removers := (removers w)[i := R_premature d], removed := (removed w)(d := True)\<rparr>))
        | _ \<Rightarrow> Inr w
      else Inr w)"
| "poll_exec (Loop r) w =
     (if select_answers r w
      then rbind (loop_step r (loop w) (pm w)) (\<lambda>(l, broadcast, m).
        Inr (w\<lparr>pm := m, loop := l, removers := (if broadcast then map wake (removers w) else removers w)\<rparr>))
      else Inr w)"

definition pworld_new :: "int \<Rightarrow> 'c pworld" where
  "pworld_new p = \<lparr>pm = PollMgr_new p, loop = L_top, removers = [], removed = \<lambda>_. False\<rparr>"

section \<open>The invariant\<close>

text \<open>The descriptors the loop may still call back for, from the sets it has copied.\<close>

fun loop_uses :: "'c loop \<Rightarrow> int \<Rightarrow> bool" where
  "loop_uses (L_select rs ws high) d \<longleftrightarrow> rs d \<or> ws d"
| "loop_uses (L_calls ds) d \<longleftrightarrow> d \<in> fst ` set ds"
| "loop_uses (L_call c d' b ds) d \<longleftrightarrow> d = d' \<or> d \<in> fst ` set ds"
| "loop_uses _ d \<longleftrightarrow> False"

fun about_to_select :: "'c loop \<Rightarrow> bool" where
  "about_to_select L_wait \<longleftrightarrow> True"
| "about_to_select (L_select rs ws high) \<longleftrightarrow> True"
| "about_to_select _ \<longleftrightarrow> False"

definition going :: "'c pworld \<Rightarrow> int \<Rightarrow> bool" where
  "going w d \<longleftrightarrow> removed w d \<or> (\<exists>r \<in> set (removers w). removing d r)"

definition gone :: "'c pworld \<Rightarrow> int \<Rightarrow> bool" where
  "gone w d \<longleftrightarrow> removed w d \<and> R_premature d \<notin> set (removers w) \<or> R_woken d \<in> set (removers w)"

definition poll_inv :: "'c pworld \<Rightarrow> bool" where
  "poll_inv w \<longleftrightarrow>
     select_ok (aio (pm w)) \<and>
     (\<forall>d. going w d \<longrightarrow> d \<noteq> pipe0 (aio (pm w)) \<and> \<not> rfds (aio (pm w)) d \<and> \<not> wfds (aio (pm w)) d) \<and>
     (\<forall>d. gone w d \<longrightarrow> \<not> loop_uses (loop w) d) \<and>
     ((\<exists>d. R_wait d \<in> set (removers w)) \<longrightarrow> pending_change (pm w)) \<and>
     (pending_change (pm w) \<longrightarrow> about_to_select (loop w) \<longrightarrow> 0 < piped (aio (pm w)))"

lemma poll_invD:
  assumes "poll_inv w"
  shows "select_ok (aio (pm w))"
    and "going w d \<Longrightarrow> d \<noteq> pipe0 (aio (pm w))" "going w d \<Longrightarrow> \<not> rfds (aio (pm w)) d"
      "going w d \<Longrightarrow> \<not> wfds (aio (pm w)) d"
    and "gone w d \<Longrightarrow> \<not> loop_uses (loop w) d"
    and "R_wait d \<in> set (removers w) \<Longrightarrow> pending_change (pm w)"
    and "pending_change (pm w) \<Longrightarrow> about_to_select (loop w) \<Longrightarrow> 0 < piped (aio (pm w))"
  using assms by (auto simp: poll_inv_def)

lemma gone_going: "gone w d \<Longrightarrow> going w d"
  by (auto simp: gone_def going_def intro: bexI [of _ "R_woken d"])

lemma new_poll_inv: "fd_ok p \<Longrightarrow> poll_inv (pworld_new p)"
  by (simp add: poll_inv_def pworld_new_def PollMgr_new_def select_ok_new going_def gone_def)

lemma set_callback_keeps:
  "set_callback d c m = Inr m' \<Longrightarrow> aio m' = aio m \<and> pending_change m' = pending_change m"
  by (auto simp: set_callback_def rbind_eq_Inr)

text \<open>What the operations on the sets do, when they do not fail.\<close>

lemma watched:
  assumes "select_ok s" and "select_watch_fd d f s = Inr s'" and "f \<noteq> CB_NONE"
  shows "select_ok s' \<and> pipe0 s' = pipe0 s \<and> piped s' = piped s + 1 \<and>
    (\<forall>g. g \<noteq> d \<longrightarrow> rfds s' g = rfds s g \<and> wfds s' g = wfds s g)"
proof -
  have "fd_ok d" using assms(2) by (auto simp: select_watch_fd_def Let_def rbind_eq_Inr)
  from select_watch_ok [OF assms(1) this assms(3)] assms(2) show ?thesis by auto
qed

lemma unwatched:
  assumes "select_ok s" and "select_unwatch_fd d f s = Inr (b, s')" and "f \<noteq> CB_NONE" and "d \<noteq> pipe0 s"
  shows "select_ok s' \<and> pipe0 s' = pipe0 s \<and> piped s \<le> piped s' \<and>
    (f = CB_RDWR \<longrightarrow> \<not> rfds s' d \<and> \<not> wfds s' d \<and> 0 < piped s') \<and>
    (\<forall>g. \<not> rfds s g \<longrightarrow> \<not> rfds s' g) \<and> (\<forall>g. \<not> wfds s g \<longrightarrow> \<not> wfds s' g)"
proof -
  have "fd_ok d" using assms(2) by (auto simp: select_unwatch_fd_def Let_def rbind_eq_Inr)
  from select_unwatch_ok [OF assms(1) this assms(4,3)] assms(2) show ?thesis by auto
qed

lemma select_ready_keeps:
  assumes "select_ready high tr tw s = Inr ((rd, wr), s')"
  shows "select_ok s' = select_ok s \<and> pipe0 s' = pipe0 s \<and> rfds s' = rfds s \<and> wfds s' = wfds s \<and>
    (\<forall>d \<in> set rd. tr d) \<and> (\<forall>d \<in> set wr. tw d)"
  using assms by (auto simp: select_ready_def rbind_eq_Inr Let_def select_ok_def split: if_splits)

text \<open>A change of the table and the sets by which no descriptor that is going becomes watched again.\<close>

lemma sets_inv:
  assumes inv: "poll_inv w" and l: "loop w' = loop w"
    and a: "select_ok (aio (pm w'))" "pipe0 (aio (pm w')) = pipe0 (aio (pm w))"
      "piped (aio (pm w)) \<le> piped (aio (pm w'))"
    and g: "\<And>d. going w' d \<Longrightarrow> d \<noteq> pipe0 (aio (pm w)) \<and> \<not> rfds (aio (pm w')) d \<and> \<not> wfds (aio (pm w')) d"
      "\<And>d. gone w' d \<Longrightarrow> gone w d"
    and p: "pending_change (pm w') = pending_change (pm w) \<or> 0 < piped (aio (pm w'))"
      "\<And>d. R_wait d \<in> set (removers w') \<Longrightarrow> pending_change (pm w')"
  shows "poll_inv w'"
  using poll_invD [OF inv] assms(2-) unfolding poll_inv_def by fastforce

lemma add_inv:
  assumes inv: "poll_inv w" and ex: "poll_exec (Add_cb d f c) w = Inr w'"
  shows "poll_inv w'"
proof (cases "d \<noteq> pipe0 (aio (pm w)) \<and> f \<noteq> CB_NONE \<and> \<not> (\<exists>r \<in> set (removers w). removing d r)")
  case True
  note I = poll_invD [OF inv]
  obtain a m where a: "select_watch_fd d f (aio (pm w)) = Inr a" and m: "aio m = a"
      "pending_change m = pending_change (pm w)"
    and w': "w' = w\<lparr>pm := m, removed := (removed w)(d := False)\<rparr>"
    using ex True by (auto simp: add_callback_def rbind_eq_Inr Let_def dest!: set_callback_keeps)
  have g: "going w' e \<Longrightarrow> going w e \<and> e \<noteq> d" "gone w' e \<Longrightarrow> gone w e" for e
    using True by (auto simp: w' going_def gone_def split: if_splits)
  note W = watched [OF I(1) a]
  show ?thesis
    using True W I(2-4) g I(6) by (intro sets_inv [OF inv]) (auto simp: w' m)
qed (insert inv ex, simp split: if_splits)

lemma del_inv:
  assumes inv: "poll_inv w" and ex: "poll_exec (Del_cb d f) w = Inr w'"
  shows "poll_inv w'"
proof (cases "d \<noteq> pipe0 (aio (pm w)) \<and> f \<noteq> CB_NONE")
  case True
  note I = poll_invD [OF inv]
  obtain b a where a: "select_unwatch_fd d f (aio (pm w)) = Inr (b, a)"
    and m: "(if b then set_callback d None ((pm w)\<lparr>aio := a\<rparr>) else Inr ((pm w)\<lparr>aio := a\<rparr>)) = Inr (pm w')"
    and w': "w' = w\<lparr>pm := pm w'\<rparr>"
    using ex True by (auto simp: del_callback_def rbind_eq_Inr Let_def)
  have m': "aio (pm w') = a" "pending_change (pm w') = pending_change (pm w)"
    using m by (cases b; auto dest: set_callback_keeps dest!: sym [of _ "pm w'"])+
  have e: "loop w' = loop w" "removers w' = removers w" "removed w' = removed w"
    by (subst w', simp)+
  have g: "going w' = going w" "gone w' = gone w" by (simp_all add: fun_eq_iff going_def gone_def e)
  note W = unwatched [OF I(1) a]
  show ?thesis
    using True W I(2-4,6) by (intro sets_inv [OF inv]) (simp_all add: m' e g)
qed (insert inv ex, simp split: if_splits)

lemma remove_inv:
  assumes inv: "poll_inv w" and ex: "poll_exec (Remove_fd d) w = Inr w'"
  shows "poll_inv w'"
proof (cases "d \<noteq> pipe0 (aio (pm w))")
  case True
  note I = poll_invD [OF inv]
  obtain b a where a: "select_unwatch_fd d CB_RDWR (aio (pm w)) = Inr (b, a)"
    and w': "w' = w\<lparr>pm := (pm w)\<lparr>aio := a, pending_change := True\<rparr>, removers := removers w @ [R_wait d]\<rparr>"
    using ex True by (auto simp: block_remove_start_def rbind_eq_Inr)
  have g: "going w' e \<Longrightarrow> going w e \<or> e = d" "gone w' e \<Longrightarrow> gone w e" for e
    by (auto simp: w' going_def gone_def)
  note W = unwatched [OF I(1) a]
  have "e \<noteq> pipe0 (aio (pm w)) \<and> \<not> rfds a e \<and> \<not> wfds a e" if "going w' e" for e
    using g(1) [OF that] W I(2-4) [of e] True by auto
  with W True g(2) show ?thesis
    by (intro sets_inv [OF inv]) (auto simp: w')
qed (insert inv ex, simp split: if_splits)

text \<open>A step that changes one entry of \<open>removers\<close> (and at most the table of callbacks).\<close>

lemma remover_inv:
  assumes inv: "poll_inv w" and d: "i < length (removers w)" "removing d (removers w ! i)"
    and m: "aio m = aio (pm w)" "pending_change m = pending_change (pm w)"
    and q: "\<And>e. removing e q \<Longrightarrow> e = d" "\<And>e. q \<noteq> R_wait e" "\<And>e. q \<noteq> R_woken e" "\<And>e. R_premature e \<noteq> removers w ! i"
    and rm: "\<And>e. rm e \<Longrightarrow> removed w e \<or> e = d" "rm d \<Longrightarrow> q = R_premature d \<or> removed w d \<or> R_woken d \<in> set (removers w)"
  shows "poll_inv (w\<lparr>pm := m, removers := (removers w)[i := q], removed := rm\<rparr>)" (is "poll_inv ?w")
proof -
  note I = poll_invD [OF inv]
  have sub: "r \<in> set (removers w)" if "r \<in> set (removers ?w)" "r \<noteq> q" for r
    using that set_update_subset_insert [of "removers w" i q] by auto
  have q': "q \<in> set (removers ?w)" using d(1) by (simp add: set_update_memI)
  have keep: "R_premature e \<in> set (removers ?w)" if "R_premature e \<in> set (removers w)" for e
  proof -
    obtain j where j: "j < length (removers w)" "removers w ! j = R_premature e"
      using \<open>R_premature e \<in> set (removers w)\<close> by (auto simp: in_set_conv_nth)
    then have "j \<noteq> i" using q(4) by metis
    with j show ?thesis by (auto simp: in_set_conv_nth intro!: exI [of _ j])
  qed
  have gd: "going w d" using d nth_mem [OF d(1)] by (auto simp: going_def)
  have "going w e" if "going ?w e" for e
    using that gd q(1) [of e] rm(1) [of e] sub unfolding going_def by fastforce
  moreover have "gone w e" if "gone ?w e" for e
    using that keep [of e] rm(1) [of e] rm(2) q(3) [of e] q' sub [of "R_woken e"] by (auto simp: gone_def)
  moreover have "pending_change m" if "R_wait e \<in> set (removers ?w)" for e
    using sub [of "R_wait e"] that q(2) [of e] I(6) [of e] m(2) by auto
  ultimately show ?thesis
    using I(1-4) by (intro sets_inv [OF inv]) (auto simp: m)
qed

lemma wake_spurious_inv:
  assumes inv: "poll_inv w" and ex: "poll_exec (Wake_spurious i) w = Inr w'"
  shows "poll_inv w'"
proof (cases "\<exists>d. i < length (removers w) \<and> removers w ! i = R_wait d")
  case True
  then obtain d where d: "i < length (removers w)" "removers w ! i = R_wait d" by blast
  have "poll_inv (w\<lparr>pm := pm w, removers := (removers w)[i := R_spurious d], removed := removed w\<rparr>)"
    by (rule remover_inv [OF inv d(1), of d]) (auto simp: d(2))
  moreover have "w' = w\<lparr>pm := pm w, removers := (removers w)[i := R_spurious d], removed := removed w\<rparr>"
    using ex d by (cases w) auto
  ultimately show ?thesis by simp
qed (insert inv ex, auto split: if_splits remover.splits)

lemma returns_inv:
  assumes inv: "poll_inv w" and ex: "poll_exec (Remove_returns i) w = Inr w'"
  shows "poll_inv w'"
proof (cases "\<exists>d. i < length (removers w) \<and> removers w ! i \<in> {R_woken d, R_spurious d}")
  case True
  then obtain d where d: "i < length (removers w)" "removers w ! i \<in> {R_woken d, R_spurious d}" by blast
  define q where "q = (if removers w ! i = R_woken d then R_returned d else R_premature d)"
  obtain m where m: "aio m = aio (pm w)" "pending_change m = pending_change (pm w)"
    and w': "w' = w\<lparr>pm := m, removers := (removers w)[i := q], removed := (removed w)(d := True)\<rparr>"
    using ex d by (auto simp: block_remove_end_def q_def rbind_eq_Inr dest!: set_callback_keeps)
  have "q = R_premature d \<or> R_woken d \<in> set (removers w)" using nth_mem [OF d(1)] by (auto simp: q_def)
  then show ?thesis
    unfolding w' using d(2) by (intro remover_inv [OF inv d(1) _ m, of d]) (auto simp: q_def split: if_splits)
qed (insert inv ex, auto split: if_splits remover.splits)

lemma wake_removing [simp]: "removing d (wake r) \<longleftrightarrow> removing d r"
  by (cases r) auto

lemma wake_not_wait [simp]: "wake r \<noteq> R_wait d" "R_wait d \<noteq> wake r"
  by (cases r; simp)+

text \<open>A step of the loop that leads away from \<^verbatim>\<open>select\<close> and collects nothing new.\<close>

lemma calls_inv:
  assumes inv: "poll_inv w" and m: "select_ok (aio m)" "pipe0 (aio m) = pipe0 (aio (pm w))"
      "rfds (aio m) = rfds (aio (pm w))" "wfds (aio m) = wfds (aio (pm w))"
      "pending_change m = pending_change (pm w)"
    and l: "\<And>d. loop_uses l d \<Longrightarrow> loop_uses (loop w) d" "\<not> about_to_select l"
  shows "poll_inv (w\<lparr>pm := m, loop := l\<rparr>)"
proof -
  have "going (w\<lparr>pm := m, loop := l\<rparr>) = going w" "gone (w\<lparr>pm := m, loop := l\<rparr>) = gone w"
    by (simp_all add: fun_eq_iff going_def gone_def)
  with poll_invD [OF inv] m l show ?thesis unfolding poll_inv_def by simp blast
qed

lemma loop_inv:
  assumes inv: "poll_inv w" and ex: "poll_exec (Loop r) w = Inr w'"
  shows "poll_inv w'"
proof (cases "select_answers r w")
  case True
  note I = poll_invD [OF inv]
  obtain l b m where st: "loop_step r (loop w) (pm w) = Inr (l, b, m)"
    and w': "w' = w\<lparr>pm := m, loop := l, removers := (if b then map wake (removers w) else removers w)\<rparr>"
    using ex True by (auto simp: rbind_eq_Inr)
  show ?thesis
  proof (cases "loop w")
    case L_top
    then have s: "l = L_wait" "b = pending_change (pm w)" "m = (pm w)\<lparr>pending_change := False\<rparr>"
      using st by simp_all
    have "going w' = going w" by (simp add: fun_eq_iff going_def w')
    moreover have "R_wait d \<notin> set (removers w')" for d
      using I(6) [of d] by (auto simp: w' s)
    ultimately show ?thesis using I by (auto simp: poll_inv_def w' s)
  next
    case L_wait
    then have s: "l = L_select (rfds (aio (pm w))) (wfds (aio (pm w))) (highfds (aio (pm w)))" "\<not> b" "m = pm w"
      using st by auto
    have "going w' = going w" "gone w' = gone w" by (simp_all add: fun_eq_iff going_def gone_def w' s)
    with I gone_going L_wait show ?thesis unfolding poll_inv_def by (simp add: w' s) blast
  next
    case (L_select rs ws high)
    show ?thesis
    proof (cases r)
      case Interrupted
      then have s: "l = L_top" "\<not> b" "m = pm w" using st L_select by auto
      from calls_inv [OF inv I(1) refl refl refl refl, of L_top] show ?thesis by (simp add: w' s)
    next
      case (Ready rr wr)
      obtain rd wd a where a: "select_ready high (\<lambda>d. rs d \<and> d \<in> set rr) (\<lambda>d. ws d \<and> d \<in> set wr) (aio (pm w))
          = Inr ((rd, wd), a)"
        and l: "l = (if rd = [] \<and> wd = [] then L_top
          else L_calls (map (\<lambda>d. (d, True)) rd @ map (\<lambda>d. (d, False)) wd))" and m: "\<not> b" "m = (pm w)\<lparr>aio := a\<rparr>"
        using st L_select Ready by (auto simp: rbind_eq_Inr)
      note K = select_ready_keeps [OF a]
      have u: "loop_uses l d \<Longrightarrow> loop_uses (loop w) d" "\<not> about_to_select l" for d
        using K by (auto simp: l L_select split: if_splits)
      have "w' = w\<lparr>pm := m, loop := l\<rparr>" using m(1) by (simp add: w')
      moreover have "poll_inv (w\<lparr>pm := m, loop := l\<rparr>)"
        using I(1) K m(2) u by (intro calls_inv [OF inv]) simp_all
      ultimately show ?thesis by simp
    qed
  next
    case (L_calls ds)
    have u: "loop_uses l d \<Longrightarrow> loop_uses (loop w) d" "\<not> about_to_select l" "\<not> b" "m = pm w" for d
      using st L_calls by (cases ds; auto simp: rbind_eq_Inr split: option.splits)+
    from calls_inv [OF inv I(1) refl refl refl refl u(1,2)] show ?thesis by (simp add: w' u(3,4))
  next
    case (L_call c d b' ds)
    have u: "loop_uses l e \<Longrightarrow> loop_uses (loop w) e" "\<not> about_to_select l" "\<not> b" "m = pm w" for e
      using st L_call by auto
    from calls_inv [OF inv I(1) refl refl refl refl u(1,2)] show ?thesis by (simp add: w' u(3,4))
  qed
qed (insert inv ex, simp)

lemma poll_exec_inv: "poll_inv w \<Longrightarrow> poll_exec e w = Inr w' \<Longrightarrow> poll_inv w'"
  by (cases e) (blast intro: add_inv del_inv remove_inv wake_spurious_inv returns_inv loop_inv)+

lemma poll_run_inv:
  assumes "fd_ok p" and "run_events poll_exec es (pworld_new p) = Inr w"
  shows "poll_inv w"
  using assms(2) new_poll_inv [OF assms(1)] by (rule run_events_invariant) (rule poll_exec_inv)

text \<open>An example: a callback is running for descriptor 5 while another thread removes the descriptor.\<close>

definition remove_run :: "nat poll_event list" where
  "remove_run =
     [Add_cb 5 CB_RDONLY 9, Loop Interrupted, Loop Interrupted, Remove_fd 5, Loop (Ready [3, 5] []),
      Loop Interrupted, Loop Interrupted, Loop Interrupted, Loop Interrupted, Remove_returns 0]"

lemma remove_run_result:
  "case run_events poll_exec (take 4 remove_run) (pworld_new 3) of
     Inl _ \<Rightarrow> False
   | Inr w \<Rightarrow> about_to_select (loop w) \<and> R_wait 5 \<in> set (removers w)"
  "case run_events poll_exec (take 6 remove_run) (pworld_new 3) of
     Inl _ \<Rightarrow> False
   | Inr w \<Rightarrow> loop_uses (loop w) 5"
  "case run_events poll_exec remove_run (pworld_new 3) of
     Inl _ \<Rightarrow> False
   | Inr w \<Rightarrow> removed w 5 \<and> R_premature 5 \<notin> set (removers w)"
  by code_simp+

section \<open>Properties\<close>

text \<open>
  C17. The guarantee of \<^verbatim>\<open>block_remove_fd\<close>, as far as it goes. When a call has returned for a descriptor, and
  until a callback is added for it again, the polling thread is not inside a callback for the descriptor
  and will not call one from the descriptors it has already collected, provided that no call for this
  descriptor has returned from a spurious wake-up of its \<^verbatim>\<open>pthread_cond_wait\<close>; spurious wake-ups of threads
  that remove other descriptors do no harm.
\<close>

theorem block_remove_fd_guarantee:
  assumes "fd_ok p" and "run_events poll_exec es (pworld_new p) = Inr w" and "removed w d"
    and "R_premature d \<notin> set (removers w)"
  shows "\<not> loop_uses (loop w) d"
  using poll_invD(5) [OF poll_run_inv [OF assms(1,2)]] assms(3,4) by (simp add: gone_def)

theorem block_remove_fd_guarantee_witness:
  "\<exists>w v. run_events poll_exec (take 6 remove_run) (pworld_new 3) = Inr w \<and> loop_uses (loop w) 5 \<and>
    run_events poll_exec remove_run (pworld_new 3) = Inr v \<and> removed v 5 \<and> \<not> loop_uses (loop v) 5"
proof -
  obtain v where v: "run_events poll_exec remove_run (pworld_new 3) = Inr v" "removed v 5"
      "R_premature 5 \<notin> set (removers v)"
    using remove_run_result(3) by (auto split: sum.splits)
  obtain w where "run_events poll_exec (take 6 remove_run) (pworld_new 3) = Inr w" "loop_uses (loop w) 5"
    using remove_run_result(2) by (auto split: sum.splits)
  with v block_remove_fd_guarantee [OF _ v] show ?thesis by (simp add: fd_ok_def FD_SETSIZE_def)
qed

text \<open>
  Without the proviso the comment above \<^verbatim>\<open>block_remove_fd\<close> is wrong: a spurious wake-up lets it return while
  the callback of the descriptor runs.
\<close>

theorem spurious_return_during_callback:
  "case run_events poll_exec (take 6 remove_run @ [Wake_spurious 0, Remove_returns 0]) (pworld_new 3) of
     Inl _ \<Rightarrow> False
   | Inr w \<Rightarrow> removed w 5 \<and> loop_uses (loop w) 5"
  by code_simp

text \<open>
  C33. A thread inside \<^verbatim>\<open>block_remove_fd\<close> is not left behind: as long as it waits the change is pending, so
  that the loop broadcasts when it comes round, and while the loop is about to wait or waits in \<^verbatim>\<open>select\<close>
  there is a byte in the pipe, which makes \<^verbatim>\<open>select\<close> return.
\<close>

theorem block_remove_fd_wakes_loop:
  assumes "fd_ok p" and "run_events poll_exec es (pworld_new p) = Inr w" and "R_wait d \<in> set (removers w)"
  shows "pending_change (pm w) \<and> (about_to_select (loop w) \<longrightarrow> 0 < piped (aio (pm w)))"
  using poll_invD(6,7) [OF poll_run_inv [OF assms(1,2)]] assms(3) by blast

theorem block_remove_fd_wakes_loop_witness:
  "\<exists>w. run_events poll_exec (take 4 remove_run) (pworld_new 3) = Inr w \<and> about_to_select (loop w) \<and>
    pending_change (pm w) \<and> 0 < piped (aio (pm w))"
proof -
  obtain w where w: "run_events poll_exec (take 4 remove_run) (pworld_new 3) = Inr w"
      "R_wait 5 \<in> set (removers w)" "about_to_select (loop w)"
    using remove_run_result(1) by (auto split: sum.splits)
  with block_remove_fd_wakes_loop [OF _ w(1,2)] show ?thesis by (simp add: fd_ok_def FD_SETSIZE_def)
qed

end
