(* ===== verification/Sockaddr.thy ===== *)
theory Sockaddr
  imports Prelude "HOL-Library.Char_ord"
begin

unbundle bit_operations_syntax

text \<open>
  Addresses: \<^verbatim>\<open>make_sockaddr\<close> and the order of addresses in \<^verbatim>\<open>src/rpc/rpc.cc\<close>. The resolver of the system is
  an argument: \<open>inet_addr\<close> gives the address a string denotes or \<^verbatim>\<open>INADDR_NONE\<close>, \<open>resolve\<close> the address of a
  name as \<^verbatim>\<open>gethostbyname\<close> finds it.
\<close>

section \<open>Addresses\<close>

text \<open>Both fields hold their bytes in network order.\<close>

datatype sockaddr_in = Sockaddr_in (sin_addr: u32) (sin_port: u16)

definition sockaddr_less :: "sockaddr_in \<Rightarrow> sockaddr_in \<Rightarrow> bool" where
  "sockaddr_less a b \<longleftrightarrow>
     sin_addr a < sin_addr b \<or> sin_addr a = sin_addr b \<and> sin_port a < sin_port b"

text \<open>The order of the source is a linear order.\<close>

instantiation sockaddr_in :: linorder
begin

definition less_sockaddr_in :: "sockaddr_in \<Rightarrow> sockaddr_in \<Rightarrow> bool" where
  "less_sockaddr_in = sockaddr_less"

definition less_eq_sockaddr_in :: "sockaddr_in \<Rightarrow> sockaddr_in \<Rightarrow> bool" where
  "less_eq_sockaddr_in a b \<longleftrightarrow> a < b \<or> a = (b :: sockaddr_in)"

instance
  by standard (auto simp: less_sockaddr_in_def sockaddr_less_def less_eq_sockaddr_in_def intro: sockaddr_in.expand)

end

section \<open>Standard library\<close>

definition INADDR_NONE :: u32 where
  "INADDR_NONE = 0xFFFFFFFF"

definition htons :: "u16 \<Rightarrow> u16" where
  "htons x = push_bit 8 x OR drop_bit 8 x"

definition digit_char :: "char \<Rightarrow> bool" where
  "digit_char c \<longleftrightarrow> CHR ''0'' \<le> c \<and> c \<le> CHR ''9''"

definition space_char :: "char \<Rightarrow> bool" where
  "space_char c \<longleftrightarrow> c \<in> set [CHR '' '', CHR 0x09, CHR 0x0A, CHR 0x0B, CHR 0x0C, CHR 0x0D]"

definition char_value :: "char \<Rightarrow> int" where
  "char_value c = int (of_char c) - 48"

text \<open>\<^verbatim>\<open>atoi\<close>: white space, a sign, digits; the rest is ignored. The value must be an \<^verbatim>\<open>int\<close>.\<close>

definition digits_value :: "string \<Rightarrow> int" where
  "digits_value s = foldl (\<lambda>v c. 10 * v + char_value c) 0 (takeWhile digit_char s)"

definition atoi :: "string \<Rightarrow> int res" where
  "atoi s =
     (let s = dropWhile space_char s;
          v = (case s of
                 [] \<Rightarrow> 0
               | c # r \<Rightarrow>
                   if c = CHR ''-'' then - digits_value r
                   else if c = CHR ''+'' then digits_value r
                   else digits_value s)
      in rbind (check (in_int v) Int_overflow) (\<lambda>_. Inr v))"

section \<open>make\_sockaddr\<close>

text \<open>The second form: \<open>None\<close> is \<^verbatim>\<open>exit(1)\<close>.\<close>

definition make_sockaddr ::
  "(string \<Rightarrow> u32) \<Rightarrow> (string \<Rightarrow> u32 option) \<Rightarrow> string \<Rightarrow> string \<Rightarrow> sockaddr_in option res" where
  "make_sockaddr inet_addr resolve host port =
     (let a = inet_addr host in
      case (if a \<noteq> INADDR_NONE then Some a else resolve host) of
        None \<Rightarrow> Inr None
      | Some a \<Rightarrow> rbind (atoi port) (\<lambda>p. Inr (Some (Sockaddr_in a (htons (word_of_int p))))))"

text \<open>The first form: the host is copied into a buffer of 200 bytes and ended with a null byte.\<close>

definition host_size :: nat where
  "host_size = 200"

definition make_sockaddr_from ::
  "(string \<Rightarrow> u32) \<Rightarrow> (string \<Rightarrow> u32 option) \<Rightarrow> string \<Rightarrow> sockaddr_in option res" where
  "make_sockaddr_from inet_addr resolve hostandport =
     (if CHR '':'' \<notin> set hostandport then make_sockaddr inet_addr resolve ''127.0.0.1'' hostandport
      else
        let host = takeWhile (\<lambda>c. c \<noteq> CHR '':'') hostandport;
            port = drop (length host + 1) hostandport
        in
          rbind (check (length host < host_size) Out_of_bounds) (\<lambda>_.
          make_sockaddr inet_addr resolve host port))"

section \<open>Printing numbers\<close>

fun decimal_string :: "nat \<Rightarrow> string" where
  "decimal_string n =
     (if n < 10 then [char_of (48 + n)] else decimal_string (n div 10) @ [char_of (48 + n mod 10)])"

declare decimal_string.simps [simp del]

lemma digit_char_of: "d < 10 \<Longrightarrow> digit_char (char_of (48 + d))" "d < 10 \<Longrightarrow> char_value (char_of (48 + d)) = int d"
  by (simp_all add: digit_char_def less_eq_char_def char_value_def)

lemma decimal_digits_only: "\<forall>c \<in> set (decimal_string n). digit_char c"
proof (induction n rule: decimal_string.induct)
  case (1 n)
  then show ?case by (subst decimal_string.simps) (auto simp: digit_char_of)
qed

lemma decimal_value: "digits_value (decimal_string n) = int n"
proof (induction n rule: decimal_string.induct)
  case (1 n)
  have t: "takeWhile digit_char (decimal_string k) = decimal_string k" for k
    using decimal_digits_only by (simp add: takeWhile_eq_all_conv)
  show ?case
  proof (cases "n < 10")
    case True
    then show ?thesis by (simp add: decimal_string.simps digits_value_def digit_char_of)
  next
    case False
    then have "digits_value (decimal_string n) = 10 * digits_value (decimal_string (n div 10)) + int (n mod 10)"
      by (subst decimal_string.simps)
        (simp add: digits_value_def t takeWhile_append2 decimal_digits_only digit_char_of)
    moreover have "int n = 10 * int (n div 10) + int (n mod 10)"
      by (simp add: zdiv_int zmod_int)
    ultimately show ?thesis using 1 False by simp
  qed
qed

lemma decimal_nonempty_string: "\<exists>c r. decimal_string n = c # r \<and> digit_char c"
  using decimal_digits_only [of n]
  by (cases "decimal_string n") (auto simp: decimal_string.simps [of n] split: if_splits)

lemma atoi_decimal: "int n \<le> int_max \<Longrightarrow> atoi (decimal_string n) = Inr (int n)"
proof -
  assume n: "int n \<le> int_max"
  obtain c r where c: "decimal_string n = c # r" "digit_char c" using decimal_nonempty_string by blast
  then have "\<not> space_char c" "c \<noteq> CHR ''-''" "c \<noteq> CHR ''+''"
    by (auto simp: digit_char_def space_char_def less_eq_char_def)
  with c n decimal_value [of n] show ?thesis by (simp add: atoi_def Let_def in_int_def)
qed

lemma htons_htons: "htons (htons x) = x"
  by (rule bit_word_eqI) (auto simp: htons_def bit_simps)

section \<open>Properties\<close>

text \<open>
  C29. \<^verbatim>\<open>make_sockaddr\<close> reads back what was printed. For a port below 65536, printed in decimal, after a host
  of less than 200 characters without a colon and a colon, the address is that of the host and the
  port, in host order again, is the one printed; without host and colon the address is that of
  127.0.0.1. A longer host is written past the end of the buffer.
\<close>

theorem make_sockaddr_reads_back:
  assumes "inet_addr host \<noteq> INADDR_NONE" and "CHR '':'' \<notin> set host" and "p < 2 ^ 16"
  shows "make_sockaddr_from inet_addr resolve (host @ CHR '':'' # decimal_string p) =
      (if length host < 200 then Inr (Some (Sockaddr_in (inet_addr host) (htons (word_of_nat p)))) else Inl Out_of_bounds) \<and>
    (inet_addr ''127.0.0.1'' \<noteq> INADDR_NONE \<longrightarrow>
      make_sockaddr_from inet_addr resolve (decimal_string p) =
        Inr (Some (Sockaddr_in (inet_addr ''127.0.0.1'') (htons (word_of_nat p))))) \<and>
    unat (htons (htons (word_of_nat p))) = p"
proof -
  have a: "atoi (decimal_string p) = Inr (int p)" using assms(3) by (intro atoi_decimal) (simp add: int_max_def)
  have "takeWhile (\<lambda>c. c \<noteq> CHR '':'') (host @ CHR '':'' # r) = host" for r
    using assms(2) by (subst takeWhile_append2) auto
  moreover have "CHR '':'' \<notin> set (decimal_string p)"
    using decimal_digits_only [of p] by (auto simp: digit_char_def less_eq_char_def)
  ultimately show ?thesis
    using a assms by (auto simp: make_sockaddr_from_def make_sockaddr_def host_size_def htons_htons unat_of_nat Let_def)
qed

theorem make_sockaddr_reads_back_witness:
  "make_sockaddr_from (\<lambda>h. if h = ''10.0.0.1'' then 0x0100000A else INADDR_NONE) (\<lambda>_. None) ''10.0.0.1:3772'' =
     Inr (Some (Sockaddr_in 0x0100000A 0xBC0E))"
proof -
  have "decimal_string 3772 = ''3772''" by code_simp
  with make_sockaddr_reads_back [of "\<lambda>h. if h = ''10.0.0.1'' then 0x0100000A else INADDR_NONE" "''10.0.0.1''" 3772 "\<lambda>_. None"]
  show ?thesis by (simp add: INADDR_NONE_def htons_def)
qed

end
