(* ===== verification/Reading.thy ===== *)
theory Reading
  imports Codec
begin

text \<open>
  Reading a message whose bytes come from anywhere: the operators of \<^verbatim>\<open>unmarshall\<close> applied one after the
  other, whatever was written. The state stays well formed and the values have the types asked for; the
  only fault is the unsigned wrap-around in the length of a string.
\<close>

datatype item_type = TU8 | TChar | TU16 | TShort | TU32 | TInt | TU64 | TString

datatype item = V_u8 u8 | V_char u8 | V_u16 u16 | V_short u16 | V_u32 u32 | V_int i32 | V_u64 u64 | V_string "u8 list"

fun type_of :: "item \<Rightarrow> item_type" where
  "type_of (V_u8 _) = TU8"
| "type_of (V_char _) = TChar"
| "type_of (V_u16 _) = TU16"
| "type_of (V_short _) = TShort"
| "type_of (V_u32 _) = TU32"
| "type_of (V_int _) = TInt"
| "type_of (V_u64 _) = TU64"
| "type_of (V_string _) = TString"

abbreviation as_item :: "('a \<Rightarrow> item) \<Rightarrow> ('a \<times> unmarshall) res \<Rightarrow> (item \<times> unmarshall) res" where
  "as_item f r \<equiv> rbind r (\<lambda>(x, u). Inr (f x, u))"

fun read_item :: "item_type \<Rightarrow> unmarshall \<Rightarrow> (item \<times> unmarshall) res" where
  "read_item TU8 u = as_item V_u8 (get_u8 0 u)"
| "read_item TChar u = as_item V_char (get_char 0 u)"
| "read_item TU16 u = as_item V_u16 (get_u16 0 u)"
| "read_item TShort u = as_item V_short (get_short 0 u)"
| "read_item TU32 u = as_item V_u32 (get_u32 0 u)"
| "read_item TInt u = as_item V_int (get_int 0 u)"
| "read_item TU64 u = as_item V_u64 (get_u64 0 u)"
| "read_item TString u = as_item V_string (get_string [] u)"

fun read_items :: "item_type list \<Rightarrow> unmarshall \<Rightarrow> (item list \<times> unmarshall) res" where
  "read_items [] u = Inr ([], u)"
| "read_items (t # ts) u =
     rbind (read_item t u) (\<lambda>(x, u).
     rbind (read_items ts u) (\<lambda>(xs, u). Inr (x # xs, u)))"

text \<open>What every read keeps: the buffer and its bounds. The flag is never set again.\<close>

definition later :: "unmarshall \<Rightarrow> unmarshall \<Rightarrow> bool" where
  "later u v \<longleftrightarrow> wfu v \<and> u_buf v = u_buf u \<and> u_sz v = u_sz u \<and> u_ind u \<le> u_ind v \<and> (u_ok v \<longrightarrow> u_ok u)"

lemma later_trans: "later u v \<Longrightarrow> later v w \<Longrightarrow> later u w"
  by (auto simp: later_def)

lemma later_wfu: "later u v \<Longrightarrow> wfu v"
  by (simp add: later_def)

lemma later_failed: "wfu u \<Longrightarrow> later u (failed u)"
  using failed_simps(2) [of u] unfolding later_def by (simp add: failed_def)

lemma rawbyte_later: "wfu u \<Longrightarrow> \<exists>r v. unmarshall_rawbyte u = Inr (r, v) \<and> later u v"
  using rawbyte_more [of u] rawbyte_end [of u]
  by (cases "unread u = []") (auto simp: later_failed, simp add: later_def adv_def)

lemma rawbytes_later:
  assumes "wfu u"
  shows "(\<exists>x v. unmarshall_rawbytes s n u = Inr (x, v) \<and> later u v) \<or> unmarshall_rawbytes s n u = Inl Out_of_bounds"
proof (cases "uint n \<le> int (length (unread u))")
  case True
  then obtain v where v: "unmarshall_rawbytes s n u = Inr (take (unat n) (unread u), v)" "wfu v"
      "unread v = drop (unat n) (unread u)" "u_ok v = u_ok u"
    using rawbytes_in [OF assms] by blast
  have "u_buf v = u_buf u" "u_sz v = u_sz u"
    using v(1) by (auto simp: unmarshall_rawbytes_def Let_def split: if_splits option.splits)
  moreover from this have "u_ind u \<le> u_ind v"
    using unread_length [OF assms] unread_length [OF v(2)] v(3) by simp
  ultimately show ?thesis using v by (auto simp: later_def)
next
  case False
  with rawbytes_out [OF assms, of n s] later_failed [OF assms] show ?thesis by auto
qed

text \<open>A reader that cannot fault.\<close>

definition total_reader :: "(unmarshall \<Rightarrow> ('a \<times> unmarshall) res) \<Rightarrow> bool" where
  "total_reader g \<longleftrightarrow> (\<forall>u. wfu u \<longrightarrow> (\<exists>x v. g u = Inr (x, v) \<and> later u v))"

lemma total_return [total_readers]: "total_reader (\<lambda>u. Inr (x, u))"
  by (auto simp: total_reader_def later_def)

lemma total_rawbyte [total_readers]: "total_reader unmarshall_rawbyte"
  using rawbyte_later by (simp add: total_reader_def)

lemma total_bind [total_readers]:
  assumes "total_reader g" and "\<And>x. total_reader (f x)"
  shows "total_reader (\<lambda>u. rbind (g u) (\<lambda>(x, u). f x u))"
  unfolding total_reader_def
proof (intro allI impI)
  fix u assume "wfu u"
  then obtain x v where x: "g u = Inr (x, v)" "later u v" using assms(1) by (auto simp: total_reader_def)
  then obtain y w where "f x v = Inr (y, w)" "later v w"
    using assms(2) [of x] later_wfu by (fastforce simp: total_reader_def)
  with x show "\<exists>y w. rbind (g u) (\<lambda>(x, u). f x u) = Inr (y, w) \<and> later u w" by (auto intro: later_trans)
qed

lemma total_integers [total_readers]:
  "total_reader (get_u8 a)" "total_reader (get_char b)" "total_reader (get_u16 c)" "total_reader (get_short d)"
  "total_reader (get_u32 e)" "total_reader (get_int f)" "total_reader (get_u64 g)"
  unfolding get_u8_def [abs_def] get_char_def [abs_def] get_u16_def [abs_def] get_short_def [abs_def]
    get_u32_def [abs_def] get_int_def [abs_def] get_u64_def [abs_def] Let_def
  by (intro total_readers)+

lemma typed_item:
  assumes "total_reader g" and "wfu u" and "\<And>x. type_of (f x) = t"
  shows "\<exists>x v. as_item f (g u) = Inr (x, v) \<and> type_of x = t \<and> later u v"
  using assms by (fastforce simp: total_reader_def)

lemma read_item_later:
  assumes "wfu u"
  shows "(\<exists>x v. read_item t u = Inr (x, v) \<and> type_of x = t \<and> later u v) \<or>
    read_item t u = Inl Out_of_bounds \<and> t = TString"
proof (cases t)
  case TString
  obtain n v where n: "get_u32 0 u = Inr (n, v)" "later u v"
      using total_integers(5) [of 0] assms by (auto simp: total_reader_def)
    with rawbytes_later [OF later_wfu [OF n(2)], of "[]" n] show ?thesis
      by (auto simp: TString get_string_def intro: later_trans)
qed (simp_all add: typed_item total_readers assms)

section \<open>Properties\<close>

text \<open>
  C28. Reading is type correct, whatever the bytes are. For every sequence of types, reading them from a
  well formed message gives values of these types and leaves a well formed state on the same buffer,
  with the index between its old value and the size; or it ends with an access out of bounds, which
  only the read of a string can do.
\<close>

theorem reading_type_correct:
  assumes "wfu u"
  shows "case read_items ts u of
     Inr (xs, v) \<Rightarrow> map type_of xs = ts \<and> wfu v \<and> u_buf v = u_buf u \<and> u_sz v = u_sz u \<and>
       u_ind u \<le> u_ind v \<and> u_ind v \<le> u_sz u \<and> (u_ok v \<longrightarrow> u_ok u)
   | Inl e \<Rightarrow> e = Out_of_bounds \<and> TString \<in> set ts"
proof -
  have "(\<exists>xs v. read_items ts u = Inr (xs, v) \<and> map type_of xs = ts \<and> later u v) \<or>
      read_items ts u = Inl Out_of_bounds \<and> TString \<in> set ts"
    using assms
  proof (induction ts arbitrary: u)
    case (Cons t ts)
    from read_item_later [OF Cons.prems, of t] show ?case
    proof
      assume "\<exists>x v. read_item t u = Inr (x, v) \<and> type_of x = t \<and> later u v"
      then obtain x v where x: "read_item t u = Inr (x, v)" "type_of x = t" "later u v" by blast
      from Cons.IH [OF later_wfu [OF x(3)]] x show ?case by (auto intro: later_trans)
    qed (auto simp del: read_item.simps)
  qed (simp add: later_def)
  moreover have "wfu v \<Longrightarrow> u_sz v = u_sz u \<Longrightarrow> u_ind v \<le> u_sz u" for v by (elim wfuE) simp
  ultimately show ?thesis by (auto simp: later_def)
qed

theorem reading_type_correct_witness:
  "\<exists>xs v. read_items [TInt, TString, TU64]
      (unmarshall_new (Some [0, 0, 0, 7, 0, 0, 0, 2, 104, 105, 1]) 11) = Inr (xs, v) \<and>
    xs = [V_int 7, V_string [104, 105], V_u64 0x100000000000000] \<and> map type_of xs = [TInt, TString, TU64] \<and> \<not> u_ok v"
proof -
  let ?u = "unmarshall_new (Some [0, 0, 0, 7, 0, 0, 0, 2, 104, 105, 1]) 11"
  have "wfu ?u" by (simp add: wfu_def unmarshall_new_def int_max_def)
  moreover have "case read_items [TInt, TString, TU64] ?u of
      Inl _ \<Rightarrow> False | Inr (xs, v) \<Rightarrow> xs = [V_int 7, V_string [104, 105], V_u64 0x100000000000000] \<and> \<not> u_ok v"
    by code_simp
  ultimately show ?thesis
    using reading_type_correct [of ?u "[TInt, TString, TU64]"]
    by (auto simp del: read_items.simps split: sum.splits)
qed

end
