(* ===== verification/Lock_Server.thy ===== *)
theory Lock_Server
  imports Rpc_Stub
begin

text \<open>
  The lock service: \<^verbatim>\<open>src/lock_protocol.h\<close>, \<^verbatim>\<open>src/lock_server.cc\<close> and its client
  \<^verbatim>\<open>src/lock_client.cc\<close>, with the checks of \<^verbatim>\<open>src/lock_tester.cc\<close>. Each handler runs in a thread of
  the RPC server's pool, and several handlers run at the same time, so the model has one program
  counter per thread and one step per access to shared state: a lookup or an assignment in the map
  \<^verbatim>\<open>locks\<close>, a lock or unlock of a lock's mutex, a test or an assignment of \<^verbatim>\<open>isLocked\<close>, a wait, a signal.
  A step of the map is taken as atomic. The client side of a thread is the loop of the tester:
  acquire a lock, \<^verbatim>\<open>check_grant\<close>, \<^verbatim>\<open>check_release\<close>, release it.
\<close>

section \<open>Protocol constants\<close>

definition lock_OK :: i32 where
  "lock_OK = 0"

definition proc_acquire :: i32 where
  "proc_acquire = 0x7001"

definition proc_release :: i32 where
  "proc_release = 0x7002"

definition proc_subscribe :: i32 where
  "proc_subscribe = 0x7003"

definition proc_stat :: i32 where
  "proc_stat = 0x7004"

type_synonym lockid_t = u64

section \<open>State\<close>

text \<open>
  \<open>lm\<close> is the mutex (the thread that holds it), \<open>lc\<close> the threads blocked on the condition variable.
\<close>

type_synonym tid = nat

record lock_t =
  lm :: "tid option"
  lc :: "tid list"
  isLocked :: bool

definition lock_t_new :: lock_t where
  "lock_t_new = \<lparr>lm = None, lc = [], isLocked = False\<rparr>"

text \<open>\<^verbatim>\<open>locks[lid]\<close> makes a fresh entry where there is none.\<close>

definition entry :: "(lockid_t \<rightharpoonup> lock_t) \<Rightarrow> lockid_t \<Rightarrow> lock_t" where
  "entry ls lid = (case ls lid of None \<Rightarrow> lock_t_new | Some l \<Rightarrow> l)"

text \<open>
  Where a thread is: \<open>A_...\<close> inside \<^verbatim>\<open>lock_server::acquire\<close>, \<open>Asleep\<close> blocked in its
  \<^verbatim>\<open>pthread_cond_wait\<close>, \<open>R_...\<close> inside \<^verbatim>\<open>lock_server::release\<close>; between the two the client runs.
\<close>

datatype pc =
    Idle
  | A_check lockid_t | A_create lockid_t | A_lock lockid_t | A_test lockid_t | Asleep lockid_t
  | A_set lockid_t | A_unlock lockid_t
  | Granted lockid_t | Critical lockid_t
  | R_lock lockid_t | R_set lockid_t | R_signal lockid_t | R_unlock lockid_t

record lock_world =
  locks :: "lockid_t \<rightharpoonup> lock_t"
  nacquire :: i32
  pcs :: "tid \<Rightarrow> pc"
  ct :: "u8 \<Rightarrow> int"
  exited :: bool

definition lock_server_new :: lock_world where
  "lock_server_new =
     \<lparr>locks = Map.empty, nacquire = 0, pcs = \<lambda>_. Idle, ct = \<lambda>_. 0, exited = False\<rparr>"

text \<open>\<^verbatim>\<open>lock_server::stat\<close>: the status and the result.\<close>

definition lock_stat :: "i32 \<Rightarrow> lockid_t \<Rightarrow> lock_world \<Rightarrow> i32 \<times> i32" where
  "lock_stat clt lid s = (lock_OK, nacquire s)"

definition lock_server_delete :: "lock_world \<Rightarrow> lock_world" where
  "lock_server_delete s = s\<lparr>locks := Map.empty\<rparr>"

section \<open>Steps\<close>

abbreviation goto :: "tid \<Rightarrow> pc \<Rightarrow> lock_world \<Rightarrow> lock_world" where
  "goto t p s \<equiv> s\<lparr>pcs := (pcs s)(t := p)\<rparr>"

abbreviation set_lock :: "lockid_t \<Rightarrow> lock_t \<Rightarrow> lock_world \<Rightarrow> lock_world" where
  "set_lock lid l s \<equiv> s\<lparr>locks := (locks s)(lid \<mapsto> l)\<rparr>"

text \<open>
  The steps of \<^verbatim>\<open>acquire\<close> by thread \<open>t\<close>. \<open>None\<close>: the thread is blocked, or not inside \<^verbatim>\<open>acquire\<close>.
  Waiting gives up the mutex and joins the condition variable's queue in one step.
\<close>

definition acquire_step :: "tid \<Rightarrow> lock_world \<Rightarrow> lock_world option" where
  "acquire_step t s =
     (case pcs s t of
        A_check lid \<Rightarrow>
          Some (goto t (if locks s lid = None then A_create lid else A_lock lid) s)
      | A_create lid \<Rightarrow> Some (goto t (A_lock lid) (set_lock lid lock_t_new s))
      | A_lock lid \<Rightarrow>
          (case lm (entry (locks s) lid) of
             None \<Rightarrow> Some (goto t (A_test lid) (set_lock lid ((entry (locks s) lid)\<lparr>lm := Some t\<rparr>) s))
           | Some _ \<Rightarrow> None)
      | A_test lid \<Rightarrow>
          (let l = entry (locks s) lid in
           if isLocked l
           then Some (goto t (Asleep lid) (set_lock lid (l\<lparr>lm := None, lc := lc l @ [t]\<rparr>) s))
           else Some (goto t (A_set lid) (set_lock lid l s)))
      | A_set lid \<Rightarrow>
          Some (goto t (A_unlock lid) (set_lock lid ((entry (locks s) lid)\<lparr>isLocked := True\<rparr>) s))
      | A_unlock lid \<Rightarrow>
          Some (goto t (Granted lid) (set_lock lid ((entry (locks s) lid)\<lparr>lm := None\<rparr>) s))
      | _ \<Rightarrow> None)"

text \<open>
  The steps of \<^verbatim>\<open>release\<close>. \<^verbatim>\<open>pthread_cond_signal\<close> wakes a thread \<open>w\<close> of the scheduler's choice, if
  any is blocked; the woken thread has to take the mutex again.
\<close>

definition release_step :: "tid \<Rightarrow> tid \<Rightarrow> lock_world \<Rightarrow> lock_world option" where
  "release_step t w s =
     (case pcs s t of
        R_lock lid \<Rightarrow>
          (case lm (entry (locks s) lid) of
             None \<Rightarrow> Some (goto t (R_set lid) (set_lock lid ((entry (locks s) lid)\<lparr>lm := Some t\<rparr>) s))
           | Some _ \<Rightarrow> None)
      | R_set lid \<Rightarrow>
          Some (goto t (R_signal lid) (set_lock lid ((entry (locks s) lid)\<lparr>isLocked := False\<rparr>) s))
      | R_signal lid \<Rightarrow>
          (let l = entry (locks s) lid in
           if lc l = [] then Some (goto t (R_unlock lid) (set_lock lid l s))
           else if w \<in> set (lc l)
           then Some (goto t (R_unlock lid) (goto w (A_lock lid) (set_lock lid (l\<lparr>lc := remove1 w (lc l)\<rparr>) s)))
           else None)
      | R_unlock lid \<Rightarrow>
          Some (goto t Idle (set_lock lid ((entry (locks s) lid)\<lparr>lm := None\<rparr>) s))
      | _ \<Rightarrow> None)"

text \<open>The tester's bookkeeping: \<open>None\<close> is \<^verbatim>\<open>exit(1)\<close>.\<close>

definition check_grant :: "lockid_t \<Rightarrow> (u8 \<Rightarrow> int) \<Rightarrow> (u8 \<Rightarrow> int) option" where
  "check_grant lid c =
     (let x = ucast (lid AND 0xFF) in if c x \<noteq> 0 then None else Some (c(x := c x + 1)))"

definition check_release :: "lockid_t \<Rightarrow> (u8 \<Rightarrow> int) \<Rightarrow> (u8 \<Rightarrow> int) option" where
  "check_release lid c =
     (let x = ucast (lid AND 0xFF) in if c x \<noteq> 1 then None else Some (c(x := c x - 1)))"

definition client_step :: "tid \<Rightarrow> lock_world \<Rightarrow> lock_world option" where
  "client_step t s =
     (case pcs s t of
        Granted lid \<Rightarrow>
          (case check_grant lid (ct s) of
             None \<Rightarrow> Some (s\<lparr>exited := True\<rparr>)
           | Some c \<Rightarrow> Some (goto t (Critical lid) (s\<lparr>ct := c\<rparr>)))
      | Critical lid \<Rightarrow>
          (case check_release lid (ct s) of
             None \<Rightarrow> Some (s\<lparr>exited := True\<rparr>)
           | Some c \<Rightarrow> Some (goto t (R_lock lid) (s\<lparr>ct := c\<rparr>)))
      | _ \<Rightarrow> None)"

text \<open>
  One step of the whole system. \<open>Start\<close> is the arrival of an acquire request; \<open>Wake\<close> is a wakeup
  without a signal, which the condition variable allows at any time.
\<close>

datatype lock_event = Start tid lockid_t | Acquire tid | Release tid tid | Client tid | Wake tid

fun lock_exec :: "lock_event \<Rightarrow> lock_world \<Rightarrow> lock_world option" where
  "lock_exec (Start t lid) s = (if pcs s t = Idle then Some (goto t (A_check lid) s) else None)"
| "lock_exec (Acquire t) s = acquire_step t s"
| "lock_exec (Release t w) s = release_step t w s"
| "lock_exec (Client t) s = client_step t s"
| "lock_exec (Wake t) s =
     (case pcs s t of
        Asleep lid \<Rightarrow>
          (let l = entry (locks s) lid in
           Some (goto t (A_lock lid) (set_lock lid (l\<lparr>lc := remove1 t (lc l)\<rparr>) s)))
      | _ \<Rightarrow> None)"

fun lock_run :: "lock_event list \<Rightarrow> lock_world \<Rightarrow> lock_world option" where
  "lock_run [] s = Some s"
| "lock_run (e # es) s = (case lock_exec e s of None \<Rightarrow> None | Some s' \<Rightarrow> lock_run es s')"

text \<open>The states reached from \<open>s0\<close> when the requests name locks of \<open>L\<close>.\<close>

inductive lock_reach :: "lockid_t set \<Rightarrow> lock_world \<Rightarrow> lock_world \<Rightarrow> bool" for L s0 where
  start: "lock_reach L s0 s0"
| step: "lock_reach L s0 s \<Longrightarrow> lock_exec e s = Some s' \<Longrightarrow> (\<forall>t lid. e = Start t lid \<longrightarrow> lid \<in> L) \<Longrightarrow>
    lock_reach L s0 s'"

section \<open>The invariant of one lock\<close>

text \<open>
  Program counters inside the lock's mutex; between setting and clearing \<^verbatim>\<open>isLocked\<close>; and those of
  threads that will look at \<^verbatim>\<open>isLocked\<close> again or wake a sleeping thread.
\<close>

fun in_mutex :: "lockid_t \<Rightarrow> pc \<Rightarrow> bool" where
  "in_mutex lid (A_test k) \<longleftrightarrow> k = lid"
| "in_mutex lid (A_set k) \<longleftrightarrow> k = lid"
| "in_mutex lid (A_unlock k) \<longleftrightarrow> k = lid"
| "in_mutex lid (R_set k) \<longleftrightarrow> k = lid"
| "in_mutex lid (R_signal k) \<longleftrightarrow> k = lid"
| "in_mutex lid (R_unlock k) \<longleftrightarrow> k = lid"
| "in_mutex lid _ \<longleftrightarrow> False"

fun owns :: "lockid_t \<Rightarrow> pc \<Rightarrow> bool" where
  "owns lid (A_unlock k) \<longleftrightarrow> k = lid"
| "owns lid (Granted k) \<longleftrightarrow> k = lid"
| "owns lid (Critical k) \<longleftrightarrow> k = lid"
| "owns lid (R_lock k) \<longleftrightarrow> k = lid"
| "owns lid (R_set k) \<longleftrightarrow> k = lid"
| "owns lid _ \<longleftrightarrow> False"

fun pending :: "lockid_t \<Rightarrow> pc \<Rightarrow> bool" where
  "pending lid (A_lock k) \<longleftrightarrow> k = lid"
| "pending lid (A_test k) \<longleftrightarrow> k = lid"
| "pending lid (A_set k) \<longleftrightarrow> k = lid"
| "pending lid (R_signal k) \<longleftrightarrow> k = lid"
| "pending lid _ \<longleftrightarrow> False"

fun lid_of :: "pc \<Rightarrow> lockid_t option" where
  "lid_of Idle = None"
| "lid_of (A_check k) = Some k"
| "lid_of (A_create k) = Some k"
| "lid_of (A_lock k) = Some k"
| "lid_of (A_test k) = Some k"
| "lid_of (Asleep k) = Some k"
| "lid_of (A_set k) = Some k"
| "lid_of (A_unlock k) = Some k"
| "lid_of (Granted k) = Some k"
| "lid_of (Critical k) = Some k"
| "lid_of (R_lock k) = Some k"
| "lid_of (R_set k) = Some k"
| "lid_of (R_signal k) = Some k"
| "lid_of (R_unlock k) = Some k"

text \<open>
  For a lock that exists: no thread is about to replace it; its mutex is held by exactly the thread
  inside it; \<^verbatim>\<open>isLocked\<close> tells whether there is an owner, and there is at most one; the condition
  variable's queue holds exactly the sleeping threads; and when threads sleep although the lock is
  free, one that will wake them or take the lock is under way.
\<close>

definition lock_inv :: "lockid_t \<Rightarrow> lock_t \<Rightarrow> (tid \<Rightarrow> pc) \<Rightarrow> tid option \<Rightarrow> bool" where
  "lock_inv lid l p ow \<longleftrightarrow>
     (\<forall>t. p t \<noteq> A_create lid) \<and>
     (\<forall>t. in_mutex lid (p t) \<longleftrightarrow> lm l = Some t) \<and>
     (\<forall>t. owns lid (p t) \<longleftrightarrow> ow = Some t) \<and>
     (isLocked l \<longleftrightarrow> ow \<noteq> None) \<and>
     (\<forall>t. p t = A_set lid \<longrightarrow> \<not> isLocked l) \<and>
     (\<forall>t. t \<in> set (lc l) \<longleftrightarrow> p t = Asleep lid) \<and> distinct (lc l) \<and>
     (\<not> isLocked l \<longrightarrow> lc l \<noteq> [] \<longrightarrow> (\<exists>t. pending lid (p t)))"

definition lock_good :: "lockid_t \<Rightarrow> lock_world \<Rightarrow> bool" where
  "lock_good lid s \<longleftrightarrow> (\<exists>l ow. locks s lid = Some l \<and> lock_inv lid l (pcs s) ow)"

text \<open>Moves of a thread between program counters that look alike for this lock.\<close>

lemma lock_inv_elsewhere:
  assumes "lock_inv lid l p ow" and "lid_of (p t) \<noteq> Some lid" and "lid_of q \<noteq> Some lid"
  shows "lock_inv lid l (p(t := q)) ow"
proof -
  have other: "\<not> in_mutex lid r \<and> \<not> owns lid r \<and> \<not> pending lid r \<and> r \<noteq> A_create lid \<and>
      r \<noteq> A_set lid \<and> r \<noteq> Asleep lid" if "lid_of r \<noteq> Some lid" for r
    using that by (cases r) auto
  from assms other [OF assms(2)] other [OF assms(3)] show ?thesis
    unfolding lock_inv_def by (auto split: if_splits)
qed

lemma lock_inv_move:
  assumes "lock_inv lid l p ow" and "in_mutex lid q = in_mutex lid (p t)" and "owns lid q = owns lid (p t)"
    and "pending lid (p t) \<longrightarrow> pending lid q" and "q \<noteq> A_create lid"
    and "q = A_set lid \<longrightarrow> \<not> isLocked l" and "(q = Asleep lid) = (p t = Asleep lid)"
  shows "lock_inv lid l (p(t := q)) ow"
  using assms unfolding lock_inv_def by (auto split: if_splits)

lemma lock_inv_at:
  assumes "lock_inv lid l p ow"
  shows "in_mutex lid (p t) \<longleftrightarrow> lm l = Some t" and "owns lid (p t) \<longleftrightarrow> ow = Some t"
    and "t \<in> set (lc l) \<longleftrightarrow> p t = Asleep lid" and "p t = A_set lid \<Longrightarrow> lm l = Some t \<and> \<not> isLocked l"
    and "p t \<noteq> A_create lid"
proof -
  show *: "in_mutex lid (p t) \<longleftrightarrow> lm l = Some t" "owns lid (p t) \<longleftrightarrow> ow = Some t"
    "t \<in> set (lc l) \<longleftrightarrow> p t = Asleep lid" "p t \<noteq> A_create lid"
    using assms unfolding lock_inv_def by blast+
  show "p t = A_set lid \<Longrightarrow> lm l = Some t \<and> \<not> isLocked l"
    using assms *(1) unfolding lock_inv_def by auto
qed

lemma lock_inv_pending:
  assumes "lock_inv lid l p ow" and "\<not> isLocked l" and "lc l \<noteq> []" and "\<not> pending lid (p t)"
  shows "\<exists>u. u \<noteq> t \<and> pending lid (p u)"
  using assms unfolding lock_inv_def by metis

lemma lock_inv_locked: "lock_inv lid l p ow \<Longrightarrow> isLocked l \<longleftrightarrow> ow \<noteq> None"
  and lock_inv_distinct: "lock_inv lid l p ow \<Longrightarrow> distinct (lc l)"
  unfolding lock_inv_def by blast+

text \<open>What a step of thread \<open>t\<close> to \<open>q\<close> has to establish; the rest is unchanged.\<close>

lemma lock_inv_update:
  assumes "lock_inv lid l p ow" and "q \<noteq> A_create lid"
    and "\<And>u. u \<noteq> t \<Longrightarrow> lm l' = Some u \<longleftrightarrow> lm l = Some u" and "in_mutex lid q \<longleftrightarrow> lm l' = Some t"
    and "\<And>u. u \<noteq> t \<Longrightarrow> ow' = Some u \<longleftrightarrow> ow = Some u" and "owns lid q \<longleftrightarrow> ow' = Some t"
    and "isLocked l' \<longleftrightarrow> ow' \<noteq> None" and "q = A_set lid \<Longrightarrow> ow' = None"
    and "\<And>u. u \<noteq> t \<Longrightarrow> p u = A_set lid \<Longrightarrow> ow' = None"
    and "\<And>u. u \<noteq> t \<Longrightarrow> u \<in> set (lc l') \<longleftrightarrow> u \<in> set (lc l)"
    and "t \<in> set (lc l') \<longleftrightarrow> q = Asleep lid" and "distinct (lc l')"
    and "\<not> isLocked l' \<Longrightarrow> lc l' \<noteq> [] \<Longrightarrow> pending lid q \<or> (\<exists>u. u \<noteq> t \<and> pending lid (p u))"
  shows "lock_inv lid l' (p(t := q)) ow'"
proof -
  have ex: "\<exists>u. pending lid ((p(t := q)) u)" if "\<not> isLocked l'" "lc l' \<noteq> []"
    using assms(13) [OF that] by (metis fun_upd_apply)
  show ?thesis
    unfolding lock_inv_def
    by (intro conjI allI impI ex)
      (auto simp: assms lock_inv_at(1-3, 5) [OF assms(1)] split: if_splits)
qed

lemmas lock_inv_globals = lock_inv_locked lock_inv_distinct

lemma inv_take_mutex:
  assumes "lock_inv lid l p ow" and "lm l = None"
    and "p t = A_lock lid \<and> q = A_test lid \<or> p t = R_lock lid \<and> q = R_set lid"
  shows "lock_inv lid (l\<lparr>lm := Some t\<rparr>) (p(t := q)) ow"
  using assms lock_inv_at [OF assms(1), of t] lock_inv_globals [OF assms(1)]
    lock_inv_pending [OF assms(1), of t]
  by (intro lock_inv_update [OF assms(1)]) (auto dest: lock_inv_at(4) [OF assms(1)])

lemma inv_sleep:
  assumes "lock_inv lid l p ow" and "p t = A_test lid" and "isLocked l"
  shows "lock_inv lid (l\<lparr>lm := None, lc := lc l @ [t]\<rparr>) (p(t := Asleep lid)) ow"
  using assms lock_inv_at [OF assms(1), of t] lock_inv_globals [OF assms(1)]
    lock_inv_pending [OF assms(1), of t]
  by (intro lock_inv_update [OF assms(1)]) (auto dest: lock_inv_at(4) [OF assms(1)])

lemma inv_set:
  assumes "lock_inv lid l p ow" and "p t = A_set lid"
  shows "lock_inv lid (l\<lparr>isLocked := True\<rparr>) (p(t := A_unlock lid)) (Some t)"
  using assms lock_inv_at [OF assms(1), of t] lock_inv_globals [OF assms(1)]
    lock_inv_pending [OF assms(1), of t]
  by (intro lock_inv_update [OF assms(1)]) (auto dest: lock_inv_at(4) [OF assms(1)])

lemma inv_drop_mutex:
  assumes "lock_inv lid l p ow" and "p t = A_unlock lid \<and> q = Granted lid \<or> p t = R_unlock lid \<and> q = Idle"
  shows "lock_inv lid (l\<lparr>lm := None\<rparr>) (p(t := q)) ow"
  using assms lock_inv_at [OF assms(1), of t] lock_inv_globals [OF assms(1)]
    lock_inv_pending [OF assms(1), of t]
  by (intro lock_inv_update [OF assms(1)]) (auto dest: lock_inv_at(4) [OF assms(1)])

lemma inv_clear:
  assumes "lock_inv lid l p ow" and "p t = R_set lid"
  shows "lock_inv lid (l\<lparr>isLocked := False\<rparr>) (p(t := R_signal lid)) None"
  using assms lock_inv_at [OF assms(1), of t] lock_inv_globals [OF assms(1)]
    lock_inv_pending [OF assms(1), of t]
  by (intro lock_inv_update [OF assms(1)]) (auto dest: lock_inv_at(4) [OF assms(1)])

lemma inv_wake:
  assumes "lock_inv lid l p ow" and "p t = Asleep lid"
  shows "lock_inv lid (l\<lparr>lc := remove1 t (lc l)\<rparr>) (p(t := A_lock lid)) ow"
  using assms lock_inv_at [OF assms(1), of t] lock_inv_globals [OF assms(1)]
    lock_inv_pending [OF assms(1), of t]
  by (intro lock_inv_update [OF assms(1)]) (auto dest: lock_inv_at(4) [OF assms(1)])

lemma inv_signalled:
  assumes "lock_inv lid l p ow" and "p t = R_signal lid" and "lc l = [] \<or> (\<exists>w. w \<noteq> t \<and> pending lid (p w))"
  shows "lock_inv lid l (p(t := R_unlock lid)) ow"
  using assms lock_inv_at [OF assms(1), of t] lock_inv_globals [OF assms(1)]
    lock_inv_pending [OF assms(1), of t]
  by (intro lock_inv_update [OF assms(1)]) (auto dest: lock_inv_at(4) [OF assms(1)])

lemma inv_quiet:
  assumes "lock_inv lid l p ow"
    and "p t = A_check lid \<and> q = A_lock lid \<or> p t = A_test lid \<and> \<not> isLocked l \<and> q = A_set lid \<or>
      p t = Granted lid \<and> q = Critical lid \<or> p t = Critical lid \<and> q = R_lock lid"
  shows "lock_inv lid l (p(t := q)) ow"
  using assms(2) by (intro lock_inv_move [OF assms(1)]) auto

section \<open>Every step keeps the invariant\<close>

lemma lock_goodI: "locks s lid = Some l \<Longrightarrow> lock_inv lid l (pcs s) ow \<Longrightarrow> lock_good lid s"
  unfolding lock_good_def by blast

lemma lock_goodE:
  assumes "lock_good lid s"
  obtains l ow where "locks s lid = Some l" "entry (locks s) lid = l" "lock_inv lid l (pcs s) ow"
  using assms unfolding lock_good_def entry_def by auto

lemma lock_good_other:
  assumes "lock_good lid s" and "k \<noteq> lid" and "lid_of (pcs s t) \<in> {None, Some k}" and "lid_of q \<in> {None, Some k}"
  shows "lock_good lid (goto t q (set_lock k l' s))" and "lock_good lid (goto t q s)"
  using assms by (auto elim!: lock_goodE intro!: lock_goodI lock_inv_elsewhere)

text \<open>Whatever else happens, a condition variable's queue holds sleeping threads only.\<close>

definition queues_ok :: "lock_world \<Rightarrow> bool" where
  "queues_ok s \<longleftrightarrow>
     (\<forall>k. distinct (lc (entry (locks s) k)) \<and> (\<forall>t \<in> set (lc (entry (locks s) k)). pcs s t = Asleep k))"

lemma entry_upd [simp]: "entry (m(k \<mapsto> l)) j = (if j = k then l else entry m j)"
  by (simp add: entry_def)

lemma lc_new [simp]: "lc lock_t_new = []"
  by (simp add: lock_t_new_def)

lemma queues_goto:
  assumes "queues_ok s" and "\<And>k. pcs s t \<noteq> Asleep k"
  shows "queues_ok (goto t q s)"
  using assms by (fastforce simp: queues_ok_def)

lemma queues_set:
  assumes "queues_ok s" and "lc l = [] \<or> lc l = lc (entry (locks s) k)" and "\<And>k. pcs s t \<noteq> Asleep k"
  shows "queues_ok (s\<lparr>locks := (locks s)(k \<mapsto> l), pcs := (pcs s)(t := q)\<rparr>)"
  using assms by (fastforce simp: queues_ok_def)

lemma queues_sleep:
  assumes "queues_ok s" and "pcs s t = A_test k"
  shows "queues_ok (s\<lparr>locks := (locks s)(k \<mapsto> (entry (locks s) k)\<lparr>lm := None, lc := lc (entry (locks s) k) @ [t]\<rparr>),
    pcs := (pcs s)(t := Asleep k)\<rparr>)"
  using assms by (fastforce simp: queues_ok_def)

lemma queues_wake:
  assumes "queues_ok s" and "pcs s t = Asleep k"
  shows "queues_ok (s\<lparr>locks := (locks s)(k \<mapsto> (entry (locks s) k)\<lparr>lc := remove1 t (lc (entry (locks s) k))\<rparr>),
    pcs := (pcs s)(t := q)\<rparr>)"
  using assms by (fastforce simp: queues_ok_def dest: notin_set_remove1)

lemma queues_signal:
  assumes "queues_ok s" and "pcs s t = R_signal k" and "w \<in> set (lc (entry (locks s) k))"
  shows "queues_ok (s\<lparr>locks := (locks s)(k \<mapsto> (entry (locks s) k)\<lparr>lc := remove1 w (lc (entry (locks s) k))\<rparr>),
    pcs := (pcs s)(w := p, t := q)\<rparr>)"
proof -
  have w: "pcs s w = Asleep k" using assms(1,3) by (auto simp: queues_ok_def)
  then have "t \<noteq> w" using assms(2) by auto
  then show ?thesis
    using queues_goto [OF queues_wake [OF assms(1) w, of p], of t q] assms(2) by simp
qed

lemma queues_ok_step:
  assumes "lock_exec e s = Some s'" and "queues_ok s"
  shows "queues_ok s'"
proof -
  note q = queues_goto [OF assms(2)] queues_set [OF assms(2)]
    queues_sleep [OF assms(2)] queues_wake [OF assms(2)] queues_signal [OF assms(2)]
  have ct: "queues_ok (s\<lparr>ct := c, pcs := p\<rparr>) = queues_ok (s\<lparr>pcs := p\<rparr>)"
    "queues_ok (s\<lparr>exited := b\<rparr>) = queues_ok s" for c b p
    by (simp_all add: queues_ok_def)
  show ?thesis
  proof (cases e)
    case (Client t)
    with assms(1) show ?thesis
      by (auto simp: client_step_def ct assms(2) intro!: queues_goto [OF assms(2)] split: pc.splits option.splits)
  qed (insert assms(1), auto simp: acquire_step_def release_step_def Let_def
      split: pc.splits option.splits if_splits intro!: q)
qed

lemma acquire_step_good:
  assumes "acquire_step t s = Some s'" and "lock_good lid s"
  shows "lock_good lid s'"
proof -
  obtain l ow where l: "locks s lid = Some l" "entry (locks s) lid = l" "lock_inv lid l (pcs s) ow"
    using assms(2) by (rule lock_goodE)
  note other = lock_good_other [OF assms(2), where t = t]
  show ?thesis
  proof (cases "lid_of (pcs s t) = Some lid")
    case True
    then show ?thesis
      using assms(1) l inv_take_mutex [OF l(3), of t] inv_sleep [OF l(3), of t] inv_set [OF l(3), of t]
        inv_drop_mutex [OF l(3), of t] lock_inv_at [OF l(3), of t] inv_quiet [OF l(3), of t]
      by (cases "pcs s t")
        (auto simp: acquire_step_def Let_def split: option.splits if_splits intro!: lock_goodI)
  next
    case False
    then show ?thesis
      using assms(1) other
      by (cases "pcs s t") (auto simp: acquire_step_def Let_def split: option.splits if_splits)
  qed
qed

lemma release_step_good:
  assumes "release_step t w s = Some s'" and "lock_good lid s" and "queues_ok s"
  shows "lock_good lid s'"
proof -
  obtain l ow where l: "locks s lid = Some l" "entry (locks s) lid = l" "lock_inv lid l (pcs s) ow"
    using assms(2) by (rule lock_goodE)
  note other = lock_good_other [OF assms(2), where t = t]
  show ?thesis
  proof (cases "lid_of (pcs s t) = Some lid")
    case True
    have "lock_inv lid (l\<lparr>lc := remove1 w (lc l)\<rparr>) ((pcs s)(w := A_lock lid, t := R_unlock lid)) ow"
      if "w \<in> set (lc l)" "pcs s t = R_signal lid"
    proof (rule inv_signalled)
      have "w \<noteq> t" using that lock_inv_at(3) [OF l(3), of w] by auto
      then show "((pcs s)(w := A_lock lid)) t = R_signal lid"
        "lc (l\<lparr>lc := remove1 w (lc l)\<rparr>) = [] \<or> (\<exists>u. u \<noteq> t \<and> pending lid (((pcs s)(w := A_lock lid)) u))"
        using that by auto
      show "lock_inv lid (l\<lparr>lc := remove1 w (lc l)\<rparr>) ((pcs s)(w := A_lock lid)) ow"
        using that by (intro inv_wake [OF l(3)]) (simp add: lock_inv_at(3) [OF l(3)])
    qed
    with True show ?thesis
      using assms(1) l inv_take_mutex [OF l(3), of t] inv_clear [OF l(3), of t]
        inv_drop_mutex [OF l(3), of t] inv_signalled [OF l(3), of t]
      by (cases "pcs s t")
        (auto simp: release_step_def Let_def split: option.splits if_splits intro!: lock_goodI)
  next
    case False
    have "lock_good lid (goto t (R_unlock k) (goto w (A_lock k) (set_lock k l' s)))"
      if "w \<in> set (lc (entry (locks s) k))" "pcs s t = R_signal k" for k l'
    proof -
      have w: "pcs s w = Asleep k" using assms(3) that by (auto simp: queues_ok_def)
      then have "lock_good lid (goto w (A_lock k) (set_lock k l' s))"
        using False that by (intro lock_good_other [OF assms(2)]) auto
      moreover have "t \<noteq> w" and "k \<noteq> lid" using w that False by auto
      ultimately show ?thesis
        using that lock_good_other(2) [of lid "goto w (A_lock k) (set_lock k l' s)" k t "R_unlock k"] by simp
    qed
    with False show ?thesis
      using assms(1) other
      by (cases "pcs s t") (auto simp: release_step_def Let_def split: option.splits if_splits)
  qed
qed

lemma lock_good_step:
  assumes "lock_exec e s = Some s'" and "lock_good lid s" and "queues_ok s"
  shows "lock_good lid s'"
proof -
  obtain l ow where l: "locks s lid = Some l" "entry (locks s) lid = l" "lock_inv lid l (pcs s) ow"
    using assms(2) by (rule lock_goodE)
  note other = lock_good_other [OF assms(2)]
  show ?thesis
  proof (cases e)
    case (Start t k)
    then show ?thesis
      using assms(1) lock_inv_move [OF l(3), of "A_check lid" t] other(2) [of k t "A_check k"] l
      by (cases "k = lid") (auto split: if_splits intro!: lock_goodI)
  next
    case (Client t)
    have "lock_good lid (goto t (Critical k) (s\<lparr>ct := c\<rparr>))" if "pcs s t = Granted k" for k c
      using that inv_quiet [OF l(3), of t "Critical lid"] lock_inv_elsewhere [OF l(3), of t] l
      by (cases "k = lid") (auto intro!: lock_goodI [where ow = ow])
    moreover have "lock_good lid (goto t (R_lock k) (s\<lparr>ct := c\<rparr>))" if "pcs s t = Critical k" for k c
      using that inv_quiet [OF l(3), of t "R_lock lid"] lock_inv_elsewhere [OF l(3), of t] l
      by (cases "k = lid") (auto intro!: lock_goodI [where ow = ow])
    ultimately show ?thesis
      using Client assms(1,2)
      by (auto simp: client_step_def lock_good_def split: pc.splits option.splits)
  next
    case (Wake t)
    then obtain k where k: "pcs s t = Asleep k"
      "s' = goto t (A_lock k) (set_lock k ((entry (locks s) k)\<lparr>lc := remove1 t (lc (entry (locks s) k))\<rparr>) s)"
      using assms(1) by (auto simp: Let_def split: pc.splits)
    then show ?thesis
      using inv_wake [OF l(3), of t] l other(1) [of k t "A_lock k"]
      by (cases "k = lid") (auto intro!: lock_goodI)
  qed (insert assms acquire_step_good release_step_good, auto)
qed

section \<open>Reachable states\<close>

text \<open>The server once the locks of \<open>L\<close> have been created and none of them is in use.\<close>

definition lock_server_with :: "lockid_t set \<Rightarrow> lock_world" where
  "lock_server_with L = lock_server_new\<lparr>locks := \<lambda>lid. if lid \<in> L then Some lock_t_new else None\<rparr>"

abbreviation low_byte :: "lockid_t \<Rightarrow> u8" where
  "low_byte lid \<equiv> ucast (lid AND 0xFF)"

lemma lock_server_with_good: "lid \<in> L \<Longrightarrow> lock_good lid (lock_server_with L)"
  and lock_server_with_queues: "queues_ok (lock_server_with L)"
  by (auto simp: lock_good_def lock_inv_def queues_ok_def lock_server_with_def lock_server_new_def
      lock_t_new_def entry_def)

lemma reach_good:
  assumes "lock_reach L (lock_server_with L) s"
  shows "queues_ok s \<and> (\<forall>lid \<in> L. lock_good lid s)"
  using assms
  by induction (auto simp: lock_server_with_good lock_server_with_queues
      intro: lock_good_step queues_ok_step)

text \<open>Threads name locks of \<open>L\<close> only, and the tester's counters count the threads in between.\<close>

definition counts_ok :: "lockid_t set \<Rightarrow> lock_world \<Rightarrow> bool" where
  "counts_ok L s \<longleftrightarrow>
     (\<forall>t lid. lid_of (pcs s t) = Some lid \<longrightarrow> lid \<in> L) \<and>
     (\<forall>lid \<in> L. ct s (low_byte lid) = (if \<exists>t. pcs s t = Critical lid then 1 else 0)) \<and> \<not> exited s"

lemma owner_unique:
  assumes "lock_good lid s" and "owns lid (pcs s t)" and "owns lid (pcs s u)"
  shows "t = u"
  using assms lock_inv_at(2) by (auto elim!: lock_goodE)

text \<open>A step that touches neither the counters nor \<open>Critical\<close> program counters.\<close>

lemma counts_ok_frame:
  assumes "counts_ok L s" and "ct s' = ct s" and "exited s' = exited s"
    and "\<And>t lid. pcs s' t = Critical lid \<longleftrightarrow> pcs s t = Critical lid"
    and "\<And>t lid. lid_of (pcs s' t) = Some lid \<Longrightarrow> lid \<in> L"
  shows "counts_ok L s'"
  using assms unfolding counts_ok_def by simp

lemma counts_ok_client:
  assumes "counts_ok L s" and "lid \<in> L" and "lock_good lid s" and "inj_on low_byte L"
    and "pcs s t = Granted lid \<and> q = Critical lid \<and> c = 1 \<or> pcs s t = Critical lid \<and> q = R_lock lid \<and> c = 0"
  shows "counts_ok L (goto t q (s\<lparr>ct := (ct s)(low_byte lid := c)\<rparr>))"
    and "pcs s t = Granted lid \<Longrightarrow> ct s (low_byte lid) = 0"
    and "pcs s t = Critical lid \<Longrightarrow> ct s (low_byte lid) = 1"
proof -
  have uniq: "u = t" if "pcs s u = Critical lid" for u
    using owner_unique [OF assms(3), of u t] that assms(5) by auto
  then show "pcs s t = Granted lid \<Longrightarrow> ct s (low_byte lid) = 0"
    and "pcs s t = Critical lid \<Longrightarrow> ct s (low_byte lid) = 1"
    using assms(1,2) unfolding counts_ok_def by auto
  have low: "low_byte k = low_byte lid \<longleftrightarrow> k = lid" if "k \<in> L" for k
    using inj_onD [OF assms(4)] that assms(2) by blast
  show "counts_ok L (goto t q (s\<lparr>ct := (ct s)(low_byte lid := c)\<rparr>))"
    unfolding counts_ok_def
  proof (intro conjI allI ballI impI)
    fix u k assume "lid_of (pcs (goto t q (s\<lparr>ct := (ct s)(low_byte lid := c)\<rparr>)) u) = Some k"
    then show "k \<in> L"
      using assms(1,2,5) unfolding counts_ok_def by (auto split: if_splits)
  next
    fix k assume k: "k \<in> L"
    have "pcs s t \<noteq> Critical k" if "k \<noteq> lid"
      using that assms(5) by auto
    then have other: "(\<exists>u. u \<noteq> t \<and> pcs s u = Critical k) \<longleftrightarrow> (\<exists>u. pcs s u = Critical k)" if "k \<noteq> lid"
      using that by metis
    have count: "ct s (low_byte k) = (if \<exists>u. pcs s u = Critical k then 1 else 0)"
      using assms(1) k unfolding counts_ok_def by blast
    have "(\<exists>u. pcs (goto t q (s\<lparr>ct := (ct s)(low_byte lid := c)\<rparr>)) u = Critical k) \<longleftrightarrow>
        (if k = lid then c = 1 else \<exists>u. pcs s u = Critical k)"
      using assms(5) uniq other by (cases "k = lid") auto
    then show "ct (goto t q (s\<lparr>ct := (ct s)(low_byte lid := c)\<rparr>)) (low_byte k) =
        (if \<exists>u. pcs (goto t q (s\<lparr>ct := (ct s)(low_byte lid := c)\<rparr>)) u = Critical k then 1 else 0)"
      using assms(5) low [OF k] count by auto
  qed (insert assms(1), simp add: counts_ok_def)
qed

lemma client_step_counts:
  assumes "client_step t s = Some s'" and "counts_ok L s" and "\<forall>lid \<in> L. lock_good lid s" and "inj_on low_byte L"
  shows "counts_ok L s'"
proof -
  have L: "lid \<in> L" if "pcs s t = Granted lid \<or> pcs s t = Critical lid" for lid
    using assms(2) that unfolding counts_ok_def by (metis lid_of.simps(9,10))
  show ?thesis
  proof (cases "pcs s t")
    case (Granted lid)
    then show ?thesis
      using assms L counts_ok_client [OF assms(2) _ _ assms(4), of lid t "Critical lid" 1]
      by (auto simp: client_step_def check_grant_def Let_def)
  next
    case (Critical lid)
    then show ?thesis
      using assms L counts_ok_client [OF assms(2) _ _ assms(4), of lid t "R_lock lid" 0]
      by (auto simp: client_step_def check_release_def Let_def)
  qed (insert assms(1), auto simp: client_step_def)
qed

lemma lid_in:
  assumes "counts_ok L s" and "lid_of (pcs s t) = Some lid"
  shows "lid \<in> L"
  using assms unfolding counts_ok_def by blast

lemma counts_ok_step:
  assumes "lock_exec e s = Some s'" and "\<forall>t lid. e = Start t lid \<longrightarrow> lid \<in> L"
    and "counts_ok L s" and "\<forall>lid \<in> L. lock_good lid s" and "queues_ok s" and "inj_on low_byte L"
  shows "counts_ok L s'"
proof (cases e)
  case (Client t)
  with assms client_step_counts show ?thesis by simp
next
  case (Acquire t)
  with assms(1) lid_in [OF assms(3), of t] show ?thesis
    by (intro counts_ok_frame [OF assms(3)])
      (auto simp: acquire_step_def Let_def dest: lid_in [OF assms(3)]
        split: pc.splits option.splits if_splits)
next
  case (Release t w)
  have "pcs s w = Asleep k" if "w \<in> set (lc (entry (locks s) k))" for k
    using assms(5) that unfolding queues_ok_def by blast
  with Release assms(1) lid_in [OF assms(3), of t] show ?thesis
    by (intro counts_ok_frame [OF assms(3)])
      (auto simp: release_step_def Let_def dest: lid_in [OF assms(3)]
        split: pc.splits option.splits if_splits)
next
  case (Wake t)
  with assms(1) lid_in [OF assms(3), of t] show ?thesis
    by (intro counts_ok_frame [OF assms(3)])
      (auto simp: Let_def dest: lid_in [OF assms(3)] split: pc.splits if_splits)
next
  case (Start t lid)
  with assms(1,2) show ?thesis
    by (intro counts_ok_frame [OF assms(3)]) (auto dest: lid_in [OF assms(3)] split: if_splits)
qed

lemma reach_counts:
  assumes "lock_reach L (lock_server_with L) s" and "inj_on low_byte L"
  shows "counts_ok L s"
  using assms(1)
proof induction
  case start
  show ?case by (simp add: counts_ok_def lock_server_with_def lock_server_new_def)
next
  case (step s e s')
  from counts_ok_step [OF step(2,3) step.IH] reach_good [OF step(1)] assms(2) show ?case by simp
qed

text \<open>Schedules as evidence for reachability.\<close>

lemma run_reach:
  assumes "lock_run es s = Some s'" and "lock_reach L s0 s" and "\<forall>t lid. Start t lid \<in> set es \<longrightarrow> lid \<in> L"
  shows "lock_reach L s0 s'"
  using assms
proof (induction es arbitrary: s)
  case (Cons e es)
  then obtain s1 where "lock_exec e s = Some s1" "lock_run es s1 = Some s'"
    by (auto split: option.splits)
  with Cons show ?case by (metis list.set_intros lock_reach.step)
qed simp

definition contention :: "lock_event list" where
  "contention =
     [Start 0 1, Start 1 1, Acquire 0, Acquire 0, Acquire 0, Acquire 0, Acquire 0, Client 0,
      Acquire 1, Acquire 1, Acquire 1]"

lemma contention_run:
  "\<exists>s. lock_run contention (lock_server_with {1, 2}) = Some s \<and>
    lock_reach {1, 2} (lock_server_with {1, 2}) s \<and> pcs s 0 = Critical 1 \<and> pcs s 1 = Asleep 1"
proof -
  obtain s where s: "lock_run contention (lock_server_with {1, 2}) = Some s" "pcs s 0 = Critical 1"
    "pcs s 1 = Asleep 1"
    by (simp add: contention_def lock_server_with_def lock_server_new_def acquire_step_def
        client_step_def check_grant_def entry_def lock_t_new_def Let_def)
  moreover have "lock_reach {1, 2} (lock_server_with {1, 2}) s"
    using s(1) lock_reach.start by (rule run_reach) (auto simp: contention_def)
  ultimately show ?thesis by blast
qed

section \<open>Progress\<close>

text \<open>Steps of the threads themselves, as opposed to new requests and spurious wakeups.\<close>

fun own_step :: "lock_event \<Rightarrow> bool" where
  "own_step (Acquire t) = True"
| "own_step (Release t w) = True"
| "own_step (Client t) = True"
| "own_step _ = False"

definition moves :: "lock_world \<Rightarrow> tid \<Rightarrow> bool" where
  "moves s t \<longleftrightarrow> acquire_step t s \<noteq> None \<or> (\<exists>w. release_step t w s \<noteq> None) \<or> client_step t s \<noteq> None"

lemma moves_own_step:
  assumes "moves s t"
  shows "\<exists>e s'. own_step e \<and> lock_exec e s = Some s'"
  using assms unfolding moves_def by (metis lock_exec.simps(2-4) not_None_eq own_step.simps(1-3))

text \<open>A thread blocks on a mutex or on a condition variable only.\<close>

lemma awake_moves:
  assumes "pcs s t \<noteq> Idle" and "\<And>lid. pcs s t \<noteq> Asleep lid" and "\<And>lid. pcs s t \<notin> {A_lock lid, R_lock lid}"
  shows "moves s t"
proof -
  define w where "w = (case pcs s t of R_signal lid \<Rightarrow> hd (lc (entry (locks s) lid)) | _ \<Rightarrow> 0)"
  have "acquire_step t s \<noteq> None \<or> release_step t w s \<noteq> None \<or> client_step t s \<noteq> None"
    using assms
    by (cases "pcs s t")
      (auto simp: acquire_step_def release_step_def client_step_def w_def Let_def split: option.splits)
  then show ?thesis unfolding moves_def by blast
qed

lemma mutex_moves:
  assumes "lock_good lid s" and "pcs s t \<in> {A_lock lid, R_lock lid}"
  shows "\<exists>u. lid_of (pcs s u) = Some lid \<and> moves s u"
proof -
  obtain l ow where l: "entry (locks s) lid = l" "lock_inv lid l (pcs s) ow"
    using assms(1) by (rule lock_goodE)
  show ?thesis
  proof (cases "lm l")
    case None
    then show ?thesis
      using assms(2) l by (intro exI [of _ t]) (auto simp: moves_def acquire_step_def release_step_def)
  next
    case (Some u)
    then have "in_mutex lid (pcs s u)" using lock_inv_at(1) [OF l(2)] by simp
    then have "lid_of (pcs s u) = Some lid" "moves s u"
      by (cases "pcs s u"; auto intro!: awake_moves)+
    then show ?thesis by blast
  qed
qed

lemma good_moves:
  assumes "lock_good lid s" and "lid_of (pcs s t) = Some lid"
  shows "\<exists>u. lid_of (pcs s u) = Some lid \<and> moves s u"
proof -
  obtain l ow where l: "entry (locks s) lid = l" "lock_inv lid l (pcs s) ow"
    using assms(1) by (rule lock_goodE)
  have awake: "\<exists>u. lid_of (pcs s u) = Some lid \<and> moves s u" if "lid_of (pcs s u) = Some lid" "pcs s u \<noteq> Asleep lid" for u
  proof (cases "pcs s u \<in> {A_lock lid, R_lock lid}")
    case False
    then have "moves s u" using that by (intro awake_moves) (cases "pcs s u"; auto)+
    with that show ?thesis by blast
  qed (rule mutex_moves [OF assms(1)])
  have "\<exists>u. lid_of (pcs s u) = Some lid \<and> pcs s u \<noteq> Asleep lid" if t: "pcs s t = Asleep lid"
  proof (cases ow)
    case (Some u)
    then have "owns lid (pcs s u)" using lock_inv_at(2) [OF l(2)] by simp
    then show ?thesis by (intro exI [of _ u], cases "pcs s u") auto
  next
    case None
    then have "\<not> isLocked l" "lc l \<noteq> []"
      using lock_inv_locked [OF l(2)] lock_inv_at(3) [OF l(2), of t] t by auto
    then obtain u where "pending lid (pcs s u)"
      using lock_inv_pending [OF l(2), of t] t by auto
    then show ?thesis by (intro exI [of _ u], cases "pcs s u") auto
  qed
  with awake assms(2) show ?thesis by blast
qed

section \<open>Properties\<close>

text \<open>
  C1. Mutual exclusion. For locks that have been created, at most one thread owns a lock, whatever the
  interleaving of the handlers, with any number of threads and with spurious wakeups of the condition
  variable. A thread owns a lock from the step of \<^verbatim>\<open>acquire\<close> that sets \<^verbatim>\<open>isLocked\<close> to the step of
  \<^verbatim>\<open>release\<close> that clears it, so in particular from the grant, before any check of the tester, to its
  call of \<^verbatim>\<open>release\<close>.
\<close>

theorem lock_mutual_exclusion:
  assumes "lock_reach L (lock_server_with L) s" and "lid \<in> L"
    and "owns lid (pcs s t)" and "owns lid (pcs s u)"
  shows "t = u"
  using reach_good [OF assms(1)] assms(2-4) owner_unique by blast

theorem lock_mutual_exclusion_witness:
  "\<exists>s. lock_run contention (lock_server_with {1, 2}) = Some s \<and> {u. owns 1 (pcs s u)} = {0}"
proof -
  obtain s where s: "lock_run contention (lock_server_with {1, 2}) = Some s"
    "lock_reach {1, 2} (lock_server_with {1, 2}) s" "pcs s 0 = Critical 1"
    using contention_run by blast
  then have own: "owns 1 (pcs s 0)" by simp
  then have "u = 0" if "owns 1 (pcs s u)" for u
    using that by (intro lock_mutual_exclusion [OF s(2), of 1 u 0]) auto
  with s own show ?thesis by blast
qed

text \<open>
  The checks of the lock tester pass: for created locks with distinct low bytes (the tester's
  assumption), neither \<^verbatim>\<open>check_grant\<close> nor \<^verbatim>\<open>check_release\<close> ever ends the process.
\<close>

theorem lock_tester_never_fails:
  assumes "lock_reach L (lock_server_with L) s" and "inj_on low_byte L"
  shows "\<not> exited s"
  using reach_counts [OF assms] by (simp add: counts_ok_def)

theorem lock_tester_never_fails_witness:
  "\<exists>s. lock_run contention (lock_server_with {1, 2}) = Some s \<and> pcs s 0 = Critical 1 \<and> \<not> exited s"
proof -
  have "inj_on low_byte {1, 2}" by (simp add: inj_on_def)
  with contention_run lock_tester_never_fails show ?thesis by blast
qed

text \<open>
  C26. No deadlock and no lost wakeup, for locks that have been created and whose numbers differ in
  the low byte (the index of the tester's counters): as long as some thread is inside acquire or
  release or holds a lock, some thread can take a step of its own, without a new request and without
  a spurious wakeup. Locks that are still to be created are left out: there two first requests race
  (below).
\<close>

theorem lock_no_deadlock:
  assumes "lock_reach L (lock_server_with L) s" and "inj_on low_byte L" and "pcs s t \<noteq> Idle"
  shows "\<exists>e s'. own_step e \<and> lock_exec e s = Some s'"
proof -
  obtain lid where lid: "lid_of (pcs s t) = Some lid" using assms(3) by (cases "pcs s t") auto
  then have "lid \<in> L" by (rule lid_in [OF reach_counts [OF assms(1,2)]])
  with lid good_moves reach_good [OF assms(1)] show ?thesis using moves_own_step by blast
qed

theorem lock_no_deadlock_witness:
  "\<exists>s e s'. lock_run contention (lock_server_with {1, 2}) = Some s \<and> pcs s 1 = Asleep 1 \<and>
    own_step e \<and> lock_exec e s = Some s'"
proof -
  obtain s where s: "lock_run contention (lock_server_with {1, 2}) = Some s"
    "lock_reach {1, 2} (lock_server_with {1, 2}) s" "pcs s 1 = Asleep 1"
    using contention_run by blast
  have "inj_on low_byte {1, 2}" by (simp add: inj_on_def)
  from lock_no_deadlock [OF s(2) this, of 1] s show ?thesis by auto
qed

text \<open>
  The creation race. \<^verbatim>\<open>acquire\<close> looks the lock up and creates it in two steps without holding any
  mutex. The handlers that have found it missing each replace it by a fresh lock.
\<close>

lemma lock_run_append:
  "lock_run (es @ es') s = (case lock_run es s of None \<Rightarrow> None | Some s' \<Rightarrow> lock_run es' s')"
  by (induction es arbitrary: s) (auto split: option.splits)

lemma creation_grants:
  assumes "pcs s t = A_create lid"
  shows "lock_run (replicate 5 (Acquire t)) s =
    Some (goto t (Granted lid) (set_lock lid \<lparr>lm = None, lc = [], isLocked = True\<rparr> s))"
  using assms by (simp add: numeral_eq_Suc acquire_step_def entry_def lock_t_new_def Let_def)

lemma all_find_it_missing:
  assumes "distinct ts" and "\<forall>t \<in> set ts. pcs s t = Idle" and "locks s lid = None"
  shows "\<exists>s'. lock_run (concat (map (\<lambda>t. [Start t lid, Acquire t]) ts)) s = Some s' \<and>
    (\<forall>t. pcs s' t = (if t \<in> set ts then A_create lid else pcs s t))"
  using assms
proof (induction ts arbitrary: s)
  case (Cons t ts)
  let ?s = "goto t (A_create lid) s"
  have "lock_run [Start t lid, Acquire t] s = Some ?s"
    using Cons.prems by (simp add: acquire_step_def)
  moreover have "\<forall>u \<in> set ts. pcs ?s u = Idle" using Cons.prems(1,2) by auto
  ultimately show ?case using Cons.IH [of ?s] Cons.prems by (auto simp: acquire_step_def)
qed simp

lemma all_create_it:
  assumes "distinct ts" and "\<forall>t \<in> set ts. pcs s t = A_create lid"
  shows "\<exists>s'. lock_run (concat (map (\<lambda>t. replicate 5 (Acquire t)) ts)) s = Some s' \<and>
    (\<forall>t. pcs s' t = (if t \<in> set ts then Granted lid else pcs s t))"
  using assms
proof (induction ts arbitrary: s)
  case (Cons t ts)
  let ?s = "goto t (Granted lid) (set_lock lid \<lparr>lm = None, lc = [], isLocked = True\<rparr> s)"
  have "lock_run (replicate 5 (Acquire t)) s = Some ?s" using creation_grants Cons.prems(2) by simp
  moreover have "\<forall>u \<in> set ts. pcs ?s u = A_create lid" using Cons.prems by auto
  ultimately show ?case using Cons.IH [of ?s] Cons.prems(1) by (auto simp: lock_run_append)
qed simp

text \<open>
  C16. Mutual exclusion does not hold for the requests that create a lock: in every state in which a
  lock does not exist yet, any number of idle threads can all be granted it, when their handlers all
  find it missing before the first of them creates it.
\<close>

theorem creation_race_grants_all:
  assumes "distinct ts" and "\<forall>t \<in> set ts. pcs s t = Idle" and "locks s lid = None"
  shows "\<exists>es s'. lock_run es s = Some s' \<and> (\<forall>t \<in> set ts. pcs s' t = Granted lid \<and> owns lid (pcs s' t))"
proof -
  obtain s1 where s1: "lock_run (concat (map (\<lambda>t. [Start t lid, Acquire t]) ts)) s = Some s1"
    "\<forall>t \<in> set ts. pcs s1 t = A_create lid"
    using all_find_it_missing [OF assms] by auto
  obtain s2 where "lock_run (concat (map (\<lambda>t. replicate 5 (Acquire t)) ts)) s1 = Some s2"
    "\<forall>t \<in> set ts. pcs s2 t = Granted lid"
    using all_create_it [OF assms(1) s1(2)] by auto
  with s1(1) show ?thesis
    by (intro exI [of _ "concat (map (\<lambda>t. [Start t lid, Acquire t]) ts) @
      concat (map (\<lambda>t. replicate 5 (Acquire t)) ts)"] exI [of _ s2]) (simp add: lock_run_append)
qed

theorem creation_race_grants_all_witness:
  "\<exists>es s. lock_run es lock_server_new = Some s \<and> owns 1 (pcs s 0) \<and> owns 1 (pcs s 1) \<and> owns 1 (pcs s 2)"
  using creation_race_grants_all [of "[0, 1, 2]" lock_server_new 1] by (force simp: lock_server_new_def)

text \<open>The tester notices: the second thread's check ends the process.\<close>

theorem lock_creation_race:
  "\<exists>s. lock_run
    [Start 0 1, Start 1 1, Acquire 0, Acquire 1,
     Acquire 0, Acquire 0, Acquire 0, Acquire 0, Acquire 0, Client 0,
     Acquire 1, Acquire 1, Acquire 1, Acquire 1, Acquire 1, Client 1] lock_server_new = Some s \<and>
    pcs s 0 = Critical 1 \<and> pcs s 1 = Granted 1 \<and> exited s"
  by (simp add: lock_server_new_def acquire_step_def client_step_def check_grant_def entry_def
      lock_t_new_def Let_def)

end
