(* ===== verification/Lock_Client.thy ===== *)
theory Lock_Client
  imports Rpc_Call Lock_Server
begin

text \<open>
  The lock service over RPC: the stubs of \<^verbatim>\<open>src/lock_client.cc\<close>, the registration of the server's methods
  in \<^verbatim>\<open>src/lock_smain.cc\<close> and the program \<^verbatim>\<open>src/lock_demo.cc\<close>, composed with the RPC layer for one client
  whose handlers run one after the other. The interleaved handlers are the subject of the theory
  \<open>Lock_Server\<close>; here a handler runs alone, and one that has to wait is \<open>Blocked\<close>.
\<close>

section \<open>The handlers, run alone\<close>

text \<open>Thread \<open>t\<close> of the pool goes through \<^verbatim>\<open>acquire\<close>: six steps when it has to create the lock.\<close>

fun acquire_alone :: "nat \<Rightarrow> tid \<Rightarrow> lock_world \<Rightarrow> lock_world res" where
  "acquire_alone n t s =
     (case pcs s t of
        Granted lid \<Rightarrow> Inr (goto t Idle s)
      | _ \<Rightarrow>
          (case n of
             0 \<Rightarrow> Inl Blocked
           | Suc n \<Rightarrow> (case acquire_step t s of None \<Rightarrow> Inl Blocked | Some s \<Rightarrow> acquire_alone n t s)))"

fun release_alone :: "nat \<Rightarrow> tid \<Rightarrow> tid \<Rightarrow> lock_world \<Rightarrow> lock_world res" where
  "release_alone n t k s =
     (case pcs s t of
        Idle \<Rightarrow> Inr s
      | _ \<Rightarrow>
          (case n of
             0 \<Rightarrow> Inl Blocked
           | Suc n \<Rightarrow> (case release_step t k s of None \<Rightarrow> Inl Blocked | Some s \<Rightarrow> release_alone n t k s)))"

text \<open>
  The methods as the dispatcher sees them: status, result and new state. \<^verbatim>\<open>acquire\<close> and \<^verbatim>\<open>release\<close> leave the
  result \<^verbatim>\<open>r\<close> as it is.
\<close>

type_synonym lock_method = "i32 \<Rightarrow> lockid_t \<Rightarrow> i32 \<Rightarrow> lock_world \<Rightarrow> (i32 \<times> i32 \<times> lock_world) res"

definition stat_method :: lock_method where
  "stat_method clt lid r s = (let (ret, r) = lock_stat clt lid s in Inr (ret, r, s))"

definition acquire_method :: "tid \<Rightarrow> lock_method" where
  "acquire_method t clt lid r s =
     rbind (acquire_alone 6 t (goto t (A_check lid) s)) (\<lambda>s. Inr (lock_OK, r, s))"

definition release_method :: "tid \<Rightarrow> tid \<Rightarrow> lock_method" where
  "release_method t k clt lid r s =
     rbind (release_alone 4 t k (goto t (R_lock lid) s)) (\<lambda>s. Inr (lock_OK, r, s))"

text \<open>The handler object for a method of two arguments that may block.\<close>

definition lock_fn :: "i32 \<Rightarrow> lock_method \<Rightarrow> lock_world handler" where
  "lock_fn r0 meth args ret s =
     rbind (get_int 0 args) (\<lambda>(clt, args).
     rbind (get_u64 0 args) (\<lambda>(lid, args).
     if \<not> okdone args then Inr (unmarshal_args_failure, args, ret, s)
     else
       rbind (meth clt lid r0 s) (\<lambda>(b, r, s).
       rbind (put_int r ret) (\<lambda>ret. Inr (b, args, ret, s)))))"

section \<open>The server's main program\<close>

definition lock_smain :: "i32 \<Rightarrow> tid \<Rightarrow> tid \<Rightarrow> u32 \<Rightarrow> lock_world rpcs res" where
  "lock_smain r0 t k n =
     rbind (rpcs_new n 0 r0 lock_server_new) (\<lambda>s.
     rbind (reg1 proc_stat (lock_fn r0 stat_method) s) (\<lambda>s.
     rbind (reg1 proc_acquire (lock_fn r0 (acquire_method t)) s) (\<lambda>s.
     reg1 proc_release (lock_fn r0 (release_method t k)) s)))"

section \<open>The stubs\<close>

text \<open>Each stub asserts that the call succeeded and returns the result, not the status.\<close>

definition lock_client_new ::
  "(rpcc \<times> 'v) caller1 \<Rightarrow> i32 \<Rightarrow> u32 \<Rightarrow> 'v \<Rightarrow> (rpcc \<times> 'v) res" where
  "lock_client_new call1 r random v =
     rbind (rpcc_bind call1 r to_max (rpcc_new True random, v)) (\<lambda>(_, w). Inr w)"

definition lock_client_delete :: "rpcc \<times> 'v \<Rightarrow> (conn_call list \<times> conn_heap) res" where
  "lock_client_delete w = rpcc_delete (fst w)"

definition lock_client_stat ::
  "(rpcc \<times> 'v) caller1 \<Rightarrow> i32 \<Rightarrow> lockid_t \<Rightarrow> rpcc \<times> 'v \<Rightarrow> (i32 \<times> rpcc \<times> 'v) res" where
  "lock_client_stat call1 r lid w =
     rbind (rpcc_call2 put_u32 put_u64 call1 get_int proc_stat (clt_nonce (fst w)) lid r to_max w) (\<lambda>(ret, r, w).
     rbind (check (ret = lock_OK) Assert_failed) (\<lambda>_. Inr (r, w)))"

definition lock_client_acquire ::
  "(rpcc \<times> 'v) caller1 \<Rightarrow> i32 \<Rightarrow> lockid_t \<Rightarrow> rpcc \<times> 'v \<Rightarrow> (i32 \<times> rpcc \<times> 'v) res" where
  "lock_client_acquire call1 r lid w =
     rbind (rpcc_call2 put_u32 put_u64 call1 get_int proc_acquire (clt_nonce (fst w)) lid r to_max w) (\<lambda>(ret, r, w).
     rbind (check (ret = lock_OK) Assert_failed) (\<lambda>_. Inr (r, w)))"

definition lock_client_release ::
  "(rpcc \<times> 'v) caller1 \<Rightarrow> i32 \<Rightarrow> lockid_t \<Rightarrow> rpcc \<times> 'v \<Rightarrow> (i32 \<times> rpcc \<times> 'v) res" where
  "lock_client_release call1 r lid w =
     rbind (rpcc_call2 put_u32 put_u64 call1 get_int proc_release (clt_nonce (fst w)) lid r to_max w) (\<lambda>(ret, r, w).
     rbind (check (ret = lock_OK) Assert_failed) (\<lambda>_. Inr (r, w)))"

text \<open>\<^verbatim>\<open>lock_demo\<close>: the number it prints.\<close>

definition lock_demo :: "(rpcc \<times> 'v) caller1 \<Rightarrow> i32 \<Rightarrow> u32 \<Rightarrow> 'v \<Rightarrow> i32 res" where
  "lock_demo call1 r random v =
     rbind (lock_client_new call1 r random v) (\<lambda>w.
     rbind (lock_client_stat call1 r 1 w) (\<lambda>(r, w). Inr r))"

section \<open>The first test of the tester\<close>

text \<open>
  \<^verbatim>\<open>test1\<close> of \<^verbatim>\<open>src/lock_tester.cc\<close>, with its table of counts \<open>c\<close>; a check that ends the process is
  \<open>Assert_failed\<close>.
\<close>

definition acquire_checked ::
  "(rpcc \<times> 'v) caller1 \<Rightarrow> i32 \<Rightarrow> lockid_t \<Rightarrow> (u8 \<Rightarrow> int) \<times> rpcc \<times> 'v \<Rightarrow> ((u8 \<Rightarrow> int) \<times> rpcc \<times> 'v) res" where
  "acquire_checked call1 r lid = (\<lambda>(c, w).
     rbind (lock_client_acquire call1 r lid w) (\<lambda>(_, w).
     case check_grant lid c of None \<Rightarrow> Inl Assert_failed | Some c \<Rightarrow> Inr (c, w)))"

definition release_checked ::
  "(rpcc \<times> 'v) caller1 \<Rightarrow> i32 \<Rightarrow> lockid_t \<Rightarrow> (u8 \<Rightarrow> int) \<times> rpcc \<times> 'v \<Rightarrow> ((u8 \<Rightarrow> int) \<times> rpcc \<times> 'v) res" where
  "release_checked call1 r lid = (\<lambda>(c, w).
     rbind (lock_client_release call1 r lid w) (\<lambda>(_, w).
     case check_release lid c of None \<Rightarrow> Inl Assert_failed | Some c \<Rightarrow> Inr (c, w)))"

definition test1 ::
  "(rpcc \<times> 'v) caller1 \<Rightarrow> i32 \<Rightarrow> (u8 \<Rightarrow> int) \<times> rpcc \<times> 'v \<Rightarrow> ((u8 \<Rightarrow> int) \<times> rpcc \<times> 'v) res" where
  "test1 call1 r s =
     rbind (acquire_checked call1 r 1 s) (\<lambda>s.
     rbind (release_checked call1 r 1 s) (\<lambda>s.
     rbind (acquire_checked call1 r 1 s) (\<lambda>s.
     rbind (release_checked call1 r 1 s) (\<lambda>s.
     rbind (acquire_checked call1 r 1 s) (\<lambda>s.
     rbind (acquire_checked call1 r 2 s) (\<lambda>s.
     rbind (release_checked call1 r 2 s) (\<lambda>s.
     release_checked call1 r 1 s)))))))"

section \<open>Requests one after the other\<close>

datatype lock_req = Acq lockid_t | Rel lockid_t | Sta lockid_t

fun lock_client_step ::
  "(rpcc \<times> 'v) caller1 \<Rightarrow> i32 \<Rightarrow> lock_req \<Rightarrow> rpcc \<times> 'v \<Rightarrow> (i32 \<times> rpcc \<times> 'v) res" where
  "lock_client_step call1 r (Acq lid) w = lock_client_acquire call1 r lid w"
| "lock_client_step call1 r (Rel lid) w = lock_client_release call1 r lid w"
| "lock_client_step call1 r (Sta lid) w = lock_client_stat call1 r lid w"

fun lock_client_run ::
  "(rpcc \<times> 'v) caller1 \<Rightarrow> i32 \<Rightarrow> lock_req list \<Rightarrow> rpcc \<times> 'v \<Rightarrow> (i32 list \<times> rpcc \<times> 'v) res" where
  "lock_client_run call1 r [] w = Inr ([], w)"
| "lock_client_run call1 r (q # qs) w =
     rbind (lock_client_step call1 r q w) (\<lambda>(a, w).
     rbind (lock_client_run call1 r qs w) (\<lambda>(as, w). Inr (a # as, w)))"

text \<open>The abstract service: the set of locks that are held. A lock is acquired only when it is free.\<close>

fun held_step :: "lock_req \<Rightarrow> lockid_t set \<Rightarrow> lockid_t set" where
  "held_step (Acq lid) H = insert lid H"
| "held_step (Rel lid) H = H - {lid}"
| "held_step (Sta lid) H = H"

fun lawful :: "lock_req list \<Rightarrow> lockid_t set \<Rightarrow> bool" where
  "lawful [] H \<longleftrightarrow> True"
| "lawful (q # qs) H \<longleftrightarrow> (case q of Acq lid \<Rightarrow> lid \<notin> H | _ \<Rightarrow> True) \<and> lawful qs (held_step q H)"

fun answer :: "i32 \<Rightarrow> lock_req \<Rightarrow> i32" where
  "answer r0 (Sta lid) = 0"
| "answer r0 _ = r0"

text \<open>Between two requests no thread is inside a handler.\<close>

definition quiet :: "lockid_t set \<Rightarrow> lock_world \<Rightarrow> bool" where
  "quiet H s \<longleftrightarrow>
     (\<forall>t. pcs s t = Idle) \<and> nacquire s = 0 \<and>
     (\<forall>lid. lm (entry (locks s) lid) = None \<and> lc (entry (locks s) lid) = [] \<and>
        (isLocked (entry (locks s) lid) \<longleftrightarrow> lid \<in> H))"

lemma acquire_quiet:
  assumes "quiet H s" and "lid \<notin> H"
  shows "\<exists>s'. acquire_method t clt lid r s = Inr (lock_OK, r, s') \<and> quiet (insert lid H) s'"
proof -
  have e: "lm (entry (locks s) lid) = None" "\<not> isLocked (entry (locks s) lid)" using assms by (simp_all add: quiet_def)
  let ?l = "(entry (locks s) lid)\<lparr>isLocked := True, lm := None\<rparr>"
  have "acquire_alone 6 t (goto t (A_check lid) s) = Inr (goto t Idle (set_lock lid ?l s))"
    using e by (cases "locks s lid")
      (simp_all add: acquire_step_def entry_def numeral_eq_Suc Let_def lock_t_new_def)
  moreover have "quiet (insert lid H) (goto t Idle (set_lock lid ?l s))"
    using assms by (auto simp: quiet_def entry_def)
  ultimately show ?thesis by (simp add: acquire_method_def)
qed

lemma release_quiet:
  assumes "quiet H s"
  shows "\<exists>s'. release_method t k clt lid r s = Inr (lock_OK, r, s') \<and> quiet (H - {lid}) s'"
proof -
  have e: "lm (entry (locks s) lid) = None" "lc (entry (locks s) lid) = []" using assms by (simp_all add: quiet_def)
  let ?l = "(entry (locks s) lid)\<lparr>isLocked := False, lm := None\<rparr>"
  have "release_alone 4 t k (goto t (R_lock lid) s) = Inr (goto t Idle (set_lock lid ?l s))"
    using e by (simp add: release_step_def entry_def numeral_eq_Suc Let_def)
  moreover have "quiet (H - {lid}) (goto t Idle (set_lock lid ?l s))"
    using assms by (auto simp: quiet_def entry_def)
  ultimately show ?thesis by (simp add: release_method_def)
qed

section \<open>Over the network\<close>

interpretation lock_args: pair_codec put_int get_int be32 0 "\<lambda>_. True" put_u64 get_u64 be64 0 "\<lambda>_. True"
  by unfold_locales

interpretation lock_remote: remote_method "put_pair put_int put_u64" "get_pair get_int get_u64"
  "\<lambda>p. be32 (fst p) @ be64 (snd p)" "(0, 0)" "\<lambda>p. True \<and> True" put_int get_int be32 "\<lambda>_. True"
  by unfold_locales

lemma put_u32_int: "put_u32 = put_int"
  by (simp add: fun_eq_iff put_int_def)

lemma lock_fn_runs:
  assumes "received (be32 clt @ be64 lid) u" and "meth clt lid r0 s = Inr (ret, r', s')"
  shows "\<exists>u'. lock_fn r0 meth u m s = rbind (put_int r' m) (\<lambda>m. Inr (ret, u', m, s'))"
proof -
  obtain u1 where u1: "get_int 0 u = Inr (clt, u1)" "received (be64 lid) u1"
    using int_codec.get_decodes [of u clt "be64 lid"] assms(1) by (auto simp: received_def reads_def)
  obtain u2 where u2: "get_u64 0 u1 = Inr (lid, u2)" "received [] u2"
    using u64_codec.get_decodes [of u1 lid "[]"] u1(2) by (auto simp: received_def reads_def)
  have "okdone u2" using u2(2) unread_length [of u2] by (simp add: received_def okdone_def)
  with u1(1) u2(1) assms(2) show ?thesis by (auto simp: lock_fn_def)
qed

definition lock_procs :: "i32 \<Rightarrow> tid \<Rightarrow> tid \<Rightarrow> lock_world rpcs \<Rightarrow> bool" where
  "lock_procs r0 i k s \<longleftrightarrow>
     procs s proc_stat = Some (lock_fn r0 stat_method) \<and>
     procs s proc_acquire = Some (lock_fn r0 (acquire_method i)) \<and>
     procs s proc_release = Some (lock_fn r0 (release_method i k))"

lemmas lock_consts = proc_stat_def proc_acquire_def proc_release_def lock_OK_def

lemma lock_smain_registers:
  "\<exists>s. lock_smain r0 i k n = Inr s \<and> lock_procs r0 i k s \<and> nonce s = n \<and> obj s = lock_server_new \<and>
    conns s = Map.empty \<and> counting s = 0 \<and> reply_window s = Map.empty \<and>
    procs s rpc_bind = Some (h1_fn get_int 0 put_int r0 (rpcbind n))"
  by (simp add: lock_smain_def rpcs_new_def reg1_def lock_procs_def lock_consts rpc_consts)

text \<open>A call of one of the three methods.\<close>

lemma lock_call:
  assumes linked: "linked fresh c d w" and net: "\<And>m. carried m (net m)" and now: "ts_normal now" "0 < tv_sec now"
    and p: "bind_done (fst w)" "proc \<noteq> rpc_bind" "procs (snd w) proc = Some (lock_fn r0 meth)"
    and meth: "meth clt lid r0 (obj (snd w)) = Inr (lock_OK, r', x)"
  shows "\<exists>w'. rpcc_call2 put_u32 put_u64 (exchange fresh net t d now) get_int proc clt lid r to_max w =
      Inr (lock_OK, r', w') \<and>
    obj (snd w') = x \<and> procs (snd w') = procs (snd w) \<and>
    next_xid (fst w') = next_xid (fst w) + 1 \<and> bind_done (fst w') = bind_done (fst w) \<and>
    (next_xid (fst w) < next_xid (fst w) + 1 \<longrightarrow> linked fresh c d w')"
proof -
  have "(proc = rpc_bind) \<noteq> bind_done (fst w)" "0 \<le> to_max" "0 \<le>s lock_OK"
    using p by (simp_all add: to_max_def lock_OK_def)
  note pre = this
  have f: "\<exists>u'. lock_fn r0 meth u m (obj (snd w)) = rbind (put_int r' m) (\<lambda>m. Inr (lock_OK, u', m, x))"
    if "received (be32 (fst (clt, lid)) @ be64 (snd (clt, lid))) u" for u m
    using that meth by (auto intro: lock_fn_runs)
  have lim: "True \<and> True" "int (length (be32 (fst (clt, lid)) @ be64 (snd (clt, lid)))) + 24 < msg_limit"
      "int (length (be32 r')) + 24 < msg_limit" by (simp_all add: limits)
  from lock_remote.remote_handled [OF linked net pre(1) now pre(2) p(3) f pre(3) lim(1,2) TrueI lim(3), of t r]
  show ?thesis by (auto simp: call2_as_call1 put_u32_int)
qed

lemma lock_remote_step:
  assumes linked: "linked fresh c d w" and net: "\<And>m. carried m (net m)" and now: "ts_normal now" "0 < tv_sec now"
    and w: "bind_done (fst w)" "lock_procs r0 i k (snd w)" "quiet H (obj (snd w))"
    and q: "case q of Acq lid \<Rightarrow> lid \<notin> H | _ \<Rightarrow> True"
  shows "\<exists>w'. lock_client_step (exchange fresh net t d now) r q w = Inr (answer r0 q, w') \<and>
    quiet (held_step q H) (obj (snd w')) \<and> lock_procs r0 i k (snd w') \<and>
    next_xid (fst w') = next_xid (fst w) + 1 \<and> bind_done (fst w') \<and>
    (next_xid (fst w) < next_xid (fst w) + 1 \<longrightarrow> linked fresh c d w')"
proof -
  have p: "proc_stat \<noteq> rpc_bind" "proc_acquire \<noteq> rpc_bind" "proc_release \<noteq> rpc_bind"
    by (simp_all add: lock_consts rpc_consts)
  have ps: "procs (snd w) proc_stat = Some (lock_fn r0 stat_method)"
      "procs (snd w) proc_acquire = Some (lock_fn r0 (acquire_method i))"
      "procs (snd w) proc_release = Some (lock_fn r0 (release_method i k))"
    using w(2) by (simp_all add: lock_procs_def)
  have keep: "lock_procs r0 i k v" if "procs v = procs (snd w)" for v using that w(2) by (simp add: lock_procs_def)
  note call = lock_call [OF linked net now w(1)]
  show ?thesis
  proof (cases q)
    case (Acq lid)
    obtain x where x: "acquire_method i (clt_nonce (fst w)) lid r0 (obj (snd w)) = Inr (lock_OK, r0, x)" "quiet (insert lid H) x"
      using acquire_quiet [OF w(3), of lid i "clt_nonce (fst w)" r0] q Acq by auto
    from call [OF p(2) ps(2) x(1), of t r] x(2) keep w(1) show ?thesis by (auto simp: Acq lock_client_acquire_def)
  next
    case (Rel lid)
    obtain x where x: "release_method i k (clt_nonce (fst w)) lid r0 (obj (snd w)) = Inr (lock_OK, r0, x)" "quiet (H - {lid}) x"
      using release_quiet [OF w(3), of i k "clt_nonce (fst w)" lid r0] by auto
    from call [OF p(3) ps(3) x(1), of t r] x(2) keep w(1) show ?thesis by (auto simp: Rel lock_client_release_def)
  next
    case (Sta lid)
    have "stat_method (clt_nonce (fst w)) lid r0 (obj (snd w)) = Inr (lock_OK, 0, obj (snd w))"
      using w(3) by (simp add: stat_method_def lock_stat_def quiet_def)
    from call [OF p(1) ps(1) this, of t r] w(1,3) keep show ?thesis by (auto simp: Sta lock_client_stat_def)
  qed
qed

lemma lock_remote_run:
  assumes net: "\<And>m. carried m (net m)" and now: "ts_normal now" "0 < tv_sec now"
  shows "linked fresh c d w \<Longrightarrow> bind_done (fst w) \<Longrightarrow> lock_procs r0 i k (snd w) \<Longrightarrow> quiet H (obj (snd w)) \<Longrightarrow>
    lawful qs H \<Longrightarrow> unat (next_xid (fst w)) + length qs < 2 ^ 32 \<Longrightarrow>
    \<exists>w'. lock_client_run (exchange fresh net t d now) r qs w = Inr (map (answer r0) qs, w') \<and>
      quiet (fold held_step qs H) (obj (snd w'))"
proof (induction qs arbitrary: w H)
  case (Cons q qs)
  obtain w1 where w1: "lock_client_step (exchange fresh net t d now) r q w = Inr (answer r0 q, w1)"
      "quiet (held_step q H) (obj (snd w1))" "lock_procs r0 i k (snd w1)" "next_xid (fst w1) = next_xid (fst w) + 1"
      "bind_done (fst w1)" "next_xid (fst w) < next_xid (fst w) + 1 \<longrightarrow> linked fresh c d w1"
    using lock_remote_step [OF Cons.prems(1) net now Cons.prems(2-4), of q t r] Cons.prems(5) by auto
  have x: "next_xid (fst w) < next_xid (fst w) + 1" "unat (next_xid (fst w) + 1) = unat (next_xid (fst w)) + 1"
    using Cons.prems(6) by (simp_all add: word_less_nat_alt unat_add_lem [THEN iffD1])
  from Cons.IH [of w1 "held_step q H"] w1 x Cons.prems(5,6) obtain w'
    where "lock_client_run (exchange fresh net t d now) r qs w1 = Inr (map (answer r0) qs, w')"
      "quiet (fold held_step qs (held_step q H)) (obj (snd w'))"
    by auto
  with w1(1) show ?case by auto
qed auto

text \<open>What the checks of the test see of a run.\<close>

lemma test1_run:
  assumes "lock_client_run call1 r [Acq 1, Rel 1, Acq 1, Rel 1, Acq 1, Acq 2, Rel 2, Rel 1] w = Inr (as, w')"
  shows "test1 call1 r (\<lambda>_. 0, w) = Inr (\<lambda>_. 0, w')"
proof -
  have "(\<lambda>_. 0 :: int)(1 := 0) = (\<lambda>_ :: u8. 0)" "(\<lambda>_ :: u8. 0 :: int)(1 := 1, 2 := 0) = (\<lambda>_. 0)(1 := 1)" by auto
  with assms show ?thesis
    by (auto simp: test1_def acquire_checked_def release_checked_def rbind_eq_Inr check_grant_def check_release_def
        fun_upd_same fun_upd_other simp del: fun_upd_apply)
qed

section \<open>Properties\<close>

text \<open>
  C6. The lock service works over RPC for one client. A client made and bound over a network that neither
  loses nor damages messages, talking to a server started by \<^verbatim>\<open>lock_smain\<close>, makes any sequence of requests
  in which only free locks are acquired: every call returns, and afterwards the server has exactly the
  locks acquired and not released. What \<^verbatim>\<open>acquire\<close> and \<^verbatim>\<open>release\<close> return to the client is not a status but
  the value that the server's handler never assigned; \<^verbatim>\<open>stat\<close>, and so \<^verbatim>\<open>lock_demo\<close>, always says 0. The
  first test of the lock tester passes.
\<close>

theorem lock_service_over_rpc:
  assumes "\<And>m. carried m (net m)" and "ts_normal now" and "0 < tv_sec now"
    and "random \<noteq> 0" and "\<not> dead ck" "1 \<le> refno ck" "\<not> dead kd" "1 \<le> refno kd"
    and "lock_smain r0 i k n = Inr sv" and "lawful qs {}" and "length qs + 3 < 2 ^ 32"
  shows "\<exists>w w'. lock_client_new (exchange (Some (c, ck)) net t d now) r random (sv\<lparr>heap := [d \<mapsto> kd]\<rparr>) = Inr w \<and>
    lock_client_run (exchange (Some (c, ck)) net t d now) r qs w = Inr (map (answer r0) qs, w') \<and>
    {lid. isLocked (entry (locks (obj (snd w'))) lid)} = fold held_step qs {} \<and>
    lock_demo (exchange (Some (c, ck)) net t d now) r random (sv\<lparr>heap := [d \<mapsto> kd]\<rparr>) = Inr 0 \<and>
    (\<exists>v. test1 (exchange (Some (c, ck)) net t d now) r (\<lambda>_. 0, w) = Inr (\<lambda>_. 0, v))"
proof -
  let ?sv = "sv\<lparr>heap := [d \<mapsto> kd]\<rparr>" and ?ex = "exchange (Some (c, ck)) net t d now"
  have sv: "lock_procs r0 i k sv" "nonce sv = n" "obj sv = lock_server_new" "conns sv = Map.empty"
      "counting sv = 0" "reply_window sv = Map.empty"
      "procs sv rpc_bind = Some (h1_fn get_int 0 put_int r0 (rpcbind n))"
    using lock_smain_registers [of r0 i k n] assms(9) by auto
  have l: "linked (Some (c, ck)) c d (rpcc_new True random, ?sv)"
    using assms(4-8) sv(4-6) by (intro new_linked [of _ _ _ _ kd]) simp_all
  obtain w where w: "rpcc_bind ?ex r to_max (rpcc_new True random, ?sv) = Inr (0, w)"
      "linked (Some (c, ck)) c d w" "bind_done (fst w)" "next_xid (fst w) = 2"
      "procs (snd w) = procs sv" "obj (snd w) = obj sv"
    using bind_links [OF l assms(1) _ assms(2,3), of to_max r0 t r] sv(2,7)
    by (auto simp: rpcc_new_def to_max_def)
  have new: "lock_client_new ?ex r random ?sv = Inr w" using w(1) by (simp add: lock_client_new_def)
  have q: "quiet {} (obj (snd w))" "lock_procs r0 i k (snd w)"
    using w(5,6) sv(1,3) by (simp_all add: quiet_def lock_server_new_def entry_def lock_t_new_def lock_procs_def)
  note run = lock_remote_run [OF assms(1-3) w(2,3) q(2,1), of _ t r]
  obtain w' where "lock_client_run ?ex r qs w = Inr (map (answer r0) qs, w')" "quiet (fold held_step qs {}) (obj (snd w'))"
    using run [of qs] assms(10,11) w(4) by auto
  moreover have "\<exists>v. lock_client_stat ?ex r 1 w = Inr (0, v)"
    using run [of "[Sta 1]"] w(4) by (auto simp: rbind_eq_Inr)
  moreover have "\<exists>v. test1 ?ex r (\<lambda>_. 0, w) = Inr (\<lambda>_. 0, v)"
    using run [of "[Acq 1, Rel 1, Acq 1, Rel 1, Acq 1, Acq 2, Rel 2, Rel 1]"] w(4) test1_run [of ?ex r w]
    by (auto simp del: lock_client_run.simps)
  ultimately show ?thesis using new by (intro exI [of _ w] exI [of _ w']) (auto simp: lock_demo_def quiet_def)
qed

theorem lock_service_over_rpc_witness:
  "\<exists>sv w w'. lock_smain 99 0 0 9 = Inr sv \<and>
    lock_client_new (exchange (Some (3, fst (connection_new 4 0))) (map (\<lambda>v. case v of None \<Rightarrow> 0xFF | Some x \<Rightarrow> x))
      1 6 \<lparr>tv_sec = 100, tv_nsec = 0\<rparr>) 0 8 (sv\<lparr>heap := [6 \<mapsto> fst (connection_new 5 0)]\<rparr>) = Inr w \<and>
    lock_client_run (exchange (Some (3, fst (connection_new 4 0))) (map (\<lambda>v. case v of None \<Rightarrow> 0xFF | Some x \<Rightarrow> x))
      1 6 \<lparr>tv_sec = 100, tv_nsec = 0\<rparr>) 0 [Acq 1, Acq 2, Sta 1, Rel 1, Acq 1, Rel 2] w = Inr ([99, 99, 0, 99, 99, 99], w') \<and>
    {lid. isLocked (entry (locks (obj (snd w'))) lid)} = {1}"
proof -
  let ?net = "map (\<lambda>v. case v of None \<Rightarrow> 0xFF | Some x \<Rightarrow> x) :: block \<Rightarrow> u8 list"
  have net: "carried m (?net m)" for m by (auto simp: carried_def)
  obtain sv where sv: "lock_smain 99 0 0 9 = Inr sv" using lock_smain_registers [of 99 0 0 9] by blast
  have "lawful [Acq 1, Acq 2, Sta 1, Rel 1, Acq 1, Rel 2] {}"
      "fold held_step [Acq 1, Acq 2, Sta 1, Rel 1, Acq 1, Rel 2] {} = {1}" by auto
  with lock_service_over_rpc [OF net _ _ _ _ _ _ _ sv, of "\<lparr>tv_sec = 100, tv_nsec = 0\<rparr>" 8
      "fst (connection_new 4 0)" "fst (connection_new 5 0)" "[Acq 1, Acq 2, Sta 1, Rel 1, Acq 1, Rel 2]" 3 1 6 0] sv
  show ?thesis
    by (auto simp: ts_normal_def connection_new_def simp del: lock_client_run.simps fold_simps lawful.simps)
qed

end
