(* ===== verification/Lock_Tester.thy ===== *)
theory Lock_Tester
  imports Lock_Server
begin

text \<open>
  The lock tester, \<^verbatim>\<open>src/lock_tester.cc\<close>, against the lock server: the program's threads with the five
  tests, the handlers they cause at the server, one thread of the server's pool for each, and all
  interleavings of these. The number \<open>nt\<close> of threads and the size \<open>np\<close> of the pool are parameters; both are
  ten in the code. Shown are that the checks of the tester pass, that it ends, and why the tests after
  the first cannot be run alone.
\<close>

section \<open>The program\<close>

text \<open>
  What a thread does, in order. \<open>Acq c lid\<close> and \<open>Rel c lid\<close> are calls of \<^verbatim>\<open>acquire\<close> and \<^verbatim>\<open>release\<close> on the client
  \<^verbatim>\<open>lc[c]\<close>; \<open>Create i p\<close> starts the thread \<^verbatim>\<open>th[i]\<close> with program \<open>p\<close>, \<open>Join i\<close> waits for its end.
\<close>

datatype action =
    Acq nat lockid_t | Rel nat lockid_t
  | Check_grant lockid_t | Check_release lockid_t | Sleep
  | Create nat "action list" | Join nat

definition lid_a :: lockid_t where
  "lid_a = 1"

definition lid_b :: lockid_t where
  "lid_b = 2"

definition tester_test1 :: "action list" where
  "tester_test1 =
     [Acq 0 lid_a, Check_grant lid_a, Rel 0 lid_a, Check_release lid_a,
      Acq 0 lid_a, Check_grant lid_a, Rel 0 lid_a, Check_release lid_a,
      Acq 0 lid_a, Check_grant lid_a, Acq 0 lid_b, Check_grant lid_b,
      Rel 0 lid_b, Check_release lid_b, Rel 0 lid_a, Check_release lid_a]"

definition tester_test2 :: "nat \<Rightarrow> action list" where
  "tester_test2 i = [Acq i lid_a, Check_grant lid_a, Sleep, Check_release lid_a, Rel i lid_a]"

definition tester_test3 :: "nat \<Rightarrow> action list" where
  "tester_test3 i =
     concat (replicate 10 [Acq i lid_a, Check_grant lid_a, Check_release lid_a, Rel i lid_a])"

definition tester_test4 :: "nat \<Rightarrow> action list" where
  "tester_test4 i =
     concat (replicate 10 [Acq 0 lid_a, Check_grant lid_a, Check_release lid_a, Rel 0 lid_a])"

definition tester_test5 :: "nat \<Rightarrow> action list" where
  "tester_test5 i =
     concat (replicate 10
       ((if i < 5 then [Acq 0 lid_a] else [Acq 1 lid_a]) @ [Check_grant lid_a, Check_release lid_a] @
        (if i < 5 then [Rel 0 lid_a] else [Rel 1 lid_a])))"

text \<open>One round of \<^verbatim>\<open>main\<close>: start threads and wait for all of them.\<close>

definition start_and_join :: "nat \<Rightarrow> (nat \<Rightarrow> action list) \<Rightarrow> action list" where
  "start_and_join n body = map (\<lambda>i. Create i (body i)) [0..<n] @ map Join [0..<n]"

text \<open>The test chosen on the command line, 0 when there is no argument; \<open>None\<close> is \<^verbatim>\<open>exit(1)\<close>.\<close>

definition tester_select :: "int option \<Rightarrow> int option" where
  "tester_select arg =
     (case arg of
        None \<Rightarrow> Some 0
      | Some test \<Rightarrow> if test < 1 \<or> test > 5 then None else Some test)"

definition tester_main :: "nat \<Rightarrow> int \<Rightarrow> action list" where
  "tester_main nt test =
     (if test = 0 \<or> test = 1 then tester_test1 else []) @
     (if test = 0 \<or> test = 2 then start_and_join nt tester_test2 else []) @
     (if test = 0 \<or> test = 3 then start_and_join nt tester_test3 else []) @
     (if test = 0 \<or> test = 4 then start_and_join 2 tester_test4 else []) @
     (if test = 0 \<or> test = 5 then start_and_join nt tester_test5 else [])"

section \<open>Executions\<close>

text \<open>
  Thread 0 is the main thread, \<open>Suc i\<close> is \<^verbatim>\<open>th[i]\<close>. \<open>todo\<close> is what is left of a thread's program. The
  handler that serves the requests of thread \<open>t\<close> for a lock has the number \<open>slot t lid\<close>, which depends on
  the low byte of the lock only, as the table of the tester does.
\<close>

record tester =
  srv :: lock_world
  todo :: "nat \<Rightarrow> action list"

definition slot :: "nat \<Rightarrow> lockid_t \<Rightarrow> tid" where
  "slot t lid = 256 * t + unat (lid AND 0xFF)"

fun in_handler :: "pc \<Rightarrow> bool" where
  "in_handler Idle \<longleftrightarrow> False"
| "in_handler (Granted k) \<longleftrightarrow> False"
| "in_handler (Critical k) \<longleftrightarrow> False"
| "in_handler _ \<longleftrightarrow> True"

text \<open>A request waits until a thread of the pool is free.\<close>

definition pool_free :: "nat \<Rightarrow> nat \<Rightarrow> lock_world \<Rightarrow> bool" where
  "pool_free np nt v \<longleftrightarrow>
     length (filter (\<lambda>h. in_handler (pcs v h)) [slot t lid. t \<leftarrow> [0..<Suc nt], lid \<leftarrow> [lid_a, lid_b]]) < np"

abbreviation pop :: "nat \<Rightarrow> action list \<Rightarrow> tester \<Rightarrow> tester" where
  "pop t p s \<equiv> s\<lparr>todo := (todo s)(t := p)\<rparr>"

text \<open>
  A call of \<^verbatim>\<open>acquire\<close>: the request arrives, the handler goes through its steps, the call returns when it
  is granted. A call of \<^verbatim>\<open>release\<close> returns when its handler is through; \<open>w\<close> is the thread that the
  signal wakes.
\<close>

definition call_acquire :: "nat \<Rightarrow> nat \<Rightarrow> nat \<Rightarrow> lockid_t \<Rightarrow> action list \<Rightarrow> tester \<Rightarrow> tester option" where
  "call_acquire np nt t lid p s =
     (let h = slot t lid in
      if pcs (srv s) h = Idle
      then if pool_free np nt (srv s) then Some (s\<lparr>srv := goto h (A_check lid) (srv s)\<rparr>) else None
      else
        case acquire_step h (srv s) of
          None \<Rightarrow> None
        | Some v \<Rightarrow> Some (if pcs v h = Granted lid then pop t p (s\<lparr>srv := v\<rparr>) else s\<lparr>srv := v\<rparr>))"

definition call_release :: "nat \<Rightarrow> nat \<Rightarrow> nat \<Rightarrow> lockid_t \<Rightarrow> tid \<Rightarrow> action list \<Rightarrow> tester \<Rightarrow> tester option" where
  "call_release np nt t lid w p s =
     (let h = slot t lid in
      if \<not> in_handler (pcs (srv s) h)
      then if pool_free np nt (srv s) then Some (s\<lparr>srv := goto h (R_lock lid) (srv s)\<rparr>) else None
      else
        case release_step h w (srv s) of
          None \<Rightarrow> None
        | Some v \<Rightarrow> Some (if pcs v h = Idle then pop t p (s\<lparr>srv := v\<rparr>) else s\<lparr>srv := v\<rparr>))"

text \<open>A check that fails ends the process.\<close>

definition checked :: "nat \<Rightarrow> action list \<Rightarrow> (u8 \<Rightarrow> int) option \<Rightarrow> tester \<Rightarrow> tester" where
  "checked t p c s =
     (case c of
        None \<Rightarrow> s\<lparr>srv := (srv s)\<lparr>exited := True\<rparr>\<rparr>
      | Some c \<Rightarrow> pop t p (s\<lparr>srv := (srv s)\<lparr>ct := c\<rparr>\<rparr>))"

definition tester_step :: "nat \<Rightarrow> nat \<Rightarrow> nat \<Rightarrow> tid \<Rightarrow> tester \<Rightarrow> tester option" where
  "tester_step np nt t w s =
     (if exited (srv s) then None
      else
        case todo s t of
          [] \<Rightarrow> None
        | Acq c lid # p \<Rightarrow> call_acquire np nt t lid p s
        | Rel c lid # p \<Rightarrow> call_release np nt t lid w p s
        | Check_grant lid # p \<Rightarrow> Some (checked t p (check_grant lid (ct (srv s))) s)
        | Check_release lid # p \<Rightarrow> Some (checked t p (check_release lid (ct (srv s))) s)
        | Sleep # p \<Rightarrow> Some (pop t p s)
        | Create i q # p \<Rightarrow> Some (pop (Suc i) q (pop t p s))
        | Join i # p \<Rightarrow> if todo s (Suc i) = [] then Some (pop t p s) else None)"

text \<open>\<open>Spurious h\<close>: the wait of handler \<open>h\<close> ends without a signal.\<close>

datatype tester_event = Step nat tid | Spurious tid

fun tester_exec :: "nat \<Rightarrow> nat \<Rightarrow> tester_event \<Rightarrow> tester \<Rightarrow> tester option" where
  "tester_exec np nt (Step t w) s = tester_step np nt t w s"
| "tester_exec np nt (Spurious h) s =
     (if exited (srv s) then None
      else case lock_exec (Wake h) (srv s) of None \<Rightarrow> None | Some v \<Rightarrow> Some (s\<lparr>srv := v\<rparr>))"

fun tester_run :: "nat \<Rightarrow> nat \<Rightarrow> tester_event list \<Rightarrow> tester \<Rightarrow> tester option" where
  "tester_run np nt [] s = Some s"
| "tester_run np nt (e # es) s =
     (case tester_exec np nt e s of None \<Rightarrow> None | Some s \<Rightarrow> tester_run np nt es s)"

definition tester_new :: "nat \<Rightarrow> int \<Rightarrow> tester" where
  "tester_new nt test = \<lparr>srv = lock_server_new, todo = (\<lambda>_. [])(0 := tester_main nt test)\<rparr>"

section \<open>Programs in good order\<close>

text \<open>Of the actions that satisfy \<open>P\<close> or \<open>Q\<close> the first one satisfies \<open>P\<close>.\<close>

fun upcoming :: "(action \<Rightarrow> bool) \<Rightarrow> (action \<Rightarrow> bool) \<Rightarrow> action list \<Rightarrow> bool" where
  "upcoming P Q [] \<longleftrightarrow> False"
| "upcoming P Q (x # p) \<longleftrightarrow> P x \<or> \<not> Q x \<and> upcoming P Q p"

fun is_acq :: "lockid_t \<Rightarrow> action \<Rightarrow> bool" where
  "is_acq lid (Acq c k) \<longleftrightarrow> k = lid" | "is_acq lid _ \<longleftrightarrow> False"

fun is_rel :: "lockid_t \<Rightarrow> action \<Rightarrow> bool" where
  "is_rel lid (Rel c k) \<longleftrightarrow> k = lid" | "is_rel lid _ \<longleftrightarrow> False"

fun is_create :: "action \<Rightarrow> bool" where
  "is_create (Create i q) \<longleftrightarrow> True" | "is_create _ \<longleftrightarrow> False"

fun on_lock :: "action \<Rightarrow> bool" where
  "on_lock (Create i q) \<longleftrightarrow> False" | "on_lock (Join i) \<longleftrightarrow> False" | "on_lock _ \<longleftrightarrow> True"

text \<open>
  Of a program that is still to be done: whether its thread holds the lock, whether it has counted the
  lock, whether it has still to wait for thread \<open>i\<close>.
\<close>

abbreviation held :: "lockid_t \<Rightarrow> action list \<Rightarrow> bool" where
  "held lid \<equiv> upcoming (is_rel lid) (is_acq lid)"

abbreviation counted :: "lockid_t \<Rightarrow> action list \<Rightarrow> bool" where
  "counted lid \<equiv> upcoming (\<lambda>x. x = Check_release lid) (\<lambda>x. x = Check_grant lid)"

abbreviation awaited :: "nat \<Rightarrow> action list \<Rightarrow> bool" where
  "awaited i \<equiv> upcoming (\<lambda>x. x = Join i) (\<lambda>x. \<exists>q. x = Create i q)"

abbreviation lockfree :: "action list \<Rightarrow> bool" where
  "lockfree p \<equiv> \<forall>x \<in> set p. \<not> on_lock x"

text \<open>Locks are taken and given back in turn, and the checks of a lock come in turn, after a grant.\<close>

fun lock_ok :: "lockid_t set \<Rightarrow> action list \<Rightarrow> bool" where
  "lock_ok K [] \<longleftrightarrow> True"
| "lock_ok K (Acq c k # p) \<longleftrightarrow> k \<in> K \<and> held k p \<and> \<not> counted k p \<and> lock_ok K p"
| "lock_ok K (Rel c k # p) \<longleftrightarrow> k \<in> K \<and> \<not> held k p \<and> lock_ok K p"
| "lock_ok K (Check_grant k # p) \<longleftrightarrow> k \<in> K \<and> counted k p \<and> held k p \<and> lock_ok K p"
| "lock_ok K (Check_release k # p) \<longleftrightarrow> k \<in> K \<and> \<not> counted k p \<and> lock_ok K p"
| "lock_ok K (_ # p) \<longleftrightarrow> lock_ok K p"

text \<open>A thread of its own works with lock \<^verbatim>\<open>a\<close> and counts it only while it holds it.\<close>

fun within :: "action list \<Rightarrow> bool" where
  "within [] \<longleftrightarrow> True"
| "within (x # p) \<longleftrightarrow> on_lock x \<and> (counted lid_a (x # p) \<longrightarrow> held lid_a (x # p)) \<and> within p"

definition thread_ok :: "action list \<Rightarrow> bool" where
  "thread_ok p \<longleftrightarrow> lock_ok {lid_a} p \<and> within p"

definition at_rest :: "action list \<Rightarrow> bool" where
  "at_rest p \<longleftrightarrow> (\<forall>lid. \<not> held lid p \<and> \<not> counted lid p)"

fun creates_ok :: "nat \<Rightarrow> action list \<Rightarrow> bool" where
  "creates_ok nt [] \<longleftrightarrow> True"
| "creates_ok nt (Create i q # p) \<longleftrightarrow>
     i < nt \<and> thread_ok q \<and> at_rest q \<and> awaited i p \<and> lockfree p \<and> creates_ok nt p"
| "creates_ok nt (_ # p) \<longleftrightarrow> creates_ok nt p"

abbreviation tester_locks :: "lockid_t set" where
  "tester_locks \<equiv> {lid_a, lid_b}"

lemma upcoming_append:
  "upcoming P Q (p @ p') \<longleftrightarrow> upcoming P Q p \<or> (\<forall>x \<in> set p. \<not> Q x) \<and> upcoming P Q p'"
  by (induction p) auto

lemma upcoming_free: "\<forall>x \<in> set p. \<not> P x \<Longrightarrow> \<not> upcoming P Q p"
  by (induction p) auto

lemma upcoming_first: "x \<in> set p \<Longrightarrow> P x \<Longrightarrow> \<forall>y \<in> set p. \<not> Q y \<Longrightarrow> upcoming P Q p"
  by (induction p) auto

lemma lockfree_rest:
  assumes "lockfree p"
  shows "\<not> held lid p" and "\<not> counted lid p"
proof -
  have "on_lock x" if "is_rel lid x" for x using that by (cases x) auto
  with assms show "\<not> held lid p" and "\<not> counted lid p" by (auto intro!: upcoming_free)
qed

lemma lock_ok_free: "lockfree p \<Longrightarrow> lock_ok K p"
  by (induction K p rule: lock_ok.induct) auto

lemma creates_ok_lock: "\<forall>x \<in> set p. \<not> is_create x \<Longrightarrow> creates_ok nt (p @ p') \<longleftrightarrow> creates_ok nt p'"
proof (induction p)
  case (Cons x p)
  then show ?case by (cases x) auto
qed simp

lemma thread_tests_ok:
  "thread_ok (tester_test2 i)" "thread_ok (tester_test3 i)" "thread_ok (tester_test4 i)" "thread_ok (tester_test5 i)"
  by (simp_all add: thread_ok_def tester_test2_def tester_test3_def tester_test4_def tester_test5_def eval_nat_numeral)

lemma thread_tests_rest:
  "at_rest (tester_test2 i)" "at_rest (tester_test3 i)" "at_rest (tester_test4 i)" "at_rest (tester_test5 i)"
  by (simp_all add: at_rest_def tester_test2_def tester_test3_def tester_test4_def tester_test5_def eval_nat_numeral)

lemma start_and_join_ok:
  assumes "n \<le> nt" and "\<And>i. thread_ok (body i)" and "\<And>i. at_rest (body i)" and "lockfree p" and "creates_ok nt p"
  shows "creates_ok nt (start_and_join n body @ p)" and "lockfree (start_and_join n body @ p)"
proof -
  have "creates_ok nt (map (\<lambda>i. Create i (body i)) is @ map Join [0..<n] @ p)" if "distinct is" "set is \<subseteq> {..<n}" for "is"
    using that
  proof (induction "is")
    case Nil
    have "\<forall>x \<in> set (map Join [0..<n]). \<not> is_create x" by auto
    with assms(5) show ?case by (simp add: creates_ok_lock del: set_map)
  next
    case (Cons i "is")
    moreover have "awaited i (map (\<lambda>i. Create i (body i)) is @ map Join [0..<n] @ p)"
      using Cons.prems upcoming_first [of "Join i" "map Join [0..<n]"] by (auto simp: upcoming_append)
    ultimately show ?case using assms(1-4) by auto
  qed
  from this [of "[0..<n]"] show "creates_ok nt (start_and_join n body @ p)"
    by (simp add: start_and_join_def lessThan_atLeast0)
  show "lockfree (start_and_join n body @ p)" using assms(4) by (auto simp: start_and_join_def)
qed

text \<open>The program of the main thread starts with the first test, which creates lock \<^verbatim>\<open>a\<close>.\<close>

lemma tester_main_split:
  assumes "test = 0 \<or> test = 1" and "2 \<le> nt"
  shows "\<exists>p. tester_main nt test = tester_test1 @ p \<and> creates_ok nt p \<and> lockfree p"
proof (cases "test = 0")
  case True
  note round = start_and_join_ok [where nt = nt]
  have nil: "lockfree []" "creates_ok nt []" by simp_all
  note 5 = round [of nt tester_test5, OF order_refl thread_tests_ok(4) thread_tests_rest(4) nil]
  note 4 = round [of 2 tester_test4, OF assms(2) thread_tests_ok(3) thread_tests_rest(3) 5(2,1)]
  note 3 = round [of nt tester_test3, OF order_refl thread_tests_ok(2) thread_tests_rest(2) 4(2,1)]
  note 2 = round [of nt tester_test2, OF order_refl thread_tests_ok(1) thread_tests_rest(1) 3(2,1)]
  from True have "tester_main nt test = tester_test1 @ start_and_join nt tester_test2 @ start_and_join nt tester_test3 @
      start_and_join 2 tester_test4 @ start_and_join nt tester_test5 @ []"
    by (simp add: tester_main_def)
  with 2 show ?thesis by blast
qed (insert assms, simp add: tester_main_def)

lemma tester_main_ok:
  assumes "test = 0 \<or> test = 1" and "2 \<le> nt"
  shows "creates_ok nt (tester_main nt test)" and "lock_ok tester_locks (tester_main nt test)"
    and "at_rest (tester_main nt test)" and "upcoming (is_acq lid_a) is_create (tester_main nt test)"
proof -
  have ab: "lid_a \<noteq> lid_b" by (simp add: lid_a_def lid_b_def)
  obtain p where p: "tester_main nt test = tester_test1 @ p" "creates_ok nt p" "lockfree p"
    using tester_main_split [OF assms] by blast
  show "creates_ok nt (tester_main nt test)" unfolding p(1) using p(2) by (subst creates_ok_lock) (auto simp: tester_test1_def)
  show "lock_ok tester_locks (tester_main nt test)"
    unfolding p(1) using p(3) lockfree_rest [OF p(3)] ab by (simp add: tester_test1_def lock_ok_free)
  show "at_rest (tester_main nt test)"
    unfolding p(1) using lockfree_rest [OF p(3)] by (auto simp: tester_test1_def at_rest_def)
  show "upcoming (is_acq lid_a) is_create (tester_main nt test)" by (simp add: p(1) tester_test1_def)
qed

section \<open>The invariant\<close>

fun releasing :: "pc \<Rightarrow> bool" where
  "releasing (R_lock k) \<longleftrightarrow> True"
| "releasing (R_set k) \<longleftrightarrow> True"
| "releasing (R_signal k) \<longleftrightarrow> True"
| "releasing (R_unlock k) \<longleftrightarrow> True"
| "releasing _ \<longleftrightarrow> False"

text \<open>What the handler for a lock does fits to what its thread has still to do.\<close>

definition slot_ok :: "lockid_t \<Rightarrow> pc \<Rightarrow> action list \<Rightarrow> bool" where
  "slot_ok lid q p \<longleftrightarrow>
     (if q = Idle then \<not> held lid p
      else lid_of q = Some lid \<and>
        (if in_handler q
         then p \<noteq> [] \<and> (if releasing q then is_rel lid (hd p) else is_acq lid (hd p))
         else q = Granted lid \<and> held lid p))"

text \<open>A lock that nobody but the main thread has asked for, and that does not exist yet.\<close>

definition fresh_lock :: "lockid_t \<Rightarrow> lock_world \<Rightarrow> bool" where
  "fresh_lock lid v \<longleftrightarrow>
     locks v lid = None \<and> (\<forall>h. lid_of (pcs v h) = Some lid \<longrightarrow> h = slot 0 lid \<and> pcs v h \<in> {A_check lid, A_create lid})"

definition server_inv :: "lock_world \<Rightarrow> bool" where
  "server_inv v \<longleftrightarrow>
     queues_ok v \<and> (\<forall>lid \<in> tester_locks. lock_good lid v \<or> fresh_lock lid v) \<and>
     (\<forall>h. pcs v h \<noteq> Idle \<longrightarrow> (\<exists>t. \<exists>lid \<in> tester_locks. h = slot t lid))"

definition programs_inv :: "nat \<Rightarrow> (nat \<Rightarrow> action list) \<Rightarrow> bool" where
  "programs_inv nt td \<longleftrightarrow>
     creates_ok nt (td 0) \<and> lock_ok tester_locks (td 0) \<and> (\<forall>i. thread_ok (td (Suc i))) \<and>
     (\<forall>i. td (Suc i) \<noteq> [] \<longrightarrow> i < nt \<and> awaited i (td 0) \<and> lockfree (td 0))"

text \<open>Once there are threads, or there is only the creation of threads to come, lock \<^verbatim>\<open>a\<close> exists.\<close>

definition lock_a_inv :: "tester \<Rightarrow> bool" where
  "lock_a_inv s \<longleftrightarrow>
     lock_good lid_a (srv s) \<or>
     (\<forall>i. todo s (Suc i) = []) \<and> ((\<exists>x \<in> set (todo s 0). is_create x) \<longrightarrow> upcoming (is_acq lid_a) is_create (todo s 0))"

definition slots_inv :: "tester \<Rightarrow> bool" where
  "slots_inv s \<longleftrightarrow> (\<forall>t. \<forall>lid \<in> tester_locks. slot_ok lid (pcs (srv s) (slot t lid)) (todo s t))"

definition count_inv :: "tester \<Rightarrow> bool" where
  "count_inv s \<longleftrightarrow>
     (\<forall>lid \<in> tester_locks. ct (srv s) (low_byte lid) = (if \<exists>t. counted lid (todo s t) then 1 else 0)) \<and>
     \<not> exited (srv s)"

definition tester_inv :: "nat \<Rightarrow> tester \<Rightarrow> bool" where
  "tester_inv nt s \<longleftrightarrow>
     server_inv (srv s) \<and> programs_inv nt (todo s) \<and> lock_a_inv s \<and> slots_inv s \<and> count_inv s"

lemma lids [simp]: "lid_a \<noteq> lid_b" "lid_b \<noteq> lid_a" "low_byte lid_a = 1" "low_byte lid_b = 2"
  by (simp_all add: lid_a_def lid_b_def)

lemma slot_inj [simp]:
  assumes "lid \<in> tester_locks" and "k \<in> tester_locks"
  shows "slot t lid = slot u k \<longleftrightarrow> t = u \<and> lid = k"
proof -
  have "256 * t + 1 \<noteq> 256 * u + 2" "256 * t + 2 \<noteq> 256 * u + 1" for t u :: nat by presburger+
  then show ?thesis using assms by (auto simp: slot_def lid_a_def lid_b_def)
qed

lemma tester_inv_new:
  assumes "test = 0 \<or> test = 1" and "2 \<le> nt"
  shows "tester_inv nt (tester_new nt test)"
  using tester_main_ok [OF assms]
  by (simp add: tester_inv_def server_inv_def programs_inv_def lock_a_inv_def slots_inv_def count_inv_def slot_ok_def
      tester_new_def lock_server_new_def queues_ok_def entry_def fresh_lock_def thread_ok_def at_rest_def)

section \<open>Steps of the server\<close>

lemma acquire_step_frame:
  assumes "acquire_step h v = Some v'"
  shows "ct v' = ct v" and "exited v' = exited v" and "u \<noteq> h \<Longrightarrow> pcs v' u = pcs v u"
    and "in_handler (pcs v h)" and "\<not> releasing (pcs v h)" and "lid_of (pcs v' h) = lid_of (pcs v h)"
    and "in_handler (pcs v' h) \<and> \<not> releasing (pcs v' h) \<or> (\<exists>k. pcs v' h = Granted k)"
    and "lid_of (pcs v h) \<noteq> Some k \<Longrightarrow> locks v' k = locks v k"
  using assms by (auto simp: acquire_step_def Let_def split: pc.splits option.splits if_splits)

lemma release_step_frame:
  assumes "release_step h w v = Some v'" and "queues_ok v"
  shows "ct v' = ct v" and "exited v' = exited v"
    and "u \<noteq> h \<Longrightarrow> pcs v' u = pcs v u \<or> (\<exists>k. pcs v u = Asleep k \<and> pcs v' u = A_lock k)"
    and "in_handler (pcs v h)" and "releasing (pcs v h)"
    and "pcs v' h = Idle \<or> releasing (pcs v' h) \<and> in_handler (pcs v' h) \<and> lid_of (pcs v' h) = lid_of (pcs v h)"
    and "lid_of (pcs v h) \<noteq> Some k \<Longrightarrow> locks v' k = locks v k"
  using assms
  by (auto simp: release_step_def queues_ok_def Let_def split: pc.splits option.splits if_splits)

lemma wake_frame:
  assumes "lock_exec (Wake h) v = Some v'"
  shows "ct v' = ct v" and "exited v' = exited v" and "u \<noteq> h \<Longrightarrow> pcs v' u = pcs v u"
    and "\<exists>k. pcs v h = Asleep k \<and> pcs v' h = A_lock k" and "lid_of (pcs v h) \<noteq> Some k \<Longrightarrow> locks v' k = locks v k"
  using assms by (auto simp: Let_def split: pc.splits)

lemma fresh_lockD:
  "fresh_lock lid v \<Longrightarrow> lid_of (pcs v h) = Some lid \<Longrightarrow> h = slot 0 lid \<and> (pcs v h = A_check lid \<or> pcs v h = A_create lid)"
  by (auto simp: fresh_lock_def)

text \<open>Steps for another lock leave a fresh lock fresh.\<close>

lemma fresh_lock_frame:
  assumes "fresh_lock lid v" and "lid_of (pcs v h) \<noteq> Some lid" and "locks v' lid = locks v lid"
    and "lid_of (pcs v' h) \<in> {None, lid_of (pcs v h)}"
    and "\<And>u. u \<noteq> h \<Longrightarrow> pcs v' u = pcs v u \<or> (\<exists>k. pcs v u = Asleep k \<and> pcs v' u = A_lock k)"
  shows "fresh_lock lid v'"
  unfolding fresh_lock_def
proof (intro conjI allI impI)
  show "locks v' lid = None" using assms(1,3) by (simp add: fresh_lock_def)
  fix u assume u: "lid_of (pcs v' u) = Some lid"
  then have "u \<noteq> h" using assms(2,4) by auto
  moreover have "pcs v u \<noteq> Asleep lid" using fresh_lockD [OF assms(1), of u] by auto
  ultimately have "pcs v' u = pcs v u" using assms(5) u by fastforce
  with u assms(1) show "u = slot 0 lid" and "pcs v' u \<in> {A_check lid, A_create lid}"
    by (auto simp: fresh_lock_def)
qed

lemma fresh_lock_acquire:
  assumes "fresh_lock lid v" and "acquire_step h v = Some v'" and "lid_of (pcs v h) = Some lid"
  shows "lock_good lid v' \<or> fresh_lock lid v'"
proof -
  have h: "h = slot 0 lid" "pcs v h = A_check lid \<or> pcs v h = A_create lid" "locks v lid = None"
    using assms(1,3) by (auto simp: fresh_lock_def)
  have other: "lid_of (pcs v u) \<noteq> Some lid" if "u \<noteq> h" for u
    using assms(1) h(1) that by (auto simp: fresh_lock_def)
  show ?thesis
  proof (cases "pcs v h = A_check lid")
    case True
    then have "v' = goto h (A_create lid) v" using assms(2) h(3) by (simp add: acquire_step_def)
    then show ?thesis using assms(1) h(1) by (auto simp: fresh_lock_def)
  next
    case False
    then have v': "v' = goto h (A_lock lid) (set_lock lid lock_t_new v)"
      using assms(2) h(2) by (auto simp: acquire_step_def)
    have "\<not> in_mutex lid q \<and> \<not> owns lid q \<and> q \<noteq> A_create lid \<and> q \<noteq> A_set lid \<and> q \<noteq> Asleep lid"
      if "lid_of q \<noteq> Some lid \<or> q = A_lock lid" for q
      using that by (cases q) auto
    with other have "lock_inv lid lock_t_new (pcs v') None"
      unfolding v' lock_inv_def by (simp add: lock_t_new_def)
    then show ?thesis by (auto simp: v' intro: lock_goodI)
  qed
qed

lemma server_inv_locks:
  assumes "server_inv v" and "lid \<in> tester_locks"
  shows "lock_good lid v \<or> fresh_lock lid v"
  using assms by (auto simp: server_inv_def)

lemma server_inv_slot: "server_inv v \<Longrightarrow> pcs v h \<noteq> Idle \<Longrightarrow> \<exists>t. \<exists>lid \<in> tester_locks. h = slot t lid"
  unfolding server_inv_def by blast

lemma server_inv_frame:
  assumes "server_inv v" and "queues_ok v'" and "\<And>lid. lock_good lid v \<Longrightarrow> lock_good lid v'"
    and "pcs v h \<noteq> Idle" and "lid_of (pcs v' h) \<in> {None, lid_of (pcs v h)}"
    and "\<And>u. u \<noteq> h \<Longrightarrow> pcs v' u = pcs v u \<or> (\<exists>k. pcs v u = Asleep k \<and> pcs v' u = A_lock k)"
    and "\<And>k. lid_of (pcs v h) \<noteq> Some k \<Longrightarrow> locks v' k = locks v k"
    and "\<And>lid. fresh_lock lid v \<Longrightarrow> lid_of (pcs v h) = Some lid \<Longrightarrow> lock_good lid v' \<or> fresh_lock lid v'"
  shows "server_inv v'"
proof -
  have "lock_good lid v' \<or> fresh_lock lid v'" if "lid \<in> tester_locks" for lid
    using server_inv_locks [OF assms(1) that] assms(3,5-8) fresh_lock_frame [of lid v h v'] by blast
  moreover have "pcs v u \<noteq> Idle" if "pcs v' u \<noteq> Idle" for u
    using that assms(4) assms(6) [of u] by (cases "u = h") auto
  ultimately show ?thesis using assms(1,2) by (simp add: server_inv_def)
qed

lemma server_inv_acquire:
  assumes "server_inv v" and "acquire_step h v = Some v'"
  shows "server_inv v'"
  using assms queues_ok_step [of "Acquire h" v v'] acquire_step_frame [OF assms(2)]
  by (intro server_inv_frame [OF assms(1), where h = h] acquire_step_good [OF assms(2)] fresh_lock_acquire [OF _ assms(2)])
    (auto simp: server_inv_def)

lemma server_inv_release:
  assumes "server_inv v" and "release_step h w v = Some v'"
  shows "server_inv v'"
proof -
  have q: "queues_ok v" using assms(1) by (simp add: server_inv_def)
  note f = release_step_frame [OF assms(2) q]
  show ?thesis
    using assms(2) q queues_ok_step [of "Release h w" v v'] f
    by (intro server_inv_frame [OF assms(1), where h = h] release_step_good [OF assms(2) _ q])
      (auto simp: fresh_lock_def)
qed

lemma server_inv_wake:
  assumes "server_inv v" and "lock_exec (Wake h) v = Some v'"
  shows "server_inv v'"
proof -
  have q: "queues_ok v" using assms(1) by (simp add: server_inv_def)
  show ?thesis
    using q queues_ok_step [OF assms(2)] wake_frame [OF assms(2)]
    by (intro server_inv_frame [OF assms(1), where h = h] lock_good_step [OF assms(2) _ q])
      (auto simp: fresh_lock_def)
qed

text \<open>The arrival of a request.\<close>

lemma server_inv_start_acquire:
  assumes "server_inv v" and "lid \<in> tester_locks" and "pcs v (slot t lid) = Idle" and "t = 0 \<or> lock_good lid v"
  shows "server_inv (goto (slot t lid) (A_check lid) v)"
proof -
  let ?v = "goto (slot t lid) (A_check lid) v"
  have e: "lock_exec (Start (slot t lid) lid) v = Some ?v" using assms(3) by simp
  have q: "queues_ok v" using assms(1) by (simp add: server_inv_def)
  have "lock_good k ?v \<or> fresh_lock k ?v" if "k \<in> tester_locks" for k
  proof (cases "lock_good k v")
    case True
    then show ?thesis using lock_good_step [OF e _ q] by blast
  next
    case False
    then have "fresh_lock k v" using server_inv_locks [OF assms(1) that] by blast
    moreover have "t = 0 \<or> k \<noteq> lid" using False assms(4) by auto
    ultimately show ?thesis by (auto simp: fresh_lock_def)
  qed
  moreover have "queues_ok ?v" by (rule queues_ok_step [OF e q])
  ultimately show ?thesis using assms(1,2) by (auto simp: server_inv_def)
qed

lemma lock_good_start_release:
  assumes "lock_good k v" and "pcs v h = Granted lid"
  shows "lock_good k (goto h (R_lock lid) v)"
  using assms(1)
proof (rule lock_goodE)
  fix l ow assume l: "locks v k = Some l" "lock_inv k l (pcs v) ow"
  then have "lock_inv k l ((pcs v)(h := R_lock lid)) ow"
    using assms(2) lock_inv_elsewhere [OF l(2), of h "R_lock lid"] lock_inv_move [OF l(2), of "R_lock lid" h]
    by (cases "k = lid") auto
  with l show ?thesis by (auto intro: lock_goodI)
qed

lemma server_inv_start_release:
  assumes "server_inv v" and "lid \<in> tester_locks" and "pcs v h = Granted lid"
  shows "server_inv (goto h (R_lock lid) v)"
proof -
  have q: "queues_ok v" using assms(1) by (simp add: server_inv_def)
  have "queues_ok (goto h (R_lock lid) v)" using assms(3) by (intro queues_goto [OF q]) auto
  moreover have "\<not> fresh_lock lid v" using fresh_lockD [of lid v h] assms(3) by auto
  ultimately show ?thesis
    using assms lock_good_start_release [of _ v h lid]
    by (intro server_inv_frame [OF assms(1), where h = h]) auto
qed

section \<open>Steps of the programs\<close>

lemma lock_ok_tl: "lock_ok K (x # p) \<Longrightarrow> lock_ok K p"
  by (cases x) auto

lemma creates_ok_tl: "creates_ok nt (x # p) \<Longrightarrow> creates_ok nt p"
  by (cases x) auto

lemma thread_ok_tl: "thread_ok (x # p) \<Longrightarrow> thread_ok p \<and> on_lock x"
  by (auto simp: thread_ok_def dest: lock_ok_tl)

lemma thread_ok_Nil [simp]: "thread_ok []"
  by (simp add: thread_ok_def)

lemma lock_ok_mono: "lock_ok K p \<Longrightarrow> K \<subseteq> K' \<Longrightarrow> lock_ok K' p"
  by (induction K p rule: lock_ok.induct) auto

lemma programs_inv_thread:
  assumes "programs_inv nt td"
  shows "thread_ok (td (Suc i))" and "td (Suc i) \<noteq> [] \<Longrightarrow> i < nt \<and> awaited i (td 0) \<and> lockfree (td 0)"
  using assms unfolding programs_inv_def by simp_all

lemma programs_inv_locks:
  assumes "programs_inv nt td"
  shows "lock_ok tester_locks (td t)" and "t \<noteq> 0 \<Longrightarrow> lock_ok {lid_a} (td t)"
proof -
  show *: "lock_ok {lid_a} (td t)" if "t \<noteq> 0"
    using that programs_inv_thread(1) [OF assms, of "t - 1"] by (simp add: thread_ok_def)
  show "lock_ok tester_locks (td t)"
    using assms lock_ok_mono [OF *] by (cases "t = 0") (auto simp: programs_inv_def)
qed

lemma slots_invD: "slots_inv s \<Longrightarrow> lid \<in> tester_locks \<Longrightarrow> slot_ok lid (pcs (srv s) (slot t lid)) (todo s t)"
  unfolding slots_inv_def by blast

lemma main_alone:
  assumes "programs_inv nt td" and "td 0 = x # p" and "on_lock x"
  shows "td (Suc i) = []"
  using assms by (fastforce simp: programs_inv_def)

lemma on_lock_main:
  assumes "programs_inv nt td" and "td t = x # p" and "\<not> on_lock x"
  shows "t = 0"
proof (cases t)
  case (Suc i)
  with assms(1,2) have "thread_ok (x # p)" by (metis programs_inv_def)
  with assms(3) show ?thesis using thread_ok_tl by blast
qed simp

lemma programs_inv_pop:
  assumes "programs_inv nt td" and "td t = x # p" and "\<not> is_create x" and "\<And>i. x = Join i \<Longrightarrow> td (Suc i) = []"
  shows "programs_inv nt (td(t := p))"
proof (cases t)
  case 0
  have "i < nt \<and> awaited i p \<and> lockfree p" if "td (Suc i) \<noteq> []" for i
  proof -
    from that assms(1,2) 0 have "i < nt" "awaited i (x # p)" "lockfree (x # p)" by (auto simp: programs_inv_def)
    with assms(3) assms(4) [of i] that show ?thesis by auto
  qed
  with assms(1,2) 0 show ?thesis by (auto simp: programs_inv_def dest: lock_ok_tl creates_ok_tl)
next
  case (Suc i)
  with assms(1,2) have "thread_ok p" by (metis programs_inv_def thread_ok_tl)
  moreover have "i < nt \<and> awaited i (td 0) \<and> lockfree (td 0)"
    using programs_inv_thread(2) [OF assms(1), of i] assms(2) Suc by simp
  ultimately show ?thesis using assms(1) Suc by (simp add: programs_inv_def)
qed

lemma programs_inv_create:
  assumes "programs_inv nt td" and "td 0 = Create i q # p"
  shows "programs_inv nt (td(0 := p, Suc i := q))" and "td (Suc i) = []" and "at_rest q"
proof -
  have c: "i < nt" "thread_ok q" "at_rest q" "awaited i p" "lockfree p" "creates_ok nt p" "lock_ok tester_locks p"
    using assms by (simp_all add: programs_inv_def)
  show "at_rest q" by (rule c(3))
  show "td (Suc i) = []" using assms by (auto simp: programs_inv_def)
  have "j < nt \<and> awaited j p" if "td (Suc j) \<noteq> []" "j \<noteq> i" for j
    using that assms by (auto simp: programs_inv_def)
  with c assms show "programs_inv nt (td(0 := p, Suc i := q))" by (auto simp: programs_inv_def)
qed

text \<open>Who holds a lock according to its program has been granted it, and only one thread counts a lock.\<close>

lemma held_granted:
  assumes "slots_inv s" and "lid \<in> tester_locks" and "held lid (todo s t)" and "\<not> is_rel lid (hd (todo s t))"
  shows "pcs (srv s) (slot t lid) = Granted lid"
proof -
  have "\<not> is_acq lid (hd (todo s t))" using assms(3,4) by (cases "todo s t") auto
  with assms show ?thesis unfolding slots_inv_def slot_ok_def by (meson)
qed

lemma granted_good:
  assumes "server_inv v" and "lid \<in> tester_locks" and "pcs v h = Granted lid"
  shows "lock_good lid v"
  using server_inv_locks [OF assms(1,2)] fresh_lockD [of lid v h] assms(3) by auto

lemma lock_ok_names: "lock_ok K p \<Longrightarrow> held lid p \<or> counted lid p \<Longrightarrow> lid \<in> K"
  by (induction K p rule: lock_ok.induct) auto

lemma within_counted: "within p \<Longrightarrow> counted lid_a p \<Longrightarrow> held lid_a p"
  by (cases p) auto

lemma thread_counted_granted:
  assumes "slots_inv s" and "thread_ok (todo s t)" and "lid \<in> tester_locks" and "counted lid (todo s t)"
  shows "pcs (srv s) (slot t lid) = Granted lid"
proof -
  obtain x p where x: "todo s t = x # p" using assms(4) by (cases "todo s t") auto
  have ok: "lock_ok {lid_a} (x # p)" "within (x # p)" using assms(2) by (simp_all add: thread_ok_def x)
  have a: "lid = lid_a" using lock_ok_names [OF ok(1), of lid] assms(4) by (simp add: x)
  have "held lid (x # p)" using within_counted [OF ok(2)] assms(4) by (simp add: x a)
  moreover have "\<not> is_rel lid x"
    using ok within_counted [of p] assms(4) by (cases x) (auto simp: x a)
  ultimately show ?thesis by (intro held_granted [OF assms(1,3)]) (simp_all add: x)
qed

lemma holder_unique:
  assumes "tester_inv nt s" and "lid \<in> tester_locks" and "pcs (srv s) (slot t lid) = Granted lid" and "counted lid (todo s u)"
  shows "u = t"
proof -
  have inv: "server_inv (srv s)" "programs_inv nt (todo s)" "slots_inv s" using assms(1) by (simp_all add: tester_inv_def)
  have h: "held lid (todo s t)" using inv(3) assms(2,3) by (fastforce simp: slots_inv_def slot_ok_def)
  show ?thesis
  proof (rule ccontr)
    assume ne: "u \<noteq> t"
    have nil: "todo s (Suc i) = []" if "held lid (todo s 0) \<or> counted lid (todo s 0)" for i
      using inv(2) lockfree_rest that unfolding programs_inv_def by blast
    with h ne assms(4) have "t \<noteq> 0" "u \<noteq> 0" by (metis not0_implies_Suc upcoming.simps(1))+
    then have "thread_ok (todo s u)" using inv(2) by (metis not0_implies_Suc programs_inv_def)
    then have "pcs (srv s) (slot u lid) = Granted lid"
      using thread_counted_granted inv(3) assms(2,4) by blast
    then have "slot u lid = slot t lid"
      using owner_unique [OF granted_good [OF inv(1) assms(2,3)]] assms(3) by simp
    with ne assms(2) show False by simp
  qed
qed

lemma counted_unique:
  assumes "tester_inv nt s" and "lid \<in> tester_locks" and "counted lid (todo s t)" and "counted lid (todo s u)"
  shows "u = t"
proof (cases "t = 0 \<or> u = 0")
  case True
  have "todo s (Suc i) = []" if "counted lid (todo s 0)" for i
    using assms(1) lockfree_rest that unfolding tester_inv_def programs_inv_def by blast
  with True assms(3,4) show ?thesis by (metis not0_implies_Suc upcoming.simps(1))
next
  case False
  then have "thread_ok (todo s t)" using assms(1) by (metis not0_implies_Suc programs_inv_def tester_inv_def)
  then have "pcs (srv s) (slot t lid) = Granted lid"
    using thread_counted_granted assms(1-3) by (auto simp: tester_inv_def)
  then show ?thesis using holder_unique assms by blast
qed

section \<open>Every step keeps the invariant\<close>

lemma tester_inv_srv:
  assumes "tester_inv nt s" and "server_inv v" and "\<And>lid. lock_good lid (srv s) \<Longrightarrow> lock_good lid v"
    and "ct v = ct (srv s)" and "exited v = exited (srv s)" and "slots_inv (s\<lparr>srv := v\<rparr>)"
  shows "tester_inv nt (s\<lparr>srv := v\<rparr>)"
  using assms by (auto simp: tester_inv_def lock_a_inv_def count_inv_def)

lemma tester_inv_pop:
  assumes "tester_inv nt s" and "todo s t = x # p" and "\<not> is_create x" and "\<And>i. x = Join i \<Longrightarrow> todo s (Suc i) = []"
    and "server_inv v" and "\<And>lid. lock_good lid (srv s) \<Longrightarrow> lock_good lid v" and "is_acq lid_a x \<Longrightarrow> lock_good lid_a v"
    and "slots_inv (pop t p (s\<lparr>srv := v\<rparr>))" and "count_inv (pop t p (s\<lparr>srv := v\<rparr>))"
  shows "tester_inv nt (pop t p (s\<lparr>srv := v\<rparr>))"
proof -
  have inv: "programs_inv nt (todo s)" "lock_a_inv s" using assms(1) by (simp_all add: tester_inv_def)
  have "lock_a_inv (pop t p (s\<lparr>srv := v\<rparr>))"
  proof (cases "lock_good lid_a v")
    case False
    then have l: "\<forall>i. todo s (Suc i) = []"
        "(\<exists>x \<in> set (todo s 0). is_create x) \<longrightarrow> upcoming (is_acq lid_a) is_create (todo s 0)"
      using inv(2) assms(6) by (auto simp: lock_a_inv_def)
    moreover from l have "t = 0" using assms(2) by (cases t) auto
    moreover have "\<not> is_acq lid_a x" using False assms(7) by blast
    ultimately show ?thesis using assms(2) by (auto simp: lock_a_inv_def)
  qed (simp add: lock_a_inv_def)
  with assms programs_inv_pop [OF inv(1) assms(2-4)] show ?thesis by (simp add: tester_inv_def)
qed

lemma slot_ok_pop: "\<not> is_acq lid x \<Longrightarrow> \<not> is_rel lid x \<Longrightarrow> slot_ok lid q (x # p) \<Longrightarrow> slot_ok lid q p"
  by (auto simp: slot_ok_def split: if_splits)

lemma slot_ok_wake: "slot_ok lid (Asleep k) p \<Longrightarrow> slot_ok lid (A_lock k) p"
  by (simp add: slot_ok_def)

text \<open>
  The handler for lock \<open>lid\<close> of thread \<open>t\<close> makes a step, which may wake others; then the same with the
  end of the action.
\<close>

definition handler_step :: "tid \<Rightarrow> lock_world \<Rightarrow> lock_world \<Rightarrow> bool" where
  "handler_step h v v' \<longleftrightarrow>
     server_inv v' \<and> (\<forall>k. lock_good k v \<longrightarrow> lock_good k v') \<and> ct v' = ct v \<and> exited v' = exited v \<and>
     (\<forall>u. u \<noteq> h \<longrightarrow> pcs v' u = pcs v u \<or> (\<exists>k. pcs v u = Asleep k \<and> pcs v' u = A_lock k))"

lemma handler_step_other:
  assumes "slots_inv s" and "handler_step h (srv s) v" and "k \<in> tester_locks" and "slot u k \<noteq> h"
  shows "slot_ok k (pcs v (slot u k)) (todo s u)"
proof -
  note slots_invD [OF assms(1,3), of u]
  with assms(2,4) slot_ok_wake show ?thesis unfolding handler_step_def by metis
qed

lemma handler_step_inv:
  assumes "tester_inv nt s" and "handler_step (slot t lid) (srv s) v" and "lid \<in> tester_locks"
    and "slot_ok lid (pcs v (slot t lid)) (todo s t)"
  shows "tester_inv nt (s\<lparr>srv := v\<rparr>)"
proof -
  have "slot_ok k (pcs v (slot u k)) (todo s u)" if "k \<in> tester_locks" for u k
    using handler_step_other [of s, OF _ assms(2) that, of u] assms(1,3,4) that
    by (cases "u = t \<and> k = lid") (auto simp: tester_inv_def)
  then show ?thesis
    using assms(2) by (intro tester_inv_srv [OF assms(1)]) (auto simp: handler_step_def slots_inv_def simp del: insert_iff)
qed

lemma count_inv_pop:
  assumes "count_inv s" and "todo s t = x # p" and "\<And>lid. x \<noteq> Check_grant lid" and "\<And>lid. x \<noteq> Check_release lid"
    and "ct v = ct (srv s)" and "exited v = exited (srv s)"
  shows "count_inv (pop t p (s\<lparr>srv := v\<rparr>))"
proof -
  have "counted lid (((todo s)(t := p)) u) = counted lid (todo s u)" for lid u
    using assms(2-4) by (cases "u = t") auto
  with assms(1,5,6) show ?thesis by (simp add: count_inv_def)
qed

lemma handler_step_pop:
  assumes "tester_inv nt s" and "handler_step (slot t lid) (srv s) v" and "lid \<in> tester_locks"
    and "todo s t = x # p" and "x = Acq c lid \<and> lock_good lid v \<or> x = Rel c lid" and "slot_ok lid (pcs v (slot t lid)) p"
  shows "tester_inv nt (pop t p (s\<lparr>srv := v\<rparr>))"
proof -
  have inv: "slots_inv s" "count_inv s" using assms(1) by (simp_all add: tester_inv_def)
  have "slot_ok k (pcs v (slot u k)) (((todo s)(t := p)) u)" if k: "k \<in> tester_locks" for u k
  proof (cases "u = t \<and> k = lid")
    case False
    then have "slot_ok k (pcs v (slot u k)) (todo s u)"
      using handler_step_other [OF inv(1) assms(2) k, of u] assms(3) k by auto
    moreover have "\<not> is_acq k x" "\<not> is_rel k x" if "u = t" using False that assms(5) by auto
    ultimately show ?thesis using slot_ok_pop [of k x] assms(4) by auto
  qed (insert assms(6), simp)
  then have "slots_inv (pop t p (s\<lparr>srv := v\<rparr>))" by (auto simp: slots_inv_def simp del: insert_iff)
  then show ?thesis
    using assms(2,5) by (intro tester_inv_pop [OF assms(1,4)] count_inv_pop [OF inv(2) assms(4)])
      (auto simp: handler_step_def)
qed

lemma call_acquire_inv:
  assumes "tester_inv nt s" and "todo s t = Acq c lid # p" and "call_acquire np nt t lid p s = Some s'"
  shows "tester_inv nt s'"
proof -
  have inv: "server_inv (srv s)" "programs_inv nt (todo s)" "slots_inv s" "lock_a_inv s"
    using assms(1) by (simp_all add: tester_inv_def)
  have lid: "lid \<in> tester_locks" and held: "held lid p" and a: "t \<noteq> 0 \<Longrightarrow> lid = lid_a"
    using programs_inv_locks [OF inv(2), of t] assms(2) by simp_all
  let ?h = "slot t lid"
  show ?thesis
  proof (cases "pcs (srv s) ?h = Idle")
    case True
    let ?v = "goto ?h (A_check lid) (srv s)"
    have "lock_good lid_a (srv s)" if "t \<noteq> 0"
      using that inv(4) assms(2) by (cases t) (auto simp: lock_a_inv_def)
    then have "server_inv ?v"
      using server_inv_start_acquire [OF inv(1) lid True] a by (cases "t = 0") auto
    moreover have "lock_good k ?v" if "lock_good k (srv s)" for k
      using lock_good_step [of "Start ?h lid" "srv s" ?v] that True inv(1) by (simp add: server_inv_def)
    ultimately have "handler_step ?h (srv s) ?v" by (simp add: handler_step_def)
    moreover have "s' = s\<lparr>srv := ?v\<rparr>"
      using assms(3) True by (simp add: call_acquire_def Let_def split: if_splits)
    ultimately show ?thesis using handler_step_inv [OF assms(1) _ lid, of t ?v] assms(2) by (simp add: slot_ok_def)
  next
    case False
    then obtain v where v: "acquire_step ?h (srv s) = Some v"
        "s' = (if pcs v ?h = Granted lid then pop t p (s\<lparr>srv := v\<rparr>) else s\<lparr>srv := v\<rparr>)"
      using assms(3) by (auto simp: call_acquire_def Let_def split: option.splits)
    note f = acquire_step_frame [OF v(1)]
    have step: "handler_step ?h (srv s) v"
      using server_inv_acquire [OF inv(1) v(1)] acquire_step_good [OF v(1)] f(1-3) by (simp add: handler_step_def)
    have h: "lid_of (pcs (srv s) ?h) = Some lid"
      using slots_invD [OF inv(3) lid, of t] f(4) by (auto simp: slot_ok_def split: if_splits)
    show ?thesis
    proof (cases "pcs v ?h = Granted lid")
      case True
      then have "lock_good lid v" using step granted_good [OF _ lid, of v ?h] by (simp add: handler_step_def)
      with True held show ?thesis
        using handler_step_pop [OF assms(1) step lid assms(2), of c] by (simp add: v(2) slot_ok_def)
    next
      case False
      with f(6,7) h assms(2) show ?thesis
        by (auto simp: v(2) slot_ok_def intro!: handler_step_inv [OF assms(1) step lid])
    qed
  qed
qed

lemma call_release_inv:
  assumes "tester_inv nt s" and "todo s t = Rel c lid # p" and "call_release np nt t lid w p s = Some s'"
  shows "tester_inv nt s'"
proof -
  have inv: "server_inv (srv s)" "programs_inv nt (todo s)" "slots_inv s"
    using assms(1) by (simp_all add: tester_inv_def)
  have lid: "lid \<in> tester_locks" and held: "\<not> held lid p"
    using programs_inv_locks [OF inv(2), of t] assms(2) by simp_all
  let ?h = "slot t lid"
  note slot = slots_invD [OF inv(3) lid, of t]
  show ?thesis
  proof (cases "in_handler (pcs (srv s) ?h)")
    case False
    let ?v = "goto ?h (R_lock lid) (srv s)"
    have "pcs (srv s) ?h = Granted lid" using slot False assms(2) by (auto simp: slot_ok_def split: if_splits)
    then have "server_inv ?v" "\<And>k. lock_good k (srv s) \<Longrightarrow> lock_good k ?v"
      using server_inv_start_release [OF inv(1) lid] lock_good_start_release by blast+
    then have "handler_step ?h (srv s) ?v" by (simp add: handler_step_def)
    moreover have "s' = s\<lparr>srv := ?v\<rparr>"
      using assms(3) False by (simp add: call_release_def Let_def split: if_splits)
    ultimately show ?thesis using handler_step_inv [OF assms(1) _ lid, of t ?v] assms(2) by (simp add: slot_ok_def)
  next
    case True
    then obtain v where v: "release_step ?h w (srv s) = Some v"
        "s' = (if pcs v ?h = Idle then pop t p (s\<lparr>srv := v\<rparr>) else s\<lparr>srv := v\<rparr>)"
      using assms(3) by (auto simp: call_release_def Let_def split: option.splits)
    have q: "queues_ok (srv s)" using inv(1) by (simp add: server_inv_def)
    note f = release_step_frame [OF v(1) q]
    have step: "handler_step ?h (srv s) v"
      using server_inv_release [OF inv(1) v(1)] release_step_good [OF v(1) _ q] f(1-3) by (simp add: handler_step_def)
    have h: "lid_of (pcs (srv s) ?h) = Some lid"
      using slot True by (auto simp: slot_ok_def split: if_splits)
    show ?thesis
    proof (cases "pcs v ?h = Idle")
      case True
      with held show ?thesis
        using handler_step_pop [OF assms(1) step lid assms(2), of c] by (simp add: v(2) slot_ok_def)
    next
      case False
      with f(6) h assms(2) show ?thesis
        by (auto simp: v(2) slot_ok_def intro!: handler_step_inv [OF assms(1) step lid])
    qed
  qed
qed

lemma simple_pop_inv:
  assumes "tester_inv nt s" and "todo s t = x # p" and "\<not> is_create x" and "\<And>i. x = Join i \<Longrightarrow> todo s (Suc i) = []"
    and "\<And>lid. \<not> is_acq lid x \<and> \<not> is_rel lid x"
    and "locks v = locks (srv s)" and "pcs v = pcs (srv s)" and "count_inv (pop t p (s\<lparr>srv := v\<rparr>))"
  shows "tester_inv nt (pop t p (s\<lparr>srv := v\<rparr>))"
proof -
  have good: "lock_good lid v = lock_good lid (srv s)" for lid using assms(6,7) by (simp add: lock_good_def)
  have "server_inv v = server_inv (srv s)"
    using assms(6,7) by (simp add: server_inv_def good fresh_lock_def queues_ok_def)
  moreover have "slots_inv (pop t p (s\<lparr>srv := v\<rparr>))"
    unfolding slots_inv_def
  proof (intro allI ballI)
    fix u k assume "k \<in> tester_locks"
    then show "slot_ok k (pcs (srv (pop t p (s\<lparr>srv := v\<rparr>))) (slot u k)) (todo (pop t p (s\<lparr>srv := v\<rparr>)) u)"
      using slots_invD [of s k u] slot_ok_pop [of k x _ p] assms(1,2,5,7) by (auto simp: tester_inv_def simp del: insert_iff)
  qed
  ultimately show ?thesis
    using assms by (intro tester_inv_pop [OF assms(1-4)]) (simp_all add: good tester_inv_def)
qed

lemma count_inv_set:
  assumes "count_inv s" and "lid \<in> tester_locks" and "\<And>k u. k \<noteq> lid \<Longrightarrow> counted k (td u) = counted k (todo s u)"
    and "n = (if \<exists>u. counted lid (td u) then 1 else 0)"
  shows "count_inv (s\<lparr>srv := (srv s)\<lparr>ct := (ct (srv s))(low_byte lid := n)\<rparr>, todo := td\<rparr>)"
  unfolding count_inv_def
proof (intro conjI ballI)
  fix k assume k: "k \<in> tester_locks"
  then have "low_byte k = low_byte lid \<longleftrightarrow> k = lid" using assms(2) by auto
  moreover have "ct (srv s) (low_byte k) = (if \<exists>u. counted k (todo s u) then 1 else 0)"
    using assms(1) k unfolding count_inv_def by blast
  ultimately show "ct (srv (s\<lparr>srv := (srv s)\<lparr>ct := (ct (srv s))(low_byte lid := n)\<rparr>, todo := td\<rparr>)) (low_byte k) =
      (if \<exists>u. counted k (todo (s\<lparr>srv := (srv s)\<lparr>ct := (ct (srv s))(low_byte lid := n)\<rparr>, todo := td\<rparr>) u) then 1 else 0)"
    using assms(3,4) by (cases "k = lid") simp_all
qed (insert assms(1), simp add: count_inv_def)

text \<open>The checks pass.\<close>

lemma check_grant_passes:
  assumes "tester_inv nt s" and "todo s t = Check_grant lid # p"
  shows "\<exists>c. check_grant lid (ct (srv s)) = Some c \<and> tester_inv nt (pop t p (s\<lparr>srv := (srv s)\<lparr>ct := c\<rparr>\<rparr>))"
proof -
  have inv: "programs_inv nt (todo s)" "slots_inv s" "count_inv s" using assms(1) by (simp_all add: tester_inv_def)
  have lid: "lid \<in> tester_locks" and p: "held lid p" "counted lid p"
    using programs_inv_locks(1) [OF inv(1), of t] assms(2) by simp_all
  have "pcs (srv s) (slot t lid) = Granted lid"
    using p(1) assms(2) by (intro held_granted [OF inv(2) lid]) simp_all
  then have none: "\<not> counted lid (todo s u)" for u
    using holder_unique [OF assms(1) lid, of t u] assms(2) by auto
  then have ct: "ct (srv s) (low_byte lid) = 0" using inv(3) lid unfolding count_inv_def by auto
  let ?c = "(ct (srv s))(low_byte lid := 1)"
  have "counted k (((todo s)(t := p)) u) = counted k (todo s u)" if "k \<noteq> lid" for k u
    using that assms(2) by auto
  moreover have "\<exists>u. counted lid (((todo s)(t := p)) u)" using p(2) by (intro exI [of _ t]) simp
  ultimately have "count_inv (pop t p (s\<lparr>srv := (srv s)\<lparr>ct := ?c\<rparr>\<rparr>))"
    using count_inv_set [OF inv(3) lid, of "(todo s)(t := p)" 1] by simp
  then have "tester_inv nt (pop t p (s\<lparr>srv := (srv s)\<lparr>ct := ?c\<rparr>\<rparr>))"
    by (intro simple_pop_inv [OF assms]) simp_all
  with ct show ?thesis by (simp add: check_grant_def Let_def)
qed

lemma check_release_passes:
  assumes "tester_inv nt s" and "todo s t = Check_release lid # p"
  shows "\<exists>c. check_release lid (ct (srv s)) = Some c \<and> tester_inv nt (pop t p (s\<lparr>srv := (srv s)\<lparr>ct := c\<rparr>\<rparr>))"
proof -
  have inv: "programs_inv nt (todo s)" "count_inv s" using assms(1) by (simp_all add: tester_inv_def)
  have lid: "lid \<in> tester_locks" and p: "\<not> counted lid p"
    using programs_inv_locks(1) [OF inv(1), of t] assms(2) by simp_all
  have here: "counted lid (todo s t)" using assms(2) by simp
  then have ct: "ct (srv s) (low_byte lid) = 1" using inv(2) lid unfolding count_inv_def by auto
  let ?c = "(ct (srv s))(low_byte lid := 0)"
  have "counted k (((todo s)(t := p)) u) = counted k (todo s u)" if "k \<noteq> lid" for k u
    using that assms(2) by auto
  moreover have "\<not> counted lid (((todo s)(t := p)) u)" for u
    using p counted_unique [OF assms(1) lid here, of u] by (cases "u = t") auto
  ultimately have "count_inv (pop t p (s\<lparr>srv := (srv s)\<lparr>ct := ?c\<rparr>\<rparr>))"
    using count_inv_set [OF inv(2) lid, of "(todo s)(t := p)" 0] by simp
  then have "tester_inv nt (pop t p (s\<lparr>srv := (srv s)\<lparr>ct := ?c\<rparr>\<rparr>))"
    by (intro simple_pop_inv [OF assms]) simp_all
  with ct show ?thesis by (simp add: check_release_def Let_def)
qed

lemma create_inv:
  assumes "tester_inv nt s" and "todo s t = Create i q # p"
  shows "tester_inv nt (pop (Suc i) q (pop t p s))"
proof -
  have inv: "server_inv (srv s)" "programs_inv nt (todo s)" "lock_a_inv s" "slots_inv s" "count_inv s"
    using assms(1) by (simp_all add: tester_inv_def)
  have t: "t = 0" using on_lock_main [OF inv(2) assms(2)] by simp
  note c = programs_inv_create [OF inv(2) assms(2) [unfolded t]]
  have q: "\<not> held k q" "\<not> counted k q" for k using c(3) by (simp_all add: at_rest_def)
  have td: "held k (((todo s)(0 := p, Suc i := q)) u) = held k (todo s u)"
    "counted k (((todo s)(0 := p, Suc i := q)) u) = counted k (todo s u)" for k u
    using q c(2) assms(2) t by auto
  have "slots_inv (pop (Suc i) q (pop t p s))"
    unfolding slots_inv_def
  proof (intro allI ballI)
    fix u k assume "k \<in> tester_locks"
    note slots_invD [OF inv(4) this, of u]
    with c(2) assms(2) t td(1) [of k u] q
    show "slot_ok k (pcs (srv (pop (Suc i) q (pop t p s))) (slot u k)) (todo (pop (Suc i) q (pop t p s)) u)"
      by (auto simp: slot_ok_def split: if_splits)
  qed
  moreover have "lock_good lid_a (srv s)" using inv(3) assms(2) t by (auto simp: lock_a_inv_def)
  ultimately show ?thesis
    using inv c(1) t td(2) by (simp add: tester_inv_def lock_a_inv_def count_inv_def)
qed

lemma tester_step_inv:
  assumes "tester_inv nt s" and "tester_step np nt t w s = Some s'"
  shows "tester_inv nt s'"
proof -
  have ne: "\<not> exited (srv s)" using assms(1) by (simp add: tester_inv_def count_inv_def)
  obtain x p where x: "todo s t = x # p" using assms(2) ne by (cases "todo s t") (auto simp: tester_step_def)
  have count: "count_inv s" using assms(1) by (simp add: tester_inv_def)
  show ?thesis
  proof (cases x)
    case (Acq c lid)
    then show ?thesis using assms(2) x ne call_acquire_inv [OF assms(1)] by (simp add: tester_step_def)
  next
    case (Rel c lid)
    then show ?thesis using assms(2) x ne call_release_inv [OF assms(1)] by (simp add: tester_step_def)
  next
    case (Check_grant lid)
    then show ?thesis
      using assms(2) x ne check_grant_passes [OF assms(1), of t lid p] by (auto simp: tester_step_def checked_def)
  next
    case (Check_release lid)
    then show ?thesis
      using assms(2) x ne check_release_passes [OF assms(1), of t lid p] by (auto simp: tester_step_def checked_def)
  next
    case (Create i q)
    then show ?thesis using assms(2) x ne create_inv [OF assms(1), of t i q p] by (simp add: tester_step_def)
  next
    case Sleep
    then have "tester_inv nt (pop t p (s\<lparr>srv := srv s\<rparr>))"
      using x by (intro simple_pop_inv [OF assms(1) x] count_inv_pop [OF count x]) simp_all
    with Sleep show ?thesis using assms(2) x ne by (simp add: tester_step_def)
  next
    case (Join i)
    then have i: "todo s (Suc i) = []" "s' = pop t p s"
      using assms(2) x ne by (simp_all add: tester_step_def split: if_splits)
    have "tester_inv nt (pop t p (s\<lparr>srv := srv s\<rparr>))"
      using x Join i(1) by (intro simple_pop_inv [OF assms(1) x] count_inv_pop [OF count x]) simp_all
    with i(2) show ?thesis by simp
  qed
qed

lemma spurious_inv:
  assumes "tester_inv nt s" and "lock_exec (Wake h) (srv s) = Some v"
  shows "tester_inv nt (s\<lparr>srv := v\<rparr>)"
proof -
  have inv: "server_inv (srv s)" "slots_inv s" using assms(1) by (simp_all add: tester_inv_def)
  note f = wake_frame [OF assms(2)]
  have step: "handler_step h (srv s) v"
    using server_inv_wake [OF inv(1) assms(2)] lock_good_step [OF assms(2)] f inv(1)
    by (simp add: handler_step_def server_inv_def)
  obtain k where k: "pcs (srv s) h = Asleep k" "pcs v h = A_lock k" using f(4) by blast
  then obtain t lid where h: "h = slot t lid" "lid \<in> tester_locks" using server_inv_slot [OF inv(1), of h] by auto
  then have "slot_ok lid (pcs v h) (todo s t)" using slots_invD [OF inv(2) h(2), of t] slot_ok_wake k by simp
  with step h show ?thesis using handler_step_inv [OF assms(1)] by blast
qed

lemma tester_exec_inv: "tester_inv nt s \<Longrightarrow> tester_exec np nt e s = Some s' \<Longrightarrow> tester_inv nt s'"
  by (cases e) (auto simp del: lock_exec.simps split: if_splits option.splits intro: tester_step_inv spurious_inv)

lemma tester_run_inv: "tester_run np nt es s = Some s' \<Longrightarrow> tester_inv nt s \<Longrightarrow> tester_inv nt s'"
  by (induction es arbitrary: s) (auto split: option.splits dest: tester_exec_inv)

end
