(* ===== verification/Lock_Tester_Ends.thy ===== *)
theory Lock_Tester_Ends
  imports Lock_Tester
begin

text \<open>
  The lock tester comes to its end: as long as a thread has something left to do, some thread can make a
  step, also when the requests have to wait for a thread of the server's pool; and the number of
  steps is bounded. The properties of the theory \<open>Lock_Tester\<close> and of this one are at the end.
\<close>

section \<open>The pool is large enough\<close>

definition busy :: "lock_world \<Rightarrow> nat \<Rightarrow> bool" where
  "busy v t \<longleftrightarrow> (\<exists>lid \<in> tester_locks. in_handler (pcs v (slot t lid)))"

text \<open>A thread waits for one call at a time.\<close>

lemma one_handler:
  assumes "slots_inv s" and "in_handler (pcs (srv s) (slot t lid_a))"
  shows "\<not> in_handler (pcs (srv s) (slot t lid_b))"
proof
  assume "in_handler (pcs (srv s) (slot t lid_b))"
  with assms slots_invD [OF assms(1), of lid_a t] slots_invD [OF assms(1), of lid_b t]
  have "is_acq lid_a (hd (todo s t)) \<or> is_rel lid_a (hd (todo s t))"
      "is_acq lid_b (hd (todo s t)) \<or> is_rel lid_b (hd (todo s t))"
    by (auto simp: slot_ok_def split: if_splits)
  then show False by (cases "hd (todo s t)") auto
qed

lemma busy_handlers:
  assumes "slots_inv s"
  shows "length (filter (\<lambda>h. in_handler (pcs (srv s) h)) [slot t lid. t \<leftarrow> ts, lid \<leftarrow> [lid_a, lid_b]]) \<le>
    length (filter (busy (srv s)) ts)"
  using one_handler [OF assms] by (induction ts) (auto simp: busy_def)

lemma busy_todo: "slots_inv s \<Longrightarrow> busy (srv s) t \<Longrightarrow> todo s t \<noteq> [] \<and> on_lock (hd (todo s t))"
proof -
  assume "slots_inv s" and "busy (srv s) t"
  then obtain lid where "lid \<in> tester_locks" "in_handler (pcs (srv s) (slot t lid))" by (auto simp: busy_def)
  then have "todo s t \<noteq> []" "is_acq lid (hd (todo s t)) \<or> is_rel lid (hd (todo s t))"
    using slots_invD [OF \<open>slots_inv s\<close>, of lid t] by (auto simp: slot_ok_def split: if_splits)
  then show ?thesis by (cases "hd (todo s t)") auto
qed

lemma pool_not_exhausted:
  assumes "tester_inv nt s" and "nt \<le> np" and "0 < np" and "todo s t = x # p" and "on_lock x" and "\<not> busy (srv s) t"
  shows "pool_free np nt (srv s)"
proof -
  have inv: "programs_inv nt (todo s)" "slots_inv s" using assms(1) by (simp_all add: tester_inv_def)
  have "card {u \<in> {0..<Suc nt}. busy (srv s) u} < np"
  proof (cases t)
    case 0
    have "\<not> busy (srv s) u" for u
    proof (cases u)
      case (Suc i)
      then show ?thesis using main_alone [OF inv(1), of x p i] assms(4,5) 0 busy_todo [OF inv(2), of u] by auto
    qed (insert assms(6) 0, simp)
    with assms(3) show ?thesis by simp
  next
    case (Suc i)
    then have i: "i < nt" "lockfree (todo s 0)" using programs_inv_thread(2) [OF inv(1), of i] assms(4) by auto
    then have "\<not> busy (srv s) 0" using busy_todo [OF inv(2), of 0] by fastforce
    then have "{u \<in> {0..<Suc nt}. busy (srv s) u} \<subseteq> {1..nt} - {t}"
      using assms(6) by (auto simp: Suc_le_eq) (metis gr0I)+
    then have "card {u \<in> {0..<Suc nt}. busy (srv s) u} \<le> card ({1..nt} - {t})" by (intro card_mono) auto
    also have "\<dots> = nt - 1" using i Suc by simp
    finally show ?thesis using assms(2,3) by simp
  qed
  moreover have "length (filter (busy (srv s)) [0..<Suc nt]) = card {u \<in> {0..<Suc nt}. busy (srv s) u}"
    by (simp add: distinct_length_filter Int_def conj_commute del: upt_Suc)
  ultimately show ?thesis using busy_handlers [OF inv(2), of "[0..<Suc nt]"] by (simp add: pool_free_def)
qed

section \<open>Some thread can go on\<close>

definition progress :: "nat \<Rightarrow> nat \<Rightarrow> tester \<Rightarrow> bool" where
  "progress np nt s \<longleftrightarrow> (\<exists>t w. tester_step np nt t w s \<noteq> None)"

lemma not_exited: "tester_inv nt s \<Longrightarrow> \<not> exited (srv s)"
  by (simp add: tester_inv_def count_inv_def)

text \<open>Actions that never wait.\<close>

lemma free_progress:
  assumes "tester_inv nt s" and "todo s t = x # p" and "\<And>c lid. x \<noteq> Acq c lid \<and> x \<noteq> Rel c lid"
    and "\<And>i. x = Join i \<Longrightarrow> todo s (Suc i) = []"
  shows "progress np nt s"
proof -
  have "tester_step np nt t 0 s \<noteq> None"
    using assms(2-4) not_exited [OF assms(1)] by (cases x) (auto simp: tester_step_def)
  then show ?thesis unfolding progress_def by blast
qed

text \<open>A call whose request is not at the server yet.\<close>

lemma request_progress:
  assumes "tester_inv nt s" and "nt \<le> np" and "0 < np" and "todo s t = x # p" and "x = Acq c lid \<or> x = Rel c lid"
    and "\<not> in_handler (pcs (srv s) (slot t lid))"
  shows "progress np nt s"
proof -
  have inv: "programs_inv nt (todo s)" "slots_inv s" using assms(1) by (simp_all add: tester_inv_def)
  have lid: "lid \<in> tester_locks" using programs_inv_locks(1) [OF inv(1), of t] assms(4,5) by auto
  have "\<not> in_handler (pcs (srv s) (slot t k))" if "k \<in> tester_locks" "k \<noteq> lid" for k
    using slots_invD [OF inv(2) that(1), of t] that assms(4,5) by (auto simp: slot_ok_def split: if_splits)
  with assms(6) have "\<not> busy (srv s) t" unfolding busy_def by blast
  then have "pool_free np nt (srv s)" using pool_not_exhausted [OF assms(1-4)] assms(5) by auto
  moreover have "pcs (srv s) (slot t lid) = Idle" if "x = Acq c lid"
    using slots_invD [OF inv(2) lid, of t] that assms(4,6) by (auto simp: slot_ok_def split: if_splits)
  ultimately have "tester_step np nt t 0 s \<noteq> None"
    using assms(4-6) not_exited [OF assms(1)]
    by (auto simp: tester_step_def call_acquire_def call_release_def Let_def)
  then show ?thesis unfolding progress_def by blast
qed

text \<open>A handler that can make a step.\<close>

lemma handler_progress:
  assumes "tester_inv nt s" and "lid \<in> tester_locks" and "in_handler (pcs (srv s) (slot t lid))"
    and "acquire_step (slot t lid) (srv s) \<noteq> None \<or> (\<exists>w. release_step (slot t lid) w (srv s) \<noteq> None)"
  shows "progress np nt s"
proof -
  let ?h = "slot t lid"
  have inv: "slots_inv s" "queues_ok (srv s)" using assms(1) by (simp_all add: tester_inv_def server_inv_def)
  note slot = slots_invD [OF inv(1) assms(2), of t]
  have "\<exists>w. tester_step np nt t w s \<noteq> None"
  proof (cases "acquire_step ?h (srv s)")
    case (Some v)
    note f = acquire_step_frame [OF Some]
    then have "is_acq lid (hd (todo s t))" "todo s t \<noteq> []" using slot by (auto simp: slot_ok_def split: if_splits)
    then obtain c p where "todo s t = Acq c lid # p" by (cases "todo s t"; cases "hd (todo s t)") auto
    with Some f(4) not_exited [OF assms(1)] have "tester_step np nt t 0 s \<noteq> None"
      by (auto simp: tester_step_def call_acquire_def Let_def)
    then show ?thesis by blast
  next
    case None
    then obtain w v where v: "release_step ?h w (srv s) = Some v" using assms(4) by auto
    note f = release_step_frame [OF v inv(2)]
    then have "is_rel lid (hd (todo s t))" "todo s t \<noteq> []" using slot by (auto simp: slot_ok_def split: if_splits)
    then obtain c p where "todo s t = Rel c lid # p" by (cases "todo s t"; cases "hd (todo s t)") auto
    with v f(4) not_exited [OF assms(1)] have "tester_step np nt t w s \<noteq> None"
      by (auto simp: tester_step_def call_release_def Let_def)
    then show ?thesis by blast
  qed
  then show ?thesis unfolding progress_def by blast
qed

text \<open>A handler is at work and nobody holds the lock.\<close>

lemma waiting_progress:
  assumes "tester_inv nt s" and "lid \<in> tester_locks" and "in_handler (pcs (srv s) (slot t lid))"
    and "\<And>u. pcs (srv s) (slot u lid) \<noteq> Granted lid"
  shows "progress np nt s"
proof -
  have inv: "server_inv (srv s)" "slots_inv s" using assms(1) by (simp_all add: tester_inv_def)
  have lid: "lid_of (pcs (srv s) (slot t lid)) = Some lid"
    using slots_invD [OF inv(2) assms(2), of t] assms(3) by (auto simp: slot_ok_def split: if_splits)
  show ?thesis
  proof (cases "lock_good lid (srv s)")
    case True
    then obtain h where h: "lid_of (pcs (srv s) h) = Some lid" "moves (srv s) h" using good_moves lid by blast
    then obtain u k where u: "h = slot u k" "k \<in> tester_locks" using server_inv_slot [OF inv(1), of h] by force
    have "slot_ok k (pcs (srv s) h) (todo s u)" using slots_invD [OF inv(2) u(2), of u] u(1) by simp
    with h(1) have q: "k = lid" "in_handler (pcs (srv s) h) \<or> pcs (srv s) h = Granted lid"
      by (auto simp: slot_ok_def split: if_splits)
    with assms(4) [of u] u(1) have "in_handler (pcs (srv s) h)" by auto
    moreover from this have "client_step h (srv s) = None" by (auto simp: client_step_def split: pc.splits)
    ultimately show ?thesis
      using h(2) u q(1) by (intro handler_progress [OF assms(1,2), of u]) (auto simp: moves_def)
  next
    case False
    then have "fresh_lock lid (srv s)" using server_inv_locks [OF inv(1) assms(2)] by blast
    then have "acquire_step (slot t lid) (srv s) \<noteq> None"
      using fresh_lockD [OF _ lid] by (auto simp: acquire_step_def)
    then show ?thesis using handler_progress [OF assms(1-3)] by blast
  qed
qed

text \<open>The main thread in the first test, when it is alone.\<close>

lemma main_progress:
  assumes "tester_inv nt s" and "nt \<le> np" and "0 < np" and "todo s 0 = x # p" and "on_lock x"
  shows "progress np nt s"
proof (cases "\<exists>c lid. x = Acq c lid \<or> x = Rel c lid")
  case True
  then obtain c lid where x: "x = Acq c lid \<or> x = Rel c lid" by blast
  have inv: "programs_inv nt (todo s)" "slots_inv s" using assms(1) by (simp_all add: tester_inv_def)
  have lid: "lid \<in> tester_locks" using programs_inv_locks(1) [OF inv(1), of 0] assms(4) x by auto
  show ?thesis
  proof (cases "in_handler (pcs (srv s) (slot 0 lid))")
    case True
    have "pcs (srv s) (slot u lid) \<noteq> Granted lid" for u
    proof (cases u)
      case (Suc i)
      then show ?thesis
        using slots_invD [OF inv(2) lid, of u] main_alone [OF inv(1) assms(4,5), of i] by (auto simp: slot_ok_def)
    qed (insert True, auto)
    then show ?thesis using waiting_progress [OF assms(1) lid True] by blast
  qed (rule request_progress [OF assms(1-4) x])
next
  case False
  then show ?thesis using free_progress [OF assms(1,4)] assms(5) by (cases x) auto
qed

lemma thread_progress:
  assumes "tester_inv nt s" and "nt \<le> np" and "0 < np" and "todo s (Suc i) \<noteq> []"
  shows "progress np nt s"
proof -
  have inv: "programs_inv nt (todo s)" "slots_inv s" using assms(1) by (simp_all add: tester_inv_def)
  have main: "\<not> held lid (todo s 0)" for lid using programs_inv_thread(2) [OF inv(1) assms(4)] lockfree_rest by blast
  have step: "progress np nt s \<or> (\<exists>c. (x = Acq c lid_a \<or> x = Rel c lid_a) \<and> in_handler (pcs (srv s) (slot (Suc j) lid_a)))"
    if x: "todo s (Suc j) = x # p" for j x p
  proof (cases "\<exists>c lid. x = Acq c lid \<or> x = Rel c lid")
    case True
    then obtain c where "x = Acq c lid_a \<or> x = Rel c lid_a"
      using programs_inv_locks(2) [OF inv(1), of "Suc j"] x by auto
    then show ?thesis using request_progress [OF assms(1-3) x] by blast
  next
    case False
    moreover have "on_lock x" using programs_inv_thread(1) [OF inv(1), of j] x thread_ok_tl by auto
    ultimately have "progress np nt s" using free_progress [OF assms(1) x] by (cases x) auto
    then show ?thesis ..
  qed
  obtain x p where x: "todo s (Suc i) = x # p" using assms(4) by (cases "todo s (Suc i)") auto
  show ?thesis
  proof (cases "\<exists>u. pcs (srv s) (slot u lid_a) = Granted lid_a")
    case True
    then obtain u where u: "pcs (srv s) (slot u lid_a) = Granted lid_a" by blast
    then have h: "held lid_a (todo s u)" using slots_invD [OF inv(2), of lid_a u] by (simp add: slot_ok_def)
    with main obtain j where j: "u = Suc j" by (cases u) auto
    obtain y q where "todo s (Suc j) = y # q" using h j by (cases "todo s (Suc j)") auto
    with step u j show ?thesis by fastforce
  next
    case False
    with step [OF x] waiting_progress [OF assms(1), of lid_a "Suc i"] show ?thesis by auto
  qed
qed

lemma tester_progress:
  assumes "tester_inv nt s" and "nt \<le> np" and "0 < np" and "todo s t \<noteq> []"
  shows "progress np nt s"
proof (cases "\<exists>i. todo s (Suc i) \<noteq> []")
  case False
  then obtain x p where x: "todo s 0 = x # p" using assms(4) by (cases t; cases "todo s t") auto
  then show ?thesis
    using main_progress [OF assms(1-3) x] free_progress [OF assms(1) x] False by (cases x) auto
qed (insert thread_progress [OF assms(1-3)], blast)

section \<open>The number of steps\<close>

text \<open>
  The steps a program takes when no wait ends without a signal: at most eight for a call. What the last
  steps of a release count beyond this pays for the thread it wakes.
\<close>

fun program_steps :: "action list \<Rightarrow> nat" where
  "program_steps [] = 0"
| "program_steps (Acq c lid # p) = 8 + program_steps p"
| "program_steps (Rel c lid # p) = 8 + program_steps p"
| "program_steps (Create i q # p) = 1 + program_steps q + program_steps p"
| "program_steps (_ # p) = 1 + program_steps p"

fun call_steps :: "pc \<Rightarrow> nat" where
  "call_steps (A_check k) = 7"
| "call_steps (A_create k) = 6"
| "call_steps (A_lock k) = 5"
| "call_steps (A_test k) = 4"
| "call_steps (Asleep k) = 3"
| "call_steps (A_set k) = 3"
| "call_steps (A_unlock k) = 2"
| "call_steps (R_lock k) = 7"
| "call_steps (R_set k) = 6"
| "call_steps (R_signal k) = 5"
| "call_steps (R_unlock k) = 1"
| "call_steps _ = 8"

definition remaining :: "lock_world \<Rightarrow> nat \<Rightarrow> action list \<Rightarrow> nat" where
  "remaining v t p =
     (case p of
        Acq c lid # p \<Rightarrow> call_steps (pcs v (slot t lid)) + program_steps p
      | Rel c lid # p \<Rightarrow> call_steps (pcs v (slot t lid)) + program_steps p
      | p \<Rightarrow> program_steps p)"

definition total :: "nat \<Rightarrow> tester \<Rightarrow> nat" where
  "total nt s = (\<Sum>t\<le>nt. remaining (srv s) t (todo s t))"

lemma remaining_simps [simp]:
  "remaining v t [] = 0"
  "remaining v t (Acq c lid # p) = call_steps (pcs v (slot t lid)) + program_steps p"
  "remaining v t (Rel c lid # p) = call_steps (pcs v (slot t lid)) + program_steps p"
  "remaining v t (Check_grant lid # p) = 1 + program_steps p"
  "remaining v t (Check_release lid # p) = 1 + program_steps p"
  "remaining v t (Sleep # p) = 1 + program_steps p"
  "remaining v t (Create i q # p) = 1 + program_steps q + program_steps p"
  "remaining v t (Join i # p) = 1 + program_steps p"
  by (simp_all add: remaining_def)

lemma call_steps_le: "call_steps q \<le> 8"
  by (cases q) auto

lemma remaining_le: "remaining v t p \<le> program_steps p"
proof (cases p)
  case (Cons x q)
  then show ?thesis using call_steps_le by (cases x) simp_all
qed simp

lemma remaining_frame:
  assumes "\<And>lid. lid \<in> tester_locks \<Longrightarrow> pcs v' (slot t lid) = pcs v (slot t lid)" and "lock_ok tester_locks p"
  shows "remaining v' t p = remaining v t p"
proof (cases p)
  case (Cons x q)
  with assms show ?thesis by (cases x) auto
qed simp

lemma sum_changed:
  fixes f g :: "nat \<Rightarrow> nat"
  assumes "t \<le> n" and "g t + d < f t" and "x \<noteq> t" and "g x \<le> f x + d" and "\<And>u. u \<noteq> t \<Longrightarrow> u \<noteq> x \<Longrightarrow> g u \<le> f u"
  shows "(\<Sum>u\<le>n. g u) < (\<Sum>u\<le>n. f u)"
proof -
  have split: "(\<Sum>u\<le>n. h u) = h t + (if x \<le> n then h x else 0) + (\<Sum>u \<in> {..n} - {t, x}. h u)" for h :: "nat \<Rightarrow> nat"
  proof (cases "x \<le> n")
    case True
    have "{..n} - {t, x} = {..n} - {t} - {x}" by blast
    with True assms(1,3) show ?thesis by (simp add: sum.remove [of "{..n}" t] sum.remove [of "{..n} - {t}" x])
  next
    case False
    then have "{..n} - {t, x} = {..n} - {t}" by auto
    with False assms(1) show ?thesis by (simp add: sum.remove [of "{..n}" t])
  qed
  have "(\<Sum>u \<in> {..n} - {t, x}. g u) \<le> (\<Sum>u \<in> {..n} - {t, x}. f u)" using assms(5) by (intro sum_mono) auto
  with assms(2,4) show ?thesis unfolding split [of g] split [of f] by (cases "x \<le> n") auto
qed

text \<open>A thread that has something to do is one of those of the program.\<close>

lemma thread_index: "programs_inv nt td \<Longrightarrow> td t \<noteq> [] \<Longrightarrow> t \<le> nt"
  using programs_inv_thread(2) [of nt td] by (cases t) fastforce+

lemma acquire_call_steps:
  "acquire_step h v = Some v' \<Longrightarrow> \<not> (\<exists>k. pcs v' h = Granted k) \<Longrightarrow> call_steps (pcs v' h) < call_steps (pcs v h)"
  "acquire_step h v = Some v' \<Longrightarrow> 0 < call_steps (pcs v h)"
  by (auto simp: acquire_step_def Let_def split: pc.splits option.splits if_splits)

lemma release_call_steps:
  assumes "release_step h w v = Some v'" and "queues_ok v"
  shows "pcs v' h \<noteq> Idle \<Longrightarrow> call_steps (pcs v' h) < call_steps (pcs v h)" and "0 < call_steps (pcs v h)"
    and "\<exists>u. u \<noteq> h \<and> pcs v' u \<noteq> pcs v u \<Longrightarrow> call_steps (pcs v' h) + 2 < call_steps (pcs v h) \<and>
      (\<exists>k. lid_of (pcs v h) = Some k \<and> (\<forall>u. u \<noteq> h \<longrightarrow> u \<noteq> w \<longrightarrow> pcs v' u = pcs v u) \<and> pcs v w = Asleep k \<and> pcs v' w = A_lock k)"
  using assms
  by (auto simp: release_step_def queues_ok_def Let_def split: pc.splits option.splits if_splits)

lemma total_thread:
  assumes "tester_inv nt s" and "todo s t \<noteq> []"
    and "remaining (srv s') t (todo s' t) < remaining (srv s) t (todo s t)"
    and "\<And>u. u \<noteq> t \<Longrightarrow> todo s' u = todo s u"
    and "\<And>u lid. u \<noteq> t \<Longrightarrow> lid \<in> tester_locks \<Longrightarrow> pcs (srv s') (slot u lid) = pcs (srv s) (slot u lid)"
  shows "total nt s' < total nt s"
proof -
  have inv: "programs_inv nt (todo s)" using assms(1) by (simp add: tester_inv_def)
  have "remaining (srv s') u (todo s' u) = remaining (srv s) u (todo s u)" if "u \<noteq> t" for u
    using remaining_frame [OF assms(5) [OF that] programs_inv_locks(1) [OF inv], of u] assms(4) [OF that] by simp
  then show ?thesis
    unfolding total_def using assms(3) thread_index [OF inv assms(2)]
    by (intro sum_changed [where d = 0 and t = t and x = "Suc t"]) auto
qed

lemma call_acquire_total:
  assumes "tester_inv nt s" and "todo s t = Acq c lid # p" and "call_acquire np nt t lid p s = Some s'"
  shows "total nt s' < total nt s"
proof -
  have lid: "lid \<in> tester_locks"
    using programs_inv_locks(1) [of nt "todo s" t] assms(1,2) by (simp add: tester_inv_def)
  let ?h = "slot t lid"
  show ?thesis
  proof (cases "pcs (srv s) ?h = Idle")
    case True
    then have "s' = s\<lparr>srv := goto ?h (A_check lid) (srv s)\<rparr>"
      using assms(3) by (simp add: call_acquire_def Let_def split: if_splits)
    with True lid show ?thesis
      by (intro total_thread [OF assms(1), of t]) (auto simp: assms(2))
  next
    case False
    then obtain v where v: "acquire_step ?h (srv s) = Some v"
        "s' = (if pcs v ?h = Granted lid then pop t p (s\<lparr>srv := v\<rparr>) else s\<lparr>srv := v\<rparr>)"
      using assms(3) by (auto simp: call_acquire_def Let_def split: option.splits)
    note f = acquire_step_frame [OF v(1)]
    have h: "lid_of (pcs (srv s) ?h) = Some lid"
      using slots_invD [of s lid t] lid assms(1) f(4) by (auto simp: tester_inv_def slot_ok_def split: if_splits)
    have "remaining (srv s') t (todo s' t) < remaining (srv s) t (todo s t)"
      using remaining_le [of v t p] acquire_call_steps [OF v(1)] f(6) h
      by (cases "\<exists>k. pcs v ?h = Granted k") (auto simp: v(2) assms(2))
    then show ?thesis
      using f(3) lid by (intro total_thread [OF assms(1), of t]) (auto simp: v(2) assms(2))
  qed
qed

text \<open>The signal of a release moves another handler.\<close>

lemma wake_total:
  assumes "tester_inv nt s" and "pcs (srv s) w = Asleep k" and "pcs v w = A_lock k"
    and "\<And>u lid. lid \<in> tester_locks \<Longrightarrow> slot u lid \<noteq> w \<Longrightarrow> u \<notin> T \<Longrightarrow> pcs v (slot u lid) = pcs (srv s) (slot u lid)"
  obtains x where "w = slot x k" and "k \<in> tester_locks" and "remaining v x (todo s x) = remaining (srv s) x (todo s x) + 2"
    and "\<And>u. u \<noteq> x \<Longrightarrow> u \<notin> T \<Longrightarrow> remaining v u (todo s u) = remaining (srv s) u (todo s u)"
proof -
  have inv: "server_inv (srv s)" "programs_inv nt (todo s)" "slots_inv s" using assms(1) by (simp_all add: tester_inv_def)
  obtain x lid where w: "w = slot x lid" "lid \<in> tester_locks" using server_inv_slot [OF inv(1), of w] assms(2) by auto
  have so: "slot_ok lid (Asleep k) (todo s x)" using slots_invD [OF inv(3) w(2), of x] assms(2) w(1) by simp
  then have k: "lid = k" by (simp add: slot_ok_def)
  obtain c q where q: "todo s x = Acq c k # q"
    using so by (cases "todo s x"; cases "hd (todo s x)") (auto simp: slot_ok_def k)
  show thesis
  proof
    show "w = slot x k" "k \<in> tester_locks" using w k by simp_all
    show "remaining v x (todo s x) = remaining (srv s) x (todo s x) + 2"
      using q assms(2,3) w(1) k by (simp)
    show "remaining v u (todo s u) = remaining (srv s) u (todo s u)" if "u \<noteq> x" "u \<notin> T" for u
      using that assms(4) w by (intro remaining_frame programs_inv_locks(1) [OF inv(2)]) auto
  qed
qed

lemma call_release_total:
  assumes "tester_inv nt s" and "todo s t = Rel c lid # p" and "call_release np nt t lid w p s = Some s'"
  shows "total nt s' < total nt s"
proof -
  have inv: "programs_inv nt (todo s)" "slots_inv s" "queues_ok (srv s)"
    using assms(1) by (simp_all add: tester_inv_def server_inv_def)
  have lid: "lid \<in> tester_locks" using programs_inv_locks(1) [OF inv(1), of t] assms(2) by simp
  let ?h = "slot t lid"
  show ?thesis
  proof (cases "in_handler (pcs (srv s) ?h)")
    case False
    then have "s' = s\<lparr>srv := goto ?h (R_lock lid) (srv s)\<rparr>"
      using assms(3) by (simp add: call_release_def Let_def split: if_splits)
    moreover have "call_steps (pcs (srv s) ?h) = 8" using False by (cases "pcs (srv s) ?h") auto
    ultimately show ?thesis
      using lid by (intro total_thread [OF assms(1), of t]) (auto simp: assms(2))
  next
    case True
    then obtain v where v: "release_step ?h w (srv s) = Some v"
        "s' = (if pcs v ?h = Idle then pop t p (s\<lparr>srv := v\<rparr>) else s\<lparr>srv := v\<rparr>)"
      using assms(3) by (auto simp: call_release_def Let_def split: option.splits)
    note f = release_step_frame [OF v(1) inv(3)]
    note r = release_call_steps [OF v(1) inv(3)]
    have less: "remaining (srv s') t (todo s' t) < remaining (srv s) t (todo s t)"
      using remaining_le [of v t p] r(1,2) by (auto simp: v(2) assms(2))
    have td: "todo s' u = todo s u" if "u \<noteq> t" for u using that by (simp add: v(2))
    have srv: "srv s' = v" by (simp add: v(2))
    show ?thesis
    proof (cases "\<exists>u. u \<noteq> ?h \<and> pcs v u \<noteq> pcs (srv s) u")
      case False
      have "pcs v (slot u k) = pcs (srv s) (slot u k)" if "u \<noteq> t" "k \<in> tester_locks" for u k
        using False slot_inj [OF that(2) lid, of u t] that(1) by blast
      then show ?thesis
        using less td srv by (intro total_thread [OF assms(1), of t]) (auto simp: assms(2))
    next
      case True
      from r(3) [OF this] obtain k where k: "call_steps (pcs v ?h) + 2 < call_steps (pcs (srv s) ?h)"
          "lid_of (pcs (srv s) ?h) = Some k" "\<forall>u. u \<noteq> ?h \<longrightarrow> u \<noteq> w \<longrightarrow> pcs v u = pcs (srv s) u"
          "pcs (srv s) w = Asleep k" "pcs v w = A_lock k"
        by blast
      obtain x where x: "w = slot x k" "k \<in> tester_locks"
          "remaining v x (todo s x) = remaining (srv s) x (todo s x) + 2"
          "\<And>u. u \<noteq> x \<Longrightarrow> u \<notin> {t} \<Longrightarrow> remaining v u (todo s u) = remaining (srv s) u (todo s u)"
        using k(3) lid by (rule_tac wake_total [OF assms(1) k(4,5), of "{t}"]) auto
      have "w \<noteq> ?h" using f(5) k(4) by auto
      moreover have "lid_of (pcs (srv s) ?h) = Some lid"
        using slots_invD [OF inv(2) lid, of t] f(4) by (auto simp: slot_ok_def split: if_splits)
      ultimately have xt: "x \<noteq> t" using x(1) k(2) by auto
      have idle: "pcs v ?h \<noteq> Idle" using k(1) call_steps_le [of "pcs (srv s) ?h"] by auto
      then have "remaining v t (todo s' t) + 2 < remaining (srv s) t (todo s t)"
        using k(1) by (simp add: v(2) assms(2))
      then show ?thesis
        unfolding total_def srv using x(3,4) xt td thread_index [OF inv(1), of t] assms(2)
        by (intro sum_changed [where d = 2 and t = t and x = x]) auto
    qed
  qed
qed

lemma create_total:
  assumes "tester_inv nt s" and "todo s t = Create i q # p"
  shows "total nt (pop (Suc i) q (pop t p s)) < total nt s"
proof -
  have inv: "programs_inv nt (todo s)" using assms(1) by (simp add: tester_inv_def)
  have t: "t = 0" using on_lock_main [OF inv assms(2)] by simp
  have i: "todo s (Suc i) = []" using programs_inv_create(2) [OF inv] assms(2) t by simp
  show ?thesis
    unfolding total_def using remaining_le [of "srv s" 0 p] remaining_le [of "srv s" "Suc i" q] assms(2) t i
    by (intro sum_changed [where d = "program_steps q" and t = 0 and x = "Suc i"]) auto
qed

lemma tester_step_total:
  assumes "tester_inv nt s" and "tester_step np nt t w s = Some s'"
  shows "total nt s' < total nt s"
proof -
  have ne: "\<not> exited (srv s)" by (rule not_exited [OF assms(1)])
  obtain x p where x: "todo s t = x # p" using assms(2) ne by (cases "todo s t") (auto simp: tester_step_def)
  have simple: "total nt (pop t p (s\<lparr>srv := v\<rparr>)) < total nt s"
    if "remaining (srv s) t (x # p) = 1 + program_steps p" "pcs v = pcs (srv s)" for v
    using that remaining_le [of v t p] x by (intro total_thread [OF assms(1), of t]) auto
  show ?thesis
  proof (cases x)
    case (Acq c lid)
    then show ?thesis using assms(2) x ne call_acquire_total [OF assms(1)] by (simp add: tester_step_def)
  next
    case (Rel c lid)
    then show ?thesis using assms(2) x ne call_release_total [OF assms(1)] by (simp add: tester_step_def)
  next
    case (Check_grant lid)
    then show ?thesis
      using assms(2) x ne check_grant_passes [OF assms(1), of t lid p] simple
      by (auto simp: tester_step_def checked_def)
  next
    case (Check_release lid)
    then show ?thesis
      using assms(2) x ne check_release_passes [OF assms(1), of t lid p] simple
      by (auto simp: tester_step_def checked_def)
  next
    case (Create i q)
    then show ?thesis using assms(2) x ne create_total [OF assms(1), of t i q p] by (simp add: tester_step_def)
  qed (insert assms(2) x ne simple [of "srv s"], auto simp: tester_step_def split: if_splits)
qed

lemma spurious_total:
  assumes "tester_inv nt s" and "lock_exec (Wake h) (srv s) = Some v"
  shows "total nt (s\<lparr>srv := v\<rparr>) \<le> total nt s + 2"
proof -
  note f = wake_frame [OF assms(2)]
  obtain k where k: "pcs (srv s) h = Asleep k" "pcs v h = A_lock k" using f(4) by blast
  obtain x where x: "remaining v x (todo s x) = remaining (srv s) x (todo s x) + 2"
      "\<And>u. u \<noteq> x \<Longrightarrow> u \<notin> {} \<Longrightarrow> remaining v u (todo s u) = remaining (srv s) u (todo s u)"
    using wake_total [OF assms(1) k, of "{}"] f(3) by metis
  have "(\<Sum>u\<le>nt. remaining v u (todo s u)) \<le> (\<Sum>u\<le>nt. remaining (srv s) u (todo s u) + (if u = x then 2 else 0))"
    using x by (intro sum_mono) auto
  then show ?thesis by (simp add: total_def sum.distrib sum.delta split: if_splits)
qed

text \<open>The steps of the threads, as opposed to waits that end without a signal.\<close>

fun is_step :: "tester_event \<Rightarrow> bool" where
  "is_step (Step t w) \<longleftrightarrow> True" | "is_step (Spurious h) \<longleftrightarrow> False"

lemma tester_exec_total:
  assumes "tester_inv nt s" and "tester_exec np nt e s = Some s'"
  shows "(if is_step e then 1 else 0) + total nt s' \<le> total nt s + (if is_step e then 0 else 2)"
proof (cases e)
  case (Step t w)
  then show ?thesis using assms tester_step_total [OF assms(1)] by (simp add: Suc_le_eq)
next
  case (Spurious h)
  then show ?thesis
    using assms spurious_total [OF assms(1)] by (auto simp del: lock_exec.simps split: if_splits option.splits)
qed

lemma tester_run_total:
  "tester_run np nt es s = Some s' \<Longrightarrow> tester_inv nt s \<Longrightarrow>
    length (filter is_step es) + total nt s' \<le> total nt s + 2 * length (filter (\<lambda>e. \<not> is_step e) es)"
proof (induction es arbitrary: s)
  case (Cons e es)
  then obtain s1 where s1: "tester_exec np nt e s = Some s1" "tester_run np nt es s1 = Some s'"
    by (auto split: option.splits)
  with Cons.IH [OF s1(2)] tester_exec_inv [OF Cons.prems(2) s1(1)] tester_exec_total [OF Cons.prems(2) s1(1)]
  show ?case by (auto split: if_splits)
qed simp

lemma program_steps_append: "program_steps (p @ q) = program_steps p + program_steps q"
  by (induction p rule: program_steps.induct) auto

lemma start_and_join_steps:
  assumes "\<And>i. program_steps (body i) = k"
  shows "program_steps (start_and_join n body) = n * (k + 2)"
proof -
  have "program_steps (map (\<lambda>i. Create i (body i)) is) = length is * (k + 1)" "program_steps (map Join is) = length is" for "is"
    by (induction "is") (simp_all add: assms)
  then show ?thesis by (simp add: start_and_join_def program_steps_append algebra_simps)
qed

lemma tester_total_new:
  assumes "test = 0 \<or> test = 1" and "2 \<le> nt"
  shows "total nt (tester_new nt test) \<le> 436 + 385 * nt"
proof -
  have "program_steps tester_test1 = 72" "program_steps (tester_test2 i) = 19" "program_steps (tester_test3 i) = 180"
    "program_steps (tester_test4 i) = 180" "program_steps (tester_test5 i) = 180" for i
    by (simp_all add: tester_test1_def tester_test2_def tester_test3_def tester_test4_def tester_test5_def eval_nat_numeral)
  then have "program_steps (tester_main nt test) \<le> 436 + 385 * nt"
    using assms by (auto simp: tester_main_def program_steps_append start_and_join_steps [where k = 19]
        start_and_join_steps [where k = 180])
  moreover have "total nt (tester_new nt test) = remaining lock_server_new 0 (tester_main nt test)"
    by (simp add: total_def tester_new_def atMost_Suc_eq_insert_0 sum.atMost_shift)
  ultimately show ?thesis using remaining_le [of lock_server_new 0 "tester_main nt test"] by linarith
qed

section \<open>Properties\<close>

text \<open>
  C2. The lock tester passes. Run with all its tests, or with the first one, against a fresh lock server,
  whatever the interleaving of its threads and of the handlers at the server, and with waits that
  end without a signal, the tester never finds a lock granted twice or released without being held.
\<close>

theorem lock_tester_passes:
  assumes "test = 0 \<or> test = 1" and "2 \<le> nt" and "tester_run np nt es (tester_new nt test) = Some s"
  shows "\<not> exited (srv s)"
  using tester_run_inv [OF assms(3) tester_inv_new [OF assms(1,2)]] by (rule not_exited)

lemmas tester_eval = tester_step_def call_acquire_def call_release_def checked_def pool_free_def slot_def
  acquire_step_def release_step_def check_grant_def check_release_def entry_def lock_t_new_def
  lock_server_new_def tester_new_def lid_a_def lid_b_def Let_def

theorem lock_tester_passes_witness:
  "\<exists>s. tester_run 10 10 ([Step 0 0, Step 0 0, Step 0 0, Step 0 0, Step 0 0, Step 0 0, Step 0 0, Step 0 0]) (tester_new 10 0) = Some s \<and> ct (srv s) 1 = 1 \<and> \<not> exited (srv s)"
proof -
  obtain s where s: "tester_run 10 10 ([Step 0 0, Step 0 0, Step 0 0, Step 0 0, Step 0 0, Step 0 0, Step 0 0, Step 0 0]) (tester_new 10 0) = Some s" "ct (srv s) 1 = 1"
    by (simp add: tester_eval tester_main_def tester_test1_def upt_conv_Cons)
  with lock_tester_passes [OF _ _ s(1)] show ?thesis by simp
qed

text \<open>
  C22. The lock tester ends, when it is run with all tests or with the first one, with at least two threads
  and with at most as many as the server's pool has. Every execution has at most \<open>436 + 385 * nt\<close> steps
  of the threads, and two more for each wait that ends without a signal; and an execution that cannot
  go on has brought all threads to their end, with all checks passed.
\<close>

theorem lock_tester_terminates:
  assumes "test = 0 \<or> test = 1" and "2 \<le> nt" and "nt \<le> np" and "tester_run np nt es (tester_new nt test) = Some s"
  shows "length (filter is_step es) \<le> 436 + 385 * nt + 2 * length (filter (\<lambda>e. \<not> is_step e) es) \<and>
    ((\<forall>t w. tester_step np nt t w s = None) \<longrightarrow> (\<forall>t. todo s t = []) \<and> \<not> exited (srv s))"
proof (rule conjI)
  have inv: "tester_inv nt (tester_new nt test)" by (rule tester_inv_new [OF assms(1,2)])
  show "length (filter is_step es) \<le> 436 + 385 * nt + 2 * length (filter (\<lambda>e. \<not> is_step e) es)"
    using tester_run_total [OF assms(4) inv] tester_total_new [OF assms(1,2)] by linarith
  have "tester_inv nt s" by (rule tester_run_inv [OF assms(4) inv])
  then show "(\<forall>t w. tester_step np nt t w s = None) \<longrightarrow> (\<forall>t. todo s t = []) \<and> \<not> exited (srv s)"
    using tester_progress [of nt s np] not_exited assms(2,3) unfolding progress_def by fastforce
qed

lemma replicate_num: "replicate (numeral k) x = x # replicate (pred_numeral k) x"
  by (simp add: numeral_eq_Suc)

theorem lock_tester_terminates_witness:
  "\<exists>s. tester_run 10 10 (replicate 54 (Step 0 0)) (tester_new 10 1) = Some s \<and>
    (\<forall>t w. tester_step 10 10 t w s = None) \<and> (\<forall>t. todo s t = []) \<and> \<not> exited (srv s) \<and> 54 \<le> (436 + 385 * 10 :: nat)"
proof -
  obtain s where s: "tester_run 10 10 (replicate 54 (Step 0 0)) (tester_new 10 1) = Some s" "\<forall>t. todo s t = []"
    by (simp add: tester_eval tester_main_def tester_test1_def upt_conv_Cons replicate_num)
  then have "\<forall>t w. tester_step 10 10 t w s = None" by (simp add: tester_step_def)
  with lock_tester_terminates [OF _ _ _ s(1)] s show ?thesis by simp
qed

text \<open>
  The later tests cannot be run alone. With the argument 2 the first requests for the lock come from
  several threads at once, and when their handlers interleave in the creation of the lock, both are
  granted and the tester ends with an error.
\<close>

theorem lock_tester_alone_fails:
  "tester_select (Some 2) = Some 2 \<and>
   (\<exists>s. tester_run 10 10
     [Step 0 0, Step 0 0, Step 1 0, Step 2 0, Step 1 0, Step 2 0,
      Step 1 0, Step 1 0, Step 1 0, Step 1 0, Step 1 0, Step 1 0,
      Step 2 0, Step 2 0, Step 2 0, Step 2 0, Step 2 0, Step 2 0] (tester_new 10 2) = Some s \<and> exited (srv s))"
  by (simp add: tester_eval tester_select_def tester_main_def start_and_join_def tester_test2_def upt_conv_Cons)

text \<open>
  With fewer threads in the pool than in the tester, all of them may wait for the lock: the release that
  would wake them is never served.
\<close>

theorem lock_tester_small_pool_deadlock:
  "\<exists>s. tester_run 1 2
    [Step 0 0, Step 0 0, Step 1 0, Step 1 0, Step 1 0, Step 1 0, Step 1 0, Step 1 0, Step 1 0, Step 1 0,
     Step 1 0, Step 1 0, Step 2 0, Step 2 0, Step 2 0, Step 2 0] (tester_new 2 2) = Some s \<and>
    \<not> exited (srv s) \<and> todo s 1 \<noteq> [] \<and> (\<forall>t w. tester_step 1 2 t w s = None)"
  by (simp add: tester_eval tester_main_def start_and_join_def tester_test2_def upt_conv_Cons)

end
