(* ===== verification/Extent_Server.thy ===== *)
theory Extent_Server
  imports Rpc_Stub
begin

text \<open>
  The extent service: the wire protocol of \<^verbatim>\<open>src/extent_protocol.h\<close> and the server of
  \<^verbatim>\<open>src/extent_server.cc\<close>. Each method is a function on the server's state; the clock read by
  \<^verbatim>\<open>time(NULL)\<close> is part of the state, one value per call. The server takes no lock, so a method is
  atomic here only because the model runs the methods one after the other.
\<close>

section \<open>Protocol\<close>

type_synonym extentid_t = u64
type_synonym bytes = "u8 list"

definition ext_OK :: i32 where "ext_OK = 0"

definition ext_RPCERR :: i32 where "ext_RPCERR = 1"

definition ext_NOENT :: i32 where "ext_NOENT = 2"

definition ext_IOERR :: i32 where "ext_IOERR = 3"

definition ext_FBIG :: i32 where "ext_FBIG = 4"

lemmas ext_status = ext_OK_def ext_RPCERR_def ext_NOENT_def ext_IOERR_def ext_FBIG_def

definition proc_put :: i32 where "proc_put = 0x6001"

definition proc_get :: i32 where "proc_get = 0x6002"

definition proc_getattr :: i32 where "proc_getattr = 0x6003"

definition proc_remove :: i32 where "proc_remove = 0x6004"

definition proc_setattr :: i32 where "proc_setattr = 0x6005"

lemmas ext_procs = proc_put_def proc_get_def proc_getattr_def proc_remove_def proc_setattr_def

definition maxextent :: nat where
  "maxextent = 8192 * 1000"

record attr =
  atime :: u32
  mtime :: u32
  ctime :: u32
  a_size :: u32

definition get_attr :: "attr \<Rightarrow> unmarshall \<Rightarrow> (attr \<times> unmarshall) res" where
  "get_attr a u =
     rbind (get_u32 (atime a) u) (\<lambda>(x, u). let a = a\<lparr>atime := x\<rparr> in
     rbind (get_u32 (mtime a) u) (\<lambda>(x, u). let a = a\<lparr>mtime := x\<rparr> in
     rbind (get_u32 (ctime a) u) (\<lambda>(x, u). let a = a\<lparr>ctime := x\<rparr> in
     rbind (get_u32 (a_size a) u) (\<lambda>(x, u). let a = a\<lparr>a_size := x\<rparr> in
     Inr (a, u)))))"

definition put_attr :: "attr \<Rightarrow> marshall \<Rightarrow> marshall res" where
  "put_attr a m =
     rbind (put_u32 (atime a) m) (\<lambda>m.
     rbind (put_u32 (mtime a) m) (\<lambda>m.
     rbind (put_u32 (ctime a) m) (\<lambda>m.
     put_u32 (a_size a) m)))"

section \<open>State\<close>

record extentInfo =
  eAttr :: attr
  content :: bytes

record extent_server =
  extents :: "extentid_t \<rightharpoonup> extentInfo"
  clock :: "nat \<Rightarrow> u32"
  ticks :: nat

definition time_NULL :: "extent_server \<Rightarrow> u32 \<times> extent_server" where
  "time_NULL s = (clock s (ticks s), s\<lparr>ticks := ticks s + 1\<rparr>)"

definition extent_server_new :: "(nat \<Rightarrow> u32) \<Rightarrow> extent_server" where
  "extent_server_new c =
     (let s = \<lparr>extents = Map.empty, clock = c, ticks = 0\<rparr>;
          (curTime, s) = time_NULL s;
          rootDir = \<lparr>eAttr = \<lparr>atime = curTime, mtime = curTime, ctime = curTime, a_size = 0\<rparr>, content = []\<rparr>
      in s\<lparr>extents := (extents s)(1 \<mapsto> rootDir)\<rparr>)"

section \<open>Methods\<close>

text \<open>\<^verbatim>\<open>std::string::resize\<close>: cut, or padded with null bytes.\<close>

definition resize :: "nat \<Rightarrow> bytes \<Rightarrow> bytes" where
  "resize n c = take n c @ replicate (n - length c) 0"

definition extent_put :: "extentid_t \<Rightarrow> bytes \<Rightarrow> (i32, extent_server) handled" where
  "extent_put eid buf r s =
     (if length buf > maxextent then (ext_FBIG, r, s)
      else case extents s eid of
        None \<Rightarrow>
          let (curTime, s) = time_NULL s;
              newExtent = \<lparr>eAttr = \<lparr>atime = curTime, mtime = curTime, ctime = curTime,
                a_size = word_of_nat (length buf)\<rparr>, content = buf\<rparr>
          in (ext_OK, r, s\<lparr>extents := (extents s)(eid \<mapsto> newExtent)\<rparr>)
      | Some e \<Rightarrow>
          let e = e\<lparr>eAttr := (eAttr e)\<lparr>a_size := word_of_nat (length buf)\<rparr>, content := buf\<rparr>;
              (curTime, s) = time_NULL s;
              e = e\<lparr>eAttr := (eAttr e)\<lparr>atime := curTime, mtime := curTime, ctime := curTime\<rparr>\<rparr>
          in (ext_OK, r, s\<lparr>extents := (extents s)(eid \<mapsto> e)\<rparr>))"

definition extent_get :: "extentid_t \<Rightarrow> (bytes, extent_server) handled" where
  "extent_get eid buf s =
     (case extents s eid of
        None \<Rightarrow> (ext_NOENT, buf, s)
      | Some e \<Rightarrow> (ext_OK, content e, s))"

definition extent_getattr :: "extentid_t \<Rightarrow> (attr, extent_server) handled" where
  "extent_getattr eid a s =
     (case extents s eid of
        None \<Rightarrow> (ext_NOENT, a, s)
      | Some e \<Rightarrow> (ext_OK, eAttr e, s))"

definition extent_setattr :: "extentid_t \<Rightarrow> attr \<Rightarrow> (i32, extent_server) handled" where
  "extent_setattr eid a r s =
     (case extents s eid of
        None \<Rightarrow> (ext_NOENT, r, s)
      | Some e \<Rightarrow>
          let newSize = a_size a;
              oldSize = a_size (eAttr e);
              (curTime, s) = time_NULL s;
              e = e\<lparr>eAttr := (eAttr e)\<lparr>atime := curTime\<rparr>\<rparr>
          in
            if newSize = oldSize then (ext_OK, r, s\<lparr>extents := (extents s)(eid \<mapsto> e)\<rparr>)
            else
              let e = e\<lparr>content := resize (unat newSize) (content e),
                    eAttr := (eAttr e)\<lparr>ctime := curTime, mtime := curTime, a_size := newSize\<rparr>\<rparr>
              in (ext_OK, r, s\<lparr>extents := (extents s)(eid \<mapsto> e)\<rparr>))"

definition extent_remove :: "extentid_t \<Rightarrow> (i32, extent_server) handled" where
  "extent_remove eid r s = (ext_IOERR, r, s)"

section \<open>Invariant\<close>

text \<open>The recorded size is the length of the content, and the root directory exists.\<close>

definition extents_ok :: "extent_server \<Rightarrow> bool" where
  "extents_ok s \<longleftrightarrow>
     (\<forall>eid e. extents s eid = Some e \<longrightarrow> unat (a_size (eAttr e)) = length (content e)) \<and>
     extents s 1 \<noteq> None"

lemma length_resize [simp]: "length (resize n c) = n"
  by (simp add: resize_def)

lemma unat_length: "length b \<le> maxextent \<Longrightarrow> unat (word_of_nat (length b) :: u32) = length b"
  by (simp add: unat_of_nat maxextent_def)

lemma time_NULL_simps [simp]:
  "fst (time_NULL s) = clock s (ticks s)" "extents (snd (time_NULL s)) = extents s"
  by (simp_all add: time_NULL_def)

lemma extents_ok_new: "extents_ok (extent_server_new c)"
  by (simp add: extents_ok_def extent_server_new_def time_NULL_def)

lemma extents_ok_upd:
  assumes "extents_ok s" and "unat (a_size (eAttr e)) = length (content e)" and "extents s' = (extents s)(eid \<mapsto> e)"
  shows "extents_ok s'"
  using assms by (auto simp: extents_ok_def)

text \<open>What each method does to the contents, whatever the clock says.\<close>

definition contents_of :: "extent_server \<Rightarrow> extentid_t \<rightharpoonup> bytes" where
  "contents_of s = map_option content \<circ> extents s"

lemma extent_put_cases:
  obtains (big) "length buf > maxextent" "extent_put eid buf r s = (ext_FBIG, r, s)"
  | (stored) e s' where "length buf \<le> maxextent" "extent_put eid buf r s = (ext_OK, r, s')"
      "extents s' = (extents s)(eid \<mapsto> e)" "content e = buf" "a_size (eAttr e) = word_of_nat (length buf)"
  by (cases "length buf > maxextent"; cases "extents s eid")
    (simp_all add: extent_put_def Let_def case_prod_unfold)

lemma extent_setattr_cases:
  obtains (missing) "extents s eid = None" "extent_setattr eid a r s = (ext_NOENT, r, s)"
  | (same) e e' s' where "extents s eid = Some e" "a_size a = a_size (eAttr e)"
      "extent_setattr eid a r s = (ext_OK, r, s')" "extents s' = (extents s)(eid \<mapsto> e')"
      "content e' = content e" "a_size (eAttr e') = a_size (eAttr e)"
  | (changed) e e' s' where "extents s eid = Some e" "a_size a \<noteq> a_size (eAttr e)"
      "extent_setattr eid a r s = (ext_OK, r, s')" "extents s' = (extents s)(eid \<mapsto> e')"
      "content e' = resize (unat (a_size a)) (content e)" "a_size (eAttr e') = a_size a"
  by (cases "extents s eid"; cases "a_size a = a_size (eAttr (the (extents s eid)))")
    (simp_all add: extent_setattr_def Let_def case_prod_unfold)

lemma extent_put_ok:
  assumes "extents_ok s"
  shows "extents_ok (snd (snd (extent_put eid buf r s)))"
proof (cases rule: extent_put_cases [of buf eid r s])
  case (stored e s')
  then have "unat (a_size (eAttr e)) = length (content e)"
    by (simp only: unat_length)
  from extents_ok_upd [OF assms this stored(3)] stored(2) show ?thesis by simp
qed (simp add: assms)

lemma extent_setattr_ok: "extents_ok s \<Longrightarrow> extents_ok (snd (snd (extent_setattr eid a r s)))"
  by (rule extent_setattr_cases [of s eid a r]) (auto simp: extents_ok_def)

section \<open>The interface of an extent store\<close>

text \<open>
  What a client of extents relies on. The operations have the shape of \<^verbatim>\<open>extent_client\<close>'s methods: a
  status, the value of the reference argument, the new state, or a fault. \<open>\<alpha>\<close> gives the contents of
  the extents of a state, \<open>inv\<close> the states the laws hold in.
\<close>

record 's extent_ops =
  ec_get :: "extentid_t \<Rightarrow> bytes \<Rightarrow> 's \<Rightarrow> (i32 \<times> bytes \<times> 's) res"
  ec_getattr :: "extentid_t \<Rightarrow> attr \<Rightarrow> 's \<Rightarrow> (i32 \<times> attr \<times> 's) res"
  ec_put :: "extentid_t \<Rightarrow> bytes \<Rightarrow> 's \<Rightarrow> (i32 \<times> 's) res"
  ec_setattr :: "extentid_t \<Rightarrow> attr \<Rightarrow> 's \<Rightarrow> (i32 \<times> 's) res"
  ec_remove :: "extentid_t \<Rightarrow> 's \<Rightarrow> (i32 \<times> 's) res"

locale extent_store =
  fixes ec :: "'s extent_ops"
    and \<alpha> :: "'s \<Rightarrow> extentid_t \<rightharpoonup> bytes"
    and inv :: "'s \<Rightarrow> bool"
  assumes get_law: "inv s \<Longrightarrow> \<exists>s'. inv s' \<and> \<alpha> s' = \<alpha> s \<and>
      ec_get ec eid b s =
        Inr (case \<alpha> s eid of None \<Rightarrow> (ext_NOENT, [], s') | Some c \<Rightarrow> (ext_OK, c, s'))"
    and getattr_law: "inv s \<Longrightarrow> \<exists>s' a'. inv s' \<and> \<alpha> s' = \<alpha> s \<and>
      ec_getattr ec eid a s =
        Inr (case \<alpha> s eid of None \<Rightarrow> (ext_NOENT, a', s') | Some c \<Rightarrow> (ext_OK, a', s')) \<and>
      (\<forall>c. \<alpha> s eid = Some c \<longrightarrow> unat (a_size a') = length c)"
    and put_law: "inv s \<Longrightarrow> \<exists>s'. inv s' \<and>
      (if length b \<le> maxextent
       then ec_put ec eid b s = Inr (ext_OK, s') \<and> \<alpha> s' = (\<alpha> s)(eid \<mapsto> b)
       else ec_put ec eid b s = Inr (ext_FBIG, s') \<and> \<alpha> s' = \<alpha> s)"
    and setattr_law: "inv s \<Longrightarrow> \<exists>s'. inv s' \<and>
      (case \<alpha> s eid of
         None \<Rightarrow> ec_setattr ec eid a s = Inr (ext_NOENT, s') \<and> \<alpha> s' = \<alpha> s
       | Some c \<Rightarrow> ec_setattr ec eid a s = Inr (ext_OK, s') \<and>
           \<alpha> s' = (\<alpha> s)(eid \<mapsto> resize (unat (a_size a)) c))"
    and remove_law: "inv s \<Longrightarrow> \<exists>s'. inv s' \<and> \<alpha> s' = \<alpha> s \<and> ec_remove ec eid s = Inr (ext_IOERR, s')"

text \<open>
  The server called directly: a handler's local result variable starts empty (a string) or with some
  value \<open>r0\<close> of the stack (an integer, an attribute), and is discarded on the client side.
\<close>

definition server_ops :: "i32 \<Rightarrow> attr \<Rightarrow> extent_server extent_ops" where
  "server_ops r0 a0 =
     \<lparr>ec_get = \<lambda>eid b s. Inr (extent_get eid [] s),
      ec_getattr = \<lambda>eid a s. Inr (extent_getattr eid a0 s),
      ec_put = \<lambda>eid b s. let (st, r, s) = extent_put eid b r0 s in Inr (st, s),
      ec_setattr = \<lambda>eid a s. let (st, r, s) = extent_setattr eid a r0 s in Inr (st, s),
      ec_remove = \<lambda>eid s. let (st, r, s) = extent_remove eid r0 s in Inr (st, s)\<rparr>"

lemma resize_same: "n = length c \<Longrightarrow> resize n c = c"
  by (simp add: resize_def)

lemma contents_of_upd: "extents s' = (extents s)(eid \<mapsto> e) \<Longrightarrow> contents_of s' = (contents_of s)(eid \<mapsto> content e)"
  by (auto simp: contents_of_def)

interpretation server_store: extent_store "server_ops dr da" contents_of extents_ok for dr da
proof
  fix s :: extent_server and eid b a
  assume ok: "extents_ok s"
  show "\<exists>s'. extents_ok s' \<and> contents_of s' = contents_of s \<and> ec_get (server_ops dr da) eid b s =
      Inr (case contents_of s eid of None \<Rightarrow> (ext_NOENT, [], s') | Some c \<Rightarrow> (ext_OK, c, s'))"
    using ok by (cases "extents s eid") (auto simp: server_ops_def extent_get_def contents_of_def)
  show "\<exists>s' a'. extents_ok s' \<and> contents_of s' = contents_of s \<and> ec_getattr (server_ops dr da) eid a s =
      Inr (case contents_of s eid of None \<Rightarrow> (ext_NOENT, a', s') | Some c \<Rightarrow> (ext_OK, a', s')) \<and>
      (\<forall>c. contents_of s eid = Some c \<longrightarrow> unat (a_size a') = length c)"
    using ok by (cases "extents s eid")
      (auto simp: server_ops_def extent_getattr_def contents_of_def extents_ok_def)
  show "\<exists>s'. extents_ok s' \<and>
      (if length b \<le> maxextent
       then ec_put (server_ops dr da) eid b s = Inr (ext_OK, s') \<and> contents_of s' = (contents_of s)(eid \<mapsto> b)
       else ec_put (server_ops dr da) eid b s = Inr (ext_FBIG, s') \<and> contents_of s' = contents_of s)"
    using ok extent_put_ok [OF ok, of eid b dr]
    by (cases rule: extent_put_cases [of b eid dr s]) (auto simp: server_ops_def contents_of_upd)
  show "\<exists>s'. extents_ok s' \<and> (case contents_of s eid of
       None \<Rightarrow> ec_setattr (server_ops dr da) eid a s = Inr (ext_NOENT, s') \<and> contents_of s' = contents_of s
     | Some c \<Rightarrow> ec_setattr (server_ops dr da) eid a s = Inr (ext_OK, s') \<and>
         contents_of s' = (contents_of s)(eid \<mapsto> resize (unat (a_size a)) c))"
  proof (cases rule: extent_setattr_cases [of s eid a dr])
    case missing
    then show ?thesis using ok by (auto simp: server_ops_def contents_of_def)
  next
    case (same e e' s')
    then have "unat (a_size a) = length (content e)" using ok by (auto simp: extents_ok_def)
    with same show ?thesis
      using extent_setattr_ok [OF ok, of eid a dr]
      by (auto simp: server_ops_def contents_of_upd resize_same contents_of_def fun_eq_iff)
  next
    case (changed e e' s')
    then show ?thesis
      using extent_setattr_ok [OF ok, of eid a dr]
      by (auto simp: server_ops_def contents_of_upd contents_of_def fun_eq_iff)
  qed
  show "\<exists>s'. extents_ok s' \<and> contents_of s' = contents_of s \<and>
      ec_remove (server_ops dr da) eid s = Inr (ext_IOERR, s')"
    using ok by (auto simp: server_ops_def extent_remove_def)
qed

section \<open>Refinement of a finite map\<close>

text \<open>
  Requests and what the client sees of a reply; the abstract server is a map from identifiers to
  contents.
\<close>

datatype ext_req = Put extentid_t bytes | Get extentid_t | Getattr extentid_t | Setattr extentid_t attr |
  Remove extentid_t

datatype ext_reply = Status i32 | Data i32 bytes | Size i32 "nat option"

fun ext_step :: "ext_req \<Rightarrow> extent_server \<Rightarrow> ext_reply \<times> extent_server" where
  "ext_step (Put eid b) s = (let (st, r, s) = extent_put eid b 0 s in (Status st, s))"
| "ext_step (Get eid) s = (let (st, b, s) = extent_get eid [] s in (Data st b, s))"
| "ext_step (Getattr eid) s =
     (let (st, a, s) = extent_getattr eid \<lparr>atime = 0, mtime = 0, ctime = 0, a_size = 0\<rparr> s
      in (Size st (if st = ext_OK then Some (unat (a_size a)) else None), s))"
| "ext_step (Setattr eid a) s = (let (st, r, s) = extent_setattr eid a 0 s in (Status st, s))"
| "ext_step (Remove eid) s = (let (st, r, s) = extent_remove eid 0 s in (Status st, s))"

fun spec_step :: "ext_req \<Rightarrow> (extentid_t \<rightharpoonup> bytes) \<Rightarrow> ext_reply \<times> (extentid_t \<rightharpoonup> bytes)" where
  "spec_step (Put eid b) m =
     (if length b \<le> maxextent then (Status ext_OK, m(eid \<mapsto> b)) else (Status ext_FBIG, m))"
| "spec_step (Get eid) m =
     (case m eid of None \<Rightarrow> (Data ext_NOENT [], m) | Some c \<Rightarrow> (Data ext_OK c, m))"
| "spec_step (Getattr eid) m =
     (case m eid of None \<Rightarrow> (Size ext_NOENT None, m) | Some c \<Rightarrow> (Size ext_OK (Some (length c)), m))"
| "spec_step (Setattr eid a) m =
     (case m eid of None \<Rightarrow> (Status ext_NOENT, m)
      | Some c \<Rightarrow> (Status ext_OK, m(eid \<mapsto> resize (unat (a_size a)) c)))"
| "spec_step (Remove eid) m = (Status ext_IOERR, m)"

fun ext_run :: "ext_req list \<Rightarrow> extent_server \<Rightarrow> ext_reply list \<times> extent_server" where
  "ext_run [] s = ([], s)"
| "ext_run (q # qs) s =
     (let (a, s) = ext_step q s; (as, s) = ext_run qs s in (a # as, s))"

fun spec_run :: "ext_req list \<Rightarrow> (extentid_t \<rightharpoonup> bytes) \<Rightarrow> ext_reply list \<times> (extentid_t \<rightharpoonup> bytes)" where
  "spec_run [] m = ([], m)"
| "spec_run (q # qs) m =
     (let (a, m) = spec_step q m; (as, m) = spec_run qs m in (a # as, m))"

lemma ext_step_refines:
  assumes "extents_ok s"
  shows "extents_ok (snd (ext_step q s))"
    and "(fst (ext_step q s), contents_of (snd (ext_step q s))) = spec_step q (contents_of s)"
proof -
  show "extents_ok (snd (ext_step q s))"
    using assms extent_put_ok extent_setattr_ok
    by (cases q) (auto simp: Let_def case_prod_unfold extent_get_def extent_getattr_def extent_remove_def
        split: option.splits)
  note laws = server_store.put_law [OF assms, where dr = 0] server_store.setattr_law [OF assms, where dr = 0]
  show "(fst (ext_step q s), contents_of (snd (ext_step q s))) = spec_step q (contents_of s)"
  proof (cases q)
    case (Put eid b)
    with laws(1) [where b = b and eid = eid] show ?thesis
      by (auto simp: server_ops_def Let_def case_prod_unfold split: if_splits)
  next
    case (Setattr eid a)
    with laws(2) [where eid = eid and a = a] show ?thesis
      by (auto simp: server_ops_def Let_def case_prod_unfold split: option.splits)
  qed (insert assms, auto simp: extent_get_def extent_getattr_def extent_remove_def contents_of_def
      extents_ok_def ext_status split: option.splits)
qed

lemma ext_run_refines:
  assumes "extents_ok s"
  shows "extents_ok (snd (ext_run qs s)) \<and>
    (fst (ext_run qs s), contents_of (snd (ext_run qs s))) = spec_run qs (contents_of s)"
  using assms
proof (induction qs arbitrary: s)
  case (Cons q qs)
  show ?case
    using Cons.IH [OF ext_step_refines(1) [OF Cons.prems, of q]] ext_step_refines(2) [OF Cons.prems, of q]
    by (auto simp: Let_def case_prod_unfold prod_eq_iff)
qed simp

section \<open>Properties\<close>

text \<open>
  C23. The extent server refines a finite map. From a fresh server, after any sequence of requests, the
  replies and the stored contents are those of a map that starts with the empty root directory, for
  every behaviour of the clock.
\<close>

theorem extent_server_refines_map:
  "(fst (ext_run qs (extent_server_new c)), contents_of (snd (ext_run qs (extent_server_new c)))) =
    spec_run qs [1 \<mapsto> []]"
proof -
  have "contents_of (extent_server_new c) = [1 \<mapsto> []]"
    by (auto simp: contents_of_def extent_server_new_def time_NULL_def)
  with ext_run_refines [OF extents_ok_new, of qs c] show ?thesis by simp
qed

text \<open>
  In every state the server reaches, the size recorded for an extent is the length of its content,
  and the root directory exists.
\<close>

theorem extent_sizes_consistent:
  "extents_ok (snd (ext_run qs (extent_server_new c)))"
  using ext_run_refines [OF extents_ok_new, of qs c] by simp

end
