(* ===== verification/Extent_Client.thy ===== *)
theory Extent_Client
  imports Rpc_Call Extent_Server
begin

text \<open>
  The extent service over RPC: the stubs of \<^verbatim>\<open>src/extent_client.cc\<close>, the registration of the server's
  methods in \<^verbatim>\<open>src/extent_smain.cc\<close>, and the composition of both with the RPC layer. Sequences of
  requests made through the stubs get the replies of the abstract map.
\<close>

section \<open>Attributes on the wire\<close>

definition enc_attr :: "attr \<Rightarrow> u8 list" where
  "enc_attr a = be32 (atime a) @ be32 (mtime a) @ be32 (ctime a) @ be32 (a_size a)"

definition attr_zero :: attr where
  "attr_zero = \<lparr>atime = 0, mtime = 0, ctime = 0, a_size = 0\<rparr>"

interpretation u32x2: pair_codec put_u32 get_u32 be32 0 "\<lambda>_. True" put_u32 get_u32 be32 0 "\<lambda>_. True"
  by unfold_locales

interpretation u32x3: pair_codec put_u32 get_u32 be32 0 "\<lambda>_. True" "put_pair put_u32 put_u32"
  "get_pair get_u32 get_u32" "\<lambda>p. be32 (fst p) @ be32 (snd p)" "(0, 0)" "\<lambda>p. True \<and> True"
  by unfold_locales

interpretation u32x4: pair_codec put_u32 get_u32 be32 0 "\<lambda>_. True" "put_pair put_u32 (put_pair put_u32 put_u32)"
  "get_pair get_u32 (get_pair get_u32 get_u32)" "\<lambda>p. be32 (fst p) @ be32 (fst (snd p)) @ be32 (snd (snd p))"
  "(0, 0, 0)" "\<lambda>p. True \<and> True \<and> True"
  by unfold_locales

abbreviation put_u32x4 :: "(u32 \<times> u32 \<times> u32 \<times> u32) writer" where
  "put_u32x4 \<equiv> put_pair put_u32 (put_pair put_u32 (put_pair put_u32 put_u32))"

abbreviation get_u32x4 :: "(u32 \<times> u32 \<times> u32 \<times> u32) reader" where
  "get_u32x4 \<equiv> get_pair get_u32 (get_pair get_u32 (get_pair get_u32 get_u32))"

lemma put_attr_pairs: "put_attr a m = put_u32x4 (atime a, mtime a, ctime a, a_size a) m"
  by (simp add: put_attr_def put_pair_def)

lemma get_attr_pairs:
  "get_attr a u = rbind (get_u32x4 (0, 0, 0, 0) u)
     (\<lambda>((w, x, y, z), u). Inr (\<lparr>atime = w, mtime = x, ctime = y, a_size = z\<rparr>, u))"
  by (cases a) (simp add: get_attr_def get_pair_def get_u32_def rbind_assoc case_prod_unfold Let_def)

interpretation attr_codec: strict_codec put_attr get_attr enc_attr attr_zero "\<lambda>_. True"
proof
  fix a m
  show "wfm m \<Longrightarrow> m_ind m + int (length (enc_attr a)) < msg_limit \<Longrightarrow>
      \<exists>m'. put_attr a m = Inr m' \<and> wfm m' \<and> contents m' = contents m @ map Some (enc_attr a)"
    using u32x4.put_appends [where x = "(atime a, mtime a, ctime a, a_size a)" and m = m]
    by (simp add: put_attr_pairs enc_attr_def)
next
  fix a u r
  show "wfu u \<Longrightarrow> u_ok u \<Longrightarrow> unread u = enc_attr a @ r \<Longrightarrow> reads u (get_attr attr_zero u) a r"
    using u32x4.get_decodes [where x = "(atime a, mtime a, ctime a, a_size a)" and u = u and r = r]
    by (auto simp: get_attr_pairs reads_def enc_attr_def)
next
  fix u a u'
  assume "wfu u" and "get_attr attr_zero u = Inr (a, u')"
  then show "wfu u' \<and> (u_ok u' \<longrightarrow> u_ok u \<and> True \<and> unread u = enc_attr a @ unread u')"
    using u32x4.get_sound [of u _ u'] by (fastforce simp: get_attr_pairs rbind_eq_Inr enc_attr_def)
qed

interpretation attr_result: result_codec put_attr get_attr enc_attr "\<lambda>_. True"
  by (rule result_codecI [OF attr_codec.wire_codec_axioms]) (simp add: get_attr_pairs)

section \<open>The stubs\<close>

text \<open>
  The client object holds an \<^verbatim>\<open>rpcc\<close>; its \<^verbatim>\<open>call1\<close> is an argument here. The uninitialised \<^verbatim>\<open>int r\<close> of
  three of the stubs is given as \<open>r\<close>.
\<close>

definition extent_client_get ::
  "'w caller1 \<Rightarrow> extentid_t \<Rightarrow> bytes \<Rightarrow> 'w \<Rightarrow> (i32 \<times> bytes \<times> 'w) res" where
  "extent_client_get call1 eid buf w = rpcc_call1 put_u64 call1 get_string proc_get eid buf to_max w"

definition extent_client_getattr ::
  "'w caller1 \<Rightarrow> extentid_t \<Rightarrow> attr \<Rightarrow> 'w \<Rightarrow> (i32 \<times> attr \<times> 'w) res" where
  "extent_client_getattr call1 eid a w = rpcc_call1 put_u64 call1 get_attr proc_getattr eid a to_max w"

definition extent_client_put ::
  "'w caller1 \<Rightarrow> i32 \<Rightarrow> extentid_t \<Rightarrow> bytes \<Rightarrow> 'w \<Rightarrow> (i32 \<times> 'w) res" where
  "extent_client_put call1 r eid buf w =
     rbind (rpcc_call2 put_u64 put_string call1 get_int proc_put eid buf r to_max w) (\<lambda>(ret, r, w).
     Inr (ret, w))"

definition extent_client_remove :: "'w caller1 \<Rightarrow> i32 \<Rightarrow> extentid_t \<Rightarrow> 'w \<Rightarrow> (i32 \<times> 'w) res" where
  "extent_client_remove call1 r eid w =
     rbind (rpcc_call1 put_u64 call1 get_int proc_remove eid r to_max w) (\<lambda>(ret, r, w).
     Inr (ret, w))"

definition extent_client_setattr ::
  "'w caller1 \<Rightarrow> i32 \<Rightarrow> extentid_t \<Rightarrow> attr \<Rightarrow> 'w \<Rightarrow> (i32 \<times> 'w) res" where
  "extent_client_setattr call1 r eid a w =
     rbind (rpcc_call2 put_u64 put_attr call1 get_int proc_setattr eid a r to_max w) (\<lambda>(ret, r, w).
     Inr (ret, w))"

definition extent_client :: "'w caller1 \<Rightarrow> i32 \<Rightarrow> 'w extent_ops" where
  "extent_client call1 r =
     \<lparr>ec_get = extent_client_get call1, ec_getattr = extent_client_getattr call1,
      ec_put = extent_client_put call1 r, ec_setattr = extent_client_setattr call1 r,
      ec_remove = extent_client_remove call1 r\<rparr>"

section \<open>The server's main program\<close>

text \<open>
  The handlers start from an uninitialised \<^verbatim>\<open>int\<close> and an uninitialised \<^verbatim>\<open>attr\<close>, given as \<open>r0\<close> and \<open>a0\<close>.
  What an argument is read into does not matter, because a failed read stops the handler.
\<close>

definition extent_smain ::
  "i32 \<Rightarrow> attr \<Rightarrow> u32 \<Rightarrow> (nat \<Rightarrow> u32) \<Rightarrow> extent_server rpcs res" where
  "extent_smain r0 a0 n c =
     rbind (rpcs_new n 0 r0 (extent_server_new c)) (\<lambda>s.
     rbind (reg1 proc_get (h1_fn get_u64 0 put_string [] extent_get) s) (\<lambda>s.
     rbind (reg1 proc_getattr (h1_fn get_u64 0 put_attr a0 extent_getattr) s) (\<lambda>s.
     rbind (reg1 proc_put (h2_fn get_u64 0 get_string [] put_int r0 extent_put) s) (\<lambda>s.
     rbind (reg1 proc_remove (h1_fn get_u64 0 put_int r0 extent_remove) s) (\<lambda>s.
     reg1 proc_setattr (h2_fn get_u64 0 get_attr attr_zero put_int r0 extent_setattr) s)))))"


section \<open>Requests through a store\<close>

fun store_step :: "'w extent_ops \<Rightarrow> ext_req \<Rightarrow> 'w \<Rightarrow> (ext_reply \<times> 'w) res" where
  "store_step ec (Put eid b) w = rbind (ec_put ec eid b w) (\<lambda>(st, w). Inr (Status st, w))"
| "store_step ec (Get eid) w = rbind (ec_get ec eid [] w) (\<lambda>(st, b, w). Inr (Data st b, w))"
| "store_step ec (Getattr eid) w =
     rbind (ec_getattr ec eid attr_zero w) (\<lambda>(st, a, w).
     Inr (Size st (if st = ext_OK then Some (unat (a_size a)) else None), w))"
| "store_step ec (Setattr eid a) w = rbind (ec_setattr ec eid a w) (\<lambda>(st, w). Inr (Status st, w))"
| "store_step ec (Remove eid) w = rbind (ec_remove ec eid w) (\<lambda>(st, w). Inr (Status st, w))"

fun store_run :: "'w extent_ops \<Rightarrow> ext_req list \<Rightarrow> 'w \<Rightarrow> (ext_reply list \<times> 'w) res" where
  "store_run ec [] w = Inr ([], w)"
| "store_run ec (q # qs) w =
     rbind (store_step ec q w) (\<lambda>(a, w).
     rbind (store_run ec qs w) (\<lambda>(as, w). Inr (a # as, w)))"

context extent_store
begin

lemma step_refines:
  assumes "inv s"
  shows "\<exists>a s'. store_step ec q s = Inr (a, s') \<and> inv s' \<and> (a, \<alpha> s') = spec_step q (\<alpha> s)"
proof (cases q)
  case (Put eid b)
  with put_law [OF assms, of b eid] show ?thesis by (auto split: if_splits)
next
  case (Get eid)
  with get_law [OF assms, of eid "[]"] show ?thesis by (auto split: option.splits)
next
  case (Getattr eid)
  with getattr_law [OF assms, of eid attr_zero] show ?thesis
    by (auto simp: ext_status split: option.splits)
next
  case (Setattr eid a)
  with setattr_law [OF assms, of eid a] show ?thesis by (auto split: option.splits)
next
  case (Remove eid)
  with remove_law [OF assms, of eid] show ?thesis by auto
qed

end

section \<open>The stubs over the RPC layer\<close>

interpretation get_method: remote_method put_u64 get_u64 be64 0 "\<lambda>_. True"
  put_string get_string enc_string string_fits
  by unfold_locales

interpretation getattr_method: remote_method put_u64 get_u64 be64 0 "\<lambda>_. True"
  put_attr get_attr enc_attr "\<lambda>_. True"
  by unfold_locales

interpretation remove_method: remote_method put_u64 get_u64 be64 0 "\<lambda>_. True" put_int get_int be32 "\<lambda>_. True"
  by unfold_locales

interpretation id_string: pair_codec put_u64 get_u64 be64 0 "\<lambda>_. True"
  put_string get_string enc_string "[]" string_fits
  by unfold_locales

interpretation id_attr: pair_codec put_u64 get_u64 be64 0 "\<lambda>_. True"
  put_attr get_attr enc_attr attr_zero "\<lambda>_. True"
  by unfold_locales

interpretation put_method: remote_method "put_pair put_u64 put_string" "get_pair get_u64 get_string"
  "\<lambda>p. be64 (fst p) @ enc_string (snd p)" "(0, [])" "\<lambda>p. True \<and> string_fits (snd p)"
  put_int get_int be32 "\<lambda>_. True"
  by unfold_locales

interpretation setattr_method: remote_method "put_pair put_u64 put_attr" "get_pair get_u64 get_attr"
  "\<lambda>p. be64 (fst p) @ enc_attr (snd p)" "(0, attr_zero)" "\<lambda>p. True \<and> True"
  put_int get_int be32 "\<lambda>_. True"
  by unfold_locales

text \<open>The five methods are registered.\<close>

definition extent_procs :: "i32 \<Rightarrow> attr \<Rightarrow> extent_server rpcs \<Rightarrow> bool" where
  "extent_procs r0 a0 s \<longleftrightarrow>
     procs s proc_get = Some (h1_fn get_u64 0 put_string [] extent_get) \<and>
     procs s proc_getattr = Some (h1_fn get_u64 0 put_attr a0 extent_getattr) \<and>
     procs s proc_put = Some (h2_fn get_u64 0 get_string [] put_int r0 extent_put) \<and>
     procs s proc_remove = Some (h1_fn get_u64 0 put_int r0 extent_remove) \<and>
     procs s proc_setattr = Some (h2_fn get_u64 0 get_attr attr_zero put_int r0 extent_setattr)"

lemma extent_smain_registers: "\<exists>s. extent_smain r0 a0 n c = Inr s \<and> extent_procs r0 a0 s \<and> nonce s = n \<and>
    obj s = extent_server_new c \<and> heap s = Map.empty \<and> conns s = Map.empty \<and> counting s = 0 \<and>
    reply_window s = Map.empty \<and> procs s rpc_bind = Some (h1_fn get_int 0 put_int r0 (rpcbind n))"
  by (simp add: extent_smain_def rpcs_new_def reg1_def extent_procs_def ext_procs rpc_consts)

text \<open>The sizes of contents for which a message with an identifier is at most \<^verbatim>\<open>MAX_PDU\<close> bytes long.\<close>

definition short :: "nat \<Rightarrow> bool" where
  "short n \<longleftrightarrow> int n + 36 \<le> MAX_PDU"

declare short_def [limits]

fun short_req :: "ext_req \<Rightarrow> bool" where
  "short_req (Put eid b) = short (length b)"
| "short_req (Setattr eid a) = short (unat (a_size a))"
| "short_req _ = True"

definition short_contents :: "(extentid_t \<rightharpoonup> bytes) \<Rightarrow> bool" where
  "short_contents m \<longleftrightarrow> (\<forall>c \<in> ran m. short (length c))"

lemma spec_step_short: "short_contents m \<Longrightarrow> short_req q \<Longrightarrow> short_contents (snd (spec_step q m))"
  by (cases q) (auto simp: short_contents_def ran_def split: option.splits)

lemma short_fits: "short (length b) \<Longrightarrow> string_fits b"
  by (simp add: limits string_fits_def)

lemma ext_lengths: "length (enc_attr a) = 16" "length (be64 x) = 8" "length (enc_string b) = 4 + length b"
  by (simp_all add: enc_attr_def enc_string_def)

lemma neq_bound: "p \<noteq> rpc_bind \<Longrightarrow> b \<Longrightarrow> (p = rpc_bind) \<noteq> b"
  by simp

text \<open>Getting attributes through the stubs and the network; \<open>a\<close> is what the caller's variable held before.\<close>

lemma remote_getattr:
  assumes linked: "linked fresh c d w" and net: "\<And>m. carried m (net m)"
    and now: "ts_normal now" "0 < tv_sec now"
    and procs: "bind_done (fst w)" "extent_procs r0 a0 (snd w)"
  shows "\<exists>w'. ec_getattr (extent_client (exchange fresh net t d now) r) eid a w =
      Inr (fst (extent_getattr eid a0 (obj (snd w))), fst (snd (extent_getattr eid a0 (obj (snd w)))), w') \<and>
    obj (snd w') = obj (snd w) \<and> extent_procs r0 a0 (snd w') \<and> bind_done (fst w') \<and>
    next_xid (fst w') = next_xid (fst w) + 1 \<and> (next_xid (fst w) < next_xid (fst w) + 1 \<longrightarrow> linked fresh c d w')"
proof -
  note ps = procs(2) [unfolded extent_procs_def]
  have to: "0 \<le> to_max" by (simp add: to_max_def)
  have p: "(proc_getattr = rpc_bind) \<noteq> bind_done (fst w)" using procs(1) by (simp add: ext_procs rpc_consts)
  have keep: "extent_procs r0 a0 v'" if "procs v' = procs (snd w)" for v'
    using that procs(2) by (simp add: extent_procs_def)
  obtain ret r' where m: "extent_getattr eid a0 (obj (snd w)) = (ret, r', obj (snd w))"
    by (cases "extents (obj (snd w)) eid") (simp_all add: extent_getattr_def)
  then have "0 \<le>s ret" by (auto simp: extent_getattr_def ext_status word_sle_eq split: option.splits)
  moreover have "int (length (enc_attr r')) + 24 < msg_limit" "int (length (be64 eid)) + 24 < msg_limit"
    by (simp_all add: msg_limit_def ext_lengths)
  ultimately show ?thesis
    using getattr_method.remote_call [OF linked net p now to conjunct1 [OF conjunct2 [OF ps]],
        of eid ret r' "obj (snd w)" t a] m keep procs(1)
    by (fastforce simp: extent_client_def extent_client_getattr_def)
qed

text \<open>A request through the stubs and the network does what it does on the server called directly.\<close>

lemma remote_step:
  assumes linked: "linked fresh c d w" and net: "\<And>m. carried m (net m)"
    and now: "ts_normal now" "0 < tv_sec now"
    and procs: "bind_done (fst w)" "extent_procs r0 a0 (snd w)"
    and q: "short_req q" "short_contents (contents_of (obj (snd w)))"
  shows "\<exists>a w'. store_step (extent_client (exchange fresh net t d now) r) q w = Inr (a, w') \<and>
    store_step (server_ops r0 a0) q (obj (snd w)) = Inr (a, obj (snd w')) \<and>
    extent_procs r0 a0 (snd w') \<and> bind_done (fst w') \<and> next_xid (fst w') = next_xid (fst w) + 1 \<and>
    (next_xid (fst w) < next_xid (fst w) + 1 \<longrightarrow> linked fresh c d w')"
proof -
  note ps = procs(2) [unfolded extent_procs_def h2_as_h1]
  have to: "0 \<le> to_max" by (simp add: to_max_def)
  have p: "proc_get \<noteq> rpc_bind" "proc_getattr \<noteq> rpc_bind" "proc_put \<noteq> rpc_bind" "proc_remove \<noteq> rpc_bind"
    "proc_setattr \<noteq> rpc_bind" by (simp_all add: ext_procs rpc_consts)
  note p = p [THEN neq_bound, OF procs(1)]
  have keep: "extent_procs r0 a0 v'" if "procs v' = procs (snd w)" for v'
    using that procs(2) by (simp add: extent_procs_def)
  have ok: "0 \<le>s ext_OK" "0 \<le>s ext_NOENT" "0 \<le>s ext_FBIG" "0 \<le>s ext_IOERR"
    by (simp_all add: ext_status word_sle_eq)
  let ?ex = "exchange fresh net t d now"
  show ?thesis
  proof (cases q)
    case (Put eid b)
    obtain ret r' x where m: "extent_put eid b r0 (obj (snd w)) = (ret, r', x)" by (metis prod_cases3)
    then have "0 \<le>s ret" using ok by (cases rule: extent_put_cases [of b eid r0 "obj (snd w)"]) auto
    moreover have "string_fits b" "int (length (be64 eid @ enc_string b)) + 24 < msg_limit"
      using q(1) by (simp_all add: Put ext_lengths short_fits limits)
    moreover have "int (length (be32 r')) + 24 < msg_limit" by (simp add: msg_limit_def)
    ultimately show ?thesis
      using put_method.remote_call [OF linked net p(3) now to conjunct1 [OF conjunct2 [OF conjunct2 [OF ps]]],
          of "(eid, b)" ret r' x t r] m keep procs(1)
      by (fastforce simp: Put extent_client_def extent_client_put_def call2_as_call1 server_ops_def)
  next
    case (Get eid)
    obtain ret r' x where m: "extent_get eid [] (obj (snd w)) = (ret, r', x)" by (metis prod_cases3)
    then have "0 \<le>s ret" "short (length r')"
      using ok q(2) by (auto simp: extent_get_def short_contents_def contents_of_def ran_def limits split: option.splits)
    moreover from this have "string_fits r'" "int (length (enc_string r')) + 24 < msg_limit"
      by (simp_all add: ext_lengths short_fits limits)
    moreover have "int (length (be64 eid)) + 24 < msg_limit" by (simp add: msg_limit_def)
    ultimately show ?thesis
      using get_method.remote_call [OF linked net p(1) now to conjunct1 [OF ps], of eid ret r' x t "[]"] m keep procs(1)
      by (fastforce simp: Get extent_client_def extent_client_get_def server_ops_def)
  next
    case (Getattr eid)
    then show ?thesis
      using remote_getattr [OF linked net now procs, of t r eid attr_zero]
      by (auto simp: server_ops_def case_prod_unfold extent_getattr_def split: option.splits)
  next
    case (Setattr eid a)
    obtain ret r' x where m: "extent_setattr eid a r0 (obj (snd w)) = (ret, r', x)" by (metis prod_cases3)
    then have "0 \<le>s ret" using ok by (cases rule: extent_setattr_cases [of "obj (snd w)" eid a r0]) auto
    moreover have "int (length (be64 eid @ enc_attr a)) + 24 < msg_limit" "int (length (be32 r')) + 24 < msg_limit"
      by (simp_all add: msg_limit_def ext_lengths)
    ultimately show ?thesis
      using setattr_method.remote_call [OF linked net p(5) now to
          conjunct2 [OF conjunct2 [OF conjunct2 [OF conjunct2 [OF ps]]]], of "(eid, a)" ret r' x t r] m keep procs(1)
      by (fastforce simp: Setattr extent_client_def extent_client_setattr_def call2_as_call1 server_ops_def)
  next
    case (Remove eid)
    have m: "extent_remove eid r0 (obj (snd w)) = (ext_IOERR, r0, obj (snd w))" by (simp add: extent_remove_def)
    moreover have "int (length (be64 eid)) + 24 < msg_limit" "int (length (be32 r0)) + 24 < msg_limit"
      by (simp_all add: msg_limit_def)
    ultimately show ?thesis
      using remove_method.remote_call [OF linked net p(4) now to
          conjunct1 [OF conjunct2 [OF conjunct2 [OF conjunct2 [OF ps]]]],
          of eid ext_IOERR r0 "obj (snd w)" t r] ok(4) keep procs(1)
      by (fastforce simp: Remove extent_client_def extent_client_remove_def server_ops_def)
  qed
qed

text \<open>The states in which \<open>n\<close> more requests can be made.\<close>

definition remote_ready ::
  "(cid \<times> connection) option \<Rightarrow> (block \<Rightarrow> u8 list) \<Rightarrow> timespec \<Rightarrow> cid \<Rightarrow> cid \<Rightarrow> i32 \<Rightarrow> attr \<Rightarrow> nat \<Rightarrow>
   rpcc \<times> extent_server rpcs \<Rightarrow> bool" where
  "remote_ready fresh net now c d r0 a0 n w \<longleftrightarrow>
     (\<forall>m. carried m (net m)) \<and> ts_normal now \<and> 0 < tv_sec now \<and>
     linked fresh c d w \<and> bind_done (fst w) \<and> extent_procs r0 a0 (snd w) \<and> extents_ok (obj (snd w)) \<and>
     short_contents (contents_of (obj (snd w))) \<and> unat (next_xid (fst w)) + n < 2 ^ 32"

abbreviation remote_contents :: "rpcc \<times> extent_server rpcs \<Rightarrow> extentid_t \<rightharpoonup> bytes" where
  "remote_contents w \<equiv> contents_of (obj (snd w))"

lemma remote_ready_next:
  assumes "remote_ready fresh net now c d r0 a0 (Suc n) w"
    and "extents_ok (obj (snd w'))" "short_contents (remote_contents w')" "extent_procs r0 a0 (snd w')" "bind_done (fst w')"
    and "next_xid (fst w') = next_xid (fst w) + 1" and "next_xid (fst w) < next_xid (fst w) + 1 \<longrightarrow> linked fresh c d w'"
  shows "remote_ready fresh net now c d r0 a0 n w'"
proof -
  have "unat (next_xid (fst w)) + Suc n < 2 ^ 32" using assms(1) by (simp add: remote_ready_def)
  then have "next_xid (fst w) < next_xid (fst w) + 1" "unat (next_xid (fst w) + 1) = unat (next_xid (fst w)) + 1"
    by (simp_all add: word_less_nat_alt unat_add_lem [THEN iffD1])
  with assms show ?thesis by (simp add: remote_ready_def)
qed

lemma remote_readyD:
  assumes "remote_ready fresh net now c d r0 a0 n w"
  shows "\<And>m. carried m (net m)" and "ts_normal now" and "0 < tv_sec now" and "linked fresh c d w" and "bind_done (fst w)"
    and "extent_procs r0 a0 (snd w)" and "extents_ok (obj (snd w))" and "short_contents (remote_contents w)"
  using assms by (simp_all add: remote_ready_def)

lemma remote_request:
  assumes "remote_ready fresh net now c d r0 a0 (Suc n) w" and "short_req q"
  shows "\<exists>a w'. store_step (extent_client (exchange fresh net t d now) r) q w = Inr (a, w') \<and>
    (a, remote_contents w') = spec_step q (remote_contents w) \<and> remote_ready fresh net now c d r0 a0 n w'"
proof -
  note w = remote_readyD [OF assms(1)]
  obtain a w' where w': "store_step (extent_client (exchange fresh net t d now) r) q w = Inr (a, w')"
      "store_step (server_ops r0 a0) q (obj (snd w)) = Inr (a, obj (snd w'))" "extent_procs r0 a0 (snd w')"
      "bind_done (fst w')" "next_xid (fst w') = next_xid (fst w) + 1"
      "next_xid (fst w) < next_xid (fst w) + 1 \<longrightarrow> linked fresh c d w'"
    using remote_step [OF w(4) w(1-3) w(5,6) assms(2) w(8), of t r] by blast
  have s: "extents_ok (obj (snd w'))" "(a, remote_contents w') = spec_step q (remote_contents w)"
    using server_store.step_refines [OF w(7), of r0 a0 q] w'(2) by simp_all
  then have "short_contents (remote_contents w')"
    using spec_step_short [OF w(8) assms(2)] by (metis snd_conv)
  with remote_ready_next [OF assms(1) s(1) _ w'(3-6)] w'(1) s(2) show ?thesis by blast
qed

lemma remote_getattr_request:
  assumes "remote_ready fresh net now c d r0 a0 (Suc n) w" and "remote_contents w eid = Some b"
  shows "\<exists>a' w'. ec_getattr (extent_client (exchange fresh net t d now) r) eid a w = Inr (ext_OK, a', w') \<and>
    unat (a_size a') = length b \<and> remote_contents w' = remote_contents w \<and> remote_ready fresh net now c d r0 a0 n w'"
proof -
  note w = remote_readyD [OF assms(1)]
  obtain a' where a': "extent_getattr eid a0 (obj (snd w)) = (ext_OK, a', obj (snd w))" "unat (a_size a') = length b"
    using server_store.getattr_law [OF w(7), of r0 a0 eid a] assms(2)
    by (auto simp: server_ops_def extent_getattr_def split: option.splits)
  obtain w' where w': "ec_getattr (extent_client (exchange fresh net t d now) r) eid a w = Inr (ext_OK, a', w')"
      "obj (snd w') = obj (snd w)" "extent_procs r0 a0 (snd w')" "bind_done (fst w')"
      "next_xid (fst w') = next_xid (fst w) + 1" "next_xid (fst w) < next_xid (fst w) + 1 \<longrightarrow> linked fresh c d w'"
    using remote_getattr [OF w(4) w(1-3) w(5,6), of t r eid a] a'(1) by auto
  with remote_ready_next [OF assms(1) _ _ w'(3-6)] w(7,8) a'(2) show ?thesis by auto
qed

lemma remote_run:
  assumes "remote_ready fresh net now c d r0 a0 (length qs) w" and "\<forall>q \<in> set qs. short_req q"
  shows "\<exists>as w'. store_run (extent_client (exchange fresh net t d now) r) qs w = Inr (as, w') \<and>
    (as, remote_contents w') = spec_run qs (remote_contents w)"
  using assms
proof (induction qs arbitrary: w)
  case (Cons q qs)
  then obtain a w1 where w1: "store_step (extent_client (exchange fresh net t d now) r) q w = Inr (a, w1)"
      "(a, remote_contents w1) = spec_step q (remote_contents w)" "remote_ready fresh net now c d r0 a0 (length qs) w1"
    using remote_request [of fresh net now c d r0 a0 "length qs" w q t r] by auto
  with Cons.IH [of w1] Cons.prems(2) obtain as w'
    where "store_run (extent_client (exchange fresh net t d now) r) qs w1 = Inr (as, w')"
      "(as, remote_contents w') = spec_run qs (remote_contents w1)"
    by auto
  with w1(1) w1(2) [symmetric] show ?case by (auto simp: Let_def split: prod.splits)
qed simp

text \<open>The constructor of the client: a failed \<^verbatim>\<open>bind\<close> is only reported.\<close>

definition extent_client_new ::
  "(rpcc \<times> 'v) caller1 \<Rightarrow> i32 \<Rightarrow> bool \<Rightarrow> u32 \<Rightarrow> 'v \<Rightarrow> (rpcc \<times> 'v) res" where
  "extent_client_new call1 r re random v =
     rbind (rpcc_bind call1 r to_max (rpcc_new re random, v)) (\<lambda>(_, w). Inr w)"

section \<open>Properties\<close>

text \<open>The constructor of the client binds it to a freshly started server.\<close>

lemma extent_client_binds:
  assumes "\<And>m. carried m (net m)" and "ts_normal now" and "0 < tv_sec now"
    and "random \<noteq> 0" and "\<not> dead k" "1 \<le> refno k" "\<not> dead kd" "1 \<le> refno kd"
    and "extent_smain r0 a0 n clk = Inr sv"
  shows "\<exists>w. extent_client_new (exchange (Some (c, k)) net t d now) r True random (sv\<lparr>heap := [d \<mapsto> kd]\<rparr>) = Inr w \<and>
    remote_contents w = [1 \<mapsto> []] \<and> (m + 2 < 2 ^ 32 \<longrightarrow> remote_ready (Some (c, k)) net now c d r0 a0 m w)"
proof -
  let ?sv = "sv\<lparr>heap := [d \<mapsto> kd]\<rparr>" and ?cl = "rpcc_new True random"
  have sv: "extent_procs r0 a0 sv" "nonce sv = n" "obj sv = extent_server_new clk" "conns sv = Map.empty"
      "counting sv = 0" "reply_window sv = Map.empty"
      "procs sv rpc_bind = Some (h1_fn get_int 0 put_int r0 (rpcbind n))"
    using extent_smain_registers [of r0 a0 n clk] assms(9) by auto
  have l: "linked (Some (c, k)) c d (?cl, ?sv)"
    using assms(4-8) sv(4-6) by (intro new_linked [of _ _ _ _ kd]) simp_all
  obtain w where w: "rpcc_bind (exchange (Some (c, k)) net t d now) r to_max (?cl, ?sv) = Inr (0, w)"
      "linked (Some (c, k)) c d w" "bind_done (fst w)" "next_xid (fst w) = 2"
      "procs (snd w) = procs sv" "obj (snd w) = obj sv"
    using bind_links [OF l assms(1) _ assms(2,3), of to_max r0 t r] sv(2,7)
    by (auto simp: rpcc_new_def to_max_def)
  moreover have "contents_of (extent_server_new clk) = [1 \<mapsto> []]"
    by (auto simp: contents_of_def extent_server_new_def time_NULL_def)
  ultimately show ?thesis
    using sv(1,3) extents_ok_new [of clk] assms(1-3)
    by (auto simp: extent_client_new_def extent_procs_def remote_ready_def short_contents_def limits)
qed

text \<open>
  C5. The extent service works over RPC. A client made and bound over a network that neither loses nor
  damages messages, talking to a server started by \<^verbatim>\<open>extent_smain\<close>, gets for any sequence of requests the
  replies of a map that starts with the empty root directory, as long as the sizes fit a message and
  the call numbers do not wrap around.
\<close>

theorem extent_service_over_rpc:
  assumes "\<And>m. carried m (net m)" and "ts_normal now" and "0 < tv_sec now"
    and "random \<noteq> 0" and "\<not> dead k" "1 \<le> refno k" "\<not> dead kd" "1 \<le> refno kd"
    and "extent_smain r0 a0 n clk = Inr sv"
    and "\<forall>q \<in> set qs. short_req q" and "length qs + 2 < 2 ^ 32"
  shows "\<exists>w as w'. extent_client_new (exchange (Some (c, k)) net t d now) r True random (sv\<lparr>heap := [d \<mapsto> kd]\<rparr>)
      = Inr w \<and>
    store_run (extent_client (exchange (Some (c, k)) net t d now) r) qs w = Inr (as, w') \<and>
    (as, contents_of (obj (snd w'))) = spec_run qs [1 \<mapsto> []]"
proof -
  let ?x = "exchange (Some (c, k)) net t d now"
  obtain w where w: "extent_client_new ?x r True random (sv\<lparr>heap := [d \<mapsto> kd]\<rparr>) = Inr w"
      "remote_contents w = [1 \<mapsto> []]" "remote_ready (Some (c, k)) net now c d r0 a0 (length qs) w"
    using extent_client_binds [OF assms(1-9), of c t d r "length qs"] assms(11) by blast
  obtain as w' where "store_run (extent_client ?x r) qs w = Inr (as, w')"
    "(as, remote_contents w') = spec_run qs [1 \<mapsto> []]"
    using remote_run [OF w(3) assms(10), of t r] w(2) by auto
  with w(1) show ?thesis by blast
qed

theorem extent_service_over_rpc_witness:
  "\<exists>sv w as w'. extent_smain 7 attr_zero 9 (\<lambda>_. 5) = Inr sv \<and>
    extent_client_new (exchange (Some (3, fst (connection_new 4 0))) (map (\<lambda>v. case v of None \<Rightarrow> 0xFF | Some x \<Rightarrow> x))
      1 6 \<lparr>tv_sec = 100, tv_nsec = 0\<rparr>) 0 True 8 (sv\<lparr>heap := [6 \<mapsto> fst (connection_new 5 0)]\<rparr>) = Inr w \<and>
    store_run (extent_client (exchange (Some (3, fst (connection_new 4 0)))
      (map (\<lambda>v. case v of None \<Rightarrow> 0xFF | Some x \<Rightarrow> x)) 1 6 \<lparr>tv_sec = 100, tv_nsec = 0\<rparr>) 0)
      [Put 2 [1, 2, 3], Get 2, Getattr 2, Remove 2, Get 5] w = Inr (as, w') \<and>
    as = [Status ext_OK, Data ext_OK [1, 2, 3], Size ext_OK (Some 3), Status ext_IOERR, Data ext_NOENT []]"
proof -
  let ?net = "map (\<lambda>v. case v of None \<Rightarrow> 0xFF | Some x \<Rightarrow> x) :: block \<Rightarrow> u8 list"
  have net: "carried m (?net m)" for m by (auto simp: carried_def)
  obtain sv where sv: "extent_smain 7 attr_zero 9 (\<lambda>_. 5) = Inr sv"
    using extent_smain_registers [of 7 attr_zero 9 "\<lambda>_. 5"] by blast
  have "\<forall>q \<in> set [Put 2 [1, 2, 3], Get 2, Getattr 2, Remove 2, Get 5]. short_req q"
    by (simp add: short_def MAX_PDU_def)
  then obtain w as w' where run:
      "extent_client_new (exchange (Some (3, fst (connection_new 4 0))) ?net 1 6 \<lparr>tv_sec = 100, tv_nsec = 0\<rparr>)
        0 True 8 (sv\<lparr>heap := [6 \<mapsto> fst (connection_new 5 0)]\<rparr>) = Inr w"
      "store_run (extent_client (exchange (Some (3, fst (connection_new 4 0))) ?net 1 6
        \<lparr>tv_sec = 100, tv_nsec = 0\<rparr>) 0) [Put 2 [1, 2, 3], Get 2, Getattr 2, Remove 2, Get 5] w = Inr (as, w')"
      "(as, contents_of (obj (snd w'))) =
        spec_run [Put 2 [1, 2, 3], Get 2, Getattr 2, Remove 2, Get 5] [1 \<mapsto> []]"
    using extent_service_over_rpc [OF net _ _ _ _ _ _ _ sv, of "\<lparr>tv_sec = 100, tv_nsec = 0\<rparr>" 8
      "fst (connection_new 4 0)" "fst (connection_new 5 0)"
      "[Put 2 [1, 2, 3], Get 2, Getattr 2, Remove 2, Get 5]" 3 1 6 0]
    by (auto simp: ts_normal_def connection_new_def simp del: store_run.simps spec_run.simps)
  from run(3) have "as = [Status ext_OK, Data ext_OK [1, 2, 3], Size ext_OK (Some 3), Status ext_IOERR,
      Data ext_NOENT []]"
    by (simp add: maxextent_def)
  with sv run(1,2) show ?thesis by blast
qed

end
