(* ===== verification/Yfs_Client.thy ===== *)
theory Yfs_Client
  imports Extent_Server "HOL-Library.Sublist"
begin

text \<open>
  The file system client, \<^verbatim>\<open>src/yfs_client.cc\<close>: files and directories as extents. A directory's
  content is the text \<^verbatim>\<open>name:id:name:id...\<close>. The extent client \<^verbatim>\<open>ec\<close> is an argument of every method, an
  instance of the interface in \<^verbatim>\<open>Extent_Server\<close>. The string operations of the standard library that
  the code uses come first; a \<^verbatim>\<open>std::out_of_range\<close> is a fault.
\<close>

section \<open>Strings\<close>

abbreviation colon :: u8 where
  "colon \<equiv> 58"

fun search :: "bytes \<Rightarrow> nat \<Rightarrow> bytes \<Rightarrow> nat option" where
  "search pat i [] = (if pat = [] then Some i else None)"
| "search pat i (c # cs) = (if prefix pat (c # cs) then Some i else search pat (Suc i) cs)"

text \<open>\<^verbatim>\<open>std::string::find\<close>; \<open>None\<close> is \<^verbatim>\<open>npos\<close>.\<close>

definition str_find :: "bytes \<Rightarrow> bytes \<Rightarrow> nat \<Rightarrow> nat option" where
  "str_find s pat pos = (if pos \<le> length s then search pat pos (drop pos s) else None)"

definition substr :: "bytes \<Rightarrow> nat \<Rightarrow> nat \<Rightarrow> bytes res" where
  "substr s pos n = (if pos \<le> length s then Inr (take n (drop pos s)) else Inl Out_of_bounds)"

text \<open>\<^verbatim>\<open>std::string::replace(pos, n, t)\<close>.\<close>

definition str_replace :: "bytes \<Rightarrow> nat \<Rightarrow> nat \<Rightarrow> bytes \<Rightarrow> bytes res" where
  "str_replace s pos n t =
     (if pos \<le> length s then Inr (take pos s @ t @ drop (pos + n) s) else Inl Out_of_bounds)"

section \<open>Numbers in text\<close>

fun decimal :: "nat \<Rightarrow> bytes" where
  "decimal n = (if n < 10 then [48 + word_of_nat n] else decimal (n div 10) @ [48 + word_of_nat (n mod 10)])"

declare decimal.simps [simp del]

type_synonym inum = u64

definition filename :: "inum \<Rightarrow> bytes" where
  "filename i = decimal (unat i)"

definition isdigit :: "u8 \<Rightarrow> bool" where
  "isdigit c \<longleftrightarrow> 48 \<le> c \<and> c \<le> 57"

definition isspace :: "u8 \<Rightarrow> bool" where
  "isspace c \<longleftrightarrow> c = 32 \<or> 9 \<le> c \<and> c \<le> 13"

definition dec_value :: "bytes \<Rightarrow> nat" where
  "dec_value ds = foldl (\<lambda>v c. v * 10 + unat (c - 48)) 0 ds"

text \<open>
  \<^verbatim>\<open>istringstream >> unsigned long long\<close>: blanks, an optional sign, decimal digits; zero when there is
  no digit, the largest value when the number does not fit.
\<close>

definition n2i :: "bytes \<Rightarrow> inum" where
  "n2i n =
     (let t = dropWhile isspace n;
          neg = (t \<noteq> [] \<and> hd t = 45);
          t = (if t \<noteq> [] \<and> (hd t = 45 \<or> hd t = 43) then tl t else t);
          ds = takeWhile isdigit t;
          v = dec_value ds
      in if v \<ge> 2 ^ 64 then - 1 else if neg then - word_of_nat v else word_of_nat v)"

text \<open>Arithmetic of \<^verbatim>\<open>unsigned long long\<close>; a \<^verbatim>\<open>char\<close> is sign extended.\<close>

definition stringToid :: "bytes \<Rightarrow> inum" where
  "stringToid s = foldl (\<lambda>ret c. ret * 10 + scast c - 48) 0 s"

section \<open>Class yfs_client\<close>

definition yfs_OK :: i32 where "yfs_OK = 0"

definition yfs_IOERR :: i32 where "yfs_IOERR = 3"

record fileinfo =
  fi_size :: u64
  fi_atime :: u64
  fi_mtime :: u64
  fi_ctime :: u64

record dirinfo =
  di_atime :: u64
  di_mtime :: u64
  di_ctime :: u64

definition isfile :: "inum \<Rightarrow> bool" where
  "isfile i \<longleftrightarrow> i AND 0x80000000 \<noteq> 0"

definition isdir :: "inum \<Rightarrow> bool" where
  "isdir i \<longleftrightarrow> \<not> isfile i"

text \<open>\<open>a\<close> is the uninitialised local attribute.\<close>

definition getfile :: "'s extent_ops \<Rightarrow> attr \<Rightarrow> inum \<Rightarrow> fileinfo \<Rightarrow> 's \<Rightarrow> (i32 \<times> fileinfo \<times> 's) res" where
  "getfile ec a i fin s =
     rbind (ec_getattr ec i a s) (\<lambda>(st, a, s).
     if st \<noteq> ext_OK then Inr (yfs_IOERR, fin, s)
     else Inr (yfs_OK, fin\<lparr>fi_atime := ucast (atime a), fi_mtime := ucast (mtime a),
       fi_ctime := ucast (ctime a), fi_size := ucast (a_size a)\<rparr>, s))"

definition getdir :: "'s extent_ops \<Rightarrow> attr \<Rightarrow> inum \<Rightarrow> dirinfo \<Rightarrow> 's \<Rightarrow> (i32 \<times> dirinfo \<times> 's) res" where
  "getdir ec a i din s =
     rbind (ec_getattr ec i a s) (\<lambda>(st, a, s).
     if st \<noteq> ext_OK then Inr (yfs_IOERR, din, s)
     else Inr (yfs_OK, din\<lparr>di_atime := ucast (atime a), di_mtime := ucast (mtime a),
       di_ctime := ucast (ctime a)\<rparr>, s))"

definition create :: "'s extent_ops \<Rightarrow> inum \<Rightarrow> inum \<Rightarrow> bytes \<Rightarrow> 's \<Rightarrow> (i32 \<times> 's) res" where
  "create ec parentID i name s =
     rbind (ec_get ec parentID [] s) (\<lambda>(st, dirContent, s).
     if st \<noteq> ext_OK then Inr (yfs_IOERR, s)
     else
       rbind (if isfile i then ec_put ec i [] s else Inr (ext_OK, s)) (\<lambda>(st, s).
       if st \<noteq> ext_OK then Inr (yfs_IOERR, s)
       else
         let dirContent = (if dirContent \<noteq> [] then dirContent @ [colon] else dirContent);
             dirContent = dirContent @ name @ [colon] @ filename i
         in
           rbind (ec_put ec parentID dirContent s) (\<lambda>(st, s).
           if st \<noteq> ext_OK then Inr (yfs_IOERR, s) else Inr (yfs_OK, s))))"

lemma search_bounds: "search pat i s = Some p \<Longrightarrow> i \<le> p \<and> p + length pat \<le> i + length s"
proof (induction s arbitrary: i)
  case (Cons c cs)
  show ?case
  proof (cases "prefix pat (c # cs)")
    case True
    with Cons.prems prefix_length_le [of pat "c # cs"] show ?thesis by auto
  next
    case False
    with Cons.prems Cons.IH [of "Suc i"] show ?thesis by simp
  qed
qed (auto split: if_splits)

lemma str_find_bounds: "str_find s pat pos = Some p \<Longrightarrow> pos \<le> p \<and> p + length pat \<le> length s"
  by (auto simp: str_find_def dest!: search_bounds split: if_splits)

text \<open>
  The loop of \<^verbatim>\<open>getDirContent\<close>. \<^verbatim>\<open>begin\<close> and \<^verbatim>\<open>end\<close> are of type \<^verbatim>\<open>int\<close>: a position that does not fit
  is a fault.
\<close>

function dir_loop ::
  "bytes \<Rightarrow> nat \<Rightarrow> nat \<Rightarrow> nat \<Rightarrow> bytes \<Rightarrow> (bytes \<times> inum) list \<Rightarrow>
   (nat \<times> nat \<times> bytes \<times> (bytes \<times> inum) list) res" where
  "dir_loop txt b e cycleTime tempName dirContent =
     (if e < length txt then
        case str_find txt [colon] b of
          None \<Rightarrow> Inr (b, e, tempName, dirContent)
        | Some pos \<Rightarrow>
            if \<not> in_int (int pos + 1) then Inl Int_overflow
            else
              let e = pos; cycleTime = cycleTime + 1 in
              if cycleTime mod 2 = 1
              then dir_loop txt (e + 1) e cycleTime (take (e - b) (drop b txt)) dirContent
              else dir_loop txt (e + 1) e cycleTime tempName
                (dirContent @ [(tempName, stringToid (take (e - b) (drop b txt)))])
      else Inr (b, e, tempName, dirContent))"
  by pat_completeness auto
termination
  by (relation "measure (\<lambda>(txt, b, e, c, t, d). Suc (length txt) - b)")
    (auto dest!: str_find_bounds)

declare dir_loop.simps [simp del]

definition getDirContent ::
  "'s extent_ops \<Rightarrow> inum \<Rightarrow> (bytes \<times> inum) list \<Rightarrow> 's \<Rightarrow> (i32 \<times> (bytes \<times> inum) list \<times> 's) res" where
  "getDirContent ec i dirContent s =
     rbind (ec_get ec i [] s) (\<lambda>(st, txt, s).
     if st \<noteq> ext_OK then Inr (yfs_IOERR, dirContent, s)
     else if str_find txt [colon] 0 = None then Inr (yfs_OK, dirContent, s)
     else
       rbind (dir_loop txt 0 0 0 [] dirContent) (\<lambda>(b, e, tempName, dirContent).
       rbind (substr txt b e) (\<lambda>idstr.
       Inr (yfs_OK, dirContent @ [(tempName, stringToid idstr)], s))))"

text \<open>\<^verbatim>\<open>readSize\<close> is unsigned, \<^verbatim>\<open>offset\<close> signed with 64 bits.\<close>

definition yfs_read ::
  "'s extent_ops \<Rightarrow> inum \<Rightarrow> nat \<Rightarrow> int \<Rightarrow> bytes \<Rightarrow> 's \<Rightarrow> (i32 \<times> bytes \<times> 's) res" where
  "yfs_read ec i readSize offset retString s =
     rbind (ec_get ec i [] s) (\<lambda>(st, txt, s).
     if st \<noteq> ext_OK then Inr (yfs_IOERR, retString, s)
     else if offset < 0 then Inr (yfs_IOERR, retString, s)
     else if offset \<ge> int (length txt) then Inr (yfs_OK, [], s)
     else rbind (substr txt (nat offset) readSize) (\<lambda>r. Inr (yfs_OK, r, s)))"

definition ilookup :: "'s extent_ops \<Rightarrow> inum \<Rightarrow> bytes \<Rightarrow> 's \<Rightarrow> (inum \<times> 's) res" where
  "ilookup ec parentID name s =
     rbind (ec_get ec parentID [] s) (\<lambda>(st, dirContent, s).
     if st \<noteq> ext_OK then Inr (0, s)
     else
       let content_cp = dirContent @ [colon]; name_cp = name @ [colon] in
       case str_find content_cp name_cp 0 of
         None \<Rightarrow> Inr (0, s)
       | Some head \<Rightarrow>
           let head = head + length name_cp in
           rbind (case str_find content_cp [colon] head of
                    None \<Rightarrow> substr content_cp head (length content_cp)
                  | Some tail \<Rightarrow> substr content_cp head (tail - head)) (\<lambda>id_str.
           Inr (n2i id_str, s)))"

definition yfs_setattr :: "'s extent_ops \<Rightarrow> attr \<Rightarrow> inum \<Rightarrow> fileinfo \<Rightarrow> 's \<Rightarrow> (i32 \<times> 's) res" where
  "yfs_setattr ec a fileID fin s =
     rbind (ec_setattr ec fileID (a\<lparr>a_size := ucast (fi_size fin)\<rparr>) s) (\<lambda>(st, s).
     if st \<noteq> ext_OK then Inr (yfs_IOERR, s) else Inr (yfs_OK, s))"

text \<open>
  \<open>n\<close> (the size) and \<open>off\<close> are of type \<^verbatim>\<open>int\<close>; a negative one becomes a huge \<^verbatim>\<open>size_t\<close>: as a length it means
  \<open>to the end\<close>, as a position it is out of range.
\<close>

definition size_arg :: "int \<Rightarrow> bytes \<Rightarrow> nat" where
  "size_arg n s = (if n < 0 then length s else nat n)"

definition yfs_write :: "'s extent_ops \<Rightarrow> inum \<Rightarrow> bytes \<Rightarrow> int \<Rightarrow> int \<Rightarrow> 's \<Rightarrow> (i32 \<times> 's) res" where
  "yfs_write ec fileID buf n off s =
     rbind (ec_get ec fileID [] s) (\<lambda>(st, txt, s).
     if st \<noteq> ext_OK then Inr (yfs_IOERR, s)
     else
       rbind (if off \<ge> to_int32 (int (length txt))
              then Inr (txt @ take (size_arg n buf) buf)
              else if off < 0 then Inl Out_of_bounds
              else str_replace txt (nat off) (size_arg n txt) (take (size_arg n buf) buf))
         (\<lambda>txt.
       rbind (ec_put ec fileID txt s) (\<lambda>(st, s).
       if st \<noteq> ext_OK then Inr (yfs_IOERR, s) else Inr (yfs_OK, s))))"

section \<open>Decimal numbers\<close>

lemma digit_value: "n < 10 \<Longrightarrow> unat (word_of_nat n :: u8) = n"
  by (simp add: unat_of_nat)

lemma digit_isdigit: "n < 10 \<Longrightarrow> isdigit (48 + word_of_nat n)"
proof -
  assume "n < 10"
  then have "n \<in> {0, 1, 2, 3, 4, 5, 6, 7, 8, 9}" by auto
  then show ?thesis by (auto simp: isdigit_def)
qed

lemma decimal_digits: "\<forall>c \<in> set (decimal n). isdigit c"
proof (induction n rule: decimal.induct)
  case (1 n)
  then show ?case
    using digit_isdigit [of n] digit_isdigit [of "n mod 10"]
    by (subst decimal.simps) (auto simp: ball_Un)
qed

lemma decimal_nonempty [simp]: "decimal n \<noteq> []"
  by (subst decimal.simps) simp

lemma dec_value_snoc: "dec_value (ds @ [c]) = dec_value ds * 10 + unat (c - 48)"
  by (simp add: dec_value_def)

lemma dec_value_decimal: "dec_value (decimal n) = n"
proof (induction n rule: decimal.induct)
  case (1 n)
  show ?case
  proof (cases "n < 10")
    case True
    then show ?thesis by (subst decimal.simps) (simp add: dec_value_def digit_value)
  next
    case False
    then show ?thesis
      using 1 by (subst decimal.simps) (simp add: dec_value_snoc digit_value)
  qed
qed

lemma stringToid_snoc: "stringToid (s @ [c]) = stringToid s * 10 + scast c - 48"
  by (simp add: stringToid_def)

text \<open>On digits the wrapping accumulation is the value modulo the word size.\<close>

lemma isdigit_bounds: "isdigit c \<Longrightarrow> unat c \<in> {48 .. 57}"
  by (simp add: isdigit_def word_le_nat_alt)

lemma digit_ext: "isdigit c \<Longrightarrow> (scast c :: u64) - 48 = word_of_nat (unat (c - 48))"
proof -
  assume "isdigit c"
  then have "c \<in> {48, 49, 50, 51, 52, 53, 54, 55, 56, 57}"
    using isdigit_bounds [of c] by (simp add: word_unat_eq_iff) presburger
  then show ?thesis by auto
qed

lemma stringToid_digits: "\<forall>c \<in> set s. isdigit c \<Longrightarrow> stringToid s = word_of_nat (dec_value s)"
proof (induction s rule: rev_induct)
  case Nil
  then show ?case by (simp add: stringToid_def dec_value_def)
next
  case (snoc c s)
  then show ?case
    using digit_ext [of c] by (simp add: stringToid_snoc dec_value_snoc add_diff_eq [symmetric])
qed

lemma filename_digits: "\<forall>c \<in> set (filename i). isdigit c"
  unfolding filename_def by (rule decimal_digits)

lemma filename_nonempty [simp]: "filename i \<noteq> []"
  by (simp add: filename_def)

lemma stringToid_filename [simp]: "stringToid (filename i) = i"
  by (simp add: stringToid_digits filename_digits) (simp add: filename_def dec_value_decimal)

lemma n2i_filename [simp]: "n2i (filename i) = i"
proof -
  obtain c cs where f: "filename i = c # cs" by (cases "filename i") auto
  have d: "isdigit c" "\<forall>c \<in> set (filename i). isdigit c"
    using filename_digits [of i] by (auto simp: f)
  have "\<not> isspace c" "c \<noteq> 45" "c \<noteq> 43"
    using d(1) isdigit_bounds [OF d(1)] by (auto simp: isspace_def word_le_nat_alt)
  then have "dropWhile isspace (filename i) = filename i" "hd (filename i) \<noteq> 45" "hd (filename i) \<noteq> 43"
    by (simp_all add: f)
  moreover have "dec_value (filename i) = unat i" by (simp add: filename_def dec_value_decimal)
  moreover have "unat i < 2 ^ 64" using unsigned_less [of i, where 'a = nat] by simp
  ultimately show ?thesis
    by (simp add: n2i_def Let_def takeWhile_eq_all_conv [THEN iffD2, OF d(2)])
qed

lemma colon_not_digit: "isdigit c \<Longrightarrow> c \<noteq> colon"
  by (auto simp: isdigit_def)

lemma colon_filename [simp]: "colon \<notin> set (filename i)"
  using filename_digits colon_not_digit by blast

section \<open>Fields\<close>

text \<open>The text between colons; there is always at least one field.\<close>

fun fields :: "bytes \<Rightarrow> bytes list" where
  "fields [] = [[]]"
| "fields (c # cs) = (if c = colon then [] # fields cs else (c # hd (fields cs)) # tl (fields cs))"

lemma fields_nonempty [simp]: "fields s \<noteq> []"
  by (cases s) auto

lemma fields_plain [simp]: "colon \<notin> set s \<Longrightarrow> fields s = [s]"
  by (induction s) auto

lemma fields_append_colon [simp]: "colon \<notin> set f \<Longrightarrow> fields (f @ colon # r) = f # fields r"
  by (induction f) auto

lemma fields_append: "fields (s @ colon # r) = fields s @ fields r"
  by (induction s) (auto simp: neq_Nil_conv)

lemma fields_colonfree: "f \<in> set (fields s) \<Longrightarrow> colon \<notin> set f"
proof (induction s arbitrary: f)
  case (Cons c cs)
  obtain g gs where "fields cs = g # gs" by (cases "fields cs") auto
  with Cons show ?case by (auto split: if_splits)
qed simp

text \<open>Every text is its first field, and the rest after a colon if there is more than one.\<close>

lemma fields_cases:
  obtains (one) "colon \<notin> set s" "fields s = [s]"
  | (more) f r where "colon \<notin> set f" "s = f @ colon # r" "fields s = f # fields r"
proof (cases "colon \<in> set s")
  case True
  then obtain f r where "s = f @ colon # r" "colon \<notin> set f" by (meson split_list_first)
  with more show thesis by simp
qed (simp add: one)

section \<open>Searching\<close>

lemma prefix_terminated:
  assumes "colon \<notin> set n" and "colon \<notin> set g"
  shows "prefix (n @ [colon]) (g @ colon # r) \<longleftrightarrow> n = g"
  using assms
proof (induction n arbitrary: g)
  case Nil
  then show ?case by (cases g) auto
next
  case (Cons c n)
  then show ?case by (cases g) auto
qed

text \<open>A terminated name occurs first at the end of the first field that ends with the name.\<close>

lemma search_field:
  assumes "colon \<notin> set n" and "colon \<notin> set f"
  shows "search (n @ [colon]) i (f @ colon # r) =
    (if suffix n f then Some (i + length f - length n) else search (n @ [colon]) (i + length f + 1) r)"
  using assms
proof (induction f arbitrary: i)
  case Nil
  then show ?case using prefix_terminated [of n "[]" r] by auto
next
  case (Cons c f)
  then have p: "prefix (n @ [colon]) ((c # f) @ colon # r) \<longleftrightarrow> n = c # f"
    by (intro prefix_terminated) auto
  show ?case
  proof (cases "n = c # f")
    case True
    with p show ?thesis by simp
  next
    case False
    then have "suffix n (c # f) \<longleftrightarrow> suffix n f" by (simp add: suffix_Cons)
    moreover have "suffix n f \<Longrightarrow> length n \<le> length f" by (rule suffix_length_le)
    ultimately show ?thesis
      using Cons p False by (auto simp: Suc_diff_le)
  qed
qed

lemma search_colon: "search [colon] i (f @ colon # r) = Some (i + length f)" if "colon \<notin> set f"
  using search_field [of "[]" f i r] that by simp

lemma search_colon_none: "search [colon] i f = None" if "colon \<notin> set f"
  using that by (induction f arbitrary: i) auto

lemma str_find_colon:
  "colon \<notin> set f \<Longrightarrow> str_find (pre @ f @ colon # r) [colon] (length pre) = Some (length pre + length f)"
  "colon \<notin> set f \<Longrightarrow> str_find (pre @ f) [colon] (length pre) = None"
  by (simp_all add: str_find_def search_colon search_colon_none)

subsection \<open>Lookup in terms of fields\<close>

fun lookup_fields :: "bytes \<Rightarrow> bytes list \<Rightarrow> bytes list option" where
  "lookup_fields n [] = None"
| "lookup_fields n (f # fs) = (if suffix n f then Some fs else lookup_fields n fs)"

text \<open>Where the search ends up: just after the field found, at the start of the remaining fields.\<close>

lemma search_fields:
  assumes "colon \<notin> set n"
  shows "case lookup_fields n (fields s) of
      None \<Rightarrow> search (n @ [colon]) (length pre) (s @ [colon]) = None
    | Some fs \<Rightarrow> (\<exists>p a. search (n @ [colon]) (length pre) (s @ [colon]) = Some p \<and>
        (if fs = [] then pre @ s @ [colon] = a else \<exists>t. pre @ s = a @ t \<and> fields t = fs) \<and>
        p + length n + 1 = length a)"
proof (induction "fields s" arbitrary: s pre rule: list.induct)
  case (Cons f fs)
  show ?case
  proof (cases s rule: fields_cases)
    case one
    then show ?thesis
      using search_field [OF assms one(1), of "length pre" "[]"] suffix_length_le [of n s]
      by (auto simp: eq_commute [of "pre @ _"])
  next
    case (more g r)
    have sf: "search (n @ [colon]) (length pre) (s @ [colon]) =
      (if suffix n g then Some (length pre + length g - length n)
       else search (n @ [colon]) (length (pre @ g @ [colon])) (r @ [colon]))"
      using search_field [OF assms more(1), of "length pre" "r @ [colon]"] more by simp
    show ?thesis
    proof (cases "suffix n g")
      case True
      have "\<exists>t. pre @ s = (pre @ g @ [colon]) @ t \<and> fields t = fields r"
        using more by (intro exI [of _ r]) simp
      then have "\<exists>a. (\<exists>t. pre @ s = a @ t \<and> fields t = fields r) \<and>
          length pre + length g - length n + length n + 1 = length a"
        using suffix_length_le [OF True] by (intro exI [of _ "pre @ g @ [colon]"]) simp
      then show ?thesis
        using True sf more by simp
    next
      case False
      then have l: "lookup_fields n (fields s) = lookup_fields n (fields r)" using more by simp
      have "fs = fields r" using Cons.hyps(2) more by simp
      then show ?thesis
        using Cons.hyps(1) [of r "pre @ g @ [colon]"] sf False more unfolding l
        by (auto split: option.splits if_splits)
    qed
  qed
qed (metis fields_nonempty)

lemma fields_take_first:
  assumes "fields t = g # gs"
  shows "case str_find (a @ t @ [colon]) [colon] (length a) of
    None \<Rightarrow> False | Some q \<Rightarrow> length a \<le> q \<and> take (q - length a) (drop (length a) (a @ t @ [colon])) = g"
proof (cases t rule: fields_cases)
  case one
  with assms str_find_colon(1) [of t a "[]"] show ?thesis by simp
next
  case (more f r)
  with assms str_find_colon(1) [of f a "r @ [colon]"] show ?thesis by simp
qed

text \<open>What \<^verbatim>\<open>ilookup\<close> computes from a directory's content.\<close>

definition lookup_text :: "bytes \<Rightarrow> bytes \<Rightarrow> inum" where
  "lookup_text name txt =
     (case lookup_fields name (fields txt) of
        None \<Rightarrow> 0 | Some [] \<Rightarrow> 0 | Some (g # _) \<Rightarrow> n2i g)"

lemma ilookup_text:
  assumes "colon \<notin> set name" and "ec_get ec parent [] s = Inr (ext_OK, txt, s')"
  shows "ilookup ec parent name s = Inr (lookup_text name txt, s')"
proof (cases "lookup_fields name (fields txt)")
  case None
  then show ?thesis
    using assms search_fields [OF assms(1), where s = "txt" and pre = "[]"]
    by (simp add: ilookup_def lookup_text_def str_find_def Let_def)
next
  case (Some fs)
  then obtain p a where p: "search (name @ [colon]) 0 (txt @ [colon]) = Some p" "p + length name + 1 = length a"
    and a: "if fs = [] then txt @ [colon] = a else \<exists>t. txt = a @ t \<and> fields t = fs"
    using search_fields [OF assms(1), where s = "txt" and pre = "[]", unfolded append_Nil] by auto
  have len: "p + Suc (length name) = length a" using p(2) by simp
  show ?thesis
  proof (cases fs)
    case Nil
    then have "txt @ [colon] = a" using a by simp
    then have "str_find (txt @ [colon]) [colon] (length a) = None" "substr (txt @ [colon]) (length a) k = Inr []" for k
      by (auto simp: str_find_def substr_def)
    with p assms Some Nil len show ?thesis
      by (simp add: ilookup_def lookup_text_def str_find_def Let_def n2i_def dec_value_def)
  next
    case (Cons g gs)
    then obtain t where t: "txt = a @ t" "fields t = g # gs" using a by auto
    then obtain q where "str_find (txt @ [colon]) [colon] (length a) = Some q"
      "substr (txt @ [colon]) (length a) (q - length a) = Inr g"
      using fields_take_first [OF t(2), of a] by (auto simp: substr_def split: option.splits)
    with p assms Some Cons len show ?thesis
      by (simp add: ilookup_def lookup_text_def str_find_def Let_def)
  qed
qed

section \<open>Directories\<close>

text \<open>
  The text of a directory with the given entries, built the way \<^verbatim>\<open>create\<close> appends. Names must not
  contain a colon.
\<close>

definition add_entry :: "bytes \<Rightarrow> bytes \<Rightarrow> inum \<Rightarrow> bytes" where
  "add_entry txt n i = (if txt \<noteq> [] then txt @ [colon] else txt) @ n @ [colon] @ filename i"

definition dir_text :: "(bytes \<times> inum) list \<Rightarrow> bytes" where
  "dir_text es = foldl (\<lambda>txt (n, i). add_entry txt n i) [] es"

definition names_ok :: "(bytes \<times> inum) list \<Rightarrow> bool" where
  "names_ok es \<longleftrightarrow> (\<forall>(n, i) \<in> set es. colon \<notin> set n)"

lemma dir_text_Nil [simp]: "dir_text [] = []"
  by (simp add: dir_text_def)

lemma dir_text_snoc: "dir_text (es @ [(n, i)]) = add_entry (dir_text es) n i"
  by (simp add: dir_text_def)

lemma dir_text_empty [simp]: "dir_text es = [] \<longleftrightarrow> es = []"
  by (cases es rule: rev_cases) (auto simp: dir_text_snoc add_entry_def)

lemma fields_dir_text:
  assumes "names_ok es" and "es \<noteq> []"
  shows "fields (dir_text es) = concat (map (\<lambda>(n, i). [n, filename i]) es)"
  using assms
proof (induction es rule: rev_induct)
  case (snoc e es)
  obtain n i where e: "e = (n, i)" by fastforce
  have n: "fields (n @ colon # filename i) = [n, filename i]"
    using snoc.prems by (simp add: e names_ok_def)
  show ?case
  proof (cases "es = []")
    case True
    then show ?thesis using n by (simp add: e dir_text_def add_entry_def)
  next
    case False
    then have "fields (dir_text es) = concat (map (\<lambda>(n, i). [n, filename i]) es)"
      using snoc by (auto simp: names_ok_def)
    moreover have "dir_text es \<noteq> []" using False by simp
    ultimately show ?thesis
      using n by (simp add: e dir_text_snoc add_entry_def fields_append)
  qed
qed simp

text \<open>
  A lookup hits the first field that ends with the name, be it a name or a number; \<open>clear_of\<close> says
  that no field of the entries does.
\<close>

definition clear_of :: "bytes \<Rightarrow> (bytes \<times> inum) list \<Rightarrow> bool" where
  "clear_of name es \<longleftrightarrow> (\<forall>(n, i) \<in> set es. \<not> suffix name n \<and> \<not> suffix name (filename i))"

lemma lookup_fields_clear:
  "clear_of name es \<Longrightarrow>
    lookup_fields name (concat (map (\<lambda>(n, i). [n, filename i]) es) @ fs) = lookup_fields name fs"
  by (induction es) (auto simp: clear_of_def)

lemma lookup_text_entry:
  assumes "names_ok (es @ (name, i) # rest)" and "clear_of name es"
  shows "lookup_text name (dir_text (es @ (name, i) # rest)) = i"
  using assms fields_dir_text [OF assms(1)]
  by (simp add: lookup_text_def lookup_fields_clear)

lemma lookup_text_absent:
  assumes "names_ok es" and "clear_of name es" and "name \<noteq> []"
  shows "lookup_text name (dir_text es) = 0"
proof (cases "es = []")
  case False
  then show ?thesis
    using assms fields_dir_text [OF assms(1)] lookup_fields_clear [OF assms(2), of "[]"]
    by (simp add: lookup_text_def)
qed (simp add: lookup_text_def assms)

subsection \<open>Listing\<close>

text \<open>The loop reads all fields but the last.\<close>

lemma dir_loop_more:
  assumes "colon \<notin> set f" and "b = length pre" and "e < length (pre @ f @ colon # r)"
    and "int (length pre + length f + 1) \<le> int_max"
  shows "dir_loop (pre @ f @ colon # r) b e c t d =
    (if even c
     then dir_loop (pre @ f @ colon # r) (length pre + length f + 1) (length pre + length f) (c + 1) f d
     else dir_loop (pre @ f @ colon # r) (length pre + length f + 1) (length pre + length f) (c + 1) t
       (d @ [(t, stringToid f)]))"
proof -
  have "in_int (int (length pre + length f) + 1)" using assms(4) by (simp add: in_int_def int_max_def)
  moreover have "Suc c mod 2 = Suc 0 \<longleftrightarrow> even c" by presburger
  ultimately show ?thesis
    using assms(1-3) by (subst dir_loop.simps) (simp add: str_find_colon Let_def)
qed

lemma dir_loop_end:
  assumes "colon \<notin> set f" and "b = length pre" and "e < length (pre @ f)"
  shows "dir_loop (pre @ f) b e c t d = Inr (b, e, t, d)"
  using assms by (subst dir_loop.simps) (simp add: str_find_colon)

fun dir_tail :: "(bytes \<times> inum) list \<Rightarrow> bytes" where
  "dir_tail [] = []"
| "dir_tail ((n, i) # es) = colon # n @ colon # filename i @ dir_tail es"

lemma dir_text_tail: "dir_text ((n, i) # es) = n @ colon # filename i @ dir_tail es"
proof (induction es arbitrary: n i rule: rev_induct)
  case (snoc e es)
  obtain m j where e: "e = (m, j)" by fastforce
  have tail: "dir_tail (es @ [(m, j)]) = dir_tail es @ colon # m @ colon # filename j"
    by (induction es) auto
  show ?case
    using snoc dir_text_snoc [of "(n, i) # es" m j] by (simp add: e tail add_entry_def)
qed (simp add: dir_text_def add_entry_def)

lemma dir_loop_entries:
  assumes "names_ok (es @ [(n, i)])" and "even c" and "b = length pre" and "e < length s"
    and "s = pre @ dir_text (es @ [(n, i)])" and "int (length s) \<le> int_max"
  shows "dir_loop s b e c t d =
    Inr (length s - length (filename i), length s - length (filename i) - 1, n, d @ es)"
  using assms
proof (induction es arbitrary: pre b e c t d)
  case Nil
  have s: "s = pre @ n @ colon # filename i" using Nil by (simp add: dir_text_tail)
  have bound: "int (length pre + length n + 1) \<le> int_max"
    using Nil.prems(6) by (simp add: s)
  have "dir_loop s b e c t d =
    dir_loop (pre @ n @ colon # filename i) (length pre + length n + 1) (length pre + length n) (c + 1) n d"
    using Nil.prems(1-4) dir_loop_more [of n b pre e "filename i" c t d] bound
    unfolding s by (auto simp: names_ok_def)
  also have "\<dots> = Inr (length pre + length n + 1, length pre + length n, n, d)"
    using dir_loop_end [of "filename i" "length pre + length n + 1" "pre @ n @ [colon]" "length pre + length n"]
    by simp
  finally show ?case by (simp add: s)
next
  case (Cons x es)
  obtain m j where x: "x = (m, j)" by fastforce
  obtain k l fs where nx: "es @ [(n, i)] = (k, l) # fs" by (cases es) auto
  have d: "dir_text ((m, j) # es @ [(n, i)]) = m @ colon # filename j @ colon # dir_text (es @ [(n, i)])"
    by (simp add: dir_text_tail nx)
  have s: "s = pre @ m @ colon # filename j @ colon # dir_text (es @ [(n, i)])"
    using Cons.prems(5) d by (simp add: x)
  let ?p = "pre @ m @ [colon]" and ?q = "pre @ m @ [colon] @ filename j @ [colon]"
  have m: "colon \<notin> set m" using Cons.prems(1) by (simp add: x names_ok_def)
  have bound: "int (length pre + length m + 1) \<le> int_max" "int (length ?q) \<le> int_max"
    using Cons.prems(6) by (simp_all add: s)
  have "dir_loop s b e c t d = dir_loop s (length pre + length m + 1) (length pre + length m) (c + 1) m d"
    using Cons.prems(1-4) bound dir_loop_more [OF m, of b pre e "filename j @ colon # dir_text (es @ [(n, i)])" c t d]
    unfolding s by auto
  also have "\<dots> = dir_loop s (length ?q) (length ?q - 1) (c + 2) m (d @ [(m, j)])"
    using Cons.prems(1-4) bound dir_loop_more [of "filename j" "length ?p" ?p "length pre + length m" "dir_text (es @ [(n, i)])" "c + 1" m d]
    unfolding s by (auto simp: add.assoc)
  also have "\<dots> = Inr (length s - length (filename i), length s - length (filename i) - 1, n, (d @ [(m, j)]) @ es)"
    using Cons.prems(1,2,6) by (intro Cons.IH [of _ _ ?q]) (auto simp: s x names_ok_def)
  finally show ?case by (simp add: x)
qed

section \<open>Over any extent store\<close>

lemmas yfs_status = yfs_OK_def yfs_IOERR_def

lemma unat_widen: "unat (ucast (x :: u32) :: u64) = unat x"
proof -
  have "unat x < 2 ^ 32" using unsigned_less [of x, where 'a = nat] by simp
  then show ?thesis by (simp add: unsigned_ucast_eq take_bit_nat_eq_self)
qed

text \<open>
  What the operations on directories and contents need of a store. The number counts the requests that
  can still be made: a store behind a network can run out of call numbers.
\<close>

locale bounded_store =
  fixes ec :: "'s extent_ops" and \<alpha> :: "'s \<Rightarrow> extentid_t \<rightharpoonup> bytes" and ready :: "nat \<Rightarrow> 's \<Rightarrow> bool"
  assumes get_some: "ready (Suc n) s \<Longrightarrow> \<alpha> s eid = Some c \<Longrightarrow>
      \<exists>s'. ec_get ec eid [] s = Inr (ext_OK, c, s') \<and> ready n s' \<and> \<alpha> s' = \<alpha> s"
    and getattr_some: "ready (Suc n) s \<Longrightarrow> \<alpha> s eid = Some c \<Longrightarrow>
      \<exists>s' a'. ec_getattr ec eid a s = Inr (ext_OK, a', s') \<and> ready n s' \<and> \<alpha> s' = \<alpha> s \<and> unat (a_size a') = length c"
    and put_some: "ready (Suc n) s \<Longrightarrow> length b \<le> maxextent \<Longrightarrow>
      \<exists>s'. ec_put ec eid b s = Inr (ext_OK, s') \<and> ready n s' \<and> \<alpha> s' = (\<alpha> s)(eid \<mapsto> b)"
    and ready_less: "ready (Suc n) s \<Longrightarrow> ready n s"
begin

lemma create_ready:
  assumes "ready (Suc (Suc (Suc n))) s" and "\<alpha> s parent = Some c" and "length (add_entry c name i) \<le> maxextent"
  shows "\<exists>s'. create ec parent i name s = Inr (yfs_OK, s') \<and> ready n s' \<and>
    \<alpha> s' = (if isfile i then (\<alpha> s)(i \<mapsto> []) else \<alpha> s)(parent \<mapsto> add_entry c name i)"
proof -
  obtain s1 where s1: "ec_get ec parent [] s = Inr (ext_OK, c, s1)" "ready (Suc (Suc n)) s1" "\<alpha> s1 = \<alpha> s"
    using get_some [of "Suc (Suc n)" s parent c] assms(1,2) by auto
  obtain s2 where s2: "(if isfile i then ec_put ec i [] s1 else Inr (ext_OK, s1)) = Inr (ext_OK, s2)" "ready (Suc n) s2"
    "\<alpha> s2 = (if isfile i then (\<alpha> s)(i \<mapsto> []) else \<alpha> s)"
    using put_some [of "Suc n" s1 "[]" i] ready_less [of "Suc n" s1] s1 by (cases "isfile i") auto
  obtain s3 where "ec_put ec parent (add_entry c name i) s2 = Inr (ext_OK, s3)" "ready n s3"
    "\<alpha> s3 = (\<alpha> s2)(parent \<mapsto> add_entry c name i)"
    using put_some [of n s2 "add_entry c name i" parent] s2(2) assms(3) by auto
  with s1 s2 show ?thesis by (simp add: create_def add_entry_def)
qed

lemma ilookup_ready:
  assumes "ready (Suc n) s" and "\<alpha> s parent = Some c" and "colon \<notin> set name"
  shows "\<exists>s'. ilookup ec parent name s = Inr (lookup_text name c, s') \<and> ready n s' \<and> \<alpha> s' = \<alpha> s"
proof -
  obtain s1 where s1: "ec_get ec parent [] s = Inr (ext_OK, c, s1)" "ready n s1" "\<alpha> s1 = \<alpha> s"
    using get_some [OF assms(1,2)] by blast
  with ilookup_text [OF assms(3) s1(1)] show ?thesis by blast
qed

lemma getfile_ready:
  assumes "ready (Suc n) s" and "\<alpha> s i = Some c"
  shows "\<exists>s' fin'. getfile ec a i fin s = Inr (yfs_OK, fin', s') \<and> ready n s' \<and> \<alpha> s' = \<alpha> s \<and>
    unat (fi_size fin') = length c"
proof -
  obtain s' a' where "ec_getattr ec i a s = Inr (ext_OK, a', s')" "ready n s'" "\<alpha> s' = \<alpha> s"
    "unat (a_size a') = length c"
    using getattr_some [OF assms] by blast
  then show ?thesis by (simp add: getfile_def unat_widen)
qed

lemma read_ready:
  assumes "ready (Suc n) s" and "\<alpha> s i = Some c" and "0 \<le> off"
  shows "\<exists>s'. yfs_read ec i k off r s = Inr (yfs_OK, take k (drop (nat off) c), s') \<and> ready n s' \<and> \<alpha> s' = \<alpha> s"
  using get_some [OF assms(1,2)] assms(3) by (auto simp: yfs_read_def substr_def)

lemma write_ready:
  assumes "ready (Suc (Suc n)) s" and "\<alpha> s i = Some c" and "0 \<le> off" and "length buf = k" and "length c \<le> maxextent"
    and "length c + k \<le> maxextent"
  shows "\<exists>s'. yfs_write ec i buf (int k) off s = Inr (yfs_OK, s') \<and> ready n s' \<and>
    \<alpha> s' = (\<alpha> s)(i \<mapsto> (if off \<ge> int (length c) then c @ buf
      else take (nat off) c @ buf @ drop (nat off + k) c))"
proof -
  let ?c = "if off \<ge> int (length c) then c @ buf else take (nat off) c @ buf @ drop (nat off + k) c"
  obtain s1 where s1: "ec_get ec i [] s = Inr (ext_OK, c, s1)" "ready (Suc n) s1" "\<alpha> s1 = \<alpha> s"
    using get_some [of "Suc n" s i c] assms(1,2) by auto
  have "length ?c \<le> maxextent" using assms by auto
  then obtain s2 where s2: "ec_put ec i ?c s1 = Inr (ext_OK, s2)" "ready n s2" "\<alpha> s2 = (\<alpha> s1)(i \<mapsto> ?c)"
    using put_some [OF s1(2)] by blast
  have "to_int32 (int (length c)) = int (length c)"
    using assms(5) by (intro to_int32_id) (simp_all add: maxextent_def)
  then have "yfs_write ec i buf (int k) off s = rbind (ec_put ec i ?c s1) (\<lambda>(st, s).
       if st \<noteq> ext_OK then Inr (yfs_IOERR, s) else Inr (yfs_OK, s))"
    using s1(1) assms(3,4) by (auto simp: yfs_write_def size_arg_def str_replace_def)
  with s1 s2 show ?thesis by simp
qed

end

sublocale extent_store \<subseteq> any: bounded_store ec \<alpha> "\<lambda>_. inv"
proof
  fix s eid c
  assume "inv s" "\<alpha> s eid = Some c"
  then show "\<exists>s'. ec_get ec eid [] s = Inr (ext_OK, c, s') \<and> inv s' \<and> \<alpha> s' = \<alpha> s"
    using get_law [of s eid "[]"] by auto
next
  fix s eid c a
  assume "inv s" "\<alpha> s eid = Some c"
  then show "\<exists>s' a'. ec_getattr ec eid a s = Inr (ext_OK, a', s') \<and> inv s' \<and> \<alpha> s' = \<alpha> s \<and> unat (a_size a') = length c"
    using getattr_law [of s eid a] by auto
next
  fix s eid and b :: bytes
  assume "inv s" "length b \<le> maxextent"
  then show "\<exists>s'. ec_put ec eid b s = Inr (ext_OK, s') \<and> inv s' \<and> \<alpha> s' = (\<alpha> s)(eid \<mapsto> b)"
    using put_law [of s b eid] by auto
qed

context extent_store
begin

lemma create_store:
  assumes "inv s" and "\<alpha> s parent = Some c" and "length (add_entry c name i) \<le> maxextent"
  shows "\<exists>s'. create ec parent i name s = Inr (yfs_OK, s') \<and> inv s' \<and>
    \<alpha> s' = (if isfile i then (\<alpha> s)(i \<mapsto> []) else \<alpha> s)(parent \<mapsto> add_entry c name i)"
  using assms by (rule any.create_ready)

lemma ilookup_store:
  assumes "inv s" and "\<alpha> s parent = Some c" and "colon \<notin> set name"
  shows "\<exists>s'. ilookup ec parent name s = Inr (lookup_text name c, s') \<and> inv s' \<and> \<alpha> s' = \<alpha> s"
  using assms by (rule any.ilookup_ready)

lemma create_lookup_store:
  assumes "inv s" and "\<alpha> s parent = Some (dir_text es)" and "names_ok (es @ [(name, i)])"
    and "clear_of name es" and "length (dir_text (es @ [(name, i)])) \<le> maxextent"
  shows "\<exists>s1 s2. create ec parent i name s = Inr (yfs_OK, s1) \<and>
    \<alpha> s1 parent = Some (dir_text (es @ [(name, i)])) \<and> ilookup ec parent name s1 = Inr (i, s2)"
proof -
  obtain s1 where s1: "create ec parent i name s = Inr (yfs_OK, s1)" "inv s1"
    "\<alpha> s1 parent = Some (dir_text (es @ [(name, i)]))"
    using create_store [OF assms(1,2), of name i] assms(5) by (auto simp: dir_text_snoc)
  moreover have "colon \<notin> set name" using assms(3) by (simp add: names_ok_def)
  moreover have "lookup_text name (dir_text (es @ [(name, i)])) = i"
    using lookup_text_entry [OF assms(3,4)] by simp
  ultimately show ?thesis using ilookup_store [OF s1(2,3), of name] by auto
qed

lemma list_store:
  assumes "inv s" and "\<alpha> s d = Some (dir_text (es @ [(n, i)]))" and "names_ok (es @ [(n, i)])"
    and "length (dir_text (es @ [(n, i)])) \<le> maxextent"
  shows "\<exists>s'. getDirContent ec d [] s =
    Inr (yfs_OK, es @ [(n, stringToid (take (length (dir_text (es @ [(n, i)])) - length (filename i) - 1)
      (filename i)))], s') \<and> inv s' \<and> \<alpha> s' = \<alpha> s"
proof -
  let ?c = "dir_text (es @ [(n, i)])"
  obtain s' where s': "ec_get ec d [] s = Inr (ext_OK, ?c, s')" "inv s'" "\<alpha> s' = \<alpha> s"
    using get_law [OF assms(1), of d "[]"] assms(2) by auto
  obtain pre where pre: "?c = pre @ n @ colon # filename i"
    by (auto simp: dir_text_snoc add_entry_def)
  obtain f r where f: "?c = f @ colon # r" "colon \<notin> set f"
    using pre split_list_first [of colon ?c] by auto
  have found: "str_find ?c [colon] 0 \<noteq> None"
    using str_find_colon(1) [OF f(2), of "[]" r] f(1) by simp
  have "dir_loop ?c 0 0 0 [] [] = Inr (length ?c - length (filename i), length ?c - length (filename i) - 1, n, es)"
    using dir_loop_entries [OF assms(3), of 0 0 "[]" 0 ?c "[]" "[]"] assms(4) pre
    by (simp add: maxextent_def int_max_def)
  moreover have "substr ?c (length ?c - length (filename i)) k = Inr (take k (filename i))" for k
    by (simp add: substr_def pre)
  ultimately show ?thesis
    using s' found by (simp add: getDirContent_def)
qed

lemma read_store:
  assumes "inv s" and "\<alpha> s i = Some c" and "0 \<le> off"
  shows "\<exists>s'. yfs_read ec i n off r s = Inr (yfs_OK, take n (drop (nat off) c), s') \<and> inv s' \<and> \<alpha> s' = \<alpha> s"
  using assms by (rule any.read_ready)

lemma write_store:
  assumes "inv s" and "\<alpha> s i = Some c" and "0 \<le> off" and "length buf = n" and "length c \<le> maxextent"
    and "length c + n \<le> maxextent"
  shows "\<exists>s'. yfs_write ec i buf (int n) off s = Inr (yfs_OK, s') \<and> inv s' \<and>
    \<alpha> s' = (\<alpha> s)(i \<mapsto> (if off \<ge> int (length c) then c @ buf
      else take (nat off) c @ buf @ drop (nat off + n) c))"
  using assms by (rule any.write_ready)

lemma setattr_store:
  assumes "inv s" and "\<alpha> s i = Some c"
  shows "\<exists>s'. yfs_setattr ec a i fin s = Inr (yfs_OK, s') \<and> inv s' \<and>
    \<alpha> s' = (\<alpha> s)(i \<mapsto> resize (unat (ucast (fi_size fin) :: u32)) c)"
  using setattr_law [OF assms(1), of i "a\<lparr>a_size := ucast (fi_size fin)\<rparr>"] assms(2)
  by (auto simp: yfs_setattr_def)

lemma getfile_store:
  assumes "inv s" and "\<alpha> s i = Some c"
  shows "\<exists>s' fin'. getfile ec a i fin s = Inr (yfs_OK, fin', s') \<and> inv s' \<and> \<alpha> s' = \<alpha> s \<and>
    unat (fi_size fin') = length c"
  using assms by (rule any.getfile_ready)

end

section \<open>Properties\<close>

text \<open>
  Create, then look up. In a directory whose entries have colon free names, and of which no field
  ends with the new name, creating an entry over the extent server succeeds, appends the entry to
  the directory, and a lookup of the name gives the number it was created with.
\<close>

theorem create_then_lookup:
  assumes "extents_ok s" and "contents_of s parent = Some (dir_text es)" and "names_ok (es @ [(name, i)])"
    and "clear_of name es" and "length (dir_text (es @ [(name, i)])) \<le> maxextent"
  shows "\<exists>s1 s2. create (server_ops r a) parent i name s = Inr (yfs_OK, s1) \<and>
    contents_of s1 parent = Some (dir_text (es @ [(name, i)])) \<and>
    ilookup (server_ops r a) parent name s1 = Inr (i, s2)"
  using assms by (rule server_store.create_lookup_store)

definition attr0 :: attr where
  "attr0 = \<lparr>atime = 0, mtime = 0, ctime = 0, a_size = 0\<rparr>"

text \<open>A server whose root directory has the given entries.\<close>

definition root_with :: "(bytes \<times> inum) list \<Rightarrow> extent_server" where
  "root_with es = snd (snd (extent_put 1 (dir_text es) 0 (extent_server_new (\<lambda>n. word_of_nat n))))"

lemma root_with_ok: "extents_ok (root_with es)"
  unfolding root_with_def by (intro extent_put_ok extents_ok_new)

lemma root_with_contents: "length (dir_text es) \<le> maxextent \<Longrightarrow> contents_of (root_with es) 1 = Some (dir_text es)"
  by (simp add: root_with_def extent_put_def contents_of_def extent_server_new_def Let_def case_prod_unfold
      time_NULL_def)

lemmas dir_eval = dir_text_def add_entry_def filename_def decimal.simps names_ok_def clear_of_def
  maxextent_def

theorem create_then_lookup_witness:
  "\<exists>s1 s2. create (server_ops 0 attr0) 1 0x80000001 [104, 105] (root_with [([97], 7)]) = Inr (yfs_OK, s1) \<and>
    contents_of s1 1 = Some (dir_text ([([97], 7)] @ [([104, 105], 0x80000001)])) \<and>
    ilookup (server_ops 0 attr0) 1 [104, 105] s1 = Inr (0x80000001, s2)"
  by (rule create_then_lookup [OF root_with_ok root_with_contents]) (simp_all add: dir_eval suffix_def)

text \<open>
  What a lookup finds. For a colon free name, \<^verbatim>\<open>ilookup\<close> splits the directory's text at the colons,
  takes the first field, name or number, that ends with the name asked for, and returns the number
  in the field after it, or 0.
\<close>

theorem ilookup_finds_first_suffix:
  assumes "extents_ok s" and "contents_of s parent = Some c" and "colon \<notin> set name"
  shows "\<exists>s'. ilookup (server_ops r a) parent name s =
    Inr (case lookup_fields name (fields c) of None \<Rightarrow> 0 | Some [] \<Rightarrow> 0 | Some (g # _) \<Rightarrow> n2i g, s')"
  using server_store.ilookup_store [OF assms, of r a] by (auto simp: lookup_text_def)

theorem ilookup_finds_first_suffix_witness:
  "\<exists>s'. ilookup (server_ops 0 attr0) 1 [98, 99] (root_with [([97, 98, 99], 5)]) =
    Inr (case lookup_fields [98, 99] (fields (dir_text [([97, 98, 99], 5)])) of
      None \<Rightarrow> 0 | Some [] \<Rightarrow> 0 | Some (g # _) \<Rightarrow> n2i g, s')"
  by (rule ilookup_finds_first_suffix [OF root_with_ok root_with_contents]) (simp_all add: dir_eval)

text \<open>
  A lookup can find a file that does not exist: in a directory whose only entry is \<^verbatim>\<open>abc\<close>, the
  name \<^verbatim>\<open>bc\<close> is found, with the number of \<^verbatim>\<open>abc\<close>.
\<close>

theorem ilookup_confuses_suffixes:
  "\<exists>s'. ilookup (server_ops r a) 1 [98, 99] (root_with [([97, 98, 99], 5)]) = Inr (5, s')"
proof -
  have "lookup_text [98, 99] (dir_text [([97, 98, 99], 5)]) = 5"
    by (simp add: dir_eval lookup_text_def suffix_def n2i_def isspace_def isdigit_def dec_value_def)
  with server_store.ilookup_store [OF root_with_ok root_with_contents, of "[([97, 98, 99], 5)]" "[98, 99]" r a]
  show ?thesis by (auto simp: dir_eval)
qed

text \<open>
  Listing a directory. \<^verbatim>\<open>getDirContent\<close> returns all entries in order, with the right numbers except
  that the last number is cut to as many digits as there are characters before the last colon.
\<close>

theorem getDirContent_lists_entries:
  assumes "extents_ok s" and "contents_of s d = Some (dir_text (es @ [(n, i)]))"
    and "names_ok (es @ [(n, i)])" and "length (dir_text (es @ [(n, i)])) \<le> maxextent"
  shows "\<exists>s'. getDirContent (server_ops r a) d [] s =
    Inr (yfs_OK, es @ [(n, stringToid (take (length (dir_text (es @ [(n, i)])) - length (filename i) - 1)
      (filename i)))], s')"
  using server_store.list_store [OF assms, of r a] by blast

theorem getDirContent_lists_entries_witness:
  "\<exists>s'. getDirContent (server_ops 0 attr0) 1 [] (root_with ([([97], 7)] @ [([98], 23)])) =
    Inr (yfs_OK, [([97], 7)] @ [([98], stringToid (take (length (dir_text ([([97], 7)] @ [([98], 23)])) -
      length (filename 23) - 1) (filename 23)))], s')"
  by (rule getDirContent_lists_entries [OF root_with_ok root_with_contents]) (simp_all add: dir_eval)

text \<open>
  The listing is wrong for a directory with one file whose name is shorter than its number: the
  entry \<^verbatim>\<open>a:2147483649\<close> is listed with number 2.
\<close>

theorem getDirContent_truncates_last:
  "\<exists>s'. getDirContent (server_ops r a) 1 [] (root_with [([97], 0x80000001)]) = Inr (yfs_OK, [([97], 2)], s')"
proof -
  have "stringToid (take (length (dir_text [([97], 0x80000001)]) - length (filename 0x80000001) - 1)
      (filename 0x80000001)) = 2"
    by (simp add: dir_eval stringToid_def)
  with server_store.list_store [OF root_with_ok root_with_contents, of "[]" "[97]" "0x80000001" r a]
  show ?thesis by (auto simp: dir_eval)
qed

text \<open>
  C31. Write, then read. A write at an offset inside the file or at its end replaces the bytes there,
  extends the file where it reaches beyond the end, and a read of the same range gives them back.
\<close>

theorem write_then_read:
  assumes "extents_ok s" and "contents_of s i = Some c" and "0 \<le> off" and "off \<le> int (length c)"
    and "length c + length buf \<le> maxextent"
  shows "\<exists>s1 s2. yfs_write (server_ops r a) i buf (int (length buf)) off s = Inr (yfs_OK, s1) \<and>
    contents_of s1 = (contents_of s)(i \<mapsto> take (nat off) c @ buf @ drop (nat off + length buf) c) \<and>
    yfs_read (server_ops r a) i (length buf) off x s1 = Inr (yfs_OK, buf, s2)"
proof -
  let ?c = "take (nat off) c @ buf @ drop (nat off + length buf) c"
  have "(if off \<ge> int (length c) then c @ buf else ?c) = ?c"
    using assms(3,4) by auto
  then obtain s1 where s1: "yfs_write (server_ops r a) i buf (int (length buf)) off s = Inr (yfs_OK, s1)"
    "extents_ok s1" "contents_of s1 = (contents_of s)(i \<mapsto> ?c)"
    using server_store.write_store [OF assms(1-3), of buf "length buf" r a] assms(5) by auto
  have "take (length buf) (drop (nat off) ?c) = buf"
    using assms(3,4) by (simp add: min_absorb2)
  with s1 server_store.read_store [OF s1(2), of i ?c off r a "length buf" x] assms(3) show ?thesis by auto
qed

theorem write_then_read_witness:
  "\<exists>s1 s2. yfs_write (server_ops 0 attr0) 1 [8, 9] (int (length [8, 9 :: u8])) 3 (root_with [([97], 7)]) =
      Inr (yfs_OK, s1) \<and>
    contents_of s1 = (contents_of (root_with [([97], 7)]))(1 \<mapsto>
      take (nat 3) (dir_text [([97], 7)]) @ [8, 9] @ drop (nat 3 + length [8, 9 :: u8]) (dir_text [([97], 7)])) \<and>
    yfs_read (server_ops 0 attr0) 1 (length [8, 9 :: u8]) 3 [] s1 = Inr (yfs_OK, [8, 9], s2)"
  by (rule write_then_read [OF root_with_ok root_with_contents]) (simp_all add: dir_eval)

text \<open>
  A write beyond the end of the file does not leave a gap: the bytes are appended right after the
  old content, at an offset smaller than the one asked for.
\<close>

theorem write_past_end_appends:
  assumes "extents_ok s" and "contents_of s i = Some c" and "int (length c) < off"
    and "length c + length buf \<le> maxextent"
  shows "\<exists>s1. yfs_write (server_ops r a) i buf (int (length buf)) off s = Inr (yfs_OK, s1) \<and>
    contents_of s1 i = Some (c @ buf)"
  using server_store.write_store [OF assms(1,2), of off buf "length buf" r a] assms(3,4) by auto

theorem write_past_end_appends_witness:
  "\<exists>s1. yfs_write (server_ops 0 attr0) 1 [8] (int (length [8 :: u8])) 100 (root_with []) = Inr (yfs_OK, s1) \<and>
    contents_of s1 1 = Some (dir_text [] @ [8])"
  by (rule write_past_end_appends [OF root_with_ok root_with_contents]) (simp_all add: maxextent_def)

text \<open>
  Setting the size. The content is cut or padded with zero bytes to the new size, and the
  attributes read afterwards report that size.
\<close>

theorem setattr_then_getfile:
  assumes "extents_ok s" and "contents_of s i = Some c" and "fi_size fin < 2 ^ 32"
  shows "\<exists>s1 s2 fin'. yfs_setattr (server_ops r a) x i fin s = Inr (yfs_OK, s1) \<and>
    contents_of s1 i = Some (resize (unat (fi_size fin)) c) \<and>
    getfile (server_ops r a) x i fin s1 = Inr (yfs_OK, fin', s2) \<and> fi_size fin' = fi_size fin"
proof -
  have n: "unat (ucast (fi_size fin) :: u32) = unat (fi_size fin)"
    using assms(3) by (simp add: unsigned_ucast_eq word_less_nat_alt take_bit_nat_eq_self)
  obtain s1 where s1: "yfs_setattr (server_ops r a) x i fin s = Inr (yfs_OK, s1)" "extents_ok s1"
    "contents_of s1 i = Some (resize (unat (fi_size fin)) c)"
    using server_store.setattr_store [OF assms(1,2), of r a x fin] by (auto simp: n)
  with server_store.getfile_store [OF s1(2,3), of r a x fin] show ?thesis
    by (auto simp: word_unat_eq_iff)
qed

theorem setattr_then_getfile_witness:
  "\<exists>s1 s2 fin'. yfs_setattr (server_ops 0 attr0) attr0 1
      \<lparr>fi_size = 20, fi_atime = 0, fi_mtime = 0, fi_ctime = 0\<rparr> (root_with []) = Inr (yfs_OK, s1) \<and>
    contents_of s1 1 = Some (resize (unat (fi_size \<lparr>fi_size = 20, fi_atime = 0, fi_mtime = 0, fi_ctime = 0\<rparr>)) (dir_text [])) \<and>
    getfile (server_ops 0 attr0) attr0 1 \<lparr>fi_size = 20, fi_atime = 0, fi_mtime = 0, fi_ctime = 0\<rparr> s1 =
      Inr (yfs_OK, fin', s2) \<and> fi_size fin' = fi_size \<lparr>fi_size = 20, fi_atime = 0, fi_mtime = 0, fi_ctime = 0\<rparr>"
  by (rule setattr_then_getfile [OF root_with_ok root_with_contents]) (simp_all add: maxextent_def)

end
