(* ===== verification/Yfs_Rpc.thy ===== *)
theory Yfs_Rpc
  imports Extent_Client Yfs_Client
begin

text \<open>
  The file system client over the network: \<^verbatim>\<open>yfs_client\<close> on the stubs of \<^verbatim>\<open>extent_client\<close>, these on the
  RPC client, and the extent server behind the RPC server. The contract \<open>bounded_store\<close> is interpreted on
  this composition, so that what holds of files and directories over any store holds over RPC.
\<close>

section \<open>The remote store\<close>

lemma maxextent_short: "length b \<le> maxextent \<Longrightarrow> short (length b)"
  by (simp add: limits maxextent_def)

interpretation remote_store: bounded_store "extent_client (exchange fresh net t d now) r" remote_contents
  "remote_ready fresh net now c d r0 a0" for fresh net t d now r c r0 a0
proof
  fix n w eid a and b c' :: bytes
  let ?ec = "extent_client (exchange fresh net t d now) r" and ?ready = "remote_ready fresh net now c d r0 a0"
  assume w: "?ready (Suc n) w"
  show "?ready n w" using w by (simp add: remote_ready_def)
  show "\<exists>w'. ec_get ?ec eid [] w = Inr (ext_OK, c', w') \<and> ?ready n w' \<and> remote_contents w' = remote_contents w"
    if "remote_contents w eid = Some c'"
    using remote_request [OF w, of "Get eid" t r] that by (auto simp: rbind_eq_Inr)
  show "\<exists>w' a'. ec_getattr ?ec eid a w = Inr (ext_OK, a', w') \<and> ?ready n w' \<and> remote_contents w' = remote_contents w \<and>
      unat (a_size a') = length c'"
    if "remote_contents w eid = Some c'"
    using remote_getattr_request [OF w that, of t r a] by blast
  show "\<exists>w'. ec_put ?ec eid b w = Inr (ext_OK, w') \<and> ?ready n w' \<and> remote_contents w' = (remote_contents w)(eid \<mapsto> b)"
    if "length b \<le> maxextent"
    using remote_request [OF w, of "Put eid b" t r] that maxextent_short [OF that] by (auto simp: rbind_eq_Inr)
qed

section \<open>Several entries\<close>

fun create_all :: "'s extent_ops \<Rightarrow> inum \<Rightarrow> (bytes \<times> inum) list \<Rightarrow> 's \<Rightarrow> 's res" where
  "create_all ec p [] s = Inr s"
| "create_all ec p ((name, i) # es) s =
     rbind (create ec p i name s) (\<lambda>(st, s).
     rbind (check (st = yfs_OK) Assert_failed) (\<lambda>_. create_all ec p es s))"

lemma dir_text_longer: "length (dir_text es) \<le> length (dir_text (es @ es'))"
proof (induction es' rule: rev_induct)
  case (snoc e es')
  obtain n i where "e = (n, i)" by (cases e)
  then have "dir_text (es @ es' @ [e]) = add_entry (dir_text (es @ es')) n i"
    using dir_text_snoc [of "es @ es'" n i] by simp
  with snoc show ?case by (simp add: add_entry_def)
qed simp

context bounded_store
begin

text \<open>After the entries have been created the directory lists them and the files among them are empty.\<close>

lemma create_all_ready:
  assumes "ready (3 * length es + n) s" and "\<alpha> s p = Some (dir_text pre)" and "length (dir_text (pre @ es)) \<le> maxextent"
  shows "\<exists>s'. create_all ec p es s = Inr s' \<and> ready n s' \<and> \<alpha> s' p = Some (dir_text (pre @ es)) \<and>
    (\<forall>j. j \<noteq> p \<longrightarrow> \<alpha> s j = Some [] \<or> isfile j \<and> j \<in> snd ` set es \<longrightarrow> \<alpha> s' j = Some [])"
  using assms
proof (induction es arbitrary: s pre)
  case (Cons e es)
  obtain name i where e: "e = (name, i)" by (cases e)
  have "length (add_entry (dir_text pre) name i) \<le> maxextent"
    using Cons.prems(3) dir_text_longer [of "pre @ [(name, i)]" es] by (simp add: e dir_text_snoc)
  moreover have "ready (Suc (Suc (Suc (3 * length es + n)))) s" using Cons.prems(1) by (simp add: numeral_3_eq_3)
  ultimately obtain s1 where s1: "create ec p i name s = Inr (yfs_OK, s1)" "ready (3 * length es + n) s1"
      "\<alpha> s1 = (if isfile i then (\<alpha> s)(i \<mapsto> []) else \<alpha> s)(p \<mapsto> dir_text (pre @ [(name, i)]))"
    using create_ready [OF _ Cons.prems(2), of "3 * length es + n" name i] by (auto simp: dir_text_snoc)
  from Cons.IH [OF s1(2), of "pre @ [e]"] s1(3) Cons.prems(3) obtain s' where
    s': "create_all ec p es s1 = Inr s'" "ready n s'" "\<alpha> s' p = Some (dir_text (pre @ e # es))"
      "\<forall>j. j \<noteq> p \<longrightarrow> \<alpha> s1 j = Some [] \<or> isfile j \<and> j \<in> snd ` set es \<longrightarrow> \<alpha> s' j = Some []"
    by (auto simp: e)
  have "\<alpha> s' j = Some []" if "j \<noteq> p" "\<alpha> s j = Some [] \<or> isfile j \<and> j \<in> snd ` set (e # es)" for j
    using that s1(3) s'(4) by (auto simp: e split: if_splits)
  with s' s1(1) show ?case by (auto simp: e)
qed auto

lemma entries_found:
  assumes "ready (Suc n) s" and "\<alpha> s p = Some (dir_text (pre @ (name, i) # post))"
    and "names_ok (pre @ (name, i) # post)" and "clear_of name pre"
  shows "\<exists>s'. ilookup ec p name s = Inr (i, s')"
  using ilookup_ready [OF assms(1,2), of name] lookup_text_entry [OF assms(3,4)] assms(3)
  by (auto simp: names_ok_def)

lemma written_read:
  assumes "ready (n + 3) s" and "\<alpha> s i = Some []" and "length buf \<le> maxextent"
  shows "\<exists>s1 s2. yfs_write ec i buf (int (length buf)) 0 s = Inr (yfs_OK, s1) \<and>
    yfs_read ec i (length buf) 0 x s1 = Inr (yfs_OK, buf, s2)"
proof -
  have "ready (Suc (Suc (Suc n))) s" using assms(1) by (simp add: numeral_3_eq_3)
  then obtain s1 where s1: "yfs_write ec i buf (int (length buf)) 0 s = Inr (yfs_OK, s1)" "ready (Suc n) s1" "\<alpha> s1 i = Some buf"
    using write_ready [of "Suc n" s i "[]" 0 buf "length buf"] assms(2,3) by auto
  with read_ready [OF s1(2,3), of 0 "length buf" x] show ?thesis by auto
qed

end

section \<open>Property\<close>

text \<open>Each entry is found under its own name: no earlier field ends with it.\<close>

fun findable :: "(bytes \<times> inum) list \<Rightarrow> (bytes \<times> inum) list \<Rightarrow> bool" where
  "findable pre [] \<longleftrightarrow> True"
| "findable pre ((name, i) # es) \<longleftrightarrow> clear_of name pre \<and> findable (pre @ [(name, i)]) es"

lemma findable_split: "findable pre (es @ (name, i) # post) \<Longrightarrow> clear_of name (pre @ es)"
  by (induction pre es rule: findable.induct) auto

text \<open>
  C7. The file system client over the network. A client that has bound itself to a freshly started
  extent server creates entries in the root directory: every creation succeeds. Afterwards, looking up a
  name gives the number created with it, and the bytes written to a file that was created are the bytes
  read back. Assumptions: messages arrive with the bytes that were written into them (\<open>carried\<close>), the
  connections are live, no name contains a colon or is a suffix of an earlier field, and the directory and
  the written bytes are within \<^verbatim>\<open>maxextent\<close>.
\<close>

theorem file_system_over_rpc:
  assumes "\<And>m. carried m (net m)" and "ts_normal now" and "0 < tv_sec now"
    and "random \<noteq> 0" and "\<not> dead k" "1 \<le> refno k" "\<not> dead kd" "1 \<le> refno kd"
    and "extent_smain r0 a0 n clk = Inr sv"
    and "names_ok es" and "findable [] es" and "length (dir_text es) \<le> maxextent" and "3 * length es + 5 < 2 ^ 32"
  shows "\<exists>w w1. extent_client_new (exchange (Some (c, k)) net t d now) r True random (sv\<lparr>heap := [d \<mapsto> kd]\<rparr>) = Inr w \<and>
    create_all (extent_client (exchange (Some (c, k)) net t d now) r) 1 es w = Inr w1 \<and>
    (\<forall>(name, i) \<in> set es. (\<exists>w2. ilookup (extent_client (exchange (Some (c, k)) net t d now) r) 1 name w1 = Inr (i, w2)) \<and>
      (isfile i \<longrightarrow> (\<forall>buf x. length buf \<le> maxextent \<longrightarrow> (\<exists>w2 w3.
        yfs_write (extent_client (exchange (Some (c, k)) net t d now) r) i buf (int (length buf)) 0 w1 = Inr (yfs_OK, w2) \<and>
        yfs_read (extent_client (exchange (Some (c, k)) net t d now) r) i (length buf) 0 x w2 = Inr (yfs_OK, buf, w3)))))"
proof -
  let ?ec = "extent_client (exchange (Some (c, k)) net t d now) r" and ?ready = "remote_ready (Some (c, k)) net now c d r0 a0"
  obtain w where w: "extent_client_new (exchange (Some (c, k)) net t d now) r True random (sv\<lparr>heap := [d \<mapsto> kd]\<rparr>) = Inr w"
      "remote_contents w = [1 \<mapsto> []]" "?ready (3 * length es + 3) w"
    using extent_client_binds [OF assms(1-9), of c t d r "3 * length es + 3"] assms(13) by auto
  obtain w1 where w1: "create_all ?ec 1 es w = Inr w1" "?ready 3 w1" "remote_contents w1 1 = Some (dir_text es)"
      "\<forall>j. j \<noteq> 1 \<longrightarrow> remote_contents w j = Some [] \<or> isfile j \<and> j \<in> snd ` set es \<longrightarrow> remote_contents w1 j = Some []"
    using remote_store.create_all_ready [OF w(3), of 1 "[]" t r] w(2) assms(12) by auto
  have "(\<exists>w2. ilookup ?ec 1 name w1 = Inr (i, w2)) \<and> (isfile i \<longrightarrow> (\<forall>buf x. length buf \<le> maxextent \<longrightarrow>
      (\<exists>w2 w3. yfs_write ?ec i buf (int (length buf)) 0 w1 = Inr (yfs_OK, w2) \<and>
        yfs_read ?ec i (length buf) 0 x w2 = Inr (yfs_OK, buf, w3))))" if e: "(name, i) \<in> set es" for name i
  proof (intro conjI impI allI)
    obtain pre post where es: "es = pre @ (name, i) # post" using split_list [OF e] by blast
    show "\<exists>w2. ilookup ?ec 1 name w1 = Inr (i, w2)"
      using remote_store.entries_found [of _ _ _ _ _ _ _ 2 w1 1 pre name i post t r] w1(2,3) assms(10,11)
        findable_split [of "[]" pre name i post] by (simp add: es numeral_3_eq_3)
  next
    fix buf x :: bytes assume "isfile i" and b: "length buf \<le> maxextent"
    then have "remote_contents w1 i = Some []" using w1(4) e by (force simp: isfile_def)
    then show "\<exists>w2 w3. yfs_write ?ec i buf (int (length buf)) 0 w1 = Inr (yfs_OK, w2) \<and>
        yfs_read ?ec i (length buf) 0 x w2 = Inr (yfs_OK, buf, w3)"
      using remote_store.written_read [of _ _ _ _ _ _ _ 0 w1 i buf t r x] w1(2) b by auto
  qed
  with w(1) w1(1) show ?thesis by blast
qed

theorem file_system_over_rpc_witness:
  "\<exists>sv w w1 w2 w3 w4. extent_smain 7 attr_zero 9 (\<lambda>_. 5) = Inr sv \<and>
    extent_client_new (exchange (Some (3, fst (connection_new 4 0))) (map (\<lambda>v. case v of None \<Rightarrow> 0xFF | Some x \<Rightarrow> x))
      1 6 \<lparr>tv_sec = 100, tv_nsec = 0\<rparr>) 0 True 8 (sv\<lparr>heap := [6 \<mapsto> fst (connection_new 5 0)]\<rparr>) = Inr w \<and>
    create_all (extent_client (exchange (Some (3, fst (connection_new 4 0)))
      (map (\<lambda>v. case v of None \<Rightarrow> 0xFF | Some x \<Rightarrow> x)) 1 6 \<lparr>tv_sec = 100, tv_nsec = 0\<rparr>) 0) 1
      [([97], 7), ([104, 105], 0x80000001)] w = Inr w1 \<and>
    ilookup (extent_client (exchange (Some (3, fst (connection_new 4 0)))
      (map (\<lambda>v. case v of None \<Rightarrow> 0xFF | Some x \<Rightarrow> x)) 1 6 \<lparr>tv_sec = 100, tv_nsec = 0\<rparr>) 0) 1 [104, 105] w1
      = Inr (0x80000001, w2) \<and>
    yfs_write (extent_client (exchange (Some (3, fst (connection_new 4 0)))
      (map (\<lambda>v. case v of None \<Rightarrow> 0xFF | Some x \<Rightarrow> x)) 1 6 \<lparr>tv_sec = 100, tv_nsec = 0\<rparr>) 0) 0x80000001
      [1, 2, 3] 3 0 w1 = Inr (yfs_OK, w3) \<and>
    yfs_read (extent_client (exchange (Some (3, fst (connection_new 4 0)))
      (map (\<lambda>v. case v of None \<Rightarrow> 0xFF | Some x \<Rightarrow> x)) 1 6 \<lparr>tv_sec = 100, tv_nsec = 0\<rparr>) 0) 0x80000001
      3 0 [] w3 = Inr (yfs_OK, [1, 2, 3], w4)"
proof -
  let ?net = "map (\<lambda>v. case v of None \<Rightarrow> 0xFF | Some x \<Rightarrow> x) :: block \<Rightarrow> u8 list"
  let ?ex = "exchange (Some (3, fst (connection_new 4 0))) ?net 1 6 \<lparr>tv_sec = 100, tv_nsec = 0\<rparr>
    :: (rpcc \<times> extent_server rpcs) caller1"
  let ?es = "[([97], 7), ([104, 105], 0x80000001)] :: (bytes \<times> inum) list"
  have net: "carried m (?net m)" for m by (auto simp: carried_def)
  obtain sv where sv: "extent_smain 7 attr_zero 9 (\<lambda>_. 5) = Inr sv"
    using extent_smain_registers [of 7 attr_zero 9 "\<lambda>_. 5"] by blast
  have es: "names_ok ?es" "findable [] ?es" "length (dir_text ?es) \<le> maxextent" "3 * length ?es + 5 < 2 ^ 32"
    by (simp_all add: dir_eval suffix_def)
  obtain w w1 where w: "extent_client_new ?ex 0 True 8 (sv\<lparr>heap := [6 \<mapsto> fst (connection_new 5 0)]\<rparr>) = Inr w"
      "create_all (extent_client ?ex 0) 1 ?es w = Inr w1"
    and found: "\<forall>(name, i) \<in> set ?es. (\<exists>w2. ilookup (extent_client ?ex 0) 1 name w1 = Inr (i, w2)) \<and>
      (isfile i \<longrightarrow> (\<forall>buf x. length buf \<le> maxextent \<longrightarrow> (\<exists>w2 w3.
        yfs_write (extent_client ?ex 0) i buf (int (length buf)) 0 w1 = Inr (yfs_OK, w2) \<and>
        yfs_read (extent_client ?ex 0) i (length buf) 0 x w2 = Inr (yfs_OK, buf, w3))))"
    using file_system_over_rpc [OF net _ _ _ _ _ _ _ sv es, of "\<lparr>tv_sec = 100, tv_nsec = 0\<rparr>" 8
      "fst (connection_new 4 0)" "fst (connection_new 5 0)" 3 1 6 0]
    by (auto simp: ts_normal_def connection_new_def simp del: create_all.simps)
  from found obtain w2 where w2: "ilookup (extent_client ?ex 0) 1 [104, 105] w1 = Inr (0x80000001, w2)" by auto
  have "isfile 0x80000001" "length [1, 2, 3 :: u8] \<le> maxextent" by (simp_all add: isfile_def maxextent_def)
  moreover have "\<forall>buf x. length buf \<le> maxextent \<longrightarrow> (\<exists>w2 w3.
      yfs_write (extent_client ?ex 0) 0x80000001 buf (int (length buf)) 0 w1 = Inr (yfs_OK, w2) \<and>
      yfs_read (extent_client ?ex 0) 0x80000001 (length buf) 0 x w2 = Inr (yfs_OK, buf, w3))" if "isfile 0x80000001"
    using bspec [OF found, of "([104, 105], 0x80000001)"] that by simp
  ultimately have "\<exists>w2 w3. yfs_write (extent_client ?ex 0) 0x80000001 [1, 2, 3] (int (length [1, 2, 3 :: u8])) 0 w1
      = Inr (yfs_OK, w2) \<and>
      yfs_read (extent_client ?ex 0) 0x80000001 (length [1, 2, 3 :: u8]) 0 [] w2 = Inr (yfs_OK, [1, 2, 3], w3)"
    by blast
  then obtain w3 w4 where "yfs_write (extent_client ?ex 0) 0x80000001 [1, 2, 3] 3 0 w1 = Inr (yfs_OK, w3)"
      "yfs_read (extent_client ?ex 0) 0x80000001 3 0 [] w3 = Inr (yfs_OK, [1, 2, 3], w4)"
    by (auto simp: numeral_3_eq_3)
  with sv w w2 show ?thesis by blast
qed

end
