(* ===== verification/Fuse.thy ===== *)
theory Fuse
  imports Yfs_Client
begin

text \<open>
  The FUSE server, \<^verbatim>\<open>src/fuse.cc\<close>: the handlers that libfuse calls for the operations of the kernel. A
  handler answers by calls of \<^verbatim>\<open>fuse_reply_...\<close>; the model of a handler gives the list of these calls in
  order, and the new state of the extent store. Local structures that the code does not initialise
  are arguments (\<open>info\<close>, \<open>st\<close>, \<open>e\<close>). The number drawn by \<^verbatim>\<open>random()\<close> is an argument. The layout of a
  directory entry is libfuse's: \<open>dsz\<close> stands for \<^verbatim>\<open>fuse_dirent_size\<close>, \<open>dent\<close> for \<^verbatim>\<open>fuse_add_dirent\<close>.
\<close>

section \<open>Data\<close>

record stat =
  st_ino :: u64
  st_mode :: u32
  st_nlink :: u64
  st_atime :: u64
  st_mtime :: u64
  st_ctime :: u64
  st_size :: u64

definition stat_zero :: stat where
  "stat_zero = \<lparr>st_ino = 0, st_mode = 0, st_nlink = 0, st_atime = 0, st_mtime = 0, st_ctime = 0, st_size = 0\<rparr>"

record fuse_entry_param =
  e_ino :: u64
  e_attr :: stat
  attr_timeout :: int
  entry_timeout :: int

datatype fuse_reply =
    Reply_err int
  | Reply_attr stat int
  | Reply_buf bytes
  | Reply_write nat
  | Reply_create fuse_entry_param
  | Reply_entry fuse_entry_param
  | Reply_open
  | Reply_statfs int int

definition ENOENT :: int where "ENOENT = 2"

definition ENOTDIR :: int where "ENOTDIR = 20"

definition ENOSYS :: int where "ENOSYS = 38"

definition REG_MODE :: u32 where "REG_MODE = 0x8000 OR 0x1B6"

definition DIR_MODE :: u32 where "DIR_MODE = 0x4000 OR 0x1FF"

section \<open>Handlers\<close>

definition fuse_getattr ::
  "'s extent_ops \<Rightarrow> attr \<Rightarrow> fileinfo \<Rightarrow> dirinfo \<Rightarrow> inum \<Rightarrow> 's \<Rightarrow> (i32 \<times> stat \<times> 's) res" where
  "fuse_getattr ec a fin din i s =
     (let st = stat_zero\<lparr>st_ino := i\<rparr> in
      if isfile i then
        rbind (getfile ec a i fin s) (\<lambda>(ret, info, s).
        if ret \<noteq> yfs_OK then Inr (ret, st, s)
        else Inr (yfs_OK, st\<lparr>st_mode := REG_MODE, st_nlink := 1, st_atime := fi_atime info,
          st_mtime := fi_mtime info, st_ctime := fi_ctime info, st_size := fi_size info\<rparr>, s))
      else
        rbind (getdir ec a i din s) (\<lambda>(ret, info, s).
        if ret \<noteq> yfs_OK then Inr (ret, st, s)
        else Inr (yfs_OK, st\<lparr>st_mode := DIR_MODE, st_nlink := 2, st_atime := di_atime info,
          st_mtime := di_mtime info, st_ctime := di_ctime info\<rparr>, s)))"

definition fuseserver_getattr ::
  "'s extent_ops \<Rightarrow> attr \<Rightarrow> fileinfo \<Rightarrow> dirinfo \<Rightarrow> inum \<Rightarrow> 's \<Rightarrow> (fuse_reply list \<times> 's) res" where
  "fuseserver_getattr ec a fin din ino s =
     rbind (fuse_getattr ec a fin din ino s) (\<lambda>(ret, st, s).
     if ret \<noteq> yfs_OK then Inr ([Reply_err ENOENT], s)
     else Inr ([Reply_attr st 0], s))"

definition FUSE_SET_ATTR_SIZE :: u32 where
  "FUSE_SET_ATTR_SIZE = 8"

definition fuseserver_setattr ::
  "'s extent_ops \<Rightarrow> attr \<Rightarrow> fileinfo \<Rightarrow> stat \<Rightarrow> inum \<Rightarrow> u64 \<Rightarrow> u32 \<Rightarrow> 's \<Rightarrow> (fuse_reply list \<times> 's) res" where
  "fuseserver_setattr ec a info st ino attr_st_size to_set s =
     (if FUSE_SET_ATTR_SIZE AND to_set \<noteq> 0 then
        let info = info\<lparr>fi_size := attr_st_size\<rparr> in
        rbind (yfs_setattr ec a ino info s) (\<lambda>(ret, s).
        if ret \<noteq> yfs_OK then Inr ([Reply_err ENOSYS], s)
        else
          rbind (getfile ec a ino info s) (\<lambda>(ret, info, s).
          if ret \<noteq> yfs_OK then Inr ([Reply_err ENOSYS], s)
          else Inr ([Reply_attr (st\<lparr>st_mode := REG_MODE, st_nlink := 1, st_atime := fi_atime info,
            st_mtime := fi_mtime info, st_ctime := fi_ctime info, st_size := fi_size info\<rparr>) 0], s)))
      else Inr ([Reply_err ENOSYS], s))"

definition fuseserver_read ::
  "'s extent_ops \<Rightarrow> inum \<Rightarrow> nat \<Rightarrow> int \<Rightarrow> 's \<Rightarrow> (fuse_reply list \<times> 's) res" where
  "fuseserver_read ec ino sz off s =
     rbind (yfs_read ec ino sz off [] s) (\<lambda>(ret, retString, s).
     if ret \<noteq> yfs_OK then Inr ([Reply_err ENOSYS], s)
     else Inr ([Reply_buf retString], s))"

text \<open>
  A \<^verbatim>\<open>const char *\<close> turned into a \<^verbatim>\<open>std::string\<close> ends at its first null byte. \<open>buf\<close> is the memory from
  the pointer to the end of its block: without a null byte the read leaves the block.
\<close>

definition c_string :: "bytes \<Rightarrow> bytes res" where
  "c_string buf = (if 0 \<in> set buf then Inr (takeWhile (\<lambda>c. c \<noteq> 0) buf) else Inl Out_of_bounds)"

definition fuseserver_write ::
  "'s extent_ops \<Rightarrow> inum \<Rightarrow> bytes \<Rightarrow> nat \<Rightarrow> int \<Rightarrow> 's \<Rightarrow> (fuse_reply list \<times> 's) res" where
  "fuseserver_write ec ino buf sz off s =
     rbind (c_string buf) (\<lambda>str.
     rbind (yfs_write ec ino str (to_int32 (int sz)) (to_int32 off) s) (\<lambda>(ret, s).
     if ret \<noteq> yfs_OK then Inr ([Reply_err ENOSYS], s)
     else Inr ([Reply_write sz], s)))"

definition fuseserver_createhelper ::
  "'s extent_ops \<Rightarrow> attr \<Rightarrow> fileinfo \<Rightarrow> fuse_entry_param \<Rightarrow> u64 \<Rightarrow> inum \<Rightarrow> bytes \<Rightarrow> 's \<Rightarrow>
   (i32 \<times> fuse_entry_param \<times> 's) res" where
  "fuseserver_createhelper ec a info e random parent name s =
     (let fileID = random OR 0x80000000 in
      rbind (create ec parent fileID name s) (\<lambda>(ret, s).
      if ret \<noteq> yfs_OK then Inr (ret, e, s)
      else
        rbind (getfile ec a fileID info s) (\<lambda>(ret, info, s).
        if ret \<noteq> yfs_OK then Inr (ret, e, s)
        else Inr (yfs_OK, e\<lparr>e_ino := fileID, e_attr := (e_attr e)\<lparr>st_ino := fileID, st_mode := REG_MODE,
          st_nlink := 1, st_atime := fi_atime info, st_mtime := fi_mtime info, st_ctime := fi_ctime info,
          st_size := fi_size info\<rparr>\<rparr>, s))))"

definition fuseserver_create ::
  "'s extent_ops \<Rightarrow> attr \<Rightarrow> fileinfo \<Rightarrow> fuse_entry_param \<Rightarrow> u64 \<Rightarrow> inum \<Rightarrow> bytes \<Rightarrow> 's \<Rightarrow>
   (fuse_reply list \<times> 's) res" where
  "fuseserver_create ec a info e random parent name s =
     rbind (fuseserver_createhelper ec a info e random parent name s) (\<lambda>(ret, e, s).
     if ret = yfs_OK then Inr ([Reply_create e], s) else Inr ([Reply_err ENOENT], s))"

definition fuseserver_mknod ::
  "'s extent_ops \<Rightarrow> attr \<Rightarrow> fileinfo \<Rightarrow> fuse_entry_param \<Rightarrow> u64 \<Rightarrow> inum \<Rightarrow> bytes \<Rightarrow> 's \<Rightarrow>
   (fuse_reply list \<times> 's) res" where
  "fuseserver_mknod ec a info e random parent name s =
     rbind (fuseserver_createhelper ec a info e random parent name s) (\<lambda>(ret, e, s).
     if ret = yfs_OK then Inr ([Reply_entry e], s) else Inr ([Reply_err ENOENT], s))"

text \<open>After a failed \<^verbatim>\<open>getfile\<close> or \<^verbatim>\<open>getdir\<close> the lookup goes on and replies a second time.\<close>

definition fuseserver_lookup ::
  "'s extent_ops \<Rightarrow> attr \<Rightarrow> fileinfo \<Rightarrow> dirinfo \<Rightarrow> fuse_entry_param \<Rightarrow> inum \<Rightarrow> bytes \<Rightarrow> 's \<Rightarrow>
   (fuse_reply list \<times> 's) res" where
  "fuseserver_lookup ec a fin din e parent name s =
     (let e = e\<lparr>attr_timeout := 0, entry_timeout := 0\<rparr> in
      rbind (ilookup ec parent name s) (\<lambda>(i, s).
      if i = 0 then Inr ([Reply_err ENOENT], s)
      else if isfile i then
        rbind (getfile ec a i fin s) (\<lambda>(ret, info, s).
        let e = e\<lparr>e_ino := i, e_attr := (e_attr e)\<lparr>st_mode := REG_MODE, st_nlink := 1,
              st_atime := fi_atime info, st_mtime := fi_mtime info, st_ctime := fi_ctime info,
              st_size := fi_size info\<rparr>\<rparr>
        in Inr ((if ret \<noteq> yfs_OK then [Reply_err ENOENT] else []) @ [Reply_entry e], s))
      else
        rbind (getdir ec a i din s) (\<lambda>(ret, info, s).
        let e = e\<lparr>e_ino := i, e_attr := (e_attr e)\<lparr>st_mode := DIR_MODE, st_nlink := 2,
              st_atime := di_atime info, st_mtime := di_mtime info, st_ctime := di_ctime info\<rparr>\<rparr>
        in Inr ((if ret \<noteq> yfs_OK then [Reply_err ENOENT] else []) @ [Reply_entry e], s))))"

text \<open>The buffer of a directory listing; \<open>dent name ino off\<close> are the bytes of one entry.\<close>

definition dirbuf_add ::
  "(nat \<Rightarrow> nat) \<Rightarrow> (bytes \<Rightarrow> u64 \<Rightarrow> nat \<Rightarrow> bytes) \<Rightarrow> bytes \<Rightarrow> bytes \<Rightarrow> u64 \<Rightarrow> bytes" where
  "dirbuf_add dsz dent b name ino =
     (let size = length b + dsz (length name) in b @ dent name ino size)"

definition reply_buf_limited :: "bytes \<Rightarrow> int \<Rightarrow> nat \<Rightarrow> fuse_reply" where
  "reply_buf_limited buf off maxsize =
     (if 0 \<le> off \<and> off < int (length buf)
      then Reply_buf (take (min (length buf - nat off) maxsize) (drop (nat off) buf))
      else Reply_buf [])"

text \<open>The entries are taken from the back of the vector; \<^verbatim>\<open>c_str()\<close> ends a name at its first null byte.\<close>

definition fuseserver_readdir ::
  "(nat \<Rightarrow> nat) \<Rightarrow> (bytes \<Rightarrow> u64 \<Rightarrow> nat \<Rightarrow> bytes) \<Rightarrow> 's extent_ops \<Rightarrow> inum \<Rightarrow> nat \<Rightarrow> int \<Rightarrow> 's \<Rightarrow>
   (fuse_reply list \<times> 's) res" where
  "fuseserver_readdir dsz dent ec ino sz off s =
     (if \<not> isdir ino then Inr ([Reply_err ENOTDIR], s)
      else
        rbind (getDirContent ec ino [] s) (\<lambda>(ret, dirContent, s).
        if ret \<noteq> yfs_OK then Inr ([], s)
        else
          let b = foldl (\<lambda>b (name, i). dirbuf_add dsz dent b (takeWhile (\<lambda>c. c \<noteq> 0) name) i) []
                (rev dirContent)
          in Inr ([reply_buf_limited b off sz], s)))"

definition fuseserver_open :: "inum \<Rightarrow> 's \<Rightarrow> (fuse_reply list \<times> 's) res" where
  "fuseserver_open ino s =
     Inr ((if isdir ino then [Reply_err ENOSYS] else []) @ [Reply_open], s)"

definition fuseserver_mkdir ::
  "'s extent_ops \<Rightarrow> attr \<Rightarrow> fileinfo \<Rightarrow> fuse_entry_param \<Rightarrow> u64 \<Rightarrow> inum \<Rightarrow> bytes \<Rightarrow> 's \<Rightarrow>
   (fuse_reply list \<times> 's) res" where
  "fuseserver_mkdir ec a info e random parent name s =
     (let dirID = random in
      rbind (create ec parent dirID name s) (\<lambda>(ret, s).
      if ret \<noteq> yfs_OK then Inr ([Reply_err ENOSYS], s)
      else
        rbind (getfile ec a dirID info s) (\<lambda>(ret, info, s).
        if ret \<noteq> yfs_OK then Inr ([Reply_err ENOSYS], s)
        else Inr ([Reply_entry (e\<lparr>e_ino := dirID, e_attr := (e_attr e)\<lparr>st_ino := dirID,
          st_mode := DIR_MODE, st_nlink := 2, st_atime := fi_atime info, st_mtime := fi_mtime info,
          st_ctime := fi_ctime info\<rparr>\<rparr>)], s))))"

definition fuseserver_unlink :: "inum \<Rightarrow> bytes \<Rightarrow> 's \<Rightarrow> (fuse_reply list \<times> 's) res" where
  "fuseserver_unlink parent name s = Inr ([Reply_err ENOSYS], s)"

definition fuseserver_statfs :: "'s \<Rightarrow> (fuse_reply list \<times> 's) res" where
  "fuseserver_statfs s = Inr ([Reply_statfs 255 512], s)"

section \<open>The operation table\<close>

text \<open>The uninitialised locals of the handlers.\<close>

record fuse_locals =
  l_attr :: attr
  l_file :: fileinfo
  l_dir :: dirinfo
  l_stat :: stat
  l_entry :: fuse_entry_param

datatype fuse_op =
    Op_getattr inum
  | Op_statfs
  | Op_readdir inum nat int
  | Op_lookup inum bytes
  | Op_create u64 inum bytes
  | Op_mknod u64 inum bytes
  | Op_open inum
  | Op_read inum nat int
  | Op_write inum bytes nat int
  | Op_setattr inum u64 u32
  | Op_unlink inum bytes
  | Op_mkdir u64 inum bytes

fun fuse_exec ::
  "(nat \<Rightarrow> nat) \<Rightarrow> (bytes \<Rightarrow> u64 \<Rightarrow> nat \<Rightarrow> bytes) \<Rightarrow> 's extent_ops \<Rightarrow> fuse_locals \<Rightarrow> fuse_op \<Rightarrow> 's \<Rightarrow>
   (fuse_reply list \<times> 's) res" where
  "fuse_exec dsz dent ec l (Op_getattr ino) s = fuseserver_getattr ec (l_attr l) (l_file l) (l_dir l) ino s"
| "fuse_exec dsz dent ec l Op_statfs s = fuseserver_statfs s"
| "fuse_exec dsz dent ec l (Op_readdir ino sz off) s = fuseserver_readdir dsz dent ec ino sz off s"
| "fuse_exec dsz dent ec l (Op_lookup parent name) s =
     fuseserver_lookup ec (l_attr l) (l_file l) (l_dir l) (l_entry l) parent name s"
| "fuse_exec dsz dent ec l (Op_create rnd parent name) s =
     fuseserver_create ec (l_attr l) (l_file l) (l_entry l) rnd parent name s"
| "fuse_exec dsz dent ec l (Op_mknod rnd parent name) s =
     fuseserver_mknod ec (l_attr l) (l_file l) (l_entry l) rnd parent name s"
| "fuse_exec dsz dent ec l (Op_open ino) s = fuseserver_open ino s"
| "fuse_exec dsz dent ec l (Op_read ino sz off) s = fuseserver_read ec ino sz off s"
| "fuse_exec dsz dent ec l (Op_write ino buf sz off) s = fuseserver_write ec ino buf sz off s"
| "fuse_exec dsz dent ec l (Op_setattr ino sz to_set) s =
     fuseserver_setattr ec (l_attr l) (l_file l) (l_stat l) ino sz to_set s"
| "fuse_exec dsz dent ec l (Op_unlink parent name) s = fuseserver_unlink parent name s"
| "fuse_exec dsz dent ec l (Op_mkdir rnd parent name) s =
     fuseserver_mkdir ec (l_attr l) (l_file l) (l_entry l) rnd parent name s"

text \<open>The number of a new file is that of a regular file.\<close>

lemma new_file_number: "isfile (rnd OR 0x80000000)" "rnd OR 0x80000000 \<noteq> (0 :: u64)"
proof -
  have b: "bit (rnd OR 0x80000000 :: u64) 31" by (simp add: bit_simps)
  then have "bit ((rnd OR 0x80000000 :: u64) AND 0x80000000) 31" by (simp add: bit_simps)
  with b show "isfile (rnd OR 0x80000000)" "rnd OR 0x80000000 \<noteq> (0 :: u64)"
    unfolding isfile_def by (metis bit_0_eq bot_apply bot_bool_def)+
qed

section \<open>Replies and the invariant\<close>

text \<open>
  How many replies a handler sends, over extents with contents \<open>m\<close>: one, except for a lookup that
  finds a number without an extent (two), opening a directory (two), and listing a directory that
  has no extent (none).
\<close>

fun reply_count :: "'s extent_ops \<Rightarrow> (extentid_t \<rightharpoonup> bytes) \<Rightarrow> fuse_op \<Rightarrow> 's \<Rightarrow> nat" where
  "reply_count ec m (Op_lookup parent name) s =
     (case ilookup ec parent name s of
        Inl _ \<Rightarrow> 0
      | Inr (i, _) \<Rightarrow> if i \<noteq> 0 \<and> m i = None then 2 else 1)"
| "reply_count ec m (Op_open ino) s = (if isdir ino then 2 else 1)"
| "reply_count ec m (Op_readdir ino sz off) s = (if isdir ino \<and> m ino = None then 0 else 1)"
| "reply_count ec m _ s = 1"

context extent_store
begin

lemma get_keeps:
  assumes "ec_get ec i b s = Inr (st, c, s')" and "inv s"
  shows "inv s'" and "\<alpha> s' = \<alpha> s" and "st = ext_OK \<longleftrightarrow> \<alpha> s i \<noteq> None"
  using get_law [OF assms(2), of i b] assms(1) by (auto simp: ext_status split: option.splits)

lemma getattr_keeps:
  assumes "ec_getattr ec i a s = Inr (st, a', s')" and "inv s"
  shows "inv s'" and "\<alpha> s' = \<alpha> s" and "st = ext_OK \<longleftrightarrow> \<alpha> s i \<noteq> None"
  using getattr_law [OF assms(2), of i a] assms(1) by (auto simp: ext_status split: option.splits)

lemma put_keeps:
  assumes "ec_put ec i c s = Inr (st, s')" and "inv s"
  shows "inv s'"
  using put_law [OF assms(2), of c i] assms(1) by (auto split: if_splits)

lemma setattr_keeps:
  assumes "ec_setattr ec i a s = Inr (st, s')" and "inv s"
  shows "inv s'"
  using setattr_law [OF assms(2), of i a] assms(1) by (auto split: option.splits)

lemmas ec_keeps = get_keeps getattr_keeps put_keeps setattr_keeps

lemma yfs_keeps:
  assumes "inv s"
  shows "getfile ec a i fin s = Inr (st, fin', s') \<Longrightarrow> inv s' \<and> (st = yfs_OK \<longleftrightarrow> \<alpha> s i \<noteq> None)"
    and "getdir ec a i din s = Inr (st, din', s') \<Longrightarrow> inv s' \<and> (st = yfs_OK \<longleftrightarrow> \<alpha> s i \<noteq> None)"
    and "ilookup ec p name s = Inr (j, s') \<Longrightarrow> inv s' \<and> \<alpha> s' = \<alpha> s"
    and "getDirContent ec i d s = Inr (st, d', s') \<Longrightarrow> inv s' \<and> (st = yfs_OK \<longleftrightarrow> \<alpha> s i \<noteq> None)"
    and "yfs_read ec i n off c s = Inr (st, c', s') \<Longrightarrow> inv s'"
    and "yfs_write ec i c k off s = Inr (st, s') \<Longrightarrow> inv s'"
    and "yfs_setattr ec a i fin s = Inr (st, s') \<Longrightarrow> inv s'"
    and "create ec p i name s = Inr (st, s') \<Longrightarrow> inv s'"
proof -
  note unfold = rbind_eq_Inr Let_def yfs_status
  show "getfile ec a i fin s = Inr (st, fin', s') \<Longrightarrow> inv s' \<and> (st = yfs_OK \<longleftrightarrow> \<alpha> s i \<noteq> None)"
    using assms by (auto simp: getfile_def unfold split: if_splits dest: getattr_keeps)
  show "getdir ec a i din s = Inr (st, din', s') \<Longrightarrow> inv s' \<and> (st = yfs_OK \<longleftrightarrow> \<alpha> s i \<noteq> None)"
    using assms by (auto simp: getdir_def unfold split: if_splits dest: getattr_keeps)
  show "ilookup ec p name s = Inr (j, s') \<Longrightarrow> inv s' \<and> \<alpha> s' = \<alpha> s"
    using assms by (auto simp: ilookup_def unfold split: if_splits option.splits dest: get_keeps)
  show "getDirContent ec i d s = Inr (st, d', s') \<Longrightarrow> inv s' \<and> (st = yfs_OK \<longleftrightarrow> \<alpha> s i \<noteq> None)"
    using assms by (auto simp: getDirContent_def unfold split: if_splits option.splits dest: get_keeps)
  show "yfs_read ec i n off c s = Inr (st, c', s') \<Longrightarrow> inv s'"
    using assms by (auto simp: yfs_read_def unfold ec_keeps split: if_splits)
  show "yfs_write ec i c k off s = Inr (st, s') \<Longrightarrow> inv s'"
    using assms by (auto simp: yfs_write_def unfold split: if_splits dest!: ec_keeps(1,7))
  show "yfs_setattr ec a i fin s = Inr (st, s') \<Longrightarrow> inv s'"
    using assms by (auto simp: yfs_setattr_def unfold ec_keeps split: if_splits)
  show "create ec p i name s = Inr (st, s') \<Longrightarrow> inv s'"
    using assms by (auto simp: create_def unfold split: if_splits dest!: ec_keeps(1,7))
qed

lemmas yfs_dest = yfs_keeps [rotated]

lemma createhelper_keeps:
  assumes "fuseserver_createhelper ec a info e rnd p name s = Inr (st, e', s')" and "inv s"
  shows "inv s'"
  using assms by (auto simp: fuseserver_createhelper_def rbind_eq_Inr Let_def split: if_splits dest!: yfs_dest(1,8))

lemma lookup_replies:
  assumes "fuseserver_lookup ec a fin din e p name s = Inr (rs, s')" and "inv s"
  shows "inv s' \<and> length rs = reply_count ec (\<alpha> s) (Op_lookup p name) s"
proof -
  obtain i s1 where i: "ilookup ec p name s = Inr (i, s1)"
    using assms(1) by (auto simp: fuseserver_lookup_def rbind_eq_Inr Let_def)
  have s1: "inv s1" "\<alpha> s1 = \<alpha> s" using yfs_keeps(3) [OF assms(2) i] by auto
  show ?thesis
    using assms(1) i s1 yfs_keeps(1,2) [OF s1(1)]
    by (fastforce simp: fuseserver_lookup_def rbind_eq_Inr Let_def split: if_splits)
qed

lemma exec_replies:
  assumes "fuse_exec dsz dent ec l op s = Inr (rs, s')" and "inv s"
  shows "inv s' \<and> length rs = reply_count ec (\<alpha> s) op s"
proof (cases op)
  case (Op_lookup p name)
  with assms lookup_replies show ?thesis by simp
next
  case (Op_readdir ino sz off)
  with assms show ?thesis
    by (auto simp: fuseserver_readdir_def rbind_eq_Inr Let_def split: if_splits dest: yfs_dest(4))
next
  case (Op_getattr ino)
  with assms show ?thesis
    by (auto simp: fuseserver_getattr_def fuse_getattr_def rbind_eq_Inr Let_def split: if_splits
        dest: yfs_dest(1,2))
next
  case (Op_setattr ino sz to_set)
  with assms show ?thesis
    by (auto simp: fuseserver_setattr_def rbind_eq_Inr Let_def split: if_splits dest!: yfs_dest(1,7))
next
  case (Op_mkdir rnd p name)
  with assms show ?thesis
    by (auto simp: fuseserver_mkdir_def rbind_eq_Inr Let_def split: if_splits dest!: yfs_dest(1,8))
qed (insert assms, auto simp: fuseserver_statfs_def fuseserver_open_def fuseserver_unlink_def
    fuseserver_create_def fuseserver_mknod_def fuseserver_read_def fuseserver_write_def rbind_eq_Inr
    split: if_splits dest: createhelper_keeps yfs_dest(5,6))

end

section \<open>Properties\<close>

definition locals0 :: fuse_locals where
  "locals0 = \<lparr>l_attr = attr0, l_file = \<lparr>fi_size = 0, fi_atime = 0, fi_mtime = 0, fi_ctime = 0\<rparr>,
     l_dir = \<lparr>di_atime = 0, di_mtime = 0, di_ctime = 0\<rparr>, l_stat = stat_zero,
     l_entry = \<lparr>e_ino = 0, e_attr = stat_zero, attr_timeout = 0, entry_timeout = 0\<rparr>\<rparr>"

text \<open>
  C36. Over the extent server called directly, every operation that returns (that does not end in a
  fault, as a write beyond the end of the file or of a buffer without a null byte does) keeps the
  server's invariant and sends exactly the number of replies of \<open>reply_count\<close>: one, except that a
  lookup whose number has no extent and an open of a directory reply twice, and a listing of a
  directory without an extent never replies.
\<close>

theorem fuse_reply_counts:
  assumes "fuse_exec dsz dent (server_ops r a) l op s = Inr (rs, s')" and "extents_ok s"
  shows "extents_ok s' \<and> length rs = reply_count (server_ops r a) (contents_of s) op s"
  using assms by (rule server_store.exec_replies)

theorem fuse_reply_counts_witness:
  "\<exists>rs s'. fuse_exec (\<lambda>n. n) (\<lambda>n i k. n) (server_ops 0 attr0) locals0 (Op_getattr 5) (root_with []) = Inr (rs, s') \<and>
    extents_ok s' \<and> length rs = 1"
proof -
  obtain rs s' where r: "fuse_exec (\<lambda>n. n) (\<lambda>n i k. n) (server_ops 0 attr0) locals0 (Op_getattr 5) (root_with []) =
      Inr (rs, s')"
    by (simp add: fuseserver_getattr_def fuse_getattr_def getdir_def isfile_def server_ops_def
      extent_getattr_def root_with_def extent_put_def extent_server_new_def time_NULL_def maxextent_def
      Let_def ext_status yfs_status)
  with fuse_reply_counts [OF r root_with_ok] show ?thesis by simp
qed

text \<open>
  Create through FUSE, then look up. After a create request in a directory of which no field ends
  with the new name, the reply names the new file, and a following lookup replies once, with the same
  number, as an empty regular file.
\<close>

theorem fuse_create_then_lookup:
  assumes "extents_ok s" and "contents_of s parent = Some (dir_text es)" and "parent \<noteq> rnd OR 0x80000000"
    and "names_ok (es @ [(name, rnd OR 0x80000000)])" and "clear_of name es"
    and "length (dir_text (es @ [(name, rnd OR 0x80000000)])) \<le> maxextent"
  shows "\<exists>s1 s2 e1 e2.
    fuse_exec dsz dent (server_ops r a) l (Op_create rnd parent name) s = Inr ([Reply_create e1], s1) \<and>
    fuse_exec dsz dent (server_ops r a) l (Op_lookup parent name) s1 = Inr ([Reply_entry e2], s2) \<and>
    e_ino e1 = rnd OR 0x80000000 \<and> e_ino e2 = e_ino e1 \<and>
    st_size (e_attr e2) = 0 \<and> st_mode (e_attr e2) = REG_MODE"
proof -
  let ?i = "rnd OR 0x80000000 :: u64"
  note reg = new_file_number(1) [of rnd] and nz = new_file_number(2) [of rnd]
  obtain s1 where s1: "create (server_ops r a) parent ?i name s = Inr (yfs_OK, s1)" "extents_ok s1"
    "contents_of s1 = (contents_of s)(?i \<mapsto> [], parent \<mapsto> dir_text (es @ [(name, ?i)]))"
    using server_store.create_store [OF assms(1,2), of name ?i r a] assms(6) reg by (auto simp: dir_text_snoc)
  have ci: "contents_of s1 ?i = Some []" using s1(3) assms(3) by simp
  obtain s2 f1 where s2: "getfile (server_ops r a) (l_attr l) ?i (l_file l) s1 = Inr (yfs_OK, f1, s2)"
    "extents_ok s2" "contents_of s2 = contents_of s1"
    using server_store.getfile_store [OF s1(2) ci, of r a "l_attr l" "l_file l"] by auto
  have cp: "contents_of s2 parent = Some (dir_text (es @ [(name, ?i)]))" using s2(3) s1(3) by simp
  obtain s3 where s3: "ilookup (server_ops r a) parent name s2 = Inr (?i, s3)" "extents_ok s3"
    "contents_of s3 = contents_of s2"
    using server_store.ilookup_store [OF s2(2) cp, of name r a] lookup_text_entry [of es name ?i "[]"] assms(4,5)
    by (auto simp: names_ok_def)
  have "contents_of s3 ?i = Some []" using ci s2(3) s3(3) by simp
  then obtain s4 f2 where "getfile (server_ops r a) (l_attr l) ?i (l_file l) s3 = Inr (yfs_OK, f2, s4)"
    "unat (fi_size f2) = 0"
    using server_store.getfile_store [OF s3(2), of ?i "[]" r a "l_attr l" "l_file l"] by auto
  with s1 s2 s3 reg nz show ?thesis
    by (simp add: fuseserver_create_def fuseserver_createhelper_def fuseserver_lookup_def Let_def unat_eq_0)
qed

theorem fuse_create_then_lookup_witness:
  "\<exists>s1 s2 e1 e2.
    fuse_exec (\<lambda>n. n) (\<lambda>n i k. n) (server_ops 0 attr0) locals0 (Op_create 9 1 [104, 105]) (root_with [([97], 7)]) =
      Inr ([Reply_create e1], s1) \<and>
    fuse_exec (\<lambda>n. n) (\<lambda>n i k. n) (server_ops 0 attr0) locals0 (Op_lookup 1 [104, 105]) s1 =
      Inr ([Reply_entry e2], s2) \<and>
    e_ino e1 = 9 OR 0x80000000 \<and> e_ino e2 = e_ino e1 \<and>
    st_size (e_attr e2) = 0 \<and> st_mode (e_attr e2) = REG_MODE"
  by (rule fuse_create_then_lookup [OF root_with_ok root_with_contents]) (simp_all add: dir_eval suffix_def)

text \<open>
  C39. Making a directory fails, and leaves an entry behind. No extent is stored for a new directory, so
  for a fresh number the request is answered with \<^verbatim>\<open>ENOSYS\<close>, while the parent has got the entry.
\<close>

theorem mkdir_fails_after_adding_entry:
  assumes "extents_ok s" and "contents_of s parent = Some (dir_text es)" and "contents_of s i = None"
    and "isdir i" and "length (dir_text (es @ [(name, i)])) \<le> maxextent"
  shows "\<exists>s1. fuse_exec dsz dent (server_ops r a) l (Op_mkdir i parent name) s = Inr ([Reply_err ENOSYS], s1) \<and>
    contents_of s1 parent = Some (dir_text (es @ [(name, i)]))"
proof -
  have "i \<noteq> parent" using assms(2,3) by auto
  then obtain s1 where s1: "create (server_ops r a) parent i name s = Inr (yfs_OK, s1)" "extents_ok s1"
    "contents_of s1 parent = Some (dir_text (es @ [(name, i)]))" "contents_of s1 i = None"
    using server_store.create_store [OF assms(1,2), of name i r a] assms(3-5)
    by (auto simp: dir_text_snoc isdir_def)
  have "getfile (server_ops r a) (l_attr l) i (l_file l) s1 = Inr (yfs_IOERR, l_file l, s1)"
    using s1(4) by (simp add: getfile_def server_ops_def extent_getattr_def contents_of_def ext_status)
  with s1 show ?thesis by (simp add: fuseserver_mkdir_def yfs_status)
qed

theorem mkdir_fails_after_adding_entry_witness:
  "\<exists>s1. fuse_exec (\<lambda>n. n) (\<lambda>n i k. n) (server_ops 0 attr0) locals0 (Op_mkdir 12 1 [100]) (root_with []) =
      Inr ([Reply_err ENOSYS], s1) \<and>
    contents_of s1 1 = Some (dir_text ([] @ [([100], 12)]))"
  by (rule mkdir_fails_after_adding_entry [OF root_with_ok root_with_contents])
    (simp_all add: dir_eval isdir_def isfile_def contents_of_def root_with_def extent_put_def
      extent_server_new_def time_NULL_def Let_def)

text \<open>
  A write of binary data stops at the first null byte, but reports the full size as written: of
  the three bytes 1, 0, 2 only the first is stored.
\<close>

theorem fuse_write_stops_at_null:
  "\<exists>s1. fuse_exec dsz dent (server_ops r a) l (Op_write 1 [1, 0, 2, 0] 3 0) (root_with []) =
      Inr ([Reply_write 3], s1) \<and> contents_of s1 1 = Some [1]"
proof -
  have "\<exists>s1. yfs_write (server_ops r a) 1 [1] 3 0 (root_with []) = Inr (yfs_OK, s1) \<and> contents_of s1 1 = Some [1]"
    by (simp add: yfs_write_def server_ops_def extent_get_def root_with_def extent_put_def extent_server_new_def
        time_NULL_def Let_def contents_of_def to_int32_def size_arg_def maxextent_def)
  then show ?thesis
    by (auto simp: fuseserver_write_def c_string_def to_int32_def)
qed

end
