(* ===== verification/Fuse_Rpc.thy ===== *)
theory Fuse_Rpc
  imports Fuse Yfs_Rpc
begin

text \<open>
  The whole file system: the handlers of the FUSE server on \<^verbatim>\<open>yfs_client\<close>, this on the extent client, and
  the extent server behind the RPC layer. The handlers are shown right over every store of the contract
  \<open>bounded_store\<close>; its interpretation on the RPC composition gives the property at the end.
\<close>

section \<open>Handlers over a bounded store\<close>

text \<open>Several create requests in one directory, with the replies of each.\<close>

fun fuse_creates ::
  "(nat \<Rightarrow> nat) \<Rightarrow> (bytes \<Rightarrow> u64 \<Rightarrow> nat \<Rightarrow> bytes) \<Rightarrow> 's extent_ops \<Rightarrow> fuse_locals \<Rightarrow> inum \<Rightarrow>
   (u64 \<times> bytes) list \<Rightarrow> 's \<Rightarrow> (fuse_reply list list \<times> 's) res" where
  "fuse_creates dsz dent ec l p [] s = Inr ([], s)"
| "fuse_creates dsz dent ec l p ((rnd, name) # cs) s =
     rbind (fuse_exec dsz dent ec l (Op_create rnd p name) s) (\<lambda>(r, s).
     rbind (fuse_creates dsz dent ec l p cs s) (\<lambda>(rs, s). Inr (r # rs, s)))"

abbreviation file_number :: "u64 \<Rightarrow> inum" where
  "file_number rnd \<equiv> rnd OR 0x80000000"

definition entries_of :: "(u64 \<times> bytes) list \<Rightarrow> (bytes \<times> inum) list" where
  "entries_of cs = map (\<lambda>(rnd, name). (name, file_number rnd)) cs"

definition created :: "u64 \<times> bytes \<Rightarrow> fuse_reply list \<Rightarrow> bool" where
  "created c r \<longleftrightarrow> (\<exists>e. r = [Reply_create e] \<and> e_ino e = file_number (fst c))"

context bounded_store
begin

lemma fuse_create_ready:
  assumes "ready (Suc (Suc (Suc (Suc n)))) s" and "\<alpha> s p = Some (dir_text es)" and "p \<noteq> file_number rnd"
    and "length (dir_text (es @ [(name, file_number rnd)])) \<le> maxextent"
  shows "\<exists>s' r. fuse_exec dsz dent ec l (Op_create rnd p name) s = Inr (r, s') \<and> created (rnd, name) r \<and> ready n s' \<and>
    \<alpha> s' = (\<alpha> s)(file_number rnd \<mapsto> [], p \<mapsto> dir_text (es @ [(name, file_number rnd)]))"
proof -
  let ?i = "file_number rnd"
  obtain s1 where s1: "create ec p ?i name s = Inr (yfs_OK, s1)" "ready (Suc n) s1"
      "\<alpha> s1 = (\<alpha> s)(?i \<mapsto> [], p \<mapsto> dir_text (es @ [(name, ?i)]))"
    using create_ready [OF assms(1,2), of name ?i] assms(4) new_file_number(1) [of rnd] by (auto simp: dir_text_snoc)
  obtain s2 f where "getfile ec (l_attr l) ?i (l_file l) s1 = Inr (yfs_OK, f, s2)" "ready n s2" "\<alpha> s2 = \<alpha> s1"
    using getfile_ready [OF s1(2), of ?i "[]" "l_attr l" "l_file l"] s1(3) assms(3) by auto
  with s1 show ?thesis by (simp add: fuseserver_create_def fuseserver_createhelper_def created_def Let_def)
qed

lemma fuse_lookup_ready:
  assumes "ready (Suc (Suc n)) s" and "\<alpha> s p = Some (dir_text (pre @ (name, i) # post))" and "\<alpha> s i = Some c"
    and "names_ok (pre @ (name, i) # post)" and "clear_of name pre" and "isfile i" and "i \<noteq> 0"
  shows "\<exists>s' e. fuse_exec dsz dent ec l (Op_lookup p name) s = Inr ([Reply_entry e], s') \<and> ready n s' \<and> \<alpha> s' = \<alpha> s \<and>
    e_ino e = i \<and> st_mode (e_attr e) = REG_MODE \<and> unat (st_size (e_attr e)) = length c"
proof -
  obtain s1 where s1: "ilookup ec p name s = Inr (i, s1)" "ready (Suc n) s1" "\<alpha> s1 = \<alpha> s"
    using ilookup_ready [OF assms(1,2), of name] lookup_text_entry [OF assms(4,5)] assms(4) by (auto simp: names_ok_def)
  obtain s2 f where "getfile ec (l_attr l) i (l_file l) s1 = Inr (yfs_OK, f, s2)" "ready n s2" "\<alpha> s2 = \<alpha> s1"
      "unat (fi_size f) = length c"
    using getfile_ready [OF s1(2), of i c "l_attr l" "l_file l"] s1(3) assms(3) by auto
  with s1 assms(6,7) show ?thesis by (simp add: fuseserver_lookup_def)
qed

text \<open>A write of bytes without a null byte to an empty file, and a read from the start of a file.\<close>

lemma fuse_write_ready:
  assumes "ready (Suc (Suc n)) s" and "\<alpha> s i = Some []" and "0 \<notin> set buf" and "length buf \<le> maxextent"
  shows "\<exists>s'. fuse_exec dsz dent ec l (Op_write i (buf @ 0 # rest) (length buf) 0) s =
      Inr ([Reply_write (length buf)], s') \<and> ready n s' \<and> \<alpha> s' = (\<alpha> s)(i \<mapsto> buf)"
proof -
  have "c_string (buf @ 0 # rest) = Inr buf" using assms(3) by (auto simp: c_string_def takeWhile_tail)
  moreover have "to_int32 (int (length buf)) = int (length buf)" "to_int32 0 = 0"
    using assms(4) by (intro to_int32_id; simp add: maxextent_def)+
  moreover obtain s' where "yfs_write ec i buf (int (length buf)) 0 s = Inr (yfs_OK, s')" "ready n s'"
      "\<alpha> s' = (\<alpha> s)(i \<mapsto> buf)"
    using write_ready [OF assms(1,2), of 0 buf "length buf"] assms(4) by auto
  ultimately show ?thesis by (simp add: fuseserver_write_def)
qed

lemma fuse_read_ready:
  assumes "ready (Suc n) s" and "\<alpha> s i = Some c"
  shows "\<exists>s'. fuse_exec dsz dent ec l (Op_read i sz 0) s = Inr ([Reply_buf (take sz c)], s') \<and> ready n s'"
  using read_ready [OF assms, of 0 sz "[]"] by (auto simp: fuseserver_read_def)

text \<open>After the create requests the directory lists the files, which are empty.\<close>

lemma fuse_creates_ready:
  assumes "ready (4 * length cs + n) s" and "\<alpha> s p = Some (dir_text pre)" and "\<not> isfile p"
    and "length (dir_text (pre @ entries_of cs)) \<le> maxextent"
  shows "\<exists>s' rs. fuse_creates dsz dent ec l p cs s = Inr (rs, s') \<and> list_all2 created cs rs \<and> ready n s' \<and>
    \<alpha> s' p = Some (dir_text (pre @ entries_of cs)) \<and>
    (\<forall>j. j \<noteq> p \<longrightarrow> \<alpha> s j = Some [] \<or> j \<in> snd ` set (entries_of cs) \<longrightarrow> \<alpha> s' j = Some [])"
  using assms(1,2,4)
proof (induction cs arbitrary: s pre)
  case (Cons c cs)
  obtain rnd name where c: "c = (rnd, name)" by (cases c)
  let ?i = "file_number rnd"
  have e: "entries_of (c # cs) = (name, ?i) # entries_of cs" by (simp add: entries_of_def c)
  have np: "p \<noteq> ?i" using assms(3) new_file_number(1) [of rnd] by auto
  have "4 * length (c # cs) + n = Suc (Suc (Suc (Suc (4 * length cs + n))))" by simp
  then have "ready (Suc (Suc (Suc (Suc (4 * length cs + n))))) s" using Cons.prems(1) by metis
  moreover have "length (dir_text (pre @ [(name, ?i)])) \<le> maxextent"
    using Cons.prems(3) dir_text_longer [of "pre @ [(name, ?i)]" "entries_of cs"] by (simp add: e)
  ultimately obtain s1 r where s1: "fuse_exec dsz dent ec l (Op_create rnd p name) s = Inr (r, s1)" "created c r"
      "ready (4 * length cs + n) s1" "\<alpha> s1 = (\<alpha> s)(?i \<mapsto> [], p \<mapsto> dir_text (pre @ [(name, ?i)]))"
    using fuse_create_ready [OF _ Cons.prems(2) np, of "4 * length cs + n" name dsz dent l] c by blast
  from Cons.IH [OF s1(3), of "pre @ [(name, ?i)]"] s1(4) Cons.prems(3) obtain s' rs where
    s': "fuse_creates dsz dent ec l p cs s1 = Inr (rs, s')" "list_all2 created cs rs" "ready n s'"
      "\<alpha> s' p = Some (dir_text (pre @ entries_of (c # cs)))"
      "\<forall>j. j \<noteq> p \<longrightarrow> \<alpha> s1 j = Some [] \<or> j \<in> snd ` set (entries_of cs) \<longrightarrow> \<alpha> s' j = Some []"
    by (auto simp: e)
  have "\<alpha> s' j = Some []" if "j \<noteq> p" "\<alpha> s j = Some [] \<or> j \<in> snd ` set (entries_of (c # cs))" for j
    using that s1(4) s'(5) by (auto simp: e split: if_splits)
  with s' s1(1,2) show ?case by (auto simp: c simp del: fuse_exec.simps)
qed (auto simp: entries_of_def)

text \<open>A created file is written, looked up and read.\<close>

lemma fuse_session_ready:
  assumes "ready 5 s" and "\<alpha> s p = Some (dir_text (pre @ (name, i) # post))" and "\<alpha> s i = Some []" and "i \<noteq> p"
    and "names_ok (pre @ (name, i) # post)" and "clear_of name pre" and "isfile i" and "i \<noteq> 0"
    and "0 \<notin> set buf" and "length buf \<le> maxextent"
  shows "\<exists>s1 s2 s3 e. fuse_exec dsz dent ec l (Op_write i (buf @ 0 # rest) (length buf) 0) s =
      Inr ([Reply_write (length buf)], s1) \<and>
    fuse_exec dsz dent ec l (Op_lookup p name) s1 = Inr ([Reply_entry e], s2) \<and>
    e_ino e = i \<and> st_mode (e_attr e) = REG_MODE \<and> unat (st_size (e_attr e)) = length buf \<and>
    fuse_exec dsz dent ec l (Op_read i (length buf) 0) s2 = Inr ([Reply_buf buf], s3)"
proof -
  have "ready (Suc (Suc (Suc (Suc (Suc 0))))) s" using assms(1) by (simp add: eval_nat_numeral)
  then obtain s1 where s1: "fuse_exec dsz dent ec l (Op_write i (buf @ 0 # rest) (length buf) 0) s =
      Inr ([Reply_write (length buf)], s1)" "ready (Suc (Suc (Suc 0))) s1" "\<alpha> s1 = (\<alpha> s)(i \<mapsto> buf)"
    using fuse_write_ready [of "Suc (Suc (Suc 0))" s i buf dsz dent l rest] assms(3,9,10) by blast
  obtain s2 e where s2: "fuse_exec dsz dent ec l (Op_lookup p name) s1 = Inr ([Reply_entry e], s2)" "ready (Suc 0) s2"
      "\<alpha> s2 = \<alpha> s1" "e_ino e = i" "st_mode (e_attr e) = REG_MODE" "unat (st_size (e_attr e)) = length buf"
    using fuse_lookup_ready [OF s1(2) _ _ assms(5-8), of p buf dsz dent l] s1(3) assms(2,4) by auto
  obtain s3 where "fuse_exec dsz dent ec l (Op_read i (length buf) 0) s2 = Inr ([Reply_buf buf], s3)"
    using fuse_read_ready [OF s2(2), of i buf dsz dent l "length buf"] s2(3) s1(3) by auto
  with s1(1) s2 show ?thesis by blast
qed

end

section \<open>Property\<close>

text \<open>
  C8. The file system, from the requests of the kernel to the extent server. A FUSE server whose client has
  bound itself to a freshly started extent server gets create requests for the root directory: each
  is answered once, with the number of a regular file. Then text without null bytes is written at
  offset 0 to any of the files, which are still empty, the file is looked up by its name, and read: the
  lookup gives the number and the size, and the read gives the bytes. All calls go through the RPC
  client and server. Assumptions: messages arrive with the bytes that were written into them, the
  connections are live, no name contains a colon or is a suffix of an earlier field of the directory,
  and the directory and the written bytes are within \<^verbatim>\<open>maxextent\<close>.
\<close>

theorem fuse_over_rpc:
  assumes "\<And>m. carried m (net m)" and "ts_normal now" and "0 < tv_sec now"
    and "random \<noteq> 0" and "\<not> dead k" "1 \<le> refno k" "\<not> dead kd" "1 \<le> refno kd"
    and "extent_smain r0 a0 n clk = Inr sv"
    and "names_ok (entries_of cs)" and "findable [] (entries_of cs)" and "length (dir_text (entries_of cs)) \<le> maxextent"
    and "4 * length cs + 7 < 2 ^ 32"
    and ec: "ec = extent_client (exchange (Some (c, k)) net t d now) r"
  shows "\<exists>w w1 rs. extent_client_new (exchange (Some (c, k)) net t d now) r True random (sv\<lparr>heap := [d \<mapsto> kd]\<rparr>) = Inr w \<and>
    fuse_creates dsz dent ec l 1 cs w = Inr (rs, w1) \<and> list_all2 created cs rs \<and>
    (\<forall>(rnd, name) \<in> set cs. \<forall>buf rest. 0 \<notin> set buf \<and> length buf \<le> maxextent \<longrightarrow> (\<exists>w2 w3 w4 e.
      fuse_exec dsz dent ec l (Op_write (file_number rnd) (buf @ 0 # rest) (length buf) 0) w1 =
        Inr ([Reply_write (length buf)], w2) \<and>
      fuse_exec dsz dent ec l (Op_lookup 1 name) w2 = Inr ([Reply_entry e], w3) \<and>
      e_ino e = file_number rnd \<and> st_mode (e_attr e) = REG_MODE \<and> unat (st_size (e_attr e)) = length buf \<and>
      fuse_exec dsz dent ec l (Op_read (file_number rnd) (length buf) 0) w3 = Inr ([Reply_buf buf], w4)))"
proof -
  let ?ready = "remote_ready (Some (c, k)) net now c d r0 a0"
  have root: "\<not> isfile 1" by (simp add: isfile_def)
  obtain w where w: "extent_client_new (exchange (Some (c, k)) net t d now) r True random (sv\<lparr>heap := [d \<mapsto> kd]\<rparr>) = Inr w"
      "remote_contents w = [1 \<mapsto> []]" "?ready (4 * length cs + 5) w"
    using extent_client_binds [OF assms(1-9), of c t d r "4 * length cs + 5"] assms(13) by auto
  obtain w1 rs where w1: "fuse_creates dsz dent ec l 1 cs w = Inr (rs, w1)" "list_all2 created cs rs" "?ready 5 w1"
      "remote_contents w1 1 = Some (dir_text (entries_of cs))"
      "\<forall>j. j \<noteq> 1 \<longrightarrow> remote_contents w j = Some [] \<or> j \<in> snd ` set (entries_of cs) \<longrightarrow> remote_contents w1 j = Some []"
    using remote_store.fuse_creates_ready [OF w(3) _ root, of "[]" dsz dent t r l] w(2) assms(12) by (auto simp: ec)
  have "\<exists>w2 w3 w4 e. fuse_exec dsz dent ec l (Op_write (file_number rnd) (buf @ 0 # rest) (length buf) 0) w1 =
        Inr ([Reply_write (length buf)], w2) \<and>
      fuse_exec dsz dent ec l (Op_lookup 1 name) w2 = Inr ([Reply_entry e], w3) \<and>
      e_ino e = file_number rnd \<and> st_mode (e_attr e) = REG_MODE \<and> unat (st_size (e_attr e)) = length buf \<and>
      fuse_exec dsz dent ec l (Op_read (file_number rnd) (length buf) 0) w3 = Inr ([Reply_buf buf], w4)"
    if rn: "(rnd, name) \<in> set cs" and buf: "0 \<notin> set buf" "length buf \<le> maxextent" for rnd name buf rest
  proof -
    let ?i = "file_number rnd"
    have e: "(name, ?i) \<in> set (entries_of cs)" using rn by (force simp: entries_of_def)
    then obtain pre post where es: "entries_of cs = pre @ (name, ?i) # post" using split_list by metis
    have ne: "?i \<noteq> 1" using new_file_number(1) [of rnd] root by metis
    then have "remote_contents w1 ?i = Some []" using w1(5) e by force
    moreover have "clear_of name pre" using findable_split [of "[]" pre name ?i post] assms(11) es by simp
    ultimately show ?thesis
      using remote_store.fuse_session_ready [OF w1(3), of 1 pre name ?i post buf dsz dent t r l rest]
        w1(4) ne assms(10) new_file_number [of rnd] buf unfolding es ec by blast
  qed
  with w(1) w1(1,2) show ?thesis by blast
qed

theorem fuse_over_rpc_witness:
  "\<exists>sv ec w w1 w2 w3 w4 rs e. extent_smain 7 attr_zero 9 (\<lambda>_. 5) = Inr sv \<and>
    ec = extent_client (exchange (Some (3, fst (connection_new 4 0))) (map (\<lambda>v. case v of None \<Rightarrow> 0xFF | Some x \<Rightarrow> x))
      1 6 \<lparr>tv_sec = 100, tv_nsec = 0\<rparr>) 0 \<and>
    extent_client_new (exchange (Some (3, fst (connection_new 4 0))) (map (\<lambda>v. case v of None \<Rightarrow> 0xFF | Some x \<Rightarrow> x))
      1 6 \<lparr>tv_sec = 100, tv_nsec = 0\<rparr>) 0 True 8 (sv\<lparr>heap := [6 \<mapsto> fst (connection_new 5 0)]\<rparr>) = Inr w \<and>
    fuse_creates (\<lambda>n. n) (\<lambda>n i k. n) ec locals0 1 [(9, [104, 105]), (10, [97])] w = Inr (rs, w1) \<and>
    fuse_exec (\<lambda>n. n) (\<lambda>n i k. n) ec locals0 (Op_write (file_number 10) [1, 2, 3, 0] 3 0) w1 = Inr ([Reply_write 3], w2) \<and>
    fuse_exec (\<lambda>n. n) (\<lambda>n i k. n) ec locals0 (Op_lookup 1 [97]) w2 = Inr ([Reply_entry e], w3) \<and>
    e_ino e = file_number 10 \<and> unat (st_size (e_attr e)) = 3 \<and>
    fuse_exec (\<lambda>n. n) (\<lambda>n i k. n) ec locals0 (Op_read (file_number 10) 3 0) w3 = Inr ([Reply_buf [1, 2, 3]], w4)"
proof -
  let ?net = "map (\<lambda>v. case v of None \<Rightarrow> 0xFF | Some x \<Rightarrow> x) :: block \<Rightarrow> u8 list"
  let ?ex = "exchange (Some (3, fst (connection_new 4 0))) ?net 1 6 \<lparr>tv_sec = 100, tv_nsec = 0\<rparr>
    :: (rpcc \<times> extent_server rpcs) caller1"
  let ?cs = "[(9, [104, 105]), (10, [97])] :: (u64 \<times> bytes) list" and ?buf = "[1, 2, 3] :: bytes"
  let ?exec = "fuse_exec (\<lambda>n. n) (\<lambda>n i k. n) (extent_client ?ex 0) locals0"
  have net: "carried m (?net m)" for m by (auto simp: carried_def)
  obtain sv where sv: "extent_smain 7 attr_zero 9 (\<lambda>_. 5) = Inr sv"
    using extent_smain_registers [of 7 attr_zero 9 "\<lambda>_. 5"] by blast
  have cs: "names_ok (entries_of ?cs)" "findable [] (entries_of ?cs)" "length (dir_text (entries_of ?cs)) \<le> maxextent"
    "4 * length ?cs + 7 < 2 ^ 32"
    by (simp_all add: entries_of_def dir_eval suffix_def)
  have init: "ts_normal \<lparr>tv_sec = 100, tv_nsec = 0\<rparr>" "(0 :: int) < tv_sec \<lparr>tv_sec = 100, tv_nsec = 0\<rparr>" "(8 :: u32) \<noteq> 0"
    "\<not> dead (fst (connection_new 4 0))" "1 \<le> refno (fst (connection_new 4 0))"
    "\<not> dead (fst (connection_new 5 0))" "1 \<le> refno (fst (connection_new 5 0))"
    by (simp_all add: ts_normal_def connection_new_def)
  obtain w w1 rs where w: "extent_client_new ?ex 0 True 8 (sv\<lparr>heap := [6 \<mapsto> fst (connection_new 5 0)]\<rparr>) = Inr w"
      "fuse_creates (\<lambda>n. n) (\<lambda>n i k. n) (extent_client ?ex 0) locals0 1 ?cs w = Inr (rs, w1)"
    and files: "\<forall>(rnd, name) \<in> set ?cs. \<forall>buf rest. 0 \<notin> set buf \<and> length buf \<le> maxextent \<longrightarrow> (\<exists>w2 w3 w4 e.
      ?exec (Op_write (file_number rnd) (buf @ 0 # rest) (length buf) 0) w1 = Inr ([Reply_write (length buf)], w2) \<and>
      ?exec (Op_lookup 1 name) w2 = Inr ([Reply_entry e], w3) \<and>
      e_ino e = file_number rnd \<and> st_mode (e_attr e) = REG_MODE \<and> unat (st_size (e_attr e)) = length buf \<and>
      ?exec (Op_read (file_number rnd) (length buf) 0) w3 = Inr ([Reply_buf buf], w4))"
    using fuse_over_rpc [OF net init sv cs refl, of 3 1 6 0 "\<lambda>n. n" "\<lambda>n i k. n" locals0] by blast
  have "(10, [97]) \<in> set ?cs" "0 \<notin> set ?buf \<and> length ?buf \<le> maxextent" by (simp_all add: maxextent_def)
  from bspec [OF files this(1), unfolded prod.case, rule_format, OF this(2), of "[]"] obtain w2 w3 w4 e where "?exec (Op_write (file_number 10) (?buf @ 0 # []) (length ?buf) 0) w1 =
        Inr ([Reply_write (length ?buf)], w2)"
      "?exec (Op_lookup 1 [97]) w2 = Inr ([Reply_entry e], w3)" "e_ino e = file_number 10"
      "unat (st_size (e_attr e)) = length ?buf" "?exec (Op_read (file_number 10) (length ?buf) 0) w3 = Inr ([Reply_buf ?buf], w4)"
    by blast
  moreover have "length ?buf = 3" "?buf @ 0 # [] = [1, 2, 3, 0]" by simp_all
  ultimately show ?thesis using sv w by metis
qed

end
