(* ===== verification/Method_Thread.thy ===== *)
theory Method_Thread
  imports Prelude "HOL-Library.Multiset"
begin

text \<open>
  The creation of threads, \<^verbatim>\<open>src/rpc/method_thread.h\<close>. \<^verbatim>\<open>method_thread\<close> packs an object, a method and its
  arguments into an object of class \<^verbatim>\<open>XXX\<close> on the heap and passes its address to the new thread, which
  takes it apart and deletes it. Any number of threads call \<^verbatim>\<open>method_thread\<close> at the same time, and the
  addresses of deleted objects and the numbers of ended threads are used again. Shown is that in all
  interleavings each method is called once, with its arguments, and that no object is used after it has
  been deleted, or left over.
\<close>

section \<open>The object that carries a call\<close>

text \<open>
  \<open>m\<close> stands for a pointer to a method, \<open>a\<close> for the values passed. The class has the same members in
  all four templates, apart from the number of arguments. A member that is not assigned yet is \<open>None\<close>.
\<close>

record ('o, 'm, 'a) XXX =
  x_o :: "'o option"
  x_m :: "'m option"
  x_a :: "'a option list"

definition new_XXX :: "nat \<Rightarrow> ('o, 'm, 'a) XXX" where
  "new_XXX n = \<lparr>x_o = None, x_m = None, x_a = replicate n None\<rparr>"

definition set_arg :: "nat \<Rightarrow> 'a \<Rightarrow> ('o, 'm, 'a) XXX \<Rightarrow> ('o, 'm, 'a) XXX" where
  "set_arg i a x = x\<lparr>x_a := (x_a x)[i := Some a]\<rparr>"

definition method_thread0 :: "'o \<Rightarrow> 'm \<Rightarrow> ('o, 'm, 'a) XXX" where
  "method_thread0 o' m =
     (let x = new_XXX 0;
          x = x\<lparr>x_o := Some o'\<rparr>
      in x\<lparr>x_m := Some m\<rparr>)"

definition method_thread1 :: "'o \<Rightarrow> 'm \<Rightarrow> 'a \<Rightarrow> ('o, 'm, 'a) XXX" where
  "method_thread1 o' m a =
     (let x = new_XXX 1;
          x = x\<lparr>x_o := Some o'\<rparr>;
          x = x\<lparr>x_m := Some m\<rparr>
      in set_arg 0 a x)"

definition method_thread2 :: "'o \<Rightarrow> 'm \<Rightarrow> 'a \<Rightarrow> 'a \<Rightarrow> ('o, 'm, 'a) XXX" where
  "method_thread2 o' m a1 a2 =
     (let x = new_XXX 2;
          x = x\<lparr>x_o := Some o'\<rparr>;
          x = x\<lparr>x_m := Some m\<rparr>;
          x = set_arg 0 a1 x
      in set_arg 1 a2 x)"

definition method_thread3 :: "'o \<Rightarrow> 'm \<Rightarrow> 'a \<Rightarrow> 'a \<Rightarrow> 'a \<Rightarrow> ('o, 'm, 'a) XXX" where
  "method_thread3 o' m a1 a2 a3 =
     (let x = new_XXX 3;
          x = x\<lparr>x_o := Some o'\<rparr>;
          x = x\<lparr>x_m := Some m\<rparr>;
          x = set_arg 0 a1 x;
          x = set_arg 1 a2 x
      in set_arg 2 a3 x)"

text \<open>A call of one of the templates, what it packs, and the call of the method that is meant.\<close>

datatype ('o, 'm, 'a) request =
    Method0 'o 'm | Method1 'o 'm 'a | Method2 'o 'm 'a 'a | Method3 'o 'm 'a 'a 'a

type_synonym ('o, 'm, 'a) invocation = "'o \<times> 'm \<times> 'a list"

fun packed :: "('o, 'm, 'a) request \<Rightarrow> ('o, 'm, 'a) XXX" where
  "packed (Method0 o' m) = method_thread0 o' m"
| "packed (Method1 o' m a) = method_thread1 o' m a"
| "packed (Method2 o' m a1 a2) = method_thread2 o' m a1 a2"
| "packed (Method3 o' m a1 a2 a3) = method_thread3 o' m a1 a2 a3"

fun meant :: "('o, 'm, 'a) request \<Rightarrow> ('o, 'm, 'a) invocation" where
  "meant (Method0 o' m) = (o', m, [])"
| "meant (Method1 o' m a) = (o', m, [a])"
| "meant (Method2 o' m a1 a2) = (o', m, [a1, a2])"
| "meant (Method3 o' m a1 a2 a3) = (o', m, [a1, a2, a3])"

text \<open>The members copied to local variables at the start of \<^verbatim>\<open>yyy\<close>; one not assigned counts as null.\<close>

definition unpacked :: "('o, 'm, 'a) XXX \<Rightarrow> ('o, 'm, 'a) invocation res" where
  "unpacked x =
     (case (x_o x, x_m x, those (x_a x)) of
        (Some o', Some m, Some as) \<Rightarrow> Inr (o', m, as)
      | _ \<Rightarrow> Inl Null_deref)"

lemma unpacked_packed: "unpacked (packed r) = Inr (meant r)"
  by (cases r) (simp_all add: unpacked_def method_thread0_def method_thread1_def method_thread2_def
      method_thread3_def new_XXX_def set_arg_def Let_def eval_nat_numeral)

lemmas unpacked_templates =
  unpacked_packed [of "Method0 o' m" for o' m, simplified] unpacked_packed [of "Method1 o' m a" for o' m a, simplified]
  unpacked_packed [of "Method2 o' m a1 a2" for o' m a1 a2, simplified]
  unpacked_packed [of "Method3 o' m a1 a2 a3" for o' m a1 a2 a3, simplified]

section \<open>Threads\<close>

text \<open>
  The thread that calls \<^verbatim>\<open>method_thread\<close>: before \<^verbatim>\<open>pthread_create\<close> in \<^verbatim>\<open>method_thread_parent\<close>, after it, and
  with the number of the new thread returned. The new thread in \<^verbatim>\<open>yyy\<close>: at its start with the address it
  was given, with the members copied, with the object deleted, after \<^verbatim>\<open>method_thread_child\<close>, in the method,
  and ended. The size of the stack has no part in this.
\<close>

datatype parent = Creating nat bool | Created nat bool | Returned nat bool

datatype ('o, 'm, 'a) child =
    Entered nat
  | Unpacked nat "('o, 'm, 'a) invocation"
  | Deleted "('o, 'm, 'a) invocation"
  | Prepared "('o, 'm, 'a) invocation"
  | In_method
  | Ended

text \<open>
  \<open>heap\<close> has the objects of class \<^verbatim>\<open>XXX\<close>, \<open>threads\<close> the threads whose numbers are in use, \<open>detached\<close> those to
  be forgotten when they end, \<open>deferred\<close> those that cannot be cancelled. \<open>asked\<close> and \<open>called\<close> list the
  calls of \<^verbatim>\<open>method_thread\<close> and the calls of methods; \<open>halted\<close> is the effect of \<^verbatim>\<open>exit(1)\<close>.
\<close>

record ('o, 'm, 'a) threading =
  heap :: "nat \<rightharpoonup> ('o, 'm, 'a) XXX"
  parents :: "nat \<rightharpoonup> parent"
  threads :: "nat \<rightharpoonup> ('o, 'm, 'a) child"
  detached :: "nat set"
  deferred :: "nat set"
  asked :: "('o, 'm, 'a) request list"
  called :: "('o, 'm, 'a) invocation list"
  halted :: bool

definition threading_new :: "('o, 'm, 'a) threading" where
  "threading_new = \<lparr>heap = Map.empty, parents = Map.empty, threads = Map.empty, detached = {}, deferred = {},
     asked = [], called = [], halted = False\<rparr>"

text \<open>The template up to the call of \<^verbatim>\<open>method_thread_parent\<close>; \<open>l\<close> is the address that \<^verbatim>\<open>new\<close> gives.\<close>

definition method_thread :: "nat \<Rightarrow> ('o, 'm, 'a) request \<Rightarrow> bool \<Rightarrow> nat \<Rightarrow> ('o, 'm, 'a) threading \<Rightarrow> ('o, 'm, 'a) threading" where
  "method_thread c r detach l w =
     w\<lparr>heap := (heap w)(l \<mapsto> packed r), parents := (parents w)(c \<mapsto> Creating l detach), asked := asked w @ [r]\<rparr>"

text \<open>
  \<^verbatim>\<open>method_thread_parent\<close>, in two parts between which the new thread runs. The system gives the number
  of the thread, or an error. \<^verbatim>\<open>pthread_detach\<close> fails for a thread that is not there or that is detached
  already; a thread that has ended is forgotten at once.
\<close>

definition parent_create :: "nat \<Rightarrow> nat \<Rightarrow> bool \<Rightarrow> nat option \<Rightarrow> ('o, 'm, 'a) threading \<Rightarrow> ('o, 'm, 'a) threading" where
  "parent_create c l detach th w =
     (case th of
        None \<Rightarrow> w\<lparr>halted := True\<rparr>
      | Some th \<Rightarrow> w\<lparr>parents := (parents w)(c \<mapsto> Created th detach), threads := (threads w)(th \<mapsto> Entered l),
          deferred := deferred w - {th}\<rparr>)"

definition pthread_detach :: "nat \<Rightarrow> ('o, 'm, 'a) threading \<Rightarrow> ('o, 'm, 'a) threading option" where
  "pthread_detach th w =
     (if th \<in> detached w then None
      else
        case threads w th of
          None \<Rightarrow> None
        | Some Ended \<Rightarrow> Some (w\<lparr>threads := (threads w)(th := None)\<rparr>)
        | Some _ \<Rightarrow> Some (w\<lparr>detached := insert th (detached w)\<rparr>))"

definition parent_detach :: "nat \<Rightarrow> nat \<Rightarrow> bool \<Rightarrow> ('o, 'm, 'a) threading \<Rightarrow> ('o, 'm, 'a) threading res" where
  "parent_detach c th detach w =
     (let w' = w\<lparr>parents := (parents w)(c \<mapsto> Returned th detach)\<rparr> in
      if detach
      then case pthread_detach th w' of None \<Rightarrow> Inl Assert_failed | Some w' \<Rightarrow> Inr w'
      else Inr w')"

text \<open>\<^verbatim>\<open>method_thread_child\<close>: from here on the thread cannot be cancelled.\<close>

definition method_thread_child :: "nat \<Rightarrow> ('o, 'm, 'a) threading \<Rightarrow> ('o, 'm, 'a) threading" where
  "method_thread_child th w = w\<lparr>deferred := insert th (deferred w)\<rparr>"

definition goto_child :: "nat \<Rightarrow> ('o, 'm, 'a) child \<Rightarrow> ('o, 'm, 'a) threading \<Rightarrow> ('o, 'm, 'a) threading" where
  "goto_child th q w = w\<lparr>threads := (threads w)(th \<mapsto> q)\<rparr>"

text \<open>\<^verbatim>\<open>yyy\<close>, step by step. A detached thread is forgotten at its end.\<close>

fun yyy :: "nat \<Rightarrow> ('o, 'm, 'a) child \<Rightarrow> ('o, 'm, 'a) threading \<Rightarrow> ('o, 'm, 'a) threading res" where
  "yyy th (Entered l) w =
     (case heap w l of
        None \<Rightarrow> Inl Use_after_free
      | Some x \<Rightarrow> rbind (unpacked x) (\<lambda>k. Inr (goto_child th (Unpacked l k) w)))"
| "yyy th (Unpacked l k) w =
     (case heap w l of
        None \<Rightarrow> Inl Use_after_free
      | Some x \<Rightarrow> Inr (goto_child th (Deleted k) (w\<lparr>heap := (heap w)(l := None)\<rparr>)))"
| "yyy th (Deleted k) w = Inr (goto_child th (Prepared k) (method_thread_child th w))"
| "yyy th (Prepared k) w = Inr (goto_child th In_method (w\<lparr>called := called w @ [k]\<rparr>))"
| "yyy th In_method w =
     Inr (if th \<in> detached w
          then w\<lparr>threads := (threads w)(th := None), detached := detached w - {th}\<rparr>
          else goto_child th Ended w)"
| "yyy th Ended w = Inr w"

text \<open>
  The events: a call of \<^verbatim>\<open>method_thread\<close>, the two parts of \<^verbatim>\<open>method_thread_parent\<close>, a step of a new thread, and
  the caller after the return, which joins a thread that is not detached. An event that is not possible
  in a state changes nothing; neither does one that is not allowed to the system, an address or a
  number that is in use.
\<close>

datatype ('o, 'm, 'a) thread_event =
    Call nat "('o, 'm, 'a) request" bool nat | Create nat "nat option" | Detach nat | Child nat | Join nat

fun thread_exec :: "('o, 'm, 'a) thread_event \<Rightarrow> ('o, 'm, 'a) threading \<Rightarrow> ('o, 'm, 'a) threading res" where
  "thread_exec (Call c r detach l) w =
     (if halted w \<or> parents w c \<noteq> None \<or> heap w l \<noteq> None then Inr w else Inr (method_thread c r detach l w))"
| "thread_exec (Create c th) w =
     (case parents w c of
        Some (Creating l detach) \<Rightarrow>
          if halted w \<or> (case th of None \<Rightarrow> False | Some th \<Rightarrow> threads w th \<noteq> None) then Inr w
          else Inr (parent_create c l detach th w)
      | _ \<Rightarrow> Inr w)"
| "thread_exec (Detach c) w =
     (case parents w c of
        Some (Created th detach) \<Rightarrow> if halted w then Inr w else parent_detach c th detach w
      | _ \<Rightarrow> Inr w)"
| "thread_exec (Child th) w =
     (case threads w th of None \<Rightarrow> Inr w | Some q \<Rightarrow> if halted w then Inr w else yyy th q w)"
| "thread_exec (Join c) w =
     (case parents w c of
        Some (Returned th detach) \<Rightarrow>
          if halted w then Inr w
          else if detach then Inr (w\<lparr>parents := (parents w)(c := None)\<rparr>)
          else
            (case threads w th of
               None \<Rightarrow> Inl Assert_failed
             | Some Ended \<Rightarrow> Inr (w\<lparr>threads := (threads w)(th := None), parents := (parents w)(c := None)\<rparr>)
             | Some _ \<Rightarrow> Inr w)
      | _ \<Rightarrow> Inr w)"

section \<open>Who owns an object\<close>

text \<open>
  Callers are \<open>Inl c\<close> and new threads \<open>Inr th\<close>. An object on the heap belongs to the caller until the new
  thread is created, and then to that thread until it is deleted.
\<close>

fun parent_object :: "parent option \<Rightarrow> nat option" where
  "parent_object (Some (Creating l d)) = Some l" | "parent_object _ = None"

fun child_object :: "('o, 'm, 'a) child option \<Rightarrow> nat option" where
  "child_object (Some (Entered l)) = Some l"
| "child_object (Some (Unpacked l k)) = Some l"
| "child_object _ = None"

fun owner :: "('o, 'm, 'a) threading \<Rightarrow> nat + nat \<rightharpoonup> nat" where
  "owner w (Inl c) = parent_object (parents w c)"
| "owner w (Inr th) = child_object (threads w th)"

definition content :: "(nat \<rightharpoonup> ('o, 'm, 'a) XXX) \<Rightarrow> nat \<rightharpoonup> ('o, 'm, 'a) invocation" where
  "content H l = (case H l of None \<Rightarrow> None | Some x \<Rightarrow> (case unpacked x of Inl e \<Rightarrow> None | Inr k \<Rightarrow> Some k))"

text \<open>The call of a method that a caller or a new thread is still to make.\<close>

fun parent_call :: "(nat \<rightharpoonup> ('o, 'm, 'a) XXX) \<Rightarrow> parent option \<Rightarrow> ('o, 'm, 'a) invocation option" where
  "parent_call H (Some (Creating l d)) = content H l" | "parent_call H _ = None"

fun child_call :: "(nat \<rightharpoonup> ('o, 'm, 'a) XXX) \<Rightarrow> ('o, 'm, 'a) child option \<Rightarrow> ('o, 'm, 'a) invocation option" where
  "child_call H (Some (Entered l)) = content H l"
| "child_call H (Some (Unpacked l k)) = Some k"
| "child_call H (Some (Deleted k)) = Some k"
| "child_call H (Some (Prepared k)) = Some k"
| "child_call H _ = None"

fun pending :: "('o, 'm, 'a) threading \<Rightarrow> nat + nat \<rightharpoonup> ('o, 'm, 'a) invocation" where
  "pending w (Inl c) = parent_call (heap w) (parents w c)"
| "pending w (Inr th) = child_call (heap w) (threads w th)"

text \<open>The number of a thread that the caller has still to detach or to join.\<close>

definition handle :: "('o, 'm, 'a) threading \<Rightarrow> nat \<rightharpoonup> nat" where
  "handle w c = (case parents w c of Some (Created th d) \<Rightarrow> Some th | Some (Returned th False) \<Rightarrow> Some th | _ \<Rightarrow> None)"

definition injective :: "('b \<rightharpoonup> 'c) \<Rightarrow> bool" where
  "injective f \<longleftrightarrow> (\<forall>x y v. f x = Some v \<longrightarrow> f y = Some v \<longrightarrow> x = y)"

definition heap_inv :: "('o, 'm, 'a) threading \<Rightarrow> bool" where
  "heap_inv w \<longleftrightarrow> injective (owner w) \<and> dom (content (heap w)) = ran (owner w) \<and> dom (heap w) = ran (owner w)"

definition handles_inv :: "('o, 'm, 'a) threading \<Rightarrow> bool" where
  "handles_inv w \<longleftrightarrow> injective (handle w) \<and> ran (handle w) \<subseteq> dom (threads w) - detached w \<and> detached w \<subseteq> dom (threads w)"

fun cancellable :: "('o, 'm, 'a) child \<Rightarrow> bool" where
  "cancellable (Prepared k) \<longleftrightarrow> False" | "cancellable In_method \<longleftrightarrow> False" | "cancellable _ \<longleftrightarrow> True"

definition deferred_inv :: "('o, 'm, 'a) threading \<Rightarrow> bool" where
  "deferred_inv w \<longleftrightarrow> (\<forall>th q. threads w th = Some q \<longrightarrow> cancellable q \<or> th \<in> deferred w)"

text \<open>The calls that are still to be made, as a multiset.\<close>

definition calls_of :: "('b \<rightharpoonup> 'k) \<Rightarrow> 'k multiset" where
  "calls_of p = image_mset (\<lambda>x. the (p x)) (mset_set (dom p))"

lemma calls_of_insert:
  assumes "finite (dom p)" and "p x = None"
  shows "calls_of (p(x \<mapsto> k)) = add_mset k (calls_of p)"
proof -
  from assms have "calls_of (p(x \<mapsto> k)) = add_mset k (image_mset (\<lambda>y. the ((p(x \<mapsto> k)) y)) (mset_set (dom p)))"
    by (simp add: calls_of_def domIff)
  also have "image_mset (\<lambda>y. the ((p(x \<mapsto> k)) y)) (mset_set (dom p)) = calls_of p"
    unfolding calls_of_def using assms by (intro image_mset_cong) auto
  finally show ?thesis .
qed

lemma calls_of_delete:
  assumes "finite (dom p)" and "p x = Some k"
  shows "calls_of p = add_mset k (calls_of (p(x := None)))"
proof -
  from assms have "calls_of ((p(x := None))(x \<mapsto> k)) = add_mset k (calls_of (p(x := None)))"
    by (intro calls_of_insert) auto
  with assms(2) show ?thesis by (simp add: fun_upd_idem)
qed

lemma calls_of_move:
  assumes "finite (dom p)" and "p y = None" and "x \<noteq> y"
  shows "calls_of (p(x := None, y := p x)) = calls_of p"
proof (cases "p x")
  case None
  with assms show ?thesis by (simp add: fun_upd_idem)
next
  case (Some k)
  with assms calls_of_delete [OF assms(1) Some] show ?thesis by (simp add: calls_of_insert)
qed

definition calls_inv :: "('o, 'm, 'a) threading \<Rightarrow> bool" where
  "calls_inv w \<longleftrightarrow> finite (dom (pending w)) \<and>
     mset (called w) + calls_of (pending w) = image_mset meant (mset (asked w))"

section \<open>What a step changes\<close>

lemma injective_insert: "injective f \<Longrightarrow> v \<notin> ran f \<Longrightarrow> injective (f(x \<mapsto> v))"
  by (auto simp: injective_def ran_def)

lemma injective_delete: "injective f \<Longrightarrow> injective (f(x := None))"
  by (auto simp: injective_def)

lemma ran_delete:
  assumes "injective f" and "f x = Some v"
  shows "ran (f(x := None)) = ran f - {v}"
proof -
  from assms have "y \<noteq> x" if "f y = Some u" "u \<noteq> v" for y u using that by auto
  with assms [unfolded injective_def] show ?thesis by (auto simp: ran_def) blast
qed

lemma injective_move:
  assumes "injective f" and "f x = Some v" and "f y = None"
  shows "injective (f(x := None, y \<mapsto> v))" and "ran (f(x := None, y \<mapsto> v)) = ran f"
proof -
  have notin: "v \<notin> ran (f(x := None))" using ran_delete [OF assms(1,2)] by simp
  from injective_insert [OF injective_delete [OF assms(1)] this] show "injective (f(x := None, y \<mapsto> v))" .
  from assms(2,3) have "(f(x := None)) y = None" by simp
  moreover from assms(2) have "v \<in> ran f" by (rule ranI)
  ultimately show "ran (f(x := None, y \<mapsto> v)) = ran f"
    using ran_delete [OF assms(1,2)] by (simp add: insert_absorb del: fun_upd_apply)
qed

lemma sum_fun_eqI: "(\<And>a. f (Inl a) = g (Inl a)) \<Longrightarrow> (\<And>b. f (Inr b) = g (Inr b)) \<Longrightarrow> f = g"
  by (rule ext, case_tac x) simp_all

lemma content_upd:
  "content (H(l \<mapsto> x)) = (content H)(l := (case unpacked x of Inl e \<Rightarrow> None | Inr k \<Rightarrow> Some k))"
  "content (H(l := None)) = (content H)(l := None)"
  by (simp_all add: fun_eq_iff content_def)

lemma parent_call_upd: "parent_object q \<noteq> Some l \<Longrightarrow> parent_call (H(l := x)) q = parent_call H q"
  by (cases "(H, q)" rule: parent_call.cases) (simp_all add: content_def)

lemma child_call_upd: "child_object q \<noteq> Some l \<Longrightarrow> child_call (H(l := x)) q = child_call H q"
  by (cases "(H, q)" rule: child_call.cases) (simp_all add: content_def)

lemma heap_owner:
  assumes "heap_inv w" and "owner w x = Some l"
  shows "\<exists>y k. heap w l = Some y \<and> unpacked y = Inr k \<and> content (heap w) l = Some k"
proof -
  from assms have "l \<in> dom (content (heap w))" by (auto simp: heap_inv_def ran_def)
  then show ?thesis by (auto simp: content_def split: option.splits sum.splits)
qed

lemma not_object:
  assumes "heap_inv w" and "heap w l = None"
  shows "parent_object (parents w c) \<noteq> Some l" and "child_object (threads w th) \<noteq> Some l"
  using heap_owner [OF assms(1), of "Inl c" l] heap_owner [OF assms(1), of "Inr th" l] assms(2) by auto

text \<open>A call of \<^verbatim>\<open>method_thread\<close>.\<close>

lemma method_thread_changes:
  fixes w :: "('o, 'm, 'a) threading" and r :: "('o, 'm, 'a) request" and d :: bool
  assumes "heap_inv w" and "parents w c = None" and "heap w l = None"
  defines "w' \<equiv> method_thread c r d l w"
  shows "owner w' = (owner w)(Inl c \<mapsto> l)" and "content (heap w') = (content (heap w))(l \<mapsto> meant r)"
    and "pending w' = (pending w)(Inl c \<mapsto> meant r)" and "handle w' = handle w"
proof -
  note [simp] = w'_def method_thread_def content_upd unpacked_packed
  show "owner w' = (owner w)(Inl c \<mapsto> l)" by (rule sum_fun_eqI) simp_all
  show "content (heap w') = (content (heap w))(l \<mapsto> meant r)" by simp
  show "pending w' = (pending w)(Inl c \<mapsto> meant r)" using not_object [OF assms(1,3)]
    by (intro sum_fun_eqI) (simp_all add: parent_call_upd child_call_upd)
  show "handle w' = handle w" using assms(2) by (auto simp: fun_eq_iff handle_def)
qed

text \<open>The creation of the thread.\<close>

lemma parent_create_changes:
  assumes "parents w c = Some (Creating l d)" and "threads w th = None"
  defines "w' \<equiv> parent_create c l d (Some th) w"
  shows "owner w' = (owner w)(Inl c := None, Inr th \<mapsto> l)" and "content (heap w') = content (heap w)"
    and "pending w' = (pending w)(Inl c := None, Inr th := pending w (Inl c))" and "handle w' = (handle w)(c \<mapsto> th)"
proof -
  note [simp] = w'_def parent_create_def
  show "owner w' = (owner w)(Inl c := None, Inr th \<mapsto> l)" by (rule sum_fun_eqI) simp_all
  show "content (heap w') = content (heap w)" by simp
  show "pending w' = (pending w)(Inl c := None, Inr th := pending w (Inl c))"
    using assms(1) by (intro sum_fun_eqI) simp_all
  show "handle w' = (handle w)(c \<mapsto> th)" by (simp add: fun_eq_iff handle_def)
qed

text \<open>A new thread: only the deletion of its object changes the heap, only the call of the method what is pending.\<close>

lemma child_changes:
  assumes "threads w th = Some q" and "child_call (heap w) (Some q') = child_call (heap w) (Some q)"
    and "child_object (Some q') = child_object (Some q)"
  shows "owner (goto_child th q' w) = owner w" and "pending (goto_child th q' w) = pending w"
  using assms by (auto intro!: sum_fun_eqI simp: goto_child_def)

lemma delete_changes:
  assumes "heap_inv w" and "threads w th = Some (Unpacked l k)"
  defines "w' \<equiv> goto_child th (Deleted k) (w\<lparr>heap := (heap w)(l := None)\<rparr>)"
  shows "owner w' = (owner w)(Inr th := None)" and "pending w' = pending w"
proof -
  note [simp] = w'_def goto_child_def
  show "owner w' = (owner w)(Inr th := None)" by (rule sum_fun_eqI) simp_all
  have owner: "owner w (Inr th) = Some l" using assms(2) by simp
  have "owner w x \<noteq> Some l" if "x \<noteq> Inr th" for x
    using assms(1) owner that by (metis heap_inv_def injective_def)
  from this [of "Inl c" for c] this [of "Inr t" for t]
  have "parent_object (parents w c) \<noteq> Some l" "t \<noteq> th \<Longrightarrow> child_object (threads w t) \<noteq> Some l" for c t by simp_all
  then show "pending w' = pending w"
    using assms(2) by (intro sum_fun_eqI) (simp_all add: parent_call_upd child_call_upd)
qed

lemma handle_frame [simp]:
  "handle (w\<lparr>heap := H\<rparr>) = handle w" "handle (w\<lparr>threads := T\<rparr>) = handle w" "handle (w\<lparr>detached := D\<rparr>) = handle w"
  "handle (w\<lparr>deferred := D\<rparr>) = handle w" "handle (w\<lparr>called := k\<rparr>) = handle w"
  by (simp_all add: fun_eq_iff handle_def)

section \<open>The invariants are kept\<close>

definition threading_inv :: "('o, 'm, 'a) threading \<Rightarrow> bool" where
  "threading_inv w \<longleftrightarrow> heap_inv w \<and> handles_inv w \<and> deferred_inv w \<and> calls_inv w"

lemma threading_inv_new: "threading_inv (threading_new :: ('o, 'm, 'a) threading)"
proof -
  let ?w = "threading_new :: ('o, 'm, 'a) threading"
  have "owner ?w = Map.empty" "pending ?w = Map.empty" "content (heap ?w) = Map.empty" "handle ?w = Map.empty"
    by (auto intro!: sum_fun_eqI simp: threading_new_def content_def handle_def)
  then show ?thesis
    unfolding threading_inv_def heap_inv_def handles_inv_def deferred_inv_def calls_inv_def
    by (simp add: calls_of_def injective_def) (simp add: threading_new_def)
qed

lemma method_thread_inv:
  assumes "threading_inv w" and "parents w c = None" and "heap w l = None"
  shows "threading_inv (method_thread c r d l w)" (is "threading_inv ?w")
proof -
  from assms(1) have inv: "heap_inv w" "handles_inv w" "deferred_inv w" "calls_inv w" by (simp_all add: threading_inv_def)
  note changes = method_thread_changes [OF inv(1) assms(2,3), of r d]
  have "l \<notin> dom (heap w)" using assms(3) by auto
  then have new: "l \<notin> ran (owner w)" "owner w (Inl c) = None" "pending w (Inl c) = None"
    using inv(1) assms(2) by (simp_all add: heap_inv_def)
  have "heap_inv ?w" unfolding heap_inv_def changes
  proof (intro conjI)
    show "injective ((owner w)(Inl c \<mapsto> l))" using inv(1) new(1) by (intro injective_insert) (simp_all add: heap_inv_def)
    show "dom ((content (heap w))(l \<mapsto> meant r)) = ran ((owner w)(Inl c \<mapsto> l))"
      "dom (heap ?w) = ran ((owner w)(Inl c \<mapsto> l))"
      using inv(1) new(2) by (simp_all add: heap_inv_def method_thread_def)
  qed
  moreover have "handles_inv ?w" using inv(2) unfolding handles_inv_def changes by (simp add: method_thread_def)
  moreover have "deferred_inv ?w" using inv(3) by (simp add: deferred_inv_def method_thread_def)
  moreover have "calls_inv ?w"
    using inv(4) new(3) unfolding calls_inv_def changes by (simp add: calls_of_insert method_thread_def)
  ultimately show ?thesis by (simp add: threading_inv_def)
qed

lemma parent_create_inv:
  assumes "threading_inv w" and "parents w c = Some (Creating l d)" and "threads w th = None"
  shows "threading_inv (parent_create c l d (Some th) w)" (is "threading_inv ?w")
proof -
  from assms(1) have inv: "heap_inv w" "handles_inv w" "deferred_inv w" "calls_inv w" by (simp_all add: threading_inv_def)
  note changes = parent_create_changes [OF assms(2,3)]
  have own: "owner w (Inl c) = Some l" "owner w (Inr th) = None" "pending w (Inr th) = None" using assms(2,3) by simp_all
  note [simp] = parent_create_def
  have "heap_inv ?w" using inv(1) injective_move [of "owner w", OF _ own(1,2)] unfolding heap_inv_def changes by simp
  moreover have "handles_inv ?w" unfolding handles_inv_def changes
  proof (intro conjI)
    have "th \<notin> ran (handle w)" using inv(2) assms(3) by (auto simp: handles_inv_def)
    then show "injective ((handle w)(c \<mapsto> th))" using inv(2) by (intro injective_insert) (simp_all add: handles_inv_def)
    show "ran ((handle w)(c \<mapsto> th)) \<subseteq> dom (threads ?w) - detached ?w" "detached ?w \<subseteq> dom (threads ?w)"
      using inv(2) assms(2,3) by (auto simp: handles_inv_def handle_def)
  qed
  moreover have "deferred_inv ?w" using inv(3) by (simp add: deferred_inv_def)
  moreover have "calls_inv ?w"
  proof -
    have "finite (dom (pending w))" using inv(4) by (simp add: calls_inv_def)
    from calls_of_move [OF this own(3), of "Inl c"] this inv(4) show ?thesis
      unfolding calls_inv_def changes by (cases "pending w (Inl c)") simp_all
  qed
  ultimately show ?thesis by (simp add: threading_inv_def)
qed

text \<open>Steps that neither touch the heap nor make a call.\<close>

lemma quiet_inv:
  assumes "threading_inv w" and "owner w' = owner w" and "pending w' = pending w" and "heap w' = heap w"
    and "called w' = called w" and "asked w' = asked w" and "handles_inv w'" and "deferred_inv w'"
  shows "threading_inv w'"
  using assms by (simp add: threading_inv_def heap_inv_def calls_inv_def)

lemma parent_detach_inv:
  assumes "threading_inv w" and "parents w c = Some (Created th d)"
  shows "\<exists>w'. parent_detach c th d w = Inr w' \<and> threading_inv w'"
proof -
  from assms(1) have inv: "handles_inv w" "deferred_inv w" by (simp_all add: threading_inv_def)
  have th: "handle w c = Some th" using assms(2) by (simp add: handle_def)
  with inv(1) have live: "threads w th \<noteq> None" "th \<notin> detached w" by (auto simp: handles_inv_def dest: ranI)
  let ?P = "(parents w)(c \<mapsto> Returned th d)"
  have frame: "owner (w\<lparr>parents := ?P\<rparr>) = owner w" "pending (w\<lparr>parents := ?P\<rparr>) = pending w"
    using assms(2) by (auto intro!: sum_fun_eqI)
  show ?thesis
  proof (cases d)
    case False
    then have "handle (w\<lparr>parents := ?P\<rparr>) = handle w" using assms(2) by (auto simp: fun_eq_iff handle_def)
    with inv have "handles_inv (w\<lparr>parents := ?P\<rparr>)" "deferred_inv (w\<lparr>parents := ?P\<rparr>)"
      by (simp_all add: handles_inv_def deferred_inv_def)
    with False quiet_inv [OF assms(1) frame] show ?thesis by (simp add: parent_detach_def)
  next
    case True
    then have handle: "handle (w\<lparr>parents := ?P, threads := T, detached := D\<rparr>) = (handle w)(c := None)" for T D
      using assms(2) by (auto simp: fun_eq_iff handle_def)
    have ran: "ran ((handle w)(c := None)) \<subseteq> dom (threads w) - detached w - {th}" "injective ((handle w)(c := None))"
      using inv(1) ran_delete [of "handle w", OF _ th] injective_delete [of "handle w" c] by (auto simp: handles_inv_def)
    have kept: "threading_inv (w\<lparr>parents := ?P, threads := (threads w)(th := t), detached := D\<rparr>)" (is "threading_inv ?w")
      if t: "t = threads w th \<and> D = insert th (detached w) \<or> t = None \<and> threads w th = Some Ended \<and> D = detached w" for t D
    proof (rule quiet_inv [OF assms(1)])
      show "owner ?w = owner w" "pending ?w = pending w" using assms(2) t by (auto intro!: sum_fun_eqI)
      show "handles_inv ?w" unfolding handles_inv_def handle using inv(1) ran live t by (auto simp: handles_inv_def)
      show "deferred_inv ?w" using inv(2) t by (auto simp: deferred_inv_def dest: sym)
    qed simp_all
    from True live kept [of None "detached w"] kept [of "threads w th" "insert th (detached w)"] show ?thesis
      by (cases "threads w th"; cases "the (threads w th)")
        (simp_all add: parent_detach_def pthread_detach_def fun_upd_idem Let_def)
  qed
qed

text \<open>A step of a new thread.\<close>

lemma goto_child_handles:
  assumes "handles_inv w" and "threads w th = Some q"
  shows "handles_inv (goto_child th q' w)"
proof -
  have "dom (threads (goto_child th q' w)) = dom (threads w)" "handle (goto_child th q' w) = handle w"
    using assms(2) by (auto simp: goto_child_def)
  with assms(1) show ?thesis by (simp add: handles_inv_def goto_child_def)
qed

lemma deferredD: "deferred_inv w \<Longrightarrow> threads w th = Some q \<Longrightarrow> \<not> cancellable q \<Longrightarrow> th \<in> deferred w"
  by (auto simp: deferred_inv_def)

lemma goto_child_deferred: "deferred_inv w \<Longrightarrow> cancellable q \<or> th \<in> deferred w \<Longrightarrow> deferred_inv (goto_child th q w)"
  by (simp add: deferred_inv_def goto_child_def)

lemma yyy_inv:
  assumes "threading_inv w" and "threads w th = Some q"
  shows "\<exists>w'. yyy th q w = Inr w' \<and> threading_inv w'"
proof -
  from assms(1) have inv: "heap_inv w" "handles_inv w" "deferred_inv w" "calls_inv w" by (simp_all add: threading_inv_def)
  note handles = goto_child_handles [OF inv(2) assms(2)] and deferred = goto_child_deferred [OF inv(3)]
  show ?thesis
  proof (cases q)
    case (Entered l)
    with heap_owner [OF inv(1), of "Inr th" l] assms(2) obtain y k where
      y: "heap w l = Some y" "unpacked y = Inr k" "content (heap w) l = Some k" by auto
    have "threading_inv (goto_child th (Unpacked l k) w)"
      using assms(2) Entered y(3) handles deferred
      by (intro quiet_inv [OF assms(1) child_changes [OF assms(2)]]) (simp_all add: goto_child_def)
    with Entered y show ?thesis by simp
  next
    case (Unpacked l k)
    let ?w = "w\<lparr>heap := (heap w)(l := None)\<rparr>"
    have own: "owner w (Inr th) = Some l" using assms(2) Unpacked by simp
    note changes = delete_changes [OF inv(1) assms(2) [unfolded Unpacked]]
    have "heap_inv (goto_child th (Deleted k) ?w)"
      using inv(1) ran_delete [of "owner w", OF _ own] injective_delete [of "owner w" "Inr th"]
      unfolding heap_inv_def changes by (simp add: goto_child_def content_upd)
    moreover have "handles_inv ?w" "deferred_inv ?w" using inv(2,3) by (simp_all add: handles_inv_def deferred_inv_def)
    ultimately have "threading_inv (goto_child th (Deleted k) ?w)"
      using inv(4) goto_child_handles [of ?w th q "Deleted k"] goto_child_deferred [of ?w "Deleted k" th] assms(2)
      unfolding threading_inv_def calls_inv_def changes by (simp add: goto_child_def)
    moreover obtain y where "heap w l = Some y" using heap_owner [OF inv(1) own] by blast
    ultimately show ?thesis using Unpacked by simp
  next
    case (Deleted k)
    let ?w = "method_thread_child th w"
    have "owner (goto_child th (Prepared k) ?w) = owner w" "pending (goto_child th (Prepared k) ?w) = pending w"
      using assms(2) Deleted by (auto intro!: sum_fun_eqI simp: goto_child_def method_thread_child_def)
    moreover have "handles_inv ?w" "deferred_inv ?w"
      using inv(2,3) by (auto simp: handles_inv_def deferred_inv_def method_thread_child_def)
    ultimately have "threading_inv (goto_child th (Prepared k) ?w)"
      using goto_child_handles [of ?w th q] goto_child_deferred [of ?w _ th] assms(2)
      by (intro quiet_inv [OF assms(1)]) (simp_all add: goto_child_def method_thread_child_def)
    with Deleted show ?thesis by simp
  next
    case (Prepared k)
    let ?w = "goto_child th In_method (w\<lparr>called := called w @ [k]\<rparr>)"
    have own: "pending w (Inr th) = Some k" "th \<in> deferred w"
      using deferredD [OF inv(3) assms(2)] assms(2) Prepared by simp_all
    have changes: "owner ?w = owner w" "pending ?w = (pending w)(Inr th := None)"
      using assms(2) Prepared by (auto intro!: sum_fun_eqI simp: goto_child_def)
    have "calls_inv ?w"
      using inv(4) calls_of_delete [of "pending w", OF _ own(1)] unfolding calls_inv_def changes by (simp add: goto_child_def)
    moreover have "heap_inv ?w" using inv(1) unfolding heap_inv_def changes by (simp add: goto_child_def)
    moreover have "handles_inv ?w" "deferred_inv ?w"
      using handles [of In_method] deferred [of In_method th] own(2)
      by (simp_all add: handles_inv_def deferred_inv_def goto_child_def)
    ultimately show ?thesis using Prepared by (simp add: threading_inv_def)
  next
    case In_method
    let ?w = "w\<lparr>threads := (threads w)(th := None), detached := detached w - {th}\<rparr>"
    have "threading_inv (goto_child th Ended w)"
      using assms(2) In_method handles deferred
      by (intro quiet_inv [OF assms(1) child_changes [OF assms(2)]]) (simp_all add: goto_child_def)
    moreover have "threading_inv ?w" if "th \<in> detached w"
    proof (rule quiet_inv [OF assms(1)])
      show "owner ?w = owner w" "pending ?w = pending w" using assms(2) In_method by (auto intro!: sum_fun_eqI)
      from inv(2) that show "handles_inv ?w" by (auto simp: handles_inv_def)
      show "deferred_inv ?w" using inv(3) by (simp add: deferred_inv_def)
    qed simp_all
    ultimately show ?thesis using In_method by simp
  qed (simp add: assms(1))
qed

text \<open>The caller after the return.\<close>

lemma forget_inv:
  assumes "threading_inv w" and "parents w c = Some (Returned th d)"
    and "d \<and> T = threads w \<or> \<not> d \<and> threads w th = Some Ended \<and> T = (threads w)(th := None)"
  shows "threading_inv (w\<lparr>threads := T, parents := (parents w)(c := None)\<rparr>)" (is "threading_inv ?w")
proof (rule quiet_inv [OF assms(1)])
  from assms(1) have inv: "handles_inv w" "deferred_inv w" by (simp_all add: threading_inv_def)
  show "owner ?w = owner w" "pending ?w = pending w" using assms(2,3) by (auto intro!: sum_fun_eqI)
  show "deferred_inv ?w" using inv(2) assms(3) by (cases d) (simp_all add: deferred_inv_def)
  show "handles_inv ?w"
  proof (cases d)
    case True
    then have "handle ?w = handle w" using assms(2) by (auto simp: fun_eq_iff handle_def)
    with inv(1) True assms(3) show ?thesis by (simp add: handles_inv_def)
  next
    case False
    then have handle: "handle ?w = (handle w)(c := None)" and th: "handle w c = Some th"
      using assms(2) by (auto simp: fun_eq_iff handle_def)
    from th have "th \<in> ran (handle w)" by (rule ranI)
    with inv(1) False assms(3) ran_delete [of "handle w", OF _ th] injective_delete [of "handle w" c] show ?thesis
      unfolding handles_inv_def handle by auto
  qed
qed simp_all

lemma join_inv:
  assumes "threading_inv w"
  shows "\<exists>w'. thread_exec (Join c) w = Inr w' \<and> threading_inv w'"
proof (cases "\<exists>th d. parents w c = Some (Returned th d) \<and> \<not> halted w")
  case True
  then obtain th d where c: "parents w c = Some (Returned th d)" "\<not> halted w" by blast
  note forget = forget_inv [OF assms c(1)]
  show ?thesis
  proof (cases d)
    case True
    with forget [of "threads w"] c show ?thesis by simp
  next
    case False
    with c(1) have "handle w c = Some th" by (simp add: handle_def)
    with assms have "th \<in> dom (threads w)" by (auto simp: threading_inv_def handles_inv_def dest: ranI)
    then obtain q where q: "threads w th = Some q" by blast
    with forget [of "(threads w)(th := None)"] c False assms show ?thesis by (cases q) simp_all
  qed
next
  case False
  with assms show ?thesis by (cases "parents w c"; cases "the (parents w c)") auto
qed

lemma halt_inv:
  assumes "threading_inv w"
  shows "threading_inv (w\<lparr>halted := True\<rparr>)" (is "threading_inv ?w")
proof (rule quiet_inv [OF assms])
  show "owner ?w = owner w" "pending ?w = pending w" by (auto intro!: sum_fun_eqI)
  have "handle ?w = handle w" by (simp add: fun_eq_iff handle_def)
  with assms show "handles_inv ?w" "deferred_inv ?w" by (simp_all add: threading_inv_def handles_inv_def deferred_inv_def)
qed simp_all

lemma thread_exec_inv:
  assumes "threading_inv w"
  shows "\<exists>w'. thread_exec e w = Inr w' \<and> threading_inv w'"
proof (cases e)
  case (Call c r d l)
  with method_thread_inv [OF assms] assms show ?thesis by auto
next
  case (Create c th)
  with parent_create_inv [OF assms] halt_inv [OF assms] assms show ?thesis
    by (auto simp: parent_create_def split: option.splits parent.splits)
next
  case (Detach c)
  with parent_detach_inv [OF assms] assms show ?thesis by (auto split: option.splits parent.splits)
next
  case (Child th)
  with yyy_inv [OF assms] assms show ?thesis by (auto split: option.splits)
qed (simp only: join_inv [OF assms])

lemma thread_run_inv:
  assumes "threading_inv w"
  shows "\<exists>w'. run_events thread_exec es w = Inr w' \<and> threading_inv w'"
  using assms
proof (induction es arbitrary: w)
  case (Cons e es)
  from thread_exec_inv [OF Cons.prems] obtain w' where "thread_exec e w = Inr w'" "threading_inv w'" by blast
  with Cons.IH show ?case by simp
qed simp

section \<open>Each method is called once\<close>

text \<open>No thread is on its way to the method it has to call.\<close>

definition settled :: "('o, 'm, 'a) threading \<Rightarrow> bool" where
  "settled w \<longleftrightarrow> (\<forall>c l d. parents w c \<noteq> Some (Creating l d)) \<and>
     (\<forall>th q. threads w th = Some q \<longrightarrow> q = In_method \<or> q = Ended)"

lemma settled_empty:
  assumes "settled w"
  shows "owner w = Map.empty" and "pending w = Map.empty"
proof -
  have "parent_object (parents w c) = None \<and> parent_call (heap w) (parents w c) = None" for c
    using assms by (cases "parents w c"; cases "the (parents w c)") (auto simp: settled_def)
  moreover have "child_object (threads w th) = None \<and> child_call (heap w) (threads w th) = None" for th
    using assms by (cases "threads w th"; cases "the (threads w th)") (auto simp: settled_def)
  ultimately show "owner w = Map.empty" and "pending w = Map.empty" by (auto intro!: sum_fun_eqI)
qed

text \<open>A new thread does not wait for anyone: four steps of its own lead to the call of its method.\<close>

lemma child_calls_method:
  assumes "threading_inv w" and "\<not> halted w" and "threads w th = Some (Entered l)"
  shows "\<exists>k w'. content (heap w) l = Some k \<and>
    run_events thread_exec (replicate 4 (Child th)) w = Inr w' \<and> called w' = called w @ [k]"
proof -
  from assms(1) have "heap_inv w" by (simp add: threading_inv_def)
  from heap_owner [OF this, of "Inr th" l] assms(3) obtain y k where
    "heap w l = Some y" "unpacked y = Inr k" "content (heap w) l = Some k" by auto
  with assms(2,3) show ?thesis by (cases k) (simp add: eval_nat_numeral goto_child_def method_thread_child_def)
qed

text \<open>
  C18. Threads run the methods they were created for. In every interleaving of any number of calls of
  \<^verbatim>\<open>method_thread\<close> with the threads they create, where addresses and thread numbers are used again, no
  assertion fails and no deleted object is used; the methods called are among those asked for, each with
  its object and its arguments and no more often than asked, and cannot be cancelled. When no thread is
  on its way to its method, each of them has been called as often as asked, and every object that
  carried a call has been deleted.
\<close>

theorem method_thread_calls_once:
  "\<exists>w. run_events thread_exec es threading_new = Inr w \<and>
     mset (called w) \<subseteq># image_mset meant (mset (asked w)) \<and>
     (\<forall>th. threads w th = Some In_method \<longrightarrow> th \<in> deferred w) \<and>
     (settled w \<longrightarrow> mset (called w) = image_mset meant (mset (asked w)) \<and> heap w = Map.empty)"
proof -
  obtain w where w: "run_events thread_exec es threading_new = Inr w" "threading_inv w"
    using thread_run_inv [OF threading_inv_new] by blast
  then have inv: "heap_inv w" "deferred_inv w" "mset (called w) + calls_of (pending w) = image_mset meant (mset (asked w))"
    by (simp_all add: threading_inv_def calls_inv_def)
  from inv(3) have "mset (called w) \<subseteq># image_mset meant (mset (asked w))" by (metis mset_subset_eq_add_left)
  moreover have "\<forall>th. threads w th = Some In_method \<longrightarrow> th \<in> deferred w" using deferredD [OF inv(2)] by simp
  moreover have "mset (called w) = image_mset meant (mset (asked w)) \<and> heap w = Map.empty" if "settled w"
    using inv(1,3) settled_empty [OF that] by (simp add: calls_of_def heap_inv_def)
  ultimately show ?thesis using w(1) by blast
qed

text \<open>Two calls, the second of which gets the address of the first; one thread is detached, one is joined.\<close>

definition two_threads :: "(nat, nat, nat) thread_event list" where
  "two_threads =
     [Call 0 (Method2 7 1 3 4) True 100, Create 0 (Some 5), Child 5, Child 5,
      Call 1 (Method0 8 2) False 100, Create 1 (Some 6), Child 6, Child 6, Child 6, Child 6,
      Child 5, Child 5, Child 5, Detach 0, Join 0, Detach 1, Child 6, Join 1]"

theorem method_thread_calls_once_witness:
  "\<exists>w. run_events thread_exec two_threads threading_new = Inr w \<and> settled w \<and>
     called w = [(8, 2, []), (7, 1, [3, 4])] \<and> heap w = Map.empty \<and>
     mset (called w) = image_mset meant (mset (asked w))"
proof -
  obtain w where w: "run_events thread_exec two_threads threading_new = Inr w" "settled w"
      "called w = [(8, 2, []), (7, 1, [3, 4])]"
    by (simp add: two_threads_def threading_new_def method_thread_def parent_create_def parent_detach_def pthread_detach_def
        goto_child_def method_thread_child_def unpacked_templates settled_def Let_def)
  with method_thread_calls_once [of two_threads] show ?thesis by auto
qed

end
