(* ===== verification/Spec2Isabelle.thy ===== *)
theory Spec2Isabelle
  imports Timespec Codec Message Rpc_Stub Xid_Window Reply_Window Connection_Send Connection_Recv
    Rpc_Server_Runs Rpc_Server_Refs Rpc_Client_Runs Rpc_Client_Refs Rpc_Call Rpc_Origin
    Rpc_Timeout Rpc_Errors Rpctest Listener Thr_Pool Pollmgr Sockaddr Reading
    Lock_Server Lock_Client Lock_Tester_Ends Extent_Server Extent_Client Yfs_Client Yfs_Rpc Fuse Fuse_Rpc
    Method_Thread
begin

text \<open>
  \<^bold>\<open>YFS, a distributed file system, and the RPC system it runs on.\<close>

  \<^bold>\<open>The program.\<close> A FUSE server (\<^verbatim>\<open>src/fuse.cc\<close>) turns the requests of the kernel into calls of
  \<^verbatim>\<open>yfs_client\<close> (\<^verbatim>\<open>src/yfs_client.cc\<close>), which keeps files and directories as extents. The extents are on a
  server of their own (\<^verbatim>\<open>src/extent_server.cc\<close>), reached through the stubs of \<^verbatim>\<open>src/extent_client.cc\<close>; a lock
  server (\<^verbatim>\<open>src/lock_server.cc\<close>) has stubs of the same kind (\<^verbatim>\<open>src/lock_client.cc\<close>). Both services are built
  on the RPC library under \<^verbatim>\<open>src/rpc\<close>: a client \<^verbatim>\<open>rpcc\<close> and a server \<^verbatim>\<open>rpcs\<close> (\<^verbatim>\<open>rpc.cc\<close>, \<^verbatim>\<open>rpc.h\<close>) with
  retransmission and at most once semantics, marshalling (\<^verbatim>\<open>marshall.h\<close>), connections that cut a byte
  stream into messages (\<^verbatim>\<open>connection.cc\<close>), an event loop that calls them back (\<^verbatim>\<open>pollmgr.cc\<close>) and a pool of
  threads that runs the handlers (\<^verbatim>\<open>thr_pool.cc\<close>, \<^verbatim>\<open>fifo.h\<close>).

  \<^bold>\<open>How it is modelled.\<close> An object is a record of its fields, a method a function from states to states.
  Every failing assertion, null pointer, access out of bounds or to a deleted object and every
  overflow of an \<^verbatim>\<open>int\<close> is an error of the result type \<open>res\<close> of the theory \<open>Prelude\<close>. Machine
  integers are words of their width where the code computes with them; the fields of \<^verbatim>\<open>timespec\<close> and the
  indices of buffers are integers, with the range of \<^verbatim>\<open>int\<close> checked where the code can leave it. A buffer
  is a list of bytes that may not have been written yet. Where several threads run the same code, the
  code is cut at the points where it takes or gives up a mutex or waits, each piece is a step, and the
  executions are all sequences of steps of any number of threads, including wake-ups without a reason.
  What the system gives (the results of \<^verbatim>\<open>read\<close>, \<^verbatim>\<open>write\<close>, \<^verbatim>\<open>select\<close>, \<^verbatim>\<open>accept\<close> and \<^verbatim>\<open>connect\<close>, the clock, random
  numbers, the names the resolver knows) and the values of variables that the code does not initialise are
  arguments.

  \<^bold>\<open>The theories.\<close>

  \<^item> \<open>Prelude\<close>: results with errors, runs of events, ranges of integers, facts on lists.

  \<^item> \<open>Timespec\<close>: \<^verbatim>\<open>add_timespec\<close>, \<^verbatim>\<open>cmp_timespec\<close> and \<^verbatim>\<open>diff_timespec\<close> of \<^verbatim>\<open>rpc.cc\<close>. Addition is exact and
    leaves a time that is not normal in one case, which is characterised.

  \<^item> \<open>Marshall\<close>, \<open>Codec\<close>, \<open>Message\<close>, \<open>Reading\<close>: the classes \<^verbatim>\<open>marshall\<close> and \<^verbatim>\<open>unmarshall\<close> with their
    buffers, the operators, the vector and map templates and the two headers. The contract between
    \<^verbatim>\<open>operator<<\<close> and \<^verbatim>\<open>operator>>\<close> of a type is the locale \<open>wire_codec\<close> (\<open>strict_codec\<close> when a
    successful read has read an encoding), interpreted for integers and strings and lifted to pairs,
    vectors and maps. Reading arbitrary bytes keeps the state well formed, apart from one wrap-around.

  \<^item> \<open>Rpc_Stub\<close>: the handler objects and the call templates of \<^verbatim>\<open>rpc.h\<close> for up to seven arguments.

  \<^item> \<open>Xid_Window\<close>, \<open>Rpc_Client\<close>, \<open>Rpc_Client_Runs\<close>, \<open>Rpc_Client_Refs\<close>, \<open>Rpc_Timeout\<close>: class \<^verbatim>\<open>rpcc\<close>. The
    window of received replies refines a set; in all executions a call gets its own reply or a timeout, uses no
    deleted object and goes through its loop a number of times that is logarithmic in its timeout.

  \<^item> \<open>Reply_Window\<close>, \<open>Rpc_Server\<close>, \<open>Rpc_Server_Runs\<close>, \<open>Rpc_Server_Refs\<close>: class \<^verbatim>\<open>rpcs\<close>. The duplicate check
    and the dispatcher, the refinement of the interleaved dispatcher to the window, at most one run of a
    handler until the request is acknowledged (and another run when a duplicate arrives after that), and no
    use of deleted connections.

  \<^item> \<open>Rpc_Call\<close>, \<open>Rpc_Errors\<close>, \<open>Rpctest\<close>: one call composed of the steps of client and server over a
    network without loss (the locale \<open>remote_method\<close>, interpreted for every method used), \<^verbatim>\<open>bind\<close>, calls
    that fail, a channel that has died, a server that cannot be reached (with the clock as part of the
    world), and the test program \<^verbatim>\<open>rpctest.cc\<close> as a client of all this.

  \<^item> \<open>Rpc_Origin\<close>: client and server with all their interleavings and a network that loses, delays, duplicates
    and reorders. No message acknowledges a call that waits; what a call returns, unless it is a timeout
    or a refusal, was computed by the handler of its procedure from its own arguments.

  \<^item> \<open>Connection\<close>, \<open>Connection_Send\<close>, \<open>Connection_Recv\<close>, \<open>Conn_Refs\<close>, \<open>Listener\<close>: \<^verbatim>\<open>connection.cc\<close>. Frames of
    several senders never mix, the only fault of the sending side is an assertion of \<^verbatim>\<open>write_cb\<close>, the
    reader gives back exactly the messages sent however the stream is cut and gives the connection up when
    a size field is split, and the listener with its one iterator error and its destructor.

  \<^item> \<open>Aio\<close>, \<open>Pollmgr\<close>: \<^verbatim>\<open>pollmgr.cc\<close>. The interface \<^verbatim>\<open>aio_mgr\<close> is the locale \<open>aio_mgr\<close>, interpreted on
    \<^verbatim>\<open>SelectAIO\<close> and \<^verbatim>\<open>EPollAIO\<close>; \<^verbatim>\<open>block_remove_fd\<close> keeps its promise in all interleavings with the loop
    in which its wait does not end spuriously; a spurious wake-up breaks it.

  \<^item> \<open>Thr_Pool\<close>: \<^verbatim>\<open>fifo.h\<close> and \<^verbatim>\<open>thr_pool.cc\<close>. Jobs are run in order, no wake-up is lost, the destructor
    terminates and drains the queue.

  \<^item> \<open>Method_Thread\<close>: \<^verbatim>\<open>method_thread.h\<close>. In all interleavings of callers and new threads each thread calls its
    method once with its arguments, and the object that carries the call is deleted once and not used
    afterwards.

  \<^item> \<open>Sockaddr\<close>: \<^verbatim>\<open>make_sockaddr\<close> and the order of addresses.

  \<^item> \<open>Lock_Server\<close>, \<open>Lock_Client\<close>: the lock service, its handlers interleaved (mutual exclusion and no deadlock
    for locks that exist, and the race in the creation of a lock, by which any number of threads can be
    granted a new lock) and, for handlers one after the other, over RPC.

  \<^item> \<open>Lock_Tester\<close>, \<open>Lock_Tester_Ends\<close>: the program \<^verbatim>\<open>lock_tester.cc\<close>, its threads interleaved with the handlers of
    the lock server, which run in a pool of bounded size. Its checks pass and it ends; with fewer threads
    in the pool than in the tester it may block, and its later tests may fail when they are run alone.

  \<^item> \<open>Extent_Server\<close>, \<open>Extent_Client\<close>: the extent service refines a map, directly and over RPC. What the file
    system needs of it is the locale \<open>extent_store\<close>, interpreted on the server.

  \<^item> \<open>Yfs_Client\<close>, \<open>Fuse\<close>: directories as text, files, and the handlers of the FUSE server, over any extent
    store: creating, looking up, listing, writing, reading, resizing, and the number of replies.

  \<^item> \<open>Yfs_Rpc\<close>: the file system client over RPC. A store that takes a bounded number of requests is the locale
    \<open>bounded_store\<close> of \<open>Yfs_Client\<close>, which \<open>extent_store\<close> implies and which is interpreted here on the
    extent client, the RPC layer and the extent server together. \<open>Fuse_Rpc\<close> puts the FUSE server on top.

  \<^item> This theory: at most once from the client to the handler, for any network.

  \<^bold>\<open>Bounds.\<close> Messages are shorter than \<open>msg_limit\<close>, a gigabyte, so that the doubling of a buffer stays
  in the range of \<^verbatim>\<open>int\<close>; \<^verbatim>\<open>MAX_PDU\<close> is a hundredth of it. Call numbers do not wrap around in the theorems
  that compare them: a client makes less than four billion calls. A dispatched message needs at most
  eight steps (\<open>dispatch_finishes\<close>), a handler of the lock server that does not wait at most six. The
  loop of \<^verbatim>\<open>call1\<close> is bounded by \<open>doublings\<close> of its timeout; the delays given to \<open>unanswered\<close>
  are its fuel, and two more than \<open>doublings\<close> are enough (\<open>unanswered_times_out\<close>). The lock
  tester with \<open>nt\<close> threads takes at most \<open>436 + 385 * nt\<close> steps and two more for each wake-up without a
  reason; \<open>nt\<close> and the size of the pool are ten in the code and parameters of the theorems.

  \<^bold>\<open>Not modelled.\<close> The scoped lock (\<^verbatim>\<open>slock.h\<close>), whose effect is the extent of a step; logging
  (\<^verbatim>\<open>jsl_log.cc\<close>) and output; the clock for macOS (\<^verbatim>\<open>gettime.cc\<close>), a wrapper around system calls; \<^verbatim>\<open>main\<close> of
  the servers and of \<^verbatim>\<open>rpctest\<close> beyond the registration of handlers, which parses arguments and sets up
  libfuse; the interleaving of the threads of \<^verbatim>\<open>rpctest\<close>, whose bodies are modelled; the statistics the
  server prints. The lock tester reaches the handlers of the lock server without the RPC layer between
  them, whose calls are the subject of \<open>Lock_Client\<close>. Data races inside one step, such as two threads in
  the map of the extent server at once, are outside of the model: the steps of the extent server are its
  whole methods.
\<close>

section \<open>Properties of the composition\<close>

text \<open>
  C3. At most once, from the client to the handler. While a call of a client is waiting for its reply, a
  server that receives messages of this client, each of them any number of times, in any order and on
  any connections, and messages of clients with other nonces, has run the handler of this call at most
  once.
\<close>

theorem rpc_at_most_once_end_to_end:
  assumes "run_events client_exec ces (cworld_new (rpcc_new True n)) = Inr w"
    and "length (requests w) + 1 < 2 ^ 32" and "arguments_ok ces" and "n \<noteq> 0"
    and "callers (cl w) t = Some ca" and "\<not> ca_done ca"
    and "fresh s" and "sent s = []" and "run_events server_exec ses (sworld_new s) = Inr v"
    and "\<forall>c b sz succ. Deliver c b sz succ \<in> set ses \<longrightarrow> arrives (csent (cl w)) b sz \<or>
      (\<forall>h u. unpack_req_header (unmarshall_new b sz) = Inr (h, u) \<longrightarrow> rq_clt_nonce h \<noteq> n)"
  shows "count_list (handled_runs v) (n, ca_xid ca) \<le> 1"
proof -
  have "r < ca_xid ca" if req: "Request n x r \<in> set (trace v)" for x r
  proof -
    obtain c b sz succ h u where d: "Deliver c b sz succ \<in> set ses" "unpack_req_header (unmarshall_new b sz) = Inr (h, u)"
        "n = rq_clt_nonce h" "r = rq_xid_rep h"
      using request_given [OF assms(7-9) req] by blast
    with assms(10) have "arrives (csent (cl w)) b sz" by blast
    from message_not_acknowledging [OF assms(1-3,5,6) this] d(2,4) show ?thesis by auto
  qed
  then have "unacked n (ca_xid ca) (trace v)" by (auto simp: unacked_def)
  with run_sim [OF assms(7,9)] assms(4) show ?thesis by (rule runs_once)
qed

theorem rpc_at_most_once_end_to_end_witness:
  "\<exists>w ca v. run_events client_exec (take 3 one_call) (cworld_new (rpcc_new True 7)) = Inr w \<and>
    callers (cl w) 0 = Some ca \<and> ca_xid ca = 1 \<and>
    run_events server_exec duplicate_run (sworld_new counter_server) = Inr v \<and>
    count_list (handled_runs v) (7, ca_xid ca) \<le> 1"
proof -
  obtain w ca where w: "run_events client_exec (take 3 one_call) (cworld_new (rpcc_new True 7)) = Inr w"
      "length (requests w) = 1" "\<exists>e \<in> set (csent (cl w)). carried (wire_of (snd e)) (request 5 1)"
      "callers (cl w) 0 = Some ca" "ca_xid ca = 1" "\<not> ca_done ca"
    using waiting_result by (auto split: sum.splits)
  obtain v where v: "run_events server_exec duplicate_run (sworld_new counter_server) = Inr v"
    using duplicate_run_result by (auto split: sum.splits)
  have "arrives (csent (cl w)) (Some (request 5 1)) 25" using arrivesI [OF w(3)] by (simp add: request_def length_be)
  then have "\<forall>c b sz succ. Deliver c b sz succ \<in> set duplicate_run \<longrightarrow> arrives (csent (cl w)) b sz"
    by (simp add: duplicate_run_def)
  moreover have "arguments_ok (take 3 one_call)" using byte_request_carries by (auto simp: arguments_ok_def one_call_def)
  moreover have "sent counter_server = []" by (simp add: counter_server_def)
  ultimately show ?thesis
    using rpc_at_most_once_end_to_end [OF w(1) _ _ _ w(4,6) counter_fresh _ v] w v by force
qed

end
